(* ===== verification/Sozu_Prelude.thy ===== *)
theory Sozu_Prelude
  imports Main "HOL-Library.Word"
begin

text \<open>
  Shared vocabulary of the development: the names of the machine types, the byte-slice and
  option helpers the components are written with, the big-endian bit view of an integer,
  and the generic lemmas that carry the component proofs.

  Rust's \<open>u8\<close> is \<open>8 word\<close>, \<open>u32\<close> is \<open>32 word\<close>. A \<open>usize\<close> that only counts
  bytes or entries is a \<open>nat\<close>; where the source relies on such a count not overflowing, the
  bound is a theorem of the component. A slice \<open>&xs[a..b]\<close> is \<open>slice xs a b\<close>; Rust
  panics when \<open>a \<le> b \<le> xs.len()\<close> fails, and the components prove that it holds.
\<close>

unbundle bit_operations_syntax

type_synonym octet = "8 word"
type_synonym bytes = "8 word list"
type_synonym u16 = "16 word"
type_synonym u32 = "32 word"
type_synonym u64 = "64 word"

named_theorems codec_simps \<open>rewriting rules that evaluate the encoders and decoders\<close>
named_theorems inv_intros \<open>each operation keeps its component's invariant\<close>

subsection \<open>Slices\<close>

definition slice :: "'a list \<Rightarrow> nat \<Rightarrow> nat \<Rightarrow> 'a list" where
  "slice xs a b = take (b - a) (drop a xs)"

lemma length_slice [simp]: "a \<le> b \<Longrightarrow> b \<le> length xs \<Longrightarrow> length (slice xs a b) = b - a"
  by (simp add: slice_def)

lemma slice_append_left [simp]: "b \<le> length xs \<Longrightarrow> slice (xs @ ys) a b = slice xs a b"
  by (cases "a \<le> b") (simp_all add: slice_def)

lemma slice_append_right:
  "length xs \<le> a \<Longrightarrow> slice (xs @ ys) a b = slice ys (a - length xs) (b - length xs)"
  by (simp add: slice_def)

lemma slice_whole [simp]: "slice xs 0 (length xs) = xs"
  by (simp add: slice_def)

lemma slice_drop: "slice (drop n xs) a b = slice xs (n + a) (n + b)"
  by (simp add: slice_def add.commute)

lemma slice_middle: "slice (xs @ ys @ zs) (length xs) (length xs + length ys) = ys"
  by (simp add: slice_def)

subsection \<open>Sequencing fallible tables\<close>

lemma those_Some_iff: "those xs = Some ys \<longleftrightarrow> xs = map Some ys"
proof (induction xs arbitrary: ys)
  case Nil
  then show ?case by auto
next
  case (Cons x xs)
  then show ?case by (cases x; cases ys) auto
qed

lemma those_map_Some_nth:
  assumes "those (map f xs) = Some ys" and "i < length xs"
  shows "f (xs ! i) = Some (ys ! i)"
proof -
  from assms(1) have eq: "map f xs = map Some ys" by (simp add: those_Some_iff)
  then have "length xs = length ys" by (rule map_eq_imp_length_eq)
  with eq assms(2) show ?thesis by (metis nth_map)
qed

lemma those_map_ex:
  assumes "\<And>x. x \<in> set xs \<Longrightarrow> \<exists>y. f x = Some y"
  shows "\<exists>ys. those (map f xs) = Some ys"
  using assms
proof (induction xs)
  case Nil
  then show ?case by simp
next
  case (Cons x xs)
  then show ?case by fastforce
qed

subsection \<open>Integers as big-endian bit lists\<close>

text \<open>\<open>bits_be n x\<close>: the \<open>n\<close> low bits of \<open>x\<close>, most significant first.\<close>

primrec bits_be :: "nat \<Rightarrow> nat \<Rightarrow> bool list" where
  "bits_be 0 x = []"
| "bits_be (Suc n) x = bit x n # bits_be n x"

definition byte_bits :: "octet \<Rightarrow> bool list" where
  "byte_bits b = bits_be 8 (unat b)"

definition bytes_bits :: "bytes \<Rightarrow> bool list" where
  "bytes_bits bs = concat (map byte_bits bs)"

lemma length_bits_be [simp]: "length (bits_be n x) = n"
  by (induction n) auto

lemma length_byte_bits [simp]: "length (byte_bits b) = 8"
  by (simp add: byte_bits_def)

lemma bytes_bits_simps [simp]:
  "bytes_bits [] = []"
  "bytes_bits (b # bs) = byte_bits b @ bytes_bits bs"
  "bytes_bits (as @ bs) = bytes_bits as @ bytes_bits bs"
  by (simp_all add: bytes_bits_def)

lemma length_bytes_bits [simp]: "length (bytes_bits bs) = 8 * length bs"
  by (induction bs) auto

lemma bits_be_cong:
  "(\<And>i. i < n \<Longrightarrow> bit x i = bit y i) \<Longrightarrow> bits_be n x = bits_be n y"
  by (induction n) auto

lemma bits_be_take_bit [simp]: "bits_be n (take_bit n x) = bits_be n x"
  by (rule bits_be_cong) (simp add: bit_take_bit_iff)

lemma bits_be_add: "bits_be (m + n) x = bits_be m (drop_bit n x) @ bits_be n x"
  by (induction m) (simp_all add: bit_drop_bit_eq add.commute)

lemma bits_be_inject: "bits_be n x = bits_be n y \<longleftrightarrow> take_bit n x = take_bit n y"
proof
  assume "bits_be n x = bits_be n y"
  then have "\<forall>i<n. bit x i = bit y i"
    by (induction n) (auto simp: less_Suc_eq)
  then show "take_bit n x = take_bit n y"
    by (auto intro!: bit_eqI simp: bit_take_bit_iff)
next
  assume "take_bit n x = take_bit n y"
  then have "bits_be n (take_bit n x) = bits_be n (take_bit n y)" by simp
  then show "bits_be n x = bits_be n y" by simp
qed

lemma bits_be_push_or:
  assumes "take_bit n b = b"
  shows "bits_be (m + n) (push_bit n a OR b) = bits_be m a @ bits_be n b"
proof -
  have hi: "\<not> bit b i" if "n \<le> i" for i
    using that assms by (metis bit_take_bit_iff not_le)
  have "bits_be m (drop_bit n (push_bit n a OR b)) = bits_be m a"
    by (rule bits_be_cong) (simp add: bit_drop_bit_eq bit_or_iff bit_push_bit_iff hi)
  moreover have "bits_be n (push_bit n a OR b) = bits_be n b"
    by (rule bits_be_cong) (simp add: bit_or_iff bit_push_bit_iff)
  ultimately show ?thesis by (simp add: bits_be_add)
qed

lemma unat_octet: "unat (b :: octet) < 256"
  by (rule order_less_le_trans [OF unsigned_less]) simp

lemma take_bit_octet: "take_bit 8 (unat (b :: octet)) = unat b"
  using unat_octet [of b] by (intro take_bit_nat_eq_self) simp

lemma byte_bits_inject [simp]: "byte_bits a = byte_bits b \<longleftrightarrow> a = b"
  by (simp add: byte_bits_def bits_be_inject take_bit_octet word_unat_eq_iff)

lemma byte_bits_of_nat: "byte_bits (of_nat x) = bits_be 8 x"
proof -
  have "x mod 256 = take_bit 8 x" by (simp add: take_bit_eq_mod)
  then show ?thesis by (simp add: byte_bits_def unat_of_nat)
qed

lemma byte_bits_nonempty [simp]: "byte_bits b \<noteq> []"
  using length_byte_bits [of b] by (metis list.size(3) zero_neq_numeral)

lemma bytes_bits_Nil_iff [simp]: "bytes_bits bs = [] \<longleftrightarrow> bs = []"
  by (cases bs) simp_all

lemma bytes_bits_inject: "bytes_bits as = bytes_bits bs \<longleftrightarrow> as = bs"
proof (induction as arbitrary: bs)
  case Nil
  then show ?case by (metis bytes_bits_Nil_iff bytes_bits_simps(1))
next
  case (Cons a as)
  show ?case
  proof (cases bs)
    case (Cons b bs')
    then show ?thesis using Cons.IH by simp
  qed simp
qed

end
