(* ===== verification/Sozu_Std.thy ===== *)
theory Sozu_Std
  imports Sozu_Prelude
begin

text \<open>
  The parts of Rust's standard library several components use: the checked and saturating
  arithmetic of \<open>i32\<close> and \<open>u32\<close>, the \<open>?\<close> operator, and the ordered map \<open>BTreeMap\<close>, modelled by an association list
  with strictly ascending keys, which is the order its iterators visit.
\<close>

subsection \<open>Bounded integers\<close>

definition i32_MIN :: int where "i32_MIN = - (2 ^ 31)"
definition i32_MAX :: int where "i32_MAX = 2 ^ 31 - 1"

definition is_i32 :: "int \<Rightarrow> bool" where
  "is_i32 x \<longleftrightarrow> i32_MIN \<le> x \<and> x \<le> i32_MAX"

definition i32_checked_add :: "int \<Rightarrow> int \<Rightarrow> int option" where
  "i32_checked_add x y = (if is_i32 (x + y) then Some (x + y) else None)"

definition i32_saturating_sub :: "int \<Rightarrow> int \<Rightarrow> int" where
  "i32_saturating_sub x y = (if x - y < i32_MIN then i32_MIN else if i32_MAX < x - y then i32_MAX else x - y)"

definition u32_saturating_add :: "u32 \<Rightarrow> u32 \<Rightarrow> u32" where
  "u32_saturating_add x y = (if unat x + unat y < 2 ^ 32 then x + y else 0xFFFFFFFF)"

lemma unat_u32_saturating_add: "unat (u32_saturating_add x y) = min (unat x + unat y) (2 ^ 32 - 1)"
proof (cases "unat x + unat y < 2 ^ 32")
  case True
  then have "unat (x + y) = unat x + unat y" by (simp add: unat_word_ariths)
  with True show ?thesis by (simp add: u32_saturating_add_def)
qed (simp add: u32_saturating_add_def)

subsection \<open>Errors\<close>

text \<open>Rust's \<open>?\<close> operator: a \<open>Result\<close> is a sum with the error on the left.\<close>

fun and_then :: "'e + 'a \<Rightarrow> ('a \<Rightarrow> 'e + 'b) \<Rightarrow> 'e + 'b" where
  "and_then (Inl e) f = Inl e"
| "and_then (Inr x) f = f x"

subsection \<open>Ordered maps\<close>

type_synonym ('k, 'v) btree_map = "('k \<times> 'v) list"

fun btree_insert :: "'k :: linorder \<Rightarrow> 'v \<Rightarrow> ('k, 'v) btree_map \<Rightarrow> ('k, 'v) btree_map" where
  "btree_insert k v [] = [(k, v)]"
| "btree_insert k v ((k', v') # m) =
     (if k < k' then (k, v) # (k', v') # m
      else if k = k' then (k, v) # m
      else (k', v') # btree_insert k v m)"

definition btree_remove :: "'k \<Rightarrow> ('k, 'v) btree_map \<Rightarrow> ('k, 'v) btree_map" where
  "btree_remove k m = filter (\<lambda>e. fst e \<noteq> k) m"

abbreviation btree_get :: "('k, 'v) btree_map \<Rightarrow> 'k \<Rightarrow> 'v option" where
  "btree_get m k \<equiv> map_of m k"

definition btree_ok :: "('k :: linorder, 'v) btree_map \<Rightarrow> bool" where
  "btree_ok m \<longleftrightarrow> sorted_wrt (<) (map fst m)"

lemma btree_ok_Nil [simp]: "btree_ok []"
  by (simp add: btree_ok_def)

lemma btree_insert_set: "fst ` set (btree_insert k v m) = insert k (fst ` set m)"
  by (induction k v m rule: btree_insert.induct) auto

lemma btree_insert_ok: "btree_ok m \<Longrightarrow> btree_ok (btree_insert k v m)"
proof (induction k v m rule: btree_insert.induct)
  case (2 k v k' v' m)
  then show ?case using btree_insert_set [of k v m]
    by (auto simp: btree_ok_def dest: less_trans)
qed (simp add: btree_ok_def)

lemma btree_insert_get:
  "btree_ok m \<Longrightarrow> btree_get (btree_insert k v m) = (btree_get m)(k \<mapsto> v)"
  by (induction k v m rule: btree_insert.induct) (auto simp: btree_ok_def fun_eq_iff)

lemma btree_remove_ok: "btree_ok m \<Longrightarrow> btree_ok (btree_remove k m)"
  by (induction m) (auto simp: btree_ok_def btree_remove_def)

lemma btree_remove_get: "btree_get (btree_remove k m) = (btree_get m)(k := None)"
  by (induction m) (auto simp: btree_remove_def fun_eq_iff)

lemma btree_insert_length:
  "btree_ok m \<Longrightarrow> length (btree_insert k v m) = (if k \<in> fst ` set m then length m else Suc (length m))"
  by (induction k v m rule: btree_insert.induct) (auto simp: btree_ok_def)

lemma btree_insert_values: "snd ` set (btree_insert k v m) \<subseteq> insert v (snd ` set m)"
  by (induction k v m rule: btree_insert.induct) auto

lemma btree_ok_distinct: "btree_ok m \<Longrightarrow> distinct (map fst m)"
  by (simp add: btree_ok_def strict_sorted_iff)

text \<open>Removing the first keys of the iteration order drops the first entries.\<close>

lemma btree_remove_prefix:
  assumes "btree_ok (xs @ ys)"
  shows "foldl (\<lambda>m k. btree_remove k m) (xs @ ys) (map fst xs) = ys"
  using assms
proof (induction xs)
  case (Cons x xs)
  have "fst x \<notin> fst ` set (xs @ ys)"
    using btree_ok_distinct [OF Cons.prems] by auto
  then have "filter (\<lambda>e. fst e \<noteq> fst x) (xs @ ys) = xs @ ys" by (intro filter_True ballI) (metis imageI)
  then have "btree_remove (fst x) ((x # xs) @ ys) = xs @ ys" by (simp add: btree_remove_def)
  moreover have "btree_ok (xs @ ys)" using Cons.prems by (simp add: btree_ok_def)
  ultimately show ?case using Cons.IH by simp
qed simp

subsection \<open>The interface of an ordered map\<close>

text \<open>
  What the components rely on: insertion and removal act pointwise on lookups, and the visible
  order is ascending. The laws give the facts the components use.
\<close>

locale ordered_map =
  fixes insert :: "'k :: linorder \<Rightarrow> 'v \<Rightarrow> 'm \<Rightarrow> 'm"
    and remove :: "'k \<Rightarrow> 'm \<Rightarrow> 'm"
    and entries :: "'m \<Rightarrow> ('k \<times> 'v) list"
    and valid :: "'m \<Rightarrow> bool"
  assumes insert_valid: "valid m \<Longrightarrow> valid (insert k v m)"
    and remove_valid: "valid m \<Longrightarrow> valid (remove k m)"
    and insert_law: "valid m \<Longrightarrow> map_of (entries (insert k v m)) = (map_of (entries m))(k \<mapsto> v)"
    and remove_law: "valid m \<Longrightarrow> map_of (entries (remove k m)) = (map_of (entries m))(k := None)"
    and ascending: "valid m \<Longrightarrow> sorted_wrt (<) (map fst (entries m))"
begin

lemma insert_keys: "valid m \<Longrightarrow> fst ` set (entries (insert k v m)) = Set.insert k (fst ` set (entries m))"
proof -
  assume "valid m"
  then have "dom (map_of (entries (insert k v m))) = Set.insert k (dom (map_of (entries m)))"
    by (simp add: insert_law)
  then show ?thesis by (simp only: dom_map_of_conv_image_fst)
qed

lemma remove_keys: "valid m \<Longrightarrow> fst ` set (entries (remove k m)) = fst ` set (entries m) - {k}"
proof -
  assume "valid m"
  then have "dom (map_of (entries (remove k m))) = dom (map_of (entries m)) - {k}"
    by (simp add: remove_law)
  then show ?thesis by (simp only: dom_map_of_conv_image_fst)
qed

lemma least_first: "valid m \<Longrightarrow> entries m = (k, v) # es \<Longrightarrow> k' \<in> fst ` set es \<Longrightarrow> k < k'"
  using ascending [of m] by auto

lemma size_insert:
  assumes "valid m"
  shows "length (entries (insert k v m)) =
    (if k \<in> fst ` set (entries m) then length (entries m) else Suc (length (entries m)))"
proof -
  have card: "length (entries m) = card (fst ` set (entries m))" if "valid m" for m
    using ascending [OF that] distinct_card [of "map fst (entries m)"] by (simp add: strict_sorted_iff)
  show ?thesis
    using card [OF assms] card [OF insert_valid [OF assms], of k v]
    by (simp add: insert_keys [OF assms] insert_absorb)
qed

end

interpretation btree: ordered_map btree_insert btree_remove "\<lambda>m. m" btree_ok
proof unfold_locales
  show "sorted_wrt (<) (map fst m)" if "btree_ok m" for m :: "('a, 'b) btree_map"
    using that by (simp add: btree_ok_def)
qed (simp_all add: btree_insert_ok btree_remove_ok btree_insert_get btree_remove_get)

end
