(* ===== verification/H2_Lifecycle.thy ===== *)
theory H2_Lifecycle
  imports Sozu_Std
begin

text \<open>
  How an HTTP/2 connection winds down, from \<^verbatim>\<open>src/lib/src/protocol/mux/h2_drain.rs\<close> and
  \<^verbatim>\<open>src/lib/src/protocol/mux/h2_close.rs\<close>: the bookkeeping of the two GOAWAY frames and of the budget
  of a forced close, and the decisions of the close and of the end of a write pass. With them the
  clamped tuning of a connection and the allocation of stream identifiers of
  \<^verbatim>\<open>src/lib/src/protocol/mux/h2.rs\<close>. An \<open>Instant\<close> or a \<open>Duration\<close> is a natural number.
\<close>

subsection \<open>Tuning and stream identifiers\<close>

definition DEFAULT_MAX_CONCURRENT_STREAMS :: u32 where "DEFAULT_MAX_CONCURRENT_STREAMS = 100"
definition DEFAULT_INITIAL_WINDOW_SIZE :: u32 where "DEFAULT_INITIAL_WINDOW_SIZE = push_bit 16 1 - 1"
definition FLOW_CONTROL_MAX_WINDOW :: u32 where "FLOW_CONTROL_MAX_WINDOW = push_bit 31 1 - 1"
definition STREAM_ID_MAX :: u32 where "STREAM_ID_MAX = 0x7FFFFFFF"
definition ENLARGED_CONNECTION_WINDOW :: u32 where "ENLARGED_CONNECTION_WINDOW = 16 * 1024 * 1024"
definition DEFAULT_STREAM_SHRINK_RATIO :: u32 where "DEFAULT_STREAM_SHRINK_RATIO = 2"

lemmas h2_consts = DEFAULT_MAX_CONCURRENT_STREAMS_def DEFAULT_INITIAL_WINDOW_SIZE_def FLOW_CONTROL_MAX_WINDOW_def
  STREAM_ID_MAX_def ENLARGED_CONNECTION_WINDOW_def DEFAULT_STREAM_SHRINK_RATIO_def

definition u32_checked_add :: "u32 \<Rightarrow> u32 \<Rightarrow> u32 option" where
  "u32_checked_add x y = (if unat x + unat y < 2 ^ 32 then Some (x + y) else None)"

definition u32_checked_sub :: "u32 \<Rightarrow> u32 \<Rightarrow> u32 option" where
  "u32_checked_sub x y = (if y \<le> x then Some (x - y) else None)"

definition next_stream_id :: "u32 \<Rightarrow> bool \<Rightarrow> (u32 \<times> u32) option" where
  "next_stream_id last_stream_id is_client =
     (case u32_checked_add last_stream_id 2 of None \<Rightarrow> None
      | Some next \<Rightarrow>
          (case (if is_client then u32_checked_sub next 1 else u32_checked_sub next 2) of None \<Rightarrow> None
           | Some issued \<Rightarrow> if STREAM_ID_MAX < issued then None else Some (issued, next)))"

record H2ConnectionConfig =
  initial_connection_window :: u32
  max_concurrent_streams :: u32
  stream_shrink_ratio :: u32

definition connection_config_default :: H2ConnectionConfig where
  "connection_config_default =
     \<lparr>initial_connection_window = ENLARGED_CONNECTION_WINDOW,
      max_concurrent_streams = DEFAULT_MAX_CONCURRENT_STREAMS,
      stream_shrink_ratio = DEFAULT_STREAM_SHRINK_RATIO\<rparr>"

definition u32_clamp :: "u32 \<Rightarrow> u32 \<Rightarrow> u32 \<Rightarrow> u32" where
  "u32_clamp lo hi x = (if x < lo then lo else if hi < x then hi else x)"

definition connection_config_new :: "u32 \<Rightarrow> u32 \<Rightarrow> u32 \<Rightarrow> H2ConnectionConfig" where
  "connection_config_new win max_streams shrink_ratio =
     \<lparr>initial_connection_window = u32_clamp DEFAULT_INITIAL_WINDOW_SIZE FLOW_CONTROL_MAX_WINDOW win,
      max_concurrent_streams = u32_clamp 1 10000 max_streams,
      stream_shrink_ratio = max shrink_ratio 2\<rparr>"

definition connection_config_from_optional :: "u32 option \<Rightarrow> u32 option \<Rightarrow> u32 option \<Rightarrow> H2ConnectionConfig" where
  "connection_config_from_optional win max_streams shrink_ratio =
     (let defaults = connection_config_default in
      connection_config_new
        (case win of Some v \<Rightarrow> v | None \<Rightarrow> initial_connection_window defaults)
        (case max_streams of Some v \<Rightarrow> v | None \<Rightarrow> max_concurrent_streams defaults)
        (case shrink_ratio of Some v \<Rightarrow> v | None \<Rightarrow> stream_shrink_ratio defaults))"

subsection \<open>Draining\<close>

record H2DrainState =
  draining :: bool
  peer_last_stream_id :: "u32 option"
  started_at :: "nat option"
  graceful_shutdown_deadline :: "nat option"

datatype GracefulDrainDecision = AlreadyDraining | SendInitial

definition drain_new :: "nat option \<Rightarrow> H2DrainState" where
  "drain_new deadline =
     \<lparr>draining = False, peer_last_stream_id = None, started_at = None, graceful_shutdown_deadline = deadline\<rparr>"

definition deadline_elapsed :: "H2DrainState \<Rightarrow> nat \<Rightarrow> bool" where
  "deadline_elapsed d now =
     (case (started_at d, graceful_shutdown_deadline d) of
        (Some started, Some deadline) \<Rightarrow> deadline \<le> now - started
      | _ \<Rightarrow> False)"

definition observe_peer_goaway :: "u32 \<Rightarrow> H2DrainState \<Rightarrow> H2DrainState" where
  "observe_peer_goaway last_stream_id d = d\<lparr>draining := True, peer_last_stream_id := Some last_stream_id\<rparr>"

definition begin_graceful_drain :: "nat \<Rightarrow> H2DrainState \<Rightarrow> GracefulDrainDecision \<times> H2DrainState" where
  "begin_graceful_drain now d =
     (if draining d then (AlreadyDraining, d)
      else (SendInitial, d\<lparr>draining := True, started_at := Some now\<rparr>))"

definition arm_deadline_if_unarmed :: "nat \<Rightarrow> H2DrainState \<Rightarrow> H2DrainState" where
  "arm_deadline_if_unarmed now d = (if started_at d = None then d\<lparr>started_at := Some now\<rparr> else d)"

definition enter_final_goaway :: "H2DrainState \<Rightarrow> H2DrainState" where
  "enter_final_goaway d = d\<lparr>draining := True\<rparr>"

definition drain_check_invariants :: "H2DrainState \<Rightarrow> bool" where
  "drain_check_invariants d \<longleftrightarrow> started_at d = None \<or> draining d"

subsection \<open>Closing and the end of a write pass\<close>

datatype TlsFlushPhase = BeforeFlush | AfterFlush

datatype CloseAction = CloseNow | FlushFirst | ReArmAndContinue | Disconnect

fun goaway_close_action :: "TlsFlushPhase \<Rightarrow> bool \<Rightarrow> bool \<Rightarrow> CloseAction" where
  "goaway_close_action BeforeFlush peer_gone tls_wants_write =
     (if peer_gone then CloseNow else if tls_wants_write then FlushFirst else Disconnect)"
| "goaway_close_action AfterFlush peer_gone tls_wants_write =
     (if tls_wants_write then ReArmAndContinue else Disconnect)"

definition error_close_action :: "bool \<Rightarrow> CloseAction" where
  "error_close_action tls_wants_write = (if tls_wants_write then ReArmAndContinue else CloseNow)"

definition force_disconnect_action :: "bool \<Rightarrow> bool \<Rightarrow> CloseAction" where
  "force_disconnect_action peer_gone tls_wants_write =
     (if peer_gone then CloseNow else if tls_wants_write then ReArmAndContinue else CloseNow)"

datatype FinalizeAction =
  FinFlush | FinSkipFlush | FinParked | FinRetainPendingBack | FinArmControlQueue | FinQuiesce | FinReArm | FinSettled

fun finalize_action :: "TlsFlushPhase \<Rightarrow> bool \<Rightarrow> bool \<Rightarrow> bool \<Rightarrow> bool \<Rightarrow> bool \<Rightarrow> bool \<Rightarrow> FinalizeAction" where
  "finalize_action BeforeFlush tls_wants_write socket_write expect_write_parked made_progress any_pending_back control_pending =
     (if tls_wants_write then (if socket_write then FinSkipFlush else FinFlush)
      else if expect_write_parked then FinParked
      else if made_progress \<and> any_pending_back then FinRetainPendingBack
      else if control_pending then FinArmControlQueue
      else FinQuiesce)"
| "finalize_action AfterFlush tls_wants_write socket_write expect_write_parked made_progress any_pending_back control_pending =
     (if tls_wants_write then FinReArm else FinSettled)"

subsection \<open>What identifiers are issued\<close>

text \<open>The identifiers of \<open>n\<close> successive requests for one, failures left out.\<close>

fun issue_ids :: "bool \<Rightarrow> nat \<Rightarrow> u32 \<Rightarrow> u32 list" where
  "issue_ids is_client 0 watermark = []"
| "issue_ids is_client (Suc n) watermark =
     (case next_stream_id watermark is_client of
        None \<Rightarrow> issue_ids is_client n watermark
      | Some (issued, next) \<Rightarrow> issued # issue_ids is_client n next)"

lemma next_stream_id_even:
  assumes "k \<le> 2 ^ 30"
  shows "next_stream_id (of_nat (2 * k)) is_client =
    (if k < 2 ^ 30 then Some (of_nat (2 * k + (if is_client then 1 else 0)), of_nat (2 * Suc k)) else None)"
proof -
  let ?n = "of_nat (2 * Suc k) :: u32"
  have u: "unat ((of_nat :: nat \<Rightarrow> u32) m) = m" if "m \<le> 2 ^ 31 + 2" for m
    using that by (simp add: unat_of_nat take_bit_nat_eq_self)
  have n: "u32_checked_add (of_nat (2 * k)) 2 = Some ?n"
    using assms u [of "2 * k"] by (simp add: u32_checked_add_def)
  have sub: "u32_checked_sub ?n 1 = Some (of_nat (2 * k + 1))" "u32_checked_sub ?n 2 = Some (of_nat (2 * k))"
    using assms u [of "2 * Suc k"] by (auto simp: u32_checked_sub_def word_le_nat_alt)
  have big: "STREAM_ID_MAX < of_nat m \<longleftrightarrow> 2 ^ 31 \<le> m" if "m \<le> 2 ^ 31 + 2" for m
    using u [OF that] by (auto simp: STREAM_ID_MAX_def word_less_nat_alt)
  show ?thesis
    using assms big [of "2 * k"] big [of "2 * k + 1"]
    by (simp only: next_stream_id_def n sub option.case if_distrib [where f = "case_option _ _"] cong: if_cong) (auto split: if_splits)
qed

lemma issue_ids_even:
  "k \<le> 2 ^ 30 \<Longrightarrow> issue_ids is_client n (of_nat (2 * k)) =
     map (\<lambda>i. of_nat (2 * i + (if is_client then 1 else 0))) [k..<min (k + n) (2 ^ 30)]"
proof (induction n arbitrary: k)
  case (Suc n)
  show ?case
  proof (cases "k < 2 ^ 30")
    case True
    then show ?thesis
      using next_stream_id_even [OF Suc.prems, of is_client] Suc.IH [of "Suc k"] upt_conv_Cons [of k "min (k + Suc n) (2 ^ 30)"]
      by (simp del: of_nat_mult of_nat_add of_nat_Suc upt_Suc)
  next
    case False
    then have "k = 2 ^ 30" using Suc.prems by simp
    then show ?thesis using next_stream_id_even [OF Suc.prems, of is_client] Suc.IH [OF Suc.prems] by simp
  qed
qed simp

text \<open>
  C38: a connection issues the odd identifiers 1, 3, 5 and so on as a client, the even ones as a
  server, in order and each once, and after the 2^30-th refuses every further request: no identifier
  is reused and none leaves the 31 bits of the protocol, however many streams are asked for.
\<close>

theorem stream_ids_issued_once:
  "issue_ids is_client n 0 = map (\<lambda>i. of_nat (2 * i + (if is_client then 1 else 0))) [0..<min n (2 ^ 30)] \<and>
   sorted_wrt (<) (map unat (issue_ids is_client n 0)) \<and> distinct (issue_ids is_client n 0) \<and>
   list_all (\<lambda>i. i \<le> STREAM_ID_MAX \<and> (odd (unat i) \<longleftrightarrow> is_client)) (issue_ids is_client n 0)"
proof -
  let ?o = "if is_client then 1 else 0 :: nat" and ?is = "[0..<min n (2 ^ 30)]"
  have eq: "issue_ids is_client n 0 = map (\<lambda>i. of_nat (2 * i + ?o)) ?is"
    using issue_ids_even [of 0 is_client n] by simp
  have u: "unat (of_nat (2 * i + ?o) :: u32) = 2 * i + ?o" if "i \<in> set ?is" for i
    using that by (auto simp: unat_of_nat take_bit_nat_eq_self simp del: of_nat_add of_nat_mult)
  have nums: "map unat (issue_ids is_client n 0) = map (\<lambda>i. 2 * i + ?o) ?is"
    using u by (simp add: eq del: of_nat_add of_nat_mult)
  then have sorted: "sorted_wrt (<) (map unat (issue_ids is_client n 0))"
    by (simp add: sorted_wrt_map sorted_wrt_iff_nth_less)
  then have "distinct (map unat (issue_ids is_client n 0))" using strict_sorted_iff by blast
  then have "distinct (issue_ids is_client n 0)" by (simp add: distinct_map)
  moreover have "list_all (\<lambda>i. i \<le> STREAM_ID_MAX \<and> (odd (unat i) \<longleftrightarrow> is_client)) (issue_ids is_client n 0)"
    using u unfolding eq by (auto simp: list_all_iff word_le_nat_alt STREAM_ID_MAX_def simp del: of_nat_add of_nat_mult)
  ultimately show ?thesis using eq sorted by simp
qed


end
