(* ===== verification/H2_Stream_Table.thy ===== *)
theory H2_Stream_Table
  imports Sozu_Std "HOL-Library.AList"
begin

text \<open>
  The table of the streams of an HTTP/2 connection, from
  \<^verbatim>\<open>src/lib/src/protocol/mux/h2_stream_table.rs\<close>: the map from wire identifiers to slots, the parked
  read and write, the streams reset and the ring of those retired or refused, the allowances of what
  a peer may still send on a reset stream, and the two timers that reap silent or stalled streams.
  A \<open>HashSet\<close> is a list without repetitions, a \<open>HashMap\<close> an association list, a \<open>BTreeMap\<close>
  a sorted one, an \<open>Instant\<close> or a \<open>Duration\<close> a natural number.
\<close>

datatype H2StreamId = Zero | Other u32 nat

definition RECENTLY_RESET_CAPACITY :: nat where "RECENTLY_RESET_CAPACITY = 256"
definition RESET_STREAM_HEADER_BLOCKS :: octet where "RESET_STREAM_HEADER_BLOCKS = 2"
definition RESET_ALLOWANCES_CAPACITY :: nat where "RESET_ALLOWANCES_CAPACITY = 2 * RECENTLY_RESET_CAPACITY"

record H2StreamTable =
  streams :: "(u32, nat) btree_map"
  highest_peer_stream_id :: u32
  expect_read :: "(H2StreamId \<times> nat) option"
  expect_write :: "H2StreamId option"
  rst_sent :: "u32 list"
  recently_reset :: "u32 list"
  recently_reset_ids :: "u32 list"
  reset_data_allowance :: "(u32 \<times> u32) list"
  reset_header_blocks :: "(u32 \<times> octet) list"
  stream_last_activity_at :: "(u32, nat) btree_map"
  stream_fc_stalled_since :: "(u32, nat) btree_map"
  stream_fc_stalled_progress :: "(u32, nat) btree_map"

datatype RemoveOutcome = Removed | NotPresent

definition stream_table_new :: "(H2StreamId \<times> nat) option \<Rightarrow> H2StreamTable" where
  "stream_table_new expected =
     \<lparr>streams = [], highest_peer_stream_id = 0, expect_read = expected, expect_write = None,
      rst_sent = [], recently_reset = [], recently_reset_ids = [], reset_data_allowance = [],
      reset_header_blocks = [], stream_last_activity_at = [], stream_fc_stalled_since = [],
      stream_fc_stalled_progress = []\<rparr>"

definition stream_table_get :: "H2StreamTable \<Rightarrow> u32 \<Rightarrow> nat option" where
  "stream_table_get t sid = btree_get (streams t) sid"

definition register :: "u32 \<Rightarrow> nat \<Rightarrow> nat \<Rightarrow> H2StreamTable \<Rightarrow> H2StreamTable" where
  "register sid gid now t = t\<lparr>streams := btree_insert sid gid (streams t),
     stream_last_activity_at := btree_insert sid now (stream_last_activity_at t)\<rparr>"

text \<open>The insertion into the set happens before the ring is looked at, and undone for the oldest.\<close>

definition remember_reset :: "u32 \<Rightarrow> H2StreamTable \<Rightarrow> H2StreamTable" where
  "remember_reset sid t =
     (if sid \<in> set (recently_reset_ids t) then t
      else let t = t\<lparr>recently_reset_ids := sid # recently_reset_ids t\<rparr>;
               t = (if length (recently_reset t) = RECENTLY_RESET_CAPACITY then
                      (case recently_reset t of [] \<Rightarrow> t
                       | oldest # ring \<Rightarrow>
                           t\<lparr>recently_reset := ring,
                             recently_reset_ids := removeAll oldest (recently_reset_ids t),
                             reset_data_allowance := AList.delete oldest (reset_data_allowance t),
                             reset_header_blocks := AList.delete oldest (reset_header_blocks t)\<rparr>)
                    else t)
           in t\<lparr>recently_reset := recently_reset t @ [sid]\<rparr>)"

definition remember_refused :: "u32 \<Rightarrow> H2StreamTable \<Rightarrow> H2StreamTable" where
  "remember_refused sid t = remember_reset sid t"

fun refers_to :: "H2StreamId \<Rightarrow> nat \<Rightarrow> bool" where
  "refers_to Zero slot = False"
| "refers_to (Other _ gid) slot = (gid = slot)"

definition stream_table_remove :: "u32 \<Rightarrow> nat \<Rightarrow> H2StreamTable \<Rightarrow> RemoveOutcome \<times> H2StreamTable" where
  "stream_table_remove sid slot t =
     (let outcome = (if btree_get (streams t) sid \<noteq> None then Removed else NotPresent);
          t = t\<lparr>streams := btree_remove sid (streams t)\<rparr>;
          t = (if sid \<in> set (rst_sent t) then remember_reset sid (t\<lparr>rst_sent := removeAll sid (rst_sent t)\<rparr>) else t);
          t = t\<lparr>stream_last_activity_at := btree_remove sid (stream_last_activity_at t),
                stream_fc_stalled_since := btree_remove sid (stream_fc_stalled_since t),
                stream_fc_stalled_progress := btree_remove sid (stream_fc_stalled_progress t)\<rparr>;
          t = (case expect_write t of Some s \<Rightarrow> if refers_to s slot then t\<lparr>expect_write := None\<rparr> else t | None \<Rightarrow> t);
          t = (case expect_read t of Some (s, _) \<Rightarrow> if refers_to s slot then t\<lparr>expect_read := None\<rparr> else t | None \<Rightarrow> t)
      in (outcome, t))"

definition observe_peer_stream_id :: "u32 \<Rightarrow> H2StreamTable \<Rightarrow> H2StreamTable" where
  "observe_peer_stream_id sid t =
     (if highest_peer_stream_id t < sid then t\<lparr>highest_peer_stream_id := sid\<rparr> else t)"

definition set_expect_read :: "(H2StreamId \<times> nat) option \<Rightarrow> H2StreamTable \<Rightarrow> H2StreamTable" where
  "set_expect_read v t = t\<lparr>expect_read := v\<rparr>"

definition set_expect_write :: "H2StreamId option \<Rightarrow> H2StreamTable \<Rightarrow> H2StreamTable" where
  "set_expect_write v t = t\<lparr>expect_write := v\<rparr>"

text \<open>\<open>HashSet::insert\<close>, the only use made of \<open>rst_sent_mut\<close>: whether the value is new.\<close>

definition hashset_insert :: "'a \<Rightarrow> 'a list \<Rightarrow> bool \<times> 'a list" where
  "hashset_insert x s = (x \<notin> set s, List.insert x s)"

definition rst_sent_insert :: "u32 \<Rightarrow> H2StreamTable \<Rightarrow> bool \<times> H2StreamTable" where
  "rst_sent_insert sid t = (case hashset_insert sid (rst_sent t) of (new, s) \<Rightarrow> (new, t\<lparr>rst_sent := s\<rparr>))"

definition was_reset_locally :: "H2StreamTable \<Rightarrow> u32 \<Rightarrow> bool" where
  "was_reset_locally t sid \<longleftrightarrow> sid \<in> set (rst_sent t) \<or> sid \<in> set (recently_reset_ids t)"

definition u8_saturating_add :: "octet \<Rightarrow> octet \<Rightarrow> octet" where
  "u8_saturating_add a b = (if unat a + unat b < 256 then a + b else 255)"

definition charge_reset_stream_header_block :: "u32 \<Rightarrow> H2StreamTable \<Rightarrow> bool \<times> H2StreamTable" where
  "charge_reset_stream_header_block sid t =
     (if map_of (reset_header_blocks t) sid = None \<and> RESET_ALLOWANCES_CAPACITY \<le> length (reset_header_blocks t)
      then (False, t)
      else let blocks = u8_saturating_add (case map_of (reset_header_blocks t) sid of None \<Rightarrow> 0 | Some b \<Rightarrow> b) 1
        in (blocks \<le> RESET_STREAM_HEADER_BLOCKS, t\<lparr>reset_header_blocks := AList.update sid blocks (reset_header_blocks t)\<rparr>))"

definition charge_reset_stream_data :: "u32 \<Rightarrow> u32 \<Rightarrow> u32 \<Rightarrow> H2StreamTable \<Rightarrow> bool \<times> H2StreamTable" where
  "charge_reset_stream_data sid len granted t =
     (if map_of (reset_data_allowance t) sid = None \<and> RESET_ALLOWANCES_CAPACITY \<le> length (reset_data_allowance t)
      then (False, t)
      else let allowance = (case map_of (reset_data_allowance t) sid of None \<Rightarrow> granted | Some a \<Rightarrow> a);
               left = (if len \<le> allowance then allowance - len else 0)
        in (len \<le> allowance, t\<lparr>reset_data_allowance := AList.update sid left (reset_data_allowance t)\<rparr>))"

definition touch_activity :: "u32 \<Rightarrow> nat \<Rightarrow> H2StreamTable \<Rightarrow> bool \<times> H2StreamTable" where
  "touch_activity sid at t =
     (case btree_get (stream_last_activity_at t) sid of
        Some _ \<Rightarrow> (True, t\<lparr>stream_last_activity_at := btree_insert sid at (stream_last_activity_at t)\<rparr>)
      | None \<Rightarrow> (False, t))"

definition fc_stall_progress :: "H2StreamTable \<Rightarrow> u32 \<Rightarrow> nat option" where
  "fc_stall_progress t sid = btree_get (stream_fc_stalled_progress t) sid"

definition clear_fc_stall :: "u32 \<Rightarrow> H2StreamTable \<Rightarrow> H2StreamTable" where
  "clear_fc_stall sid t = t\<lparr>stream_fc_stalled_since := btree_remove sid (stream_fc_stalled_since t),
     stream_fc_stalled_progress := btree_remove sid (stream_fc_stalled_progress t)\<rparr>"

definition arm_fc_stall :: "u32 \<Rightarrow> nat \<Rightarrow> nat \<Rightarrow> H2StreamTable \<Rightarrow> H2StreamTable" where
  "arm_fc_stall sid now progress t =
     t\<lparr>stream_fc_stalled_since :=
         (if btree_get (stream_fc_stalled_since t) sid = None then btree_insert sid now (stream_fc_stalled_since t)
          else stream_fc_stalled_since t),
       stream_fc_stalled_progress := btree_insert sid progress (stream_fc_stalled_progress t)\<rparr>"

text \<open>One loop of \<open>collect_timed_out\<close>: what is eligible and expired and was not seen is pushed.\<close>

fun collect_guard :: "(u32 \<Rightarrow> bool) \<Rightarrow> (nat \<Rightarrow> bool) \<Rightarrow> string \<Rightarrow> (u32, nat) btree_map \<Rightarrow>
    u32 list \<Rightarrow> (u32 \<times> string) list \<Rightarrow> u32 list \<times> (u32 \<times> string) list" where
  "collect_guard eligible expired reason [] seen out = (seen, out)"
| "collect_guard eligible expired reason ((sid, at) # m) seen out =
     (if eligible sid \<and> expired at \<and> sid \<notin> set seen
      then collect_guard eligible expired reason m (List.insert sid seen) (out @ [(sid, reason)])
      else collect_guard eligible expired reason m seen out)"

definition collect_timed_out :: "H2StreamTable \<Rightarrow> nat \<Rightarrow> nat \<Rightarrow> (u32 \<times> string) list" where
  "collect_timed_out t now deadline =
     (let eligible = (\<lambda>sid. btree_get (streams t) sid \<noteq> None \<and> sid \<notin> set (rst_sent t));
          expired = (\<lambda>at. deadline < now - at)
      in case collect_guard eligible expired ''H2::IdleTimeout'' (stream_last_activity_at t) [] [] of
           (seen, out) \<Rightarrow> snd (collect_guard eligible expired ''H2::WindowStall'' (stream_fc_stalled_since t) seen out))"

definition st_check_invariants :: "H2StreamTable \<Rightarrow> bool" where
  "st_check_invariants t \<longleftrightarrow>
     length (recently_reset t) \<le> RECENTLY_RESET_CAPACITY \<and>
     length (recently_reset_ids t) = length (recently_reset t) \<and>
     length (reset_data_allowance t) \<le> RESET_ALLOWANCES_CAPACITY \<and>
     length (reset_header_blocks t) \<le> RESET_ALLOWANCES_CAPACITY \<and>
     map fst (stream_fc_stalled_since t) = map fst (stream_fc_stalled_progress t)"

subsection \<open>The tables a connection reaches\<close>

text \<open>
  The steps carry the conditions of their callers in \<^verbatim>\<open>h2.rs\<close>: only a registered stream is reset
  through the table or stalls, only an unregistered one is refused, and only frames on a stream that
  was reset are charged.
\<close>

inductive st_reachable :: "H2StreamTable \<Rightarrow> bool" where
  st_reachable_new: "st_reachable (stream_table_new expected)"
| st_reachable_register: "st_reachable t \<Longrightarrow> st_reachable (register sid gid now t)"
| st_reachable_remove: "st_reachable t \<Longrightarrow> st_reachable (snd (stream_table_remove sid slot t))"
| st_reachable_refused: "st_reachable t \<Longrightarrow> stream_table_get t sid = None \<Longrightarrow> st_reachable (remember_refused sid t)"
| st_reachable_observe: "st_reachable t \<Longrightarrow> st_reachable (observe_peer_stream_id sid t)"
| st_reachable_expect_read: "st_reachable t \<Longrightarrow> st_reachable (set_expect_read r t)"
| st_reachable_expect_write: "st_reachable t \<Longrightarrow> st_reachable (set_expect_write w t)"
| st_reachable_rst: "st_reachable t \<Longrightarrow> stream_table_get t sid \<noteq> None \<Longrightarrow> st_reachable (snd (rst_sent_insert sid t))"
| st_reachable_headers: "st_reachable t \<Longrightarrow> was_reset_locally t sid \<Longrightarrow> st_reachable (snd (charge_reset_stream_header_block sid t))"
| st_reachable_data: "st_reachable t \<Longrightarrow> was_reset_locally t sid \<Longrightarrow> st_reachable (snd (charge_reset_stream_data sid len granted t))"
| st_reachable_touch: "st_reachable t \<Longrightarrow> st_reachable (snd (touch_activity sid now t))"
| st_reachable_clear: "st_reachable t \<Longrightarrow> st_reachable (clear_fc_stall sid t)"
| st_reachable_arm: "st_reachable t \<Longrightarrow> stream_table_get t sid \<noteq> None \<Longrightarrow> st_reachable (arm_fc_stall sid now progress t)"

text \<open>The parts of the invariant: the timers, and the memory of the streams that were reset.\<close>

definition timers_ok :: "H2StreamTable \<Rightarrow> bool" where
  "timers_ok t \<longleftrightarrow> btree_ok (streams t) \<and> btree_ok (stream_last_activity_at t) \<and>
     btree_ok (stream_fc_stalled_since t) \<and> btree_ok (stream_fc_stalled_progress t) \<and>
     fst ` set (stream_last_activity_at t) = fst ` set (streams t) \<and>
     fst ` set (stream_fc_stalled_since t) \<subseteq> fst ` set (streams t) \<and>
     fst ` set (stream_fc_stalled_progress t) = fst ` set (stream_fc_stalled_since t)"

definition resets_ok :: "H2StreamTable \<Rightarrow> bool" where
  "resets_ok t \<longleftrightarrow> distinct (rst_sent t) \<and> set (rst_sent t) \<subseteq> fst ` set (streams t) \<and>
     distinct (recently_reset t) \<and> length (recently_reset t) \<le> RECENTLY_RESET_CAPACITY \<and>
     distinct (recently_reset_ids t) \<and> set (recently_reset_ids t) = set (recently_reset t)"

definition memory_ok :: "u32 set \<Rightarrow> H2StreamTable \<Rightarrow> (u32 \<times> 'v) list \<Rightarrow> bool" where
  "memory_ok known t m \<longleftrightarrow> distinct (map fst m) \<and> length m \<le> RESET_ALLOWANCES_CAPACITY \<and>
     fst ` set m \<subseteq> known \<union> set (recently_reset t)"

definition table_ok :: "H2StreamTable \<Rightarrow> bool" where
  "table_ok t \<longleftrightarrow> timers_ok t \<and> resets_ok t \<and> memory_ok (set (rst_sent t)) t (reset_data_allowance t) \<and>
     memory_ok (set (rst_sent t)) t (reset_header_blocks t)"

lemmas table_ok_defs = table_ok_def timers_ok_def resets_ok_def memory_ok_def

lemma btree_remove_keys [simp]: "fst ` set (btree_remove k m) = fst ` set m - {k}"
  by (auto simp: btree_remove_def)

lemma map_of_None: "map_of m k = None \<longleftrightarrow> k \<notin> fst ` set m"
  by (simp add: map_of_eq_None_iff)

lemma alist_delete_keys: "fst ` set (AList.delete k m) = fst ` set m - {k}"
  by (auto simp: AList.delete_eq)

lemma alist_update_keys: "fst ` set (AList.update k v m) = insert k (fst ` set m)"
  by (induction m) auto

lemma alist_update_length: "length (AList.update k v m) = (if k \<in> fst ` set m then length m else Suc (length m))"
  by (induction m) auto

lemma alist_delete_length: "length (AList.delete k m) \<le> length m"
  by (simp add: AList.delete_eq)

subsection \<open>Every operation keeps the invariant\<close>

lemma btree_get_None: "btree_get m k = None \<longleftrightarrow> k \<notin> fst ` set m"
  by (rule map_of_None)

lemma table_ok_new: "table_ok (stream_table_new expected)"
  by (simp add: table_ok_defs stream_table_new_def)

lemma table_ok_register: "table_ok t \<Longrightarrow> table_ok (register sid gid now t)"
  by (auto simp: table_ok_defs register_def btree_insert_ok btree_insert_set)

lemma remember_reset_streams [simp]:
  "streams (remember_reset sid t) = streams t" "rst_sent (remember_reset sid t) = rst_sent t"
  "stream_last_activity_at (remember_reset sid t) = stream_last_activity_at t"
  "stream_fc_stalled_since (remember_reset sid t) = stream_fc_stalled_since t"
  "stream_fc_stalled_progress (remember_reset sid t) = stream_fc_stalled_progress t"
  "expect_read (remember_reset sid t) = expect_read t" "expect_write (remember_reset sid t) = expect_write t"
  by (simp_all add: remember_reset_def Let_def split: list.split)

text \<open>What becomes of the ring: an identifier it does not hold is appended, the oldest leaves a full one.\<close>

definition ring_push :: "u32 \<Rightarrow> u32 list \<Rightarrow> u32 list" where
  "ring_push sid ring = (if sid \<in> set ring then ring
     else (if length ring = RECENTLY_RESET_CAPACITY then tl ring else ring) @ [sid])"

lemma remember_reset_ring:
  "set (recently_reset_ids t) = set (recently_reset t) \<Longrightarrow> recently_reset (remember_reset sid t) = ring_push sid (recently_reset t)"
  by (auto simp: remember_reset_def ring_push_def Let_def split: list.split)

lemma ring_push_ok:
  assumes "distinct ring" and "length ring \<le> RECENTLY_RESET_CAPACITY"
  shows "distinct (ring_push sid ring)" and "length (ring_push sid ring) \<le> RECENTLY_RESET_CAPACITY"
  using assms by (cases ring; auto simp: ring_push_def RECENTLY_RESET_CAPACITY_def)+

lemma resets_ok_remember: "resets_ok t \<Longrightarrow> resets_ok (remember_reset sid t)"
proof -
  assume ok: "resets_ok t"
  have "distinct (recently_reset_ids (remember_reset sid t)) \<and>
      set (recently_reset_ids (remember_reset sid t)) = set (recently_reset (remember_reset sid t))"
    using ok by (cases "recently_reset t") (auto simp: resets_ok_def remember_reset_def Let_def distinct_removeAll)
  then show ?thesis
    using ok ring_push_ok [of "recently_reset t" sid] by (simp add: resets_ok_def remember_reset_ring)
qed

text \<open>What the ring drops loses its allowances, so they stay those of streams still known as reset.\<close>

lemma remember_reset_cases:
  assumes "set (recently_reset_ids t) = set (recently_reset t)"
  obtains (known) "sid \<in> set (recently_reset t)" and "remember_reset sid t = t"
  | (room) "sid \<notin> set (recently_reset t)" and "recently_reset (remember_reset sid t) = recently_reset t @ [sid]"
      and "reset_data_allowance (remember_reset sid t) = reset_data_allowance t"
      and "reset_header_blocks (remember_reset sid t) = reset_header_blocks t"
  | (full) oldest ring where "sid \<notin> set (recently_reset t)" and "recently_reset t = oldest # ring"
      and "recently_reset (remember_reset sid t) = ring @ [sid]"
      and "reset_data_allowance (remember_reset sid t) = AList.delete oldest (reset_data_allowance t)"
      and "reset_header_blocks (remember_reset sid t) = AList.delete oldest (reset_header_blocks t)"
proof (cases "sid \<in> set (recently_reset t)")
  case True
  then show ?thesis using known assms by (simp add: remember_reset_def)
next
  case False
  then have new: "sid \<notin> set (recently_reset_ids t)" using assms by simp
  show ?thesis
  proof (cases "recently_reset t")
    case Nil
    then show ?thesis using room new False by (simp add: remember_reset_def RECENTLY_RESET_CAPACITY_def)
  next
    case (Cons oldest ring)
    then show ?thesis using room full [of oldest ring] new False
      by (cases "length (recently_reset t) = RECENTLY_RESET_CAPACITY") (simp_all add: remember_reset_def)
  qed
qed

lemma memory_ok_delete:
  assumes "memory_ok known t m" and "recently_reset t = oldest # ring" and "set ring \<subseteq> set (recently_reset t')"
  shows "memory_ok known t' (AList.delete oldest m)"
  using assms order_trans [OF alist_delete_length]
  by (auto simp: memory_ok_def alist_delete_keys distinct_delete)

lemma memory_ok_mono:
  "memory_ok known t m \<Longrightarrow> known \<union> set (recently_reset t) \<subseteq> known' \<union> set (recently_reset t') \<Longrightarrow> memory_ok known' t' m"
  by (auto simp: memory_ok_def)

lemma memory_ok_remember:
  assumes "set (recently_reset_ids t) = set (recently_reset t)"
  shows "memory_ok known t (reset_data_allowance t) \<Longrightarrow>
      memory_ok known (remember_reset sid t) (reset_data_allowance (remember_reset sid t))"
    and "memory_ok known t (reset_header_blocks t) \<Longrightarrow>
      memory_ok known (remember_reset sid t) (reset_header_blocks (remember_reset sid t))"
    and "sid \<in> set (recently_reset (remember_reset sid t))"
  subgoal by (cases sid rule: remember_reset_cases [OF assms]) (auto intro: memory_ok_mono memory_ok_delete)
  subgoal by (cases sid rule: remember_reset_cases [OF assms]) (auto intro: memory_ok_mono memory_ok_delete)
  subgoal by (cases sid rule: remember_reset_cases [OF assms]) auto
  done

lemma timers_ok_remember [simp]: "timers_ok (remember_reset sid t) = timers_ok t"
  by (simp add: timers_ok_def)

lemma resets_ok_ids: "resets_ok t \<Longrightarrow> set (recently_reset_ids t) = set (recently_reset t)"
  by (simp add: resets_ok_def)

lemma table_ok_remember: "table_ok t \<Longrightarrow> table_ok (remember_reset sid t)"
  by (simp add: table_ok_def resets_ok_remember memory_ok_remember(1,2) [OF resets_ok_ids])

text \<open>A stream that leaves moves from the set of the reset ones to the ring.\<close>

lemma table_ok_retire:
  assumes "table_ok t"
  shows "table_ok (remember_reset sid (t\<lparr>rst_sent := removeAll sid (rst_sent t)\<rparr>))"
proof -
  let ?t = "t\<lparr>rst_sent := removeAll sid (rst_sent t)\<rparr>"
  have ids: "set (recently_reset_ids ?t) = set (recently_reset ?t)" and ok: "resets_ok ?t" "timers_ok ?t"
    using assms by (auto simp: table_ok_def resets_ok_def timers_ok_def distinct_removeAll)
  have "memory_ok (set (rst_sent t)) ?t (reset_data_allowance ?t)" "memory_ok (set (rst_sent t)) ?t (reset_header_blocks ?t)"
    using assms by (auto simp: table_ok_def intro: memory_ok_mono)
  note kept = memory_ok_remember(1) [OF ids this(1), of sid] memory_ok_remember(2) [OF ids this(2), of sid]
  have "set (rst_sent t) \<subseteq> set (rst_sent ?t) \<union> set (recently_reset (remember_reset sid ?t))"
    using memory_ok_remember(3) [OF ids, of sid] by auto
  then show ?thesis
    using kept [THEN memory_ok_mono, of "set (rst_sent ?t)" "remember_reset sid ?t"] ok
    by (auto simp: table_ok_def resets_ok_remember)
qed

lemma remember_reset_update_streams:
  "remember_reset sid (t\<lparr>streams := m, rst_sent := r\<rparr>) = (remember_reset sid (t\<lparr>rst_sent := r\<rparr>))\<lparr>streams := m\<rparr>"
  by (simp add: remember_reset_def Let_def split: list.split)

definition retire :: "u32 \<Rightarrow> H2StreamTable \<Rightarrow> H2StreamTable" where
  "retire sid t = (if sid \<in> set (rst_sent t) then remember_reset sid (t\<lparr>rst_sent := removeAll sid (rst_sent t)\<rparr>) else t)"

text \<open>Removal as one update: the set and the ring as \<open>retire\<close> leaves them, the stream out of every map.\<close>

lemma stream_table_remove_eq:
  "snd (stream_table_remove sid slot t) = (retire sid t)
     \<lparr>streams := btree_remove sid (streams t),
      stream_last_activity_at := btree_remove sid (stream_last_activity_at t),
      stream_fc_stalled_since := btree_remove sid (stream_fc_stalled_since t),
      stream_fc_stalled_progress := btree_remove sid (stream_fc_stalled_progress t),
      expect_write := (case expect_write t of Some s \<Rightarrow> if refers_to s slot then None else Some s | None \<Rightarrow> None),
      expect_read := (case expect_read t of Some (s, n) \<Rightarrow> if refers_to s slot then None else Some (s, n) | None \<Rightarrow> None)\<rparr>"
  by (auto simp: stream_table_remove_def retire_def Let_def remember_reset_update_streams split: option.split)

lemma table_ok_retired: "table_ok t \<Longrightarrow> table_ok (retire sid t)"
  by (simp add: retire_def table_ok_retire)

lemma retire_fields [simp]:
  "streams (retire sid t) = streams t" "set (rst_sent (retire sid t)) = set (rst_sent t) - {sid}"
  "stream_last_activity_at (retire sid t) = stream_last_activity_at t"
  "stream_fc_stalled_since (retire sid t) = stream_fc_stalled_since t"
  "stream_fc_stalled_progress (retire sid t) = stream_fc_stalled_progress t"
  by (auto simp: retire_def)

lemma table_ok_remove: "table_ok t \<Longrightarrow> table_ok (snd (stream_table_remove sid slot t))"
  using table_ok_retired [of t sid] unfolding stream_table_remove_eq
  by (auto simp: table_ok_defs btree_remove_ok)

lemma table_ok_rst:
  "table_ok t \<Longrightarrow> stream_table_get t sid \<noteq> None \<Longrightarrow> table_ok (snd (rst_sent_insert sid t))"
  by (auto simp: table_ok_defs rst_sent_insert_def hashset_insert_def stream_table_get_def btree_get_None)

lemma memory_ok_update:
  assumes "memory_ok known t m" and "sid \<in> known \<union> set (recently_reset t)"
    and "\<not> (map_of m sid = None \<and> RESET_ALLOWANCES_CAPACITY \<le> length m)"
  shows "memory_ok known t (AList.update sid v m)"
  using assms by (auto simp: memory_ok_def alist_update_keys alist_update_length distinct_update map_of_None)

lemma table_ok_headers:
  "table_ok t \<Longrightarrow> was_reset_locally t sid \<Longrightarrow> table_ok (snd (charge_reset_stream_header_block sid t))"
  by (auto simp: charge_reset_stream_header_block_def Let_def table_ok_def was_reset_locally_def
      timers_ok_def resets_ok_def intro!: memory_ok_update intro: memory_ok_mono)

lemma table_ok_data:
  "table_ok t \<Longrightarrow> was_reset_locally t sid \<Longrightarrow> table_ok (snd (charge_reset_stream_data sid len granted t))"
  by (auto simp: charge_reset_stream_data_def Let_def table_ok_def was_reset_locally_def
      timers_ok_def resets_ok_def intro!: memory_ok_update intro: memory_ok_mono)

lemma table_ok_touch: "table_ok t \<Longrightarrow> table_ok (snd (touch_activity sid now t))"
proof (cases "sid \<in> fst ` set (stream_last_activity_at t)")
  case True
  then have "fst ` set (btree_insert sid now (stream_last_activity_at t)) = fst ` set (stream_last_activity_at t)"
    by (simp add: btree_insert_set insert_absorb)
  then show "table_ok t \<Longrightarrow> table_ok (snd (touch_activity sid now t))"
    by (simp add: table_ok_defs touch_activity_def btree_insert_ok split: option.split)
qed (simp add: touch_activity_def map_of_None [THEN iffD2])

lemma table_ok_clear: "table_ok t \<Longrightarrow> table_ok (clear_fc_stall sid t)"
  by (auto simp: table_ok_defs clear_fc_stall_def btree_remove_ok)

lemma table_ok_arm: "table_ok t \<Longrightarrow> stream_table_get t sid \<noteq> None \<Longrightarrow> table_ok (arm_fc_stall sid now progress t)"
  by (auto simp: table_ok_defs arm_fc_stall_def btree_insert_ok btree_insert_set stream_table_get_def map_of_None)

lemma st_reachable_ok: "st_reachable t \<Longrightarrow> table_ok t"
proof (induction rule: st_reachable.induct)
  case (st_reachable_refused t sid)
  then show ?case by (simp add: remember_refused_def table_ok_remember)
next
  case (st_reachable_observe t sid)
  then show ?case by (simp add: observe_peer_stream_id_def table_ok_defs)
next
  case (st_reachable_expect_read t r)
  then show ?case by (simp add: set_expect_read_def table_ok_defs)
next
  case (st_reachable_expect_write t w)
  then show ?case by (simp add: set_expect_write_def table_ok_defs)
qed (simp_all add: table_ok_new table_ok_register table_ok_remove table_ok_rst table_ok_headers table_ok_data
    table_ok_touch table_ok_clear table_ok_arm)

lemma btree_keys_eq: "btree_ok m \<Longrightarrow> btree_ok m' \<Longrightarrow> fst ` set m = fst ` set m' \<Longrightarrow> map fst m = map fst m'"
  using strict_sorted_equal [of "map fst m" "map fst m'"] by (simp add: btree_ok_def)

lemma table_ok_check: "table_ok t \<Longrightarrow> st_check_invariants t"
  using distinct_card [of "recently_reset t"] distinct_card [of "recently_reset_ids t"]
    btree_keys_eq [of "stream_fc_stalled_since t" "stream_fc_stalled_progress t"]
  by (simp add: table_ok_defs st_check_invariants_def)

lemma was_reset_retire:
  assumes "table_ok t"
  shows "was_reset_locally t sid \<Longrightarrow> was_reset_locally (retire sid t) sid"
proof -
  let ?t = "t\<lparr>rst_sent := removeAll sid (rst_sent t)\<rparr>"
  have "set (recently_reset_ids ?t) = set (recently_reset ?t)" and "resets_ok ?t"
    using assms by (auto simp: table_ok_def resets_ok_def distinct_removeAll)
  then have "sid \<in> set (recently_reset_ids (remember_reset sid ?t))"
    using memory_ok_remember(3) [of ?t sid] resets_ok_ids [OF resets_ok_remember] by simp
  then show "was_reset_locally t sid \<Longrightarrow> was_reset_locally (retire sid t) sid"
    by (auto simp: retire_def was_reset_locally_def)
qed

text \<open>
  C17: on every table a connection reaches, the checks of the source hold, every stream has its
  idle timer and no timer or reset mark outlives its stream. Removing a stream takes it out of the
  map and of every cache and leaves the others, forgets a parked read or write of its slot, and a
  stream that was reset is still known as reset.
\<close>

theorem stream_table_consistent:
  assumes "st_reachable t"
  shows "st_check_invariants t \<and> fst ` set (stream_last_activity_at t) = fst ` set (streams t) \<and>
    fst ` set (stream_fc_stalled_since t) \<subseteq> fst ` set (streams t) \<and> set (rst_sent t) \<subseteq> fst ` set (streams t) \<and>
    (case stream_table_remove sid slot t of (outcome, t') \<Rightarrow>
       (outcome = Removed \<longleftrightarrow> stream_table_get t sid \<noteq> None) \<and>
       stream_table_get t' = (stream_table_get t)(sid := None) \<and>
       set (rst_sent t') = set (rst_sent t) - {sid} \<and>
       btree_get (stream_last_activity_at t') = (btree_get (stream_last_activity_at t))(sid := None) \<and>
       btree_get (stream_fc_stalled_since t') = (btree_get (stream_fc_stalled_since t))(sid := None) \<and>
       fc_stall_progress t' = (fc_stall_progress t)(sid := None) \<and>
       expect_write t' \<noteq> Some (Other w slot) \<and> expect_read t' \<noteq> Some (Other r slot, n) \<and>
       (was_reset_locally t sid \<longrightarrow> was_reset_locally t' sid))"
proof -
  have ok: "table_ok t" using assms by (rule st_reachable_ok)
  let ?t = "snd (stream_table_remove sid slot t)"
  have "was_reset_locally t sid \<Longrightarrow> was_reset_locally ?t sid"
    using was_reset_retire [OF ok] unfolding stream_table_remove_eq by (simp add: was_reset_locally_def)
  moreover have "fst (stream_table_remove sid slot t) = Removed \<longleftrightarrow> stream_table_get t sid \<noteq> None"
    by (simp add: stream_table_remove_def stream_table_get_def Let_def)
  moreover have "stream_table_get ?t = (stream_table_get t)(sid := None)"
    "fc_stall_progress ?t = (fc_stall_progress t)(sid := None)"
    unfolding stream_table_remove_eq
    by (simp_all add: stream_table_get_def fc_stall_progress_def fun_eq_iff btree_remove_get)
  moreover have "expect_write ?t \<noteq> Some (Other w slot)" "expect_read ?t \<noteq> Some (Other r slot, n)"
    unfolding stream_table_remove_eq by (auto split: option.split if_splits)
  moreover have "set (rst_sent ?t) = set (rst_sent t) - {sid}"
    "btree_get (stream_last_activity_at ?t) = (btree_get (stream_last_activity_at t))(sid := None)"
    "btree_get (stream_fc_stalled_since ?t) = (btree_get (stream_fc_stalled_since t))(sid := None)"
    unfolding stream_table_remove_eq by (simp_all add: btree_remove_get fun_eq_iff)
  ultimately show ?thesis
    using table_ok_check [OF ok] ok by (simp add: table_ok_def timers_ok_def resets_ok_def case_prod_beta)
qed

definition table_example :: H2StreamTable where
  "table_example = snd (rst_sent_insert 3 (arm_fc_stall 1 20 0 (register 5 2 30 (register 3 1 10 (register 1 0 10 (stream_table_new None))))))"

lemma table_example_reachable: "st_reachable table_example"
  unfolding table_example_def
  by (intro st_reachable_rst st_reachable_arm st_reachable_register st_reachable_new)
    (simp_all add: stream_table_get_def arm_fc_stall_def register_def stream_table_new_def)

lemma table_example_reset: "was_reset_locally table_example 3"
  by (simp add: table_example_def was_reset_locally_def rst_sent_insert_def hashset_insert_def)

theorem stream_table_consistent_witness:
  "was_reset_locally (snd (stream_table_remove 3 1 table_example)) 3 \<and>
   stream_table_get (snd (stream_table_remove 3 1 table_example)) 3 = None"
  using stream_table_consistent [OF table_example_reachable, where sid = 3 and slot = 1] table_example_reset
  by (simp add: case_prod_beta)

subsection \<open>The streams that are reaped\<close>

lemma collect_guard_eq:
  assumes "distinct (map fst m)"
  shows "collect_guard eligible expired reason m seen out =
    (let found = map fst (filter (\<lambda>e. eligible (fst e) \<and> expired (snd e) \<and> fst e \<notin> set seen) m)
     in (rev found @ seen, out @ map (\<lambda>sid. (sid, reason)) found))"
  using assms
proof (induction eligible expired reason m seen out rule: collect_guard.induct)
  case (2 eligible expired reason sid at m seen out)
  have "filter (\<lambda>e. eligible (fst e) \<and> expired (snd e) \<and> fst e \<noteq> sid \<and> fst e \<notin> set seen) m =
      filter (\<lambda>e. eligible (fst e) \<and> expired (snd e) \<and> fst e \<notin> set seen) m"
    using 2(3) by (intro filter_cong) auto
  then show ?case using 2 by (simp add: Let_def)
qed simp

text \<open>The two guards as filters: the reap list is the idle streams followed by the stalled ones.\<close>

definition reapable :: "H2StreamTable \<Rightarrow> u32 \<Rightarrow> bool" where
  "reapable t sid \<longleftrightarrow> stream_table_get t sid \<noteq> None \<and> sid \<notin> set (rst_sent t)"

definition overdue :: "nat \<Rightarrow> nat \<Rightarrow> (u32, nat) btree_map \<Rightarrow> u32 \<Rightarrow> bool" where
  "overdue now deadline m sid \<longleftrightarrow> (case btree_get m sid of None \<Rightarrow> False | Some at \<Rightarrow> at + deadline < now)"

lemma overdue_entry: "distinct (map fst m) \<Longrightarrow> (sid, at) \<in> set m \<Longrightarrow> overdue now deadline m sid \<longleftrightarrow> deadline < now - at"
  by (auto simp: overdue_def)

lemma overdue_filter:
  "distinct (map fst m) \<Longrightarrow> map fst (filter (\<lambda>e. P (fst e) \<and> deadline < now - snd e \<and> Q (fst e)) m) =
     filter (\<lambda>sid. P sid \<and> overdue now deadline m sid \<and> Q sid) (map fst m)"
  by (auto simp: filter_map overdue_entry o_def intro!: arg_cong [of _ _ "map fst"] filter_cong)

lemma collect_guard_overdue:
  "distinct (map fst m) \<Longrightarrow> collect_guard P (\<lambda>at. deadline < now - at) reason m seen out =
    (let found = filter (\<lambda>sid. P sid \<and> overdue now deadline m sid \<and> sid \<notin> set seen) (map fst m)
     in (rev found @ seen, out @ map (\<lambda>sid. (sid, reason)) found))"
  using overdue_filter [of m P deadline now "\<lambda>sid. sid \<notin> set seen"] by (simp only: collect_guard_eq)

lemma overdue_keys:
  assumes "btree_ok m" and "btree_ok m'"
    and "\<And>sid. overdue now deadline m sid \<Longrightarrow> sid \<in> fst ` set m \<Longrightarrow> P sid \<Longrightarrow> sid \<in> fst ` set m'"
    and "\<And>sid. sid \<in> fst ` set m' \<Longrightarrow> P sid \<and> overdue now deadline m sid \<and> Q sid \<longleftrightarrow> P sid \<and> overdue now deadline m sid \<and> R sid"
  shows "filter (\<lambda>sid. P sid \<and> overdue now deadline m sid \<and> Q sid) (map fst m) =
    filter (\<lambda>sid. P sid \<and> overdue now deadline m sid \<and> R sid) (map fst m')"
proof (rule strict_sorted_equal)
  have "overdue now deadline m sid \<Longrightarrow> sid \<in> fst ` set m" for sid
    by (auto simp: overdue_def split: option.splits dest: map_of_SomeD intro: rev_image_eqI)
  then show "set (filter (\<lambda>sid. P sid \<and> overdue now deadline m sid \<and> Q sid) (map fst m)) =
      set (filter (\<lambda>sid. P sid \<and> overdue now deadline m sid \<and> R sid) (map fst m'))"
    using assms(3,4) unfolding set_filter set_map by blast
qed (use assms(1,2) in \<open>auto simp: btree_ok_def intro: sorted_wrt_filter\<close>)

text \<open>
  C26: the reap list of a reachable table is, in ascending order, every stream idle for longer than
  the deadline, then, in ascending order, every stream whose flow-control stall is older than it and
  that is not idle; each stream once, and only streams that are registered and were not reset.
\<close>

theorem timed_out_streams_exact:
  assumes "st_reachable t"
  shows "sorted_wrt (<) (map fst (streams t)) \<and> collect_timed_out t now deadline =
      map (\<lambda>sid. (sid, ''H2::IdleTimeout''))
        (filter (\<lambda>sid. reapable t sid \<and> overdue now deadline (stream_last_activity_at t) sid) (map fst (streams t))) @
      map (\<lambda>sid. (sid, ''H2::WindowStall''))
        (filter (\<lambda>sid. reapable t sid \<and> overdue now deadline (stream_fc_stalled_since t) sid \<and>
           \<not> overdue now deadline (stream_last_activity_at t) sid) (map fst (streams t)))"
proof -
  have ok: "timers_ok t" using st_reachable_ok [OF assms] by (simp add: table_ok_def)
  define idle where "idle = filter (\<lambda>sid. reapable t sid \<and> overdue now deadline (stream_last_activity_at t) sid) (map fst (streams t))"
  have keys: "map fst (stream_last_activity_at t) = map fst (streams t)"
    using ok by (auto simp: timers_ok_def intro: btree_keys_eq)
  have stalled: "filter (\<lambda>sid. reapable t sid \<and> overdue now deadline (stream_fc_stalled_since t) sid \<and> sid \<notin> set idle)
        (map fst (stream_fc_stalled_since t)) =
      filter (\<lambda>sid. reapable t sid \<and> overdue now deadline (stream_fc_stalled_since t) sid \<and>
        \<not> overdue now deadline (stream_last_activity_at t) sid) (map fst (streams t))"
    using ok by (intro overdue_keys) (auto simp: idle_def reapable_def stream_table_get_def map_of_None timers_ok_def)
  have eligible: "(\<lambda>sid. btree_get (streams t) sid \<noteq> None \<and> sid \<notin> set (rst_sent t)) = reapable t"
    by (simp add: fun_eq_iff reapable_def stream_table_get_def)
  have "collect_timed_out t now deadline = map (\<lambda>sid. (sid, ''H2::IdleTimeout'')) idle @
      map (\<lambda>sid. (sid, ''H2::WindowStall'')) (filter (\<lambda>sid. reapable t sid \<and>
        overdue now deadline (stream_fc_stalled_since t) sid \<and> sid \<notin> set idle) (map fst (stream_fc_stalled_since t)))"
    using ok unfolding collect_timed_out_def Let_def eligible
    by (simp add: collect_guard_overdue btree_ok_distinct timers_ok_def Let_def keys del: map_map filter_map flip: idle_def)
  then show ?thesis
    using ok unfolding stalled unfolding idle_def by (simp add: timers_ok_def btree_ok_def)
qed

theorem timed_out_streams_exact_witness:
  "collect_timed_out table_example 40 12 = [(1, ''H2::IdleTimeout'')]"
  using timed_out_streams_exact [OF table_example_reachable, of 40 12]
  by (simp add: table_example_def rst_sent_insert_def hashset_insert_def arm_fc_stall_def register_def stream_table_new_def
      reapable_def overdue_def stream_table_get_def)

text \<open>
  The documentation of \<open>collect_timed_out\<close> says that no caller can make a stall entry without a
  registered stream. \<open>arm_fc_stall\<close> does on a table without streams.
\<close>

lemma stall_without_stream:
  "streams (arm_fc_stall 1 0 0 (stream_table_new None)) = [] \<and>
   stream_fc_stalled_since (arm_fc_stall 1 0 0 (stream_table_new None)) = [(1, 0)]"
  by (simp add: arm_fc_stall_def stream_table_new_def)

subsection \<open>What a peer may still send on a reset stream\<close>

text \<open>A sequence of charges, with the answers in order.\<close>

fun charges :: "('a \<Rightarrow> H2StreamTable \<Rightarrow> bool \<times> H2StreamTable) \<Rightarrow> 'a list \<Rightarrow> H2StreamTable \<Rightarrow> bool list \<times> H2StreamTable" where
  "charges charge [] t = ([], t)"
| "charges charge (x # xs) t =
     (case charge x t of (fits, t') \<Rightarrow> case charges charge xs t' of (answers, t'') \<Rightarrow> (fits # answers, t''))"

definition granted_bytes :: "bool list \<Rightarrow> u32 list \<Rightarrow> nat" where
  "granted_bytes answers lens = sum_list (map (unat \<circ> snd) (filter fst (zip answers lens)))"

lemma granted_bytes_simps [simp]:
  "granted_bytes [] lens = 0"
  "granted_bytes (fits # answers) (len # lens) = (if fits then unat len else 0) + granted_bytes answers lens"
  by (simp_all add: granted_bytes_def)

text \<open>The allowance a stream has, and that the bound on their number does not deny it one.\<close>

definition holds_allowance :: "'v \<Rightarrow> (u32 \<times> 'v) list \<Rightarrow> u32 \<Rightarrow> 'v \<Rightarrow> bool" where
  "holds_allowance initial m sid a \<longleftrightarrow>
     map_of m sid = Some a \<or> map_of m sid = None \<and> a = initial \<and> length m < RESET_ALLOWANCES_CAPACITY"

lemma charge_data_step:
  assumes "holds_allowance granted (reset_data_allowance t) sid a"
  shows "fst (charge_reset_stream_data sid len granted t) \<longleftrightarrow> len \<le> a"
    and "holds_allowance granted (reset_data_allowance (snd (charge_reset_stream_data sid len granted t))) sid
      (if len \<le> a then a - len else 0)"
  using assms by (auto simp: charge_reset_stream_data_def holds_allowance_def Let_def update_conv')

lemma charge_data_sequence:
  assumes "holds_allowance granted (reset_data_allowance t) sid a"
  shows "granted_bytes (fst (charges (\<lambda>len. charge_reset_stream_data sid len granted) lens t)) lens \<le> unat a \<and>
    (sum_list (map unat lens) \<le> unat a \<longrightarrow>
      fst (charges (\<lambda>len. charge_reset_stream_data sid len granted) lens t) = replicate (length lens) True)"
  using assms
proof (induction lens arbitrary: t a)
  case (Cons len lens)
  let ?a = "if len \<le> a then a - len else 0"
  note step = charge_data_step [OF Cons.prems, of len]
  have left: "unat ?a = unat a - unat len" by (auto simp: unat_sub word_le_nat_alt)
  note rest = Cons.IH [OF step(2), unfolded left]
  show ?case
  proof (cases "len \<le> a")
    case True
    then show ?thesis using rest step(1) by (auto simp: case_prod_beta word_le_nat_alt)
  next
    case False
    then show ?thesis using rest step(1) by (auto simp: case_prod_beta word_le_nat_alt)
  qed
qed simp

lemma charge_headers_step:
  assumes "holds_allowance 0 (reset_header_blocks t) sid b"
  shows "fst (charge_reset_stream_header_block sid t) \<longleftrightarrow> unat b < 2"
    and "holds_allowance 0 (reset_header_blocks (snd (charge_reset_stream_header_block sid t))) sid (u8_saturating_add b 1)"
  using assms by (auto simp: charge_reset_stream_header_block_def holds_allowance_def Let_def update_conv'
      RESET_STREAM_HEADER_BLOCKS_def u8_saturating_add_def word_le_nat_alt unat_word_ariths split: if_splits)

lemma charge_headers_sequence:
  assumes "holds_allowance 0 (reset_header_blocks t) sid b"
  shows "fst (charges (\<lambda>_. charge_reset_stream_header_block sid) (replicate n x) t) =
    replicate (min n (2 - unat b)) True @ replicate (n - (2 - unat b)) False"
  using assms
proof (induction n arbitrary: t b)
  case (Suc n)
  note step = charge_headers_step [OF Suc.prems]
  have "2 - unat (u8_saturating_add b 1) = 2 - unat b - 1"
    by (auto simp: u8_saturating_add_def unat_word_ariths)
  then have rest: "fst (charges (\<lambda>_. charge_reset_stream_header_block sid) (replicate (Suc n) x) t) =
      (unat b < 2) # replicate (min n (2 - unat b - 1)) True @ replicate (n - (2 - unat b - 1)) False"
    using Suc.IH [OF step(2)] step(1) by (simp add: case_prod_beta)
  consider "unat b = 0" | "unat b = 1" | "2 \<le> unat b" by linarith
  then show ?case unfolding rest by cases (cases n; simp)+
qed simp

lemma reset_allowance_room:
  assumes "table_ok t" and "was_reset_locally t sid" and "length (streams t) \<le> RECENTLY_RESET_CAPACITY"
    and "memory_ok (set (rst_sent t)) t m" and "map_of m sid = None"
  shows "holds_allowance v m sid v"
proof -
  let ?U = "set (rst_sent t) \<union> set (recently_reset t)"
  have sid: "sid \<in> ?U" using assms(1,2) by (auto simp: was_reset_locally_def table_ok_def resets_ok_def)
  have "card (set (rst_sent t)) \<le> card (fst ` set (streams t))"
    using assms(1) by (intro card_mono) (auto simp: table_ok_def resets_ok_def)
  also have "\<dots> \<le> length (streams t)" by (metis card_length length_map set_map)
  finally have "card (set (rst_sent t)) \<le> RECENTLY_RESET_CAPACITY" using assms(3) by simp
  moreover have "card (set (recently_reset t)) \<le> RECENTLY_RESET_CAPACITY"
    using assms(1) card_length [of "recently_reset t"] by (simp add: table_ok_def resets_ok_def)
  ultimately have U: "card ?U \<le> RESET_ALLOWANCES_CAPACITY"
    using card_Un_le [of "set (rst_sent t)" "set (recently_reset t)"] by (simp add: RESET_ALLOWANCES_CAPACITY_def)
  have "length m = card (fst ` set m)"
    using assms(4) distinct_card [of "map fst m"] by (simp add: memory_ok_def)
  also have "\<dots> \<le> card (?U - {sid})"
    using assms(4,5) by (intro card_mono) (auto simp: memory_ok_def map_of_None)
  also have "\<dots> < card ?U" using sid by (intro psubset_card_mono) auto
  finally show ?thesis using U assms(5) by (simp add: holds_allowance_def)
qed


lemma table_example_fields:
  "length (streams table_example) = 3" "reset_data_allowance table_example = []" "reset_header_blocks table_example = []"
  by (simp_all add: table_example_def rst_sent_insert_def hashset_insert_def arm_fc_stall_def register_def stream_table_new_def)


subsection \<open>How long a reset is remembered\<close>

text \<open>A stream stays in the ring until 256 other streams were remembered after it.\<close>

lemma ring_push_keeps:
  assumes "distinct (xs @ sid # ys)" and "length (xs @ sid # ys) \<le> RECENTLY_RESET_CAPACITY"
    and "card (insert x (set ys)) < RECENTLY_RESET_CAPACITY"
  shows "\<exists>xs' ys'. ring_push x (xs @ sid # ys) = xs' @ sid # ys' \<and> set ys' \<subseteq> insert x (set ys)"
proof (cases xs)
  case Nil
  have "card (insert x (set ys)) = Suc (length ys)" if "x \<notin> set ys"
    using assms(1) that distinct_card [of ys] by simp
  then show ?thesis using Nil assms(2,3) by (auto simp: ring_push_def intro: exI [of _ "[]"])
next
  case (Cons a zs)
  let ?zs = "if length (xs @ sid # ys) = RECENTLY_RESET_CAPACITY then zs else xs"
  show ?thesis
  proof (cases "x \<in> set (xs @ sid # ys)")
    case False
    then have "ring_push x (xs @ sid # ys) = ?zs @ sid # ys @ [x]" using Cons by (simp add: ring_push_def)
    then show ?thesis by fastforce
  qed (auto simp: ring_push_def)
qed

lemma ring_window:
  assumes "distinct (xs @ sid # ys)" and "length (xs @ sid # ys) \<le> RECENTLY_RESET_CAPACITY"
    and "card (set ys \<union> set ids) < RECENTLY_RESET_CAPACITY"
  shows "sid \<in> set (foldl (\<lambda>ring x. ring_push x ring) (xs @ sid # ys) ids)"
  using assms
proof (induction ids arbitrary: xs ys)
  case (Cons x ids)
  have "card (insert x (set ys)) \<le> card (set ys \<union> set (x # ids))" by (intro card_mono) auto
  then obtain xs' ys' where ring: "ring_push x (xs @ sid # ys) = xs' @ sid # ys'" "set ys' \<subseteq> insert x (set ys)"
    using ring_push_keeps [OF Cons.prems(1,2) le_less_trans [OF _ Cons.prems(3)]] by blast
  have "card (set ys' \<union> set ids) \<le> card (set ys \<union> set (x # ids))"
    using ring(2) by (intro card_mono) auto
  then show ?case
    using Cons.IH [of xs' ys'] ring_push_ok [OF Cons.prems(1,2), of x] Cons.prems(3) ring(1) by simp
qed simp

lemma table_ok_refused:
  "table_ok t \<Longrightarrow> table_ok (remember_refused x t) \<and> recently_reset (remember_refused x t) = ring_push x (recently_reset t)"
  using table_ok_remember [of t x] by (auto simp: remember_refused_def table_ok_def resets_ok_ids remember_reset_ring)

lemma foldl_remember_ring:
  "table_ok t \<Longrightarrow> recently_reset (foldl (\<lambda>t x. remember_refused x t) t ids) = foldl (\<lambda>ring x. ring_push x ring) (recently_reset t) ids \<and>
     table_ok (foldl (\<lambda>t x. remember_refused x t) t ids)"
  by (induction ids arbitrary: t) (simp_all add: table_ok_refused)

lemma remembered_window:
  assumes "table_ok t" and "recently_reset t = xs @ [sid]" and "card (set ids) < 256"
  shows "was_reset_locally (foldl (\<lambda>t x. remember_refused x t) t ids) sid"
proof -
  have "sid \<in> set (foldl (\<lambda>ring x. ring_push x ring) (recently_reset t) ids)"
    using ring_window [of xs sid "[]" ids] assms by (simp add: table_ok_def resets_ok_def RECENTLY_RESET_CAPACITY_def)
  then show ?thesis
    using foldl_remember_ring [OF assms(1), of ids] by (auto simp: was_reset_locally_def table_ok_def resets_ok_ids)
qed

lemma ring_push_last: "sid \<notin> set ring \<Longrightarrow> \<exists>xs. ring_push sid ring = xs @ [sid]"
  by (simp add: ring_push_def)

text \<open>
  a stream that was just retired after a reset, or refused, is known as reset until 256 other
  streams were refused after it, so that what its peer had in flight is ignored and not an error.
\<close>

theorem resets_remembered:
  assumes "st_reachable t" and "sid \<notin> set (recently_reset t)" and "card (set ids) < 256"
    and "t' = remember_refused sid t \<or> sid \<in> set (rst_sent t) \<and> t' = snd (stream_table_remove sid slot t)"
  shows "was_reset_locally (foldl (\<lambda>t x. remember_refused x t) t' ids) sid"
proof -
  have ok: "table_ok t" using assms(1) by (rule st_reachable_ok)
  let ?r = "t\<lparr>rst_sent := removeAll sid (rst_sent t)\<rparr>"
  have "recently_reset t' = ring_push sid (recently_reset t)"
  proof (cases "t' = remember_refused sid t")
    case False
    then have "recently_reset t' = recently_reset (remember_reset sid ?r)"
      using assms(4) by (simp add: stream_table_remove_eq retire_def)
    also have "\<dots> = ring_push sid (recently_reset ?r)"
      using ok by (intro remember_reset_ring) (simp add: table_ok_def resets_ok_def)
    finally show ?thesis by simp
  qed (use table_ok_refused [OF ok] in simp)
  moreover have "table_ok t'" using assms(4) table_ok_refused [OF ok] table_ok_remove [OF ok] by auto
  ultimately show ?thesis using ring_push_last [OF assms(2)] remembered_window assms(3) by metis
qed

theorem resets_remembered_witness:
  "was_reset_locally (foldl (\<lambda>t x. remember_refused x t) (snd (stream_table_remove 3 1 table_example)) [7, 9, 11]) 3"
  by (rule resets_remembered [OF table_example_reachable])
    (use table_example_reset in \<open>auto simp: table_example_def was_reset_locally_def rst_sent_insert_def hashset_insert_def
      arm_fc_stall_def register_def stream_table_new_def\<close>)

end
