(* ===== verification/H2_Bytes.thy ===== *)
theory H2_Bytes
  imports Sozu_Std
begin

text \<open>
  Network byte order: the octets of an unsigned integer, most significant first, and the value of
  such octets. Shared by the frame parser, the frame serializer and the models of the parsing
  and serializing primitives they call.
\<close>

fun be_bytes :: "nat \<Rightarrow> nat \<Rightarrow> bytes" where
  "be_bytes 0 n = []"
| "be_bytes (Suc k) n = of_nat (n div 256 ^ k) # be_bytes k n"

lemma be_bytes_numeral:
  "be_bytes (numeral k) n = of_nat (n div 256 ^ pred_numeral k) # be_bytes (pred_numeral k) n"
  by (simp add: numeral_eq_Suc)

fun be_nat :: "bytes \<Rightarrow> nat" where
  "be_nat [] = 0"
| "be_nat (b # bs) = unat b * 256 ^ length bs + be_nat bs"

lemma length_be_bytes [simp]: "length (be_bytes k n) = k"
  by (induction k) auto

lemma be_nat_less: "be_nat bs < 256 ^ length bs"
proof (induction bs)
  case (Cons b bs)
  have "unat b * 256 ^ length bs + be_nat bs < (unat b + 1) * 256 ^ length bs"
    using Cons by simp
  also have "\<dots> \<le> 256 * 256 ^ length bs"
    using unat_octet [of b] by (intro mult_right_mono) auto
  finally show ?case by simp
qed simp

lemma be_nat_be_bytes: "be_nat (be_bytes k n) = n mod 256 ^ k"
proof (induction k)
  case (Suc k)
  have "n mod (256 ^ k * 256) = 256 ^ k * (n div 256 ^ k mod 256) + n mod 256 ^ k"
    by (rule mod_mult2_eq)
  with Suc show ?case by (simp add: unat_of_nat mult.commute)
qed simp

lemma be_nat_append: "be_nat (xs @ ys) = be_nat xs * 256 ^ length ys + be_nat ys"
  by (induction xs) (simp_all add: power_add algebra_simps)

lemma be_bytes_mod: "k \<le> m \<Longrightarrow> be_bytes k (n mod 256 ^ m) = be_bytes k n"
proof (induction k)
  case (Suc k)
  then have m: "256 ^ m = (256 :: nat) ^ k * 256 ^ (m - k)" by (simp flip: power_add)
  have "n mod 256 ^ m div 256 ^ k = n div 256 ^ k mod 256 ^ (m - k)"
    unfolding m by (simp add: mod_mult2_eq)
  moreover have "m - k = Suc (m - Suc k)" using Suc.prems by simp
  ultimately have "of_nat (n mod 256 ^ m div 256 ^ k) = (of_nat (n div 256 ^ k) :: octet)"
    by (intro word_unat_eq_iff [THEN iffD2]) (simp add: unat_of_nat mod_mod_cancel)
  with Suc show ?case by simp
qed simp

lemma be_bytes_be_nat: "be_bytes (length bs) (be_nat bs) = bs"
proof (induction bs)
  case (Cons b bs)
  have lt: "be_nat bs < 256 ^ length bs" by (rule be_nat_less)
  then have "(unat b * 256 ^ length bs + be_nat bs) div 256 ^ length bs = unat b" by simp
  moreover have "be_bytes (length bs) (unat b * 256 ^ length bs + be_nat bs) = be_bytes (length bs) (be_nat bs)"
    using be_bytes_mod [of "length bs" "length bs" "unat b * 256 ^ length bs + be_nat bs"] lt by simp
  ultimately show ?case using Cons by simp
qed simp

text \<open>The \<open>u16\<close>, \<open>u24\<close> and \<open>u32\<close> of the wire.\<close>

definition be_u16_of :: "bytes \<Rightarrow> u16" where "be_u16_of bs = of_nat (be_nat bs)"
definition be_u32_of :: "bytes \<Rightarrow> u32" where "be_u32_of bs = of_nat (be_nat bs)"
definition u16_bytes :: "u16 \<Rightarrow> bytes" where "u16_bytes x = be_bytes 2 (unat x)"
definition u24_bytes :: "u32 \<Rightarrow> bytes" where "u24_bytes x = be_bytes 3 (unat x)"
definition u32_bytes :: "u32 \<Rightarrow> bytes" where "u32_bytes x = be_bytes 4 (unat x)"

lemma length_u_bytes [simp]:
  "length (u16_bytes x) = 2" "length (u24_bytes y) = 3" "length (u32_bytes y) = 4"
  by (simp_all add: u16_bytes_def u24_bytes_def u32_bytes_def)

lemma be_u16_of_bytes [simp]: "be_u16_of (u16_bytes x) = x"
proof -
  have "unat x < 256 ^ 2" using unsigned_less [of x] by simp
  then show ?thesis by (simp add: be_u16_of_def u16_bytes_def be_nat_be_bytes del: be_bytes.simps)
qed

lemma be_u32_of_bytes [simp]: "be_u32_of (u32_bytes x) = x"
proof -
  have "unat x < 256 ^ 4" using unsigned_less [of x] by simp
  then show ?thesis by (simp add: be_u32_of_def u32_bytes_def be_nat_be_bytes del: be_bytes.simps)
qed

lemma be_u24_of_bytes: "unat x < 2 ^ 24 \<Longrightarrow> be_u32_of (u24_bytes x) = x"
  by (simp add: be_u32_of_def u24_bytes_def be_nat_be_bytes del: be_bytes.simps)

lemma u32_bytes_of: "length bs = 4 \<Longrightarrow> u32_bytes (be_u32_of bs) = bs"
proof -
  assume len: "length bs = 4"
  then have "be_nat bs < 256 ^ 4" using be_nat_less [of bs] by simp
  then have "unat (be_u32_of bs) = be_nat bs" by (simp add: be_u32_of_def unat_of_nat)
  then show ?thesis using be_bytes_be_nat [of bs] len by (simp add: u32_bytes_def)
qed

lemma unat_be_u32_of: "length bs \<le> 4 \<Longrightarrow> unat (be_u32_of bs) = be_nat bs"
proof -
  assume len: "length bs \<le> 4"
  have "be_nat bs < 256 ^ length bs" by (rule be_nat_less)
  also have "\<dots> \<le> 256 ^ 4" using len by (intro power_increasing) auto
  finally show ?thesis by (simp add: be_u32_of_def unat_of_nat)
qed

end
