(* ===== verification/H2_Parser.thy ===== *)
theory H2_Parser
  imports H2_Bytes
begin

text \<open>
  The HTTP/2 frame parser, from \<^verbatim>\<open>src/lib/src/protocol/mux/parser.rs\<close>: the wire constants, the frame
  header, and one parser per frame type. The parsing primitives come from the \<open>nom\<close> crate and the
  payload slices from the \<open>kawa\<close> crate; both are fields of the record \<open>Nom\<close>, an argument of every
  parser, and \<open>nom_documented\<close> states what their documentation promises. Log lines are left out.
\<close>

definition FRAME_HEADER_SIZE :: nat where "FRAME_HEADER_SIZE = 9"
definition STREAM_ID_MASK :: u32 where "STREAM_ID_MASK = 0x7FFFFFFF"
definition FLAG_END_STREAM :: octet where "FLAG_END_STREAM = 0x1"
definition FLAG_END_HEADERS :: octet where "FLAG_END_HEADERS = 0x4"
definition FLAG_PADDED :: octet where "FLAG_PADDED = 0x8"
definition FLAG_PRIORITY :: octet where "FLAG_PRIORITY = 0x20"
definition FLAG_ACK :: octet where "FLAG_ACK = 0x1"
definition PRIORITY_PAYLOAD_SIZE :: u32 where "PRIORITY_PAYLOAD_SIZE = 5"
definition RST_STREAM_PAYLOAD_SIZE :: u32 where "RST_STREAM_PAYLOAD_SIZE = 4"
definition SETTINGS_ENTRY_SIZE :: u32 where "SETTINGS_ENTRY_SIZE = 6"
definition PING_PAYLOAD_SIZE :: u32 where "PING_PAYLOAD_SIZE = 8"
definition WINDOW_UPDATE_PAYLOAD_SIZE :: u32 where "WINDOW_UPDATE_PAYLOAD_SIZE = 4"
definition GOAWAY_PAYLOAD_SIZE :: u32 where "GOAWAY_PAYLOAD_SIZE = 8"
definition SETTINGS_HEADER_TABLE_SIZE :: u16 where "SETTINGS_HEADER_TABLE_SIZE = 1"
definition SETTINGS_ENABLE_PUSH :: u16 where "SETTINGS_ENABLE_PUSH = 2"
definition SETTINGS_MAX_CONCURRENT_STREAMS :: u16 where "SETTINGS_MAX_CONCURRENT_STREAMS = 3"
definition SETTINGS_INITIAL_WINDOW_SIZE :: u16 where "SETTINGS_INITIAL_WINDOW_SIZE = 4"
definition SETTINGS_MAX_FRAME_SIZE :: u16 where "SETTINGS_MAX_FRAME_SIZE = 5"
definition SETTINGS_MAX_HEADER_LIST_SIZE :: u16 where "SETTINGS_MAX_HEADER_LIST_SIZE = 6"
definition SETTINGS_ENABLE_CONNECT_PROTOCOL :: u16 where "SETTINGS_ENABLE_CONNECT_PROTOCOL = 8"
definition SETTINGS_NO_RFC7540_PRIORITIES :: u16 where "SETTINGS_NO_RFC7540_PRIORITIES = 9"
definition SETTINGS_COUNT :: u32 where "SETTINGS_COUNT = 8"
definition MAX_SETTINGS_ENTRIES :: nat where "MAX_SETTINGS_ENTRIES = 64"
definition PRIORITY_UPDATE_MIN_PAYLOAD :: u32 where "PRIORITY_UPDATE_MIN_PAYLOAD = 4"
definition PRIORITY_UPDATE_MAX_VALUE :: nat where "PRIORITY_UPDATE_MAX_VALUE = 1024"

lemmas wire_consts =
  FRAME_HEADER_SIZE_def FLAG_END_STREAM_def FLAG_END_HEADERS_def FLAG_PADDED_def FLAG_PRIORITY_def
  FLAG_ACK_def PRIORITY_PAYLOAD_SIZE_def RST_STREAM_PAYLOAD_SIZE_def SETTINGS_ENTRY_SIZE_def
  PING_PAYLOAD_SIZE_def WINDOW_UPDATE_PAYLOAD_SIZE_def GOAWAY_PAYLOAD_SIZE_def
  MAX_SETTINGS_ENTRIES_def PRIORITY_UPDATE_MIN_PAYLOAD_def PRIORITY_UPDATE_MAX_VALUE_def SETTINGS_COUNT_def

datatype FrameType =
    Data
  | Headers
  | Priority
  | RstStream
  | Settings
  | PushPromise
  | Ping
  | GoAway
  | WindowUpdate
  | Continuation
  | PriorityUpdate
  | Unknown octet

record FrameHeader =
  fh_payload_len :: u32
  fh_frame_type :: FrameType
  fh_flags :: octet
  fh_stream_id :: u32

datatype H2Error =
    NoError
  | ProtocolError
  | InternalError
  | FlowControlError
  | SettingsTimeout
  | StreamClosed
  | FrameSizeError
  | RefusedStream
  | Cancel
  | CompressionError
  | ConnectError
  | EnhanceYourCalm
  | InadequateSecurity
  | HTTP11Required

text \<open>\<open>error_code as u32\<close>: the discriminants of the \<open>repr(u32)\<close> enum.\<close>

fun h2_error_code :: "H2Error \<Rightarrow> u32" where
  "h2_error_code NoError = 0x0"
| "h2_error_code ProtocolError = 0x1"
| "h2_error_code InternalError = 0x2"
| "h2_error_code FlowControlError = 0x3"
| "h2_error_code SettingsTimeout = 0x4"
| "h2_error_code StreamClosed = 0x5"
| "h2_error_code FrameSizeError = 0x6"
| "h2_error_code RefusedStream = 0x7"
| "h2_error_code Cancel = 0x8"
| "h2_error_code CompressionError = 0x9"
| "h2_error_code ConnectError = 0xa"
| "h2_error_code EnhanceYourCalm = 0xb"
| "h2_error_code InadequateSecurity = 0xc"
| "h2_error_code HTTP11Required = 0xd"

definition h2_error_try_from :: "u32 \<Rightarrow> u32 + H2Error" where
  "h2_error_try_from code =
     (if code = 0x0 then Inr NoError
      else if code = 0x1 then Inr ProtocolError
      else if code = 0x2 then Inr InternalError
      else if code = 0x3 then Inr FlowControlError
      else if code = 0x4 then Inr SettingsTimeout
      else if code = 0x5 then Inr StreamClosed
      else if code = 0x6 then Inr FrameSizeError
      else if code = 0x7 then Inr RefusedStream
      else if code = 0x8 then Inr Cancel
      else if code = 0x9 then Inr CompressionError
      else if code = 0xa then Inr ConnectError
      else if code = 0xb then Inr EnhanceYourCalm
      else if code = 0xc then Inr InadequateSecurity
      else if code = 0xd then Inr HTTP11Required
      else Inl code)"

fun h2_error_as_str :: "H2Error \<Rightarrow> string" where
  "h2_error_as_str NoError = ''NO_ERROR''"
| "h2_error_as_str ProtocolError = ''PROTOCOL_ERROR''"
| "h2_error_as_str InternalError = ''INTERNAL_ERROR''"
| "h2_error_as_str FlowControlError = ''FLOW_CONTROL_ERROR''"
| "h2_error_as_str SettingsTimeout = ''SETTINGS_TIMEOUT''"
| "h2_error_as_str StreamClosed = ''STREAM_CLOSED''"
| "h2_error_as_str FrameSizeError = ''FRAME_SIZE_ERROR''"
| "h2_error_as_str RefusedStream = ''REFUSED_STREAM''"
| "h2_error_as_str Cancel = ''CANCEL''"
| "h2_error_as_str CompressionError = ''COMPRESSION_ERROR''"
| "h2_error_as_str ConnectError = ''CONNECT_ERROR''"
| "h2_error_as_str EnhanceYourCalm = ''ENHANCE_YOUR_CALM''"
| "h2_error_as_str InadequateSecurity = ''INADEQUATE_SECURITY''"
| "h2_error_as_str HTTP11Required = ''HTTP_1_1_REQUIRED''"

definition h2_error_from_str :: "string \<Rightarrow> unit + H2Error" where
  "h2_error_from_str s =
     (if s = ''NO_ERROR'' then Inr NoError
      else if s = ''PROTOCOL_ERROR'' then Inr ProtocolError
      else if s = ''INTERNAL_ERROR'' then Inr InternalError
      else if s = ''FLOW_CONTROL_ERROR'' then Inr FlowControlError
      else if s = ''SETTINGS_TIMEOUT'' then Inr SettingsTimeout
      else if s = ''STREAM_CLOSED'' then Inr StreamClosed
      else if s = ''FRAME_SIZE_ERROR'' then Inr FrameSizeError
      else if s = ''REFUSED_STREAM'' then Inr RefusedStream
      else if s = ''CANCEL'' then Inr Cancel
      else if s = ''COMPRESSION_ERROR'' then Inr CompressionError
      else if s = ''CONNECT_ERROR'' then Inr ConnectError
      else if s = ''ENHANCE_YOUR_CALM'' then Inr EnhanceYourCalm
      else if s = ''INADEQUATE_SECURITY'' then Inr InadequateSecurity
      else if s = ''HTTP_1_1_REQUIRED'' then Inr HTTP11Required
      else Inl ())"

subsection \<open>Frames\<close>

text \<open>A \<open>Slice\<close> of the \<open>kawa\<close> crate is of the type \<open>'sl\<close>.\<close>

record 'sl DataPart =
  data_stream_id :: u32
  data_payload :: 'sl
  data_end_stream :: bool

record StreamDependency =
  dep_exclusive :: bool
  dep_stream_id :: u32

datatype PriorityPart = Rfc7540 StreamDependency octet | Rfc9218 octet bool

record 'sl HeadersPart =
  hdr_stream_id :: u32
  hdr_priority :: "PriorityPart option"
  hdr_block_fragment :: 'sl
  hdr_end_stream :: bool
  hdr_end_headers :: bool

record Setting =
  set_identifier :: u16
  set_value :: u32

datatype 'sl Frame =
    DataFrame "'sl DataPart"
  | HeadersFrame "'sl HeadersPart"
  | PriorityFrame u32 PriorityPart
  | RstStreamFrame u32 u32
  | SettingsFrame "Setting list" bool
  | PushPromiseFrame
  | PingFrame bytes bool
  | GoAwayFrame u32 u32 'sl
  | WindowUpdateFrame u32 u32
  | ContinuationFrame
  | PriorityUpdateFrame u32 bytes
  | UnknownFrame octet

fun frame_type_of :: "'sl Frame \<Rightarrow> FrameType" where
  "frame_type_of (DataFrame _) = Data"
| "frame_type_of (HeadersFrame _) = Headers"
| "frame_type_of (PriorityFrame _ _) = Priority"
| "frame_type_of (RstStreamFrame _ _) = RstStream"
| "frame_type_of (SettingsFrame _ _) = Settings"
| "frame_type_of PushPromiseFrame = PushPromise"
| "frame_type_of (PingFrame _ _) = Ping"
| "frame_type_of (GoAwayFrame _ _ _) = GoAway"
| "frame_type_of (WindowUpdateFrame _ _) = WindowUpdate"
| "frame_type_of ContinuationFrame = Continuation"
| "frame_type_of (PriorityUpdateFrame _ _) = PriorityUpdate"
| "frame_type_of (UnknownFrame raw) = Unknown raw"

subsection \<open>Results and the primitives of nom\<close>

text \<open>The error kinds of \<open>nom\<close> are of the type \<open>'k\<close>.\<close>

datatype 'k ParserErrorKind = Nom_kind 'k | H2 H2Error

record 'k ParserError =
  pe_input :: bytes
  pe_kind :: "'k ParserErrorKind"

definition new_h2 :: "bytes \<Rightarrow> H2Error \<Rightarrow> 'k ParserError" where
  "new_h2 input error = \<lparr>pe_input = input, pe_kind = H2 error\<rparr>"

definition from_error_kind :: "bytes \<Rightarrow> 'k \<Rightarrow> 'k ParserError" where
  "from_error_kind input kind = \<lparr>pe_input = input, pe_kind = Nom_kind kind\<rparr>"

datatype 'e Err = Incomplete | Error 'e | Failure 'e

type_synonym ('k, 'a) IResult = "'k ParserError Err + bytes \<times> 'a"

record ('k, 'sl) Nom =
  nom_be_u8 :: "bytes \<Rightarrow> ('k, octet) IResult"
  nom_be_u16 :: "bytes \<Rightarrow> ('k, u16) IResult"
  nom_be_u24 :: "bytes \<Rightarrow> ('k, u32) IResult"
  nom_be_u32 :: "bytes \<Rightarrow> ('k, u32) IResult"
  nom_take :: "u32 \<Rightarrow> bytes \<Rightarrow> ('k, bytes) IResult"
  nom_map_dependency :: "(bytes \<Rightarrow> ('k, u32) IResult) \<Rightarrow> (u32 \<Rightarrow> StreamDependency) \<Rightarrow>
    bytes \<Rightarrow> ('k, StreamDependency) IResult"
  nom_pair :: "(bytes \<Rightarrow> ('k, StreamDependency) IResult) \<Rightarrow> (bytes \<Rightarrow> ('k, octet) IResult) \<Rightarrow>
    bytes \<Rightarrow> ('k, StreamDependency \<times> octet) IResult"
  nom_complete_pair :: "(bytes \<Rightarrow> ('k, u16) IResult) \<Rightarrow> (bytes \<Rightarrow> ('k, u32) IResult) \<Rightarrow>
    bytes \<Rightarrow> ('k, u16 \<times> u32) IResult"
  nom_map_setting :: "(bytes \<Rightarrow> ('k, u16 \<times> u32) IResult) \<Rightarrow> (u16 \<times> u32 \<Rightarrow> Setting) \<Rightarrow>
    bytes \<Rightarrow> ('k, Setting) IResult"
  nom_many0 :: "(bytes \<Rightarrow> ('k, Setting) IResult) \<Rightarrow> bytes \<Rightarrow> ('k, Setting list) IResult"
  kawa_slice :: "bytes \<Rightarrow> bytes \<Rightarrow> 'sl"

subsection \<open>The frame header\<close>

definition convert_frame_type :: "octet \<Rightarrow> FrameType" where
  "convert_frame_type t =
     (if t = 0 then Data
      else if t = 1 then Headers
      else if t = 2 then Priority
      else if t = 3 then RstStream
      else if t = 4 then Settings
      else if t = 5 then PushPromise
      else if t = 6 then Ping
      else if t = 7 then GoAway
      else if t = 8 then WindowUpdate
      else if t = 9 then Continuation
      else if t = 0x10 then PriorityUpdate
      else Unknown t)"

text \<open>The \<open>match frame_type\<close> of \<open>frame_header\<close>.\<close>

fun valid_stream_id :: "FrameType \<Rightarrow> u32 \<Rightarrow> bool" where
  "valid_stream_id Data sid = (sid \<noteq> 0)"
| "valid_stream_id Headers sid = (sid \<noteq> 0)"
| "valid_stream_id Priority sid = (sid \<noteq> 0)"
| "valid_stream_id RstStream sid = (sid \<noteq> 0)"
| "valid_stream_id PushPromise sid = (sid \<noteq> 0)"
| "valid_stream_id Continuation sid = (sid \<noteq> 0)"
| "valid_stream_id Settings sid = (sid = 0)"
| "valid_stream_id Ping sid = (sid = 0)"
| "valid_stream_id GoAway sid = (sid = 0)"
| "valid_stream_id PriorityUpdate sid = (sid = 0)"
| "valid_stream_id WindowUpdate sid = True"
| "valid_stream_id (Unknown _) sid = True"

definition frame_header :: "('k, 'sl) Nom \<Rightarrow> bytes \<Rightarrow> u32 \<Rightarrow> ('k, FrameHeader) IResult" where
  "frame_header N input max_frame_size =
     and_then (nom_be_u24 N input) (\<lambda>(i, len).
     if max_frame_size < len then Inl (Failure (new_h2 i FrameSizeError))
     else and_then (nom_be_u8 N i) (\<lambda>(i, t).
       let type = convert_frame_type t in
       and_then (nom_be_u8 N i) (\<lambda>(i, fl).
       and_then (nom_be_u32 N i) (\<lambda>(i, raw_stream_id).
         let sid = raw_stream_id AND STREAM_ID_MASK in
         if \<not> valid_stream_id type sid then Inl (Failure (new_h2 i ProtocolError))
         else Inr (i, \<lparr>fh_payload_len = len, fh_frame_type = type, fh_flags = fl, fh_stream_id = sid\<rparr>)))))"

subsection \<open>Frame bodies\<close>

definition strip_padding :: "('k, 'sl) Nom \<Rightarrow> bytes \<Rightarrow> octet \<Rightarrow> bytes \<Rightarrow> ('k, octet) IResult" where
  "strip_padding N i fl error_input =
     and_then (if fl AND FLAG_PADDED \<noteq> 0 then nom_be_u8 N i else Inr (i, 0)) (\<lambda>(i, pad_length).
     if length i < unat pad_length then Inl (Failure (new_h2 error_input ProtocolError))
     else Inr (i, pad_length))"

definition unpad :: "bytes \<Rightarrow> octet \<Rightarrow> bytes \<Rightarrow> 'k ParserError Err + bytes" where
  "unpad i pad_length error_input =
     (if length i < unat pad_length then Inl (Failure (new_h2 error_input ProtocolError))
      else Inr (take (length i - unat pad_length) i))"

definition data_frame :: "('k, 'sl) Nom \<Rightarrow> bytes \<Rightarrow> FrameHeader \<Rightarrow> ('k, 'sl Frame) IResult" where
  "data_frame N input h =
     and_then (nom_take N (fh_payload_len h) input) (\<lambda>(remaining, i).
     and_then (strip_padding N i (fh_flags h) input) (\<lambda>(i, pad_length).
     and_then (unpad i pad_length input) (\<lambda>payload.
     Inr (remaining, DataFrame \<lparr>data_stream_id = fh_stream_id h, data_payload = kawa_slice N input payload,
        data_end_stream = (fh_flags h AND FLAG_END_STREAM \<noteq> 0)\<rparr>))))"

definition stream_dependency :: "('k, 'sl) Nom \<Rightarrow> bytes \<Rightarrow> ('k, StreamDependency) IResult" where
  "stream_dependency N i =
     and_then (nom_map_dependency N (nom_be_u32 N) (\<lambda>i.
       \<lparr>dep_exclusive = (i AND 0x80000000 \<noteq> 0), dep_stream_id = i AND STREAM_ID_MASK\<rparr>) i) (\<lambda>(i, stream).
     Inr (i, stream))"

definition headers_frame :: "('k, 'sl) Nom \<Rightarrow> bytes \<Rightarrow> FrameHeader \<Rightarrow> ('k, 'sl Frame) IResult" where
  "headers_frame N input h =
     and_then (nom_take N (fh_payload_len h) input) (\<lambda>(remaining, i).
     and_then (strip_padding N i (fh_flags h) input) (\<lambda>(i, pad_length).
     and_then
       (if fh_flags h AND FLAG_PRIORITY \<noteq> 0 then
          and_then (stream_dependency N i) (\<lambda>(i, dependency).
          and_then (nom_be_u8 N i) (\<lambda>(i, weight).
          Inr (i, Some (Rfc7540 dependency weight))))
        else Inr (i, None)) (\<lambda>(i, priority).
     and_then (unpad i pad_length input) (\<lambda>fragment.
     Inr (remaining, HeadersFrame \<lparr>hdr_stream_id = fh_stream_id h, hdr_priority = priority,
        hdr_block_fragment = kawa_slice N input fragment,
        hdr_end_stream = (fh_flags h AND FLAG_END_STREAM \<noteq> 0),
        hdr_end_headers = (fh_flags h AND FLAG_END_HEADERS \<noteq> 0)\<rparr>)))))"

definition priority_frame :: "('k, 'sl) Nom \<Rightarrow> bytes \<Rightarrow> FrameHeader \<Rightarrow> ('k, 'sl Frame) IResult" where
  "priority_frame N input h =
     and_then (nom_take N (fh_payload_len h) input) (\<lambda>(i, data).
     and_then (nom_pair N (stream_dependency N) (nom_be_u8 N) data) (\<lambda>(_, dependency, weight).
     Inr (i, PriorityFrame (fh_stream_id h) (Rfc7540 dependency weight))))"

definition rst_stream_frame :: "('k, 'sl) Nom \<Rightarrow> bytes \<Rightarrow> FrameHeader \<Rightarrow> ('k, 'sl Frame) IResult" where
  "rst_stream_frame N input h =
     and_then (nom_take N (fh_payload_len h) input) (\<lambda>(i, data).
     and_then (nom_be_u32 N data) (\<lambda>(_, error_code).
     Inr (i, RstStreamFrame (fh_stream_id h) error_code)))"

definition settings_frame :: "('k, 'sl) Nom \<Rightarrow> bytes \<Rightarrow> FrameHeader \<Rightarrow> ('k, 'sl Frame) IResult" where
  "settings_frame N input h =
     (if of_nat MAX_SETTINGS_ENTRIES < fh_payload_len h div SETTINGS_ENTRY_SIZE
      then Inl (Failure (new_h2 input FrameSizeError))
      else
        and_then (nom_take N (fh_payload_len h) input) (\<lambda>(i, data).
        and_then (nom_many0 N (nom_map_setting N (nom_complete_pair N (nom_be_u16 N) (nom_be_u32 N))
            (\<lambda>(identifier, v). \<lparr>set_identifier = identifier, set_value = v\<rparr>)) data) (\<lambda>(_, settings).
        Inr (i, SettingsFrame settings (fh_flags h AND FLAG_ACK \<noteq> 0)))))"

definition push_promise_frame :: "('k, 'sl) Nom \<Rightarrow> bytes \<Rightarrow> FrameHeader \<Rightarrow> ('k, 'sl Frame) IResult" where
  "push_promise_frame N input h =
     and_then (nom_take N (fh_payload_len h) input) (\<lambda>_.
     Inl (Failure (new_h2 input ProtocolError)))"

definition ping_frame :: "('k, 'sl) Nom \<Rightarrow> bytes \<Rightarrow> FrameHeader \<Rightarrow> ('k, 'sl Frame) IResult" where
  "ping_frame N input h =
     and_then (nom_take N (fh_payload_len h) input) (\<lambda>(i, data).
     Inr (i, PingFrame (take 8 data) (fh_flags h AND FLAG_ACK \<noteq> 0)))"

definition goaway_frame :: "('k, 'sl) Nom \<Rightarrow> bytes \<Rightarrow> FrameHeader \<Rightarrow> ('k, 'sl Frame) IResult" where
  "goaway_frame N input h =
     and_then (nom_take N (fh_payload_len h) input) (\<lambda>(remaining, i).
     and_then (nom_be_u32 N i) (\<lambda>(i, raw_last_stream_id).
     and_then (nom_be_u32 N i) (\<lambda>(additional_debug_data, error_code).
     Inr (remaining, GoAwayFrame (raw_last_stream_id AND STREAM_ID_MASK) error_code
       (kawa_slice N input additional_debug_data)))))"

definition window_update_frame :: "('k, 'sl) Nom \<Rightarrow> bytes \<Rightarrow> FrameHeader \<Rightarrow> ('k, 'sl Frame) IResult" where
  "window_update_frame N input h =
     and_then (nom_take N (fh_payload_len h) input) (\<lambda>(i, data).
     and_then (nom_be_u32 N data) (\<lambda>(_, increment).
     Inr (i, WindowUpdateFrame (fh_stream_id h) (increment AND STREAM_ID_MASK))))"

definition continuation_frame :: "('k, 'sl) Nom \<Rightarrow> bytes \<Rightarrow> FrameHeader \<Rightarrow> ('k, 'sl Frame) IResult" where
  "continuation_frame N input h =
     and_then (nom_take N (fh_payload_len h) input) (\<lambda>(remaining, _).
     Inr (remaining, ContinuationFrame))"

definition unknown_frame :: "('k, 'sl) Nom \<Rightarrow> bytes \<Rightarrow> FrameHeader \<Rightarrow> ('k, 'sl Frame) IResult" where
  "unknown_frame N input h =
     and_then (nom_take N (fh_payload_len h) input) (\<lambda>(remaining, _).
     Inr (remaining, UnknownFrame (case fh_frame_type h of Unknown t \<Rightarrow> t | _ \<Rightarrow> 0)))"

definition priority_update_frame :: "('k, 'sl) Nom \<Rightarrow> bytes \<Rightarrow> FrameHeader \<Rightarrow> ('k, 'sl Frame) IResult" where
  "priority_update_frame N input h =
     (if fh_payload_len h < PRIORITY_UPDATE_MIN_PAYLOAD then Inl (Failure (new_h2 input FrameSizeError))
      else if PRIORITY_UPDATE_MAX_VALUE < unat (fh_payload_len h - PRIORITY_UPDATE_MIN_PAYLOAD)
      then Inl (Failure (new_h2 input ProtocolError))
      else
        and_then (nom_take N (fh_payload_len h) input) (\<lambda>(remaining, payload).
        let raw_id_bytes = take (unat PRIORITY_UPDATE_MIN_PAYLOAD) payload;
            value_bytes = drop (unat PRIORITY_UPDATE_MIN_PAYLOAD) payload
        in Inr (remaining, PriorityUpdateFrame (be_u32_of raw_id_bytes AND STREAM_ID_MASK) value_bytes)))"

text \<open>The macro \<open>ensure_frame_size!\<close>.\<close>

definition ensure_frame_size :: "bytes \<Rightarrow> bool \<Rightarrow> ('k, 'a) IResult \<Rightarrow> ('k, 'a) IResult" where
  "ensure_frame_size i cond continue =
     (if \<not> cond then Inl (Failure (new_h2 i FrameSizeError)) else continue)"

definition frame_body :: "('k, 'sl) Nom \<Rightarrow> bytes \<Rightarrow> FrameHeader \<Rightarrow> ('k, 'sl Frame) IResult" where
  "frame_body N i h =
     (case fh_frame_type h of
        Data \<Rightarrow> data_frame N i h
      | Headers \<Rightarrow> headers_frame N i h
      | Priority \<Rightarrow> ensure_frame_size i (fh_payload_len h = PRIORITY_PAYLOAD_SIZE) (priority_frame N i h)
      | RstStream \<Rightarrow> ensure_frame_size i (fh_payload_len h = RST_STREAM_PAYLOAD_SIZE) (rst_stream_frame N i h)
      | PushPromise \<Rightarrow> push_promise_frame N i h
      | Continuation \<Rightarrow> continuation_frame N i h
      | Settings \<Rightarrow>
          ensure_frame_size i (\<not> (fh_flags h AND FLAG_ACK \<noteq> 0 \<and> fh_payload_len h \<noteq> 0))
            (ensure_frame_size i (fh_payload_len h mod SETTINGS_ENTRY_SIZE = 0) (settings_frame N i h))
      | Ping \<Rightarrow> ensure_frame_size i (fh_payload_len h = PING_PAYLOAD_SIZE) (ping_frame N i h)
      | GoAway \<Rightarrow> ensure_frame_size i (GOAWAY_PAYLOAD_SIZE \<le> fh_payload_len h) (goaway_frame N i h)
      | WindowUpdate \<Rightarrow> ensure_frame_size i (fh_payload_len h = WINDOW_UPDATE_PAYLOAD_SIZE) (window_update_frame N i h)
      | PriorityUpdate \<Rightarrow> priority_update_frame N i h
      | Unknown _ \<Rightarrow> unknown_frame N i h)"

subsection \<open>What nom documents\<close>

text \<open>
  The complete parsers of \<open>nom\<close> need \<open>n\<close> octets: without them they fail with the error kind
  \<open>eof\<close> at their input, with them they return the rest and the value. \<open>map\<close>, a tuple of parsers
  and \<open>complete\<close> do what their names say; \<open>many0\<close> collects results until its parser answers
  \<open>Err::Error\<close>, hands any other error up, and refuses a parser that succeeds without consuming.
\<close>

definition need :: "'k \<Rightarrow> nat \<Rightarrow> bytes \<Rightarrow> (bytes \<Rightarrow> 'a) \<Rightarrow> ('k, 'a) IResult" where
  "need eof n i f =
     (if length i < n then Inl (Error (from_error_kind i eof)) else Inr (drop n i, f (take n i)))"

definition map_documented ::
  "((bytes \<Rightarrow> ('k, 'a) IResult) \<Rightarrow> ('a \<Rightarrow> 'b) \<Rightarrow> bytes \<Rightarrow> ('k, 'b) IResult) \<Rightarrow> bool" where
  "map_documented mp \<longleftrightarrow> (\<forall>p f i. mp p f i = and_then (p i) (\<lambda>(r, x). Inr (r, f x)))"

definition in_sequence ::
  "(bytes \<Rightarrow> ('k, 'a) IResult) \<Rightarrow> (bytes \<Rightarrow> ('k, 'b) IResult) \<Rightarrow> bytes \<Rightarrow> ('k, 'a \<times> 'b) IResult" where
  "in_sequence p q i = and_then (p i) (\<lambda>(r, x). and_then (q r) (\<lambda>(r, y). Inr (r, x, y)))"

definition completed :: "'k \<Rightarrow> bytes \<Rightarrow> ('k, 'a) IResult \<Rightarrow> ('k, 'a) IResult" where
  "completed kind i r = (case r of Inl Incomplete \<Rightarrow> Inl (Error (from_error_kind i kind)) | _ \<Rightarrow> r)"

definition many0_documented ::
  "'k \<Rightarrow> ((bytes \<Rightarrow> ('k, 'a) IResult) \<Rightarrow> bytes \<Rightarrow> ('k, 'a list) IResult) \<Rightarrow> bool" where
  "many0_documented kind many \<longleftrightarrow>
     (\<forall>p i. (\<forall>i r x. p i = Inr (r, x) \<longrightarrow> length r \<le> length i) \<longrightarrow>
        many p i =
          (case p i of
             Inl (Error _) \<Rightarrow> Inr (i, [])
           | Inl e \<Rightarrow> Inl e
           | Inr (r, x) \<Rightarrow>
               if length r = length i then Inl (Error (from_error_kind i kind))
               else and_then (many p r) (\<lambda>(r, xs). Inr (r, x # xs))))"

definition nom_documented :: "'k \<Rightarrow> ('k, 'sl) Nom \<Rightarrow> bool" where
  "nom_documented eof N \<longleftrightarrow>
     (\<forall>i. nom_be_u8 N i = need eof 1 i hd) \<and>
     (\<forall>i. nom_be_u16 N i = need eof 2 i be_u16_of) \<and>
     (\<forall>i. nom_be_u24 N i = need eof 3 i be_u32_of) \<and>
     (\<forall>i. nom_be_u32 N i = need eof 4 i be_u32_of) \<and>
     (\<forall>n i. nom_take N n i = need eof (unat n) i (\<lambda>bs. bs)) \<and>
     map_documented (nom_map_dependency N) \<and>
     map_documented (nom_map_setting N) \<and>
     (\<forall>p q i. nom_pair N p q i = in_sequence p q i) \<and>
     (\<exists>kind. \<forall>p q i. nom_complete_pair N p q i = completed kind i (in_sequence p q i)) \<and>
     (\<exists>kind. many0_documented kind (nom_many0 N))"

text \<open>An instance, so that the hypothesis is known to hold of something that computes.\<close>

fun many0_fuel :: "'k \<Rightarrow> nat \<Rightarrow> (bytes \<Rightarrow> ('k, 'a) IResult) \<Rightarrow> bytes \<Rightarrow> ('k, 'a list) IResult" where
  "many0_fuel kind 0 p i = Inr (i, [])"
| "many0_fuel kind (Suc n) p i =
     (case p i of
        Inl (Error _) \<Rightarrow> Inr (i, [])
      | Inl e \<Rightarrow> Inl e
      | Inr (r, x) \<Rightarrow>
          if length r = length i then Inl (Error (from_error_kind i kind))
          else and_then (many0_fuel kind n p r) (\<lambda>(r, xs). Inr (r, x # xs)))"

definition nom_complete :: "(nat, bytes) Nom" where
  "nom_complete =
     \<lparr>nom_be_u8 = (\<lambda>i. need 0 1 i hd), nom_be_u16 = (\<lambda>i. need 0 2 i be_u16_of),
      nom_be_u24 = (\<lambda>i. need 0 3 i be_u32_of), nom_be_u32 = (\<lambda>i. need 0 4 i be_u32_of),
      nom_take = (\<lambda>n i. need 0 (unat n) i (\<lambda>bs. bs)),
      nom_map_dependency = (\<lambda>p f i. and_then (p i) (\<lambda>(r, x). Inr (r, f x))),
      nom_pair = in_sequence,
      nom_complete_pair = (\<lambda>p q i. completed 1 i (in_sequence p q i)),
      nom_map_setting = (\<lambda>p f i. and_then (p i) (\<lambda>(r, x). Inr (r, f x))),
      nom_many0 = (\<lambda>p i. many0_fuel 2 (Suc (length i)) p i),
      kawa_slice = (\<lambda>input data. data)\<rparr>"

lemma many0_fuel_mono:
  assumes "\<forall>i r x. p i = Inr (r, x) \<longrightarrow> length r \<le> length i" and "length i < n" and "length i < m"
  shows "many0_fuel kind n p i = many0_fuel kind m p i"
  using assms(2,3)
proof (induction n arbitrary: m i)
  case (Suc n)
  then obtain m' where m: "m = Suc m'" by (cases m) auto
  have "many0_fuel kind n p r = many0_fuel kind m' p r" if "p i = Inr (r, x)" "length r \<noteq> length i" for r x
  proof -
    have "length r < length i" using assms(1) that by (metis le_neq_implies_less)
    with Suc.prems m show ?thesis by (intro Suc.IH) auto
  qed
  then show ?case by (auto simp: m split: sum.split Err.split)
qed simp

lemma nom_complete_documented: "nom_documented 0 nom_complete"
proof -
  have "many0_documented 2 (\<lambda>(p :: bytes \<Rightarrow> (nat, 'a) IResult) i. many0_fuel 2 (Suc (length i)) p i)"
    unfolding many0_documented_def
  proof (intro allI impI)
    fix p :: "bytes \<Rightarrow> (nat, 'a) IResult" and i
    assume shrink: "\<forall>i r x. p i = Inr (r, x) \<longrightarrow> length r \<le> length i"
    have "many0_fuel 2 (length i) p r = many0_fuel 2 (Suc (length r)) p r"
      if "p i = Inr (r, x)" "length r \<noteq> length i" for r x
    proof -
      have "length r < length i" using shrink that by (metis le_neq_implies_less)
      then show ?thesis by (intro many0_fuel_mono [OF shrink]) auto
    qed
    then show "many0_fuel 2 (Suc (length i)) p i =
        (case p i of Inl (Error _) \<Rightarrow> Inr (i, []) | Inl e \<Rightarrow> Inl e
         | Inr (r, x) \<Rightarrow> if length r = length i then Inl (Error (from_error_kind i 2))
             else and_then (many0_fuel 2 (Suc (length r)) p r) (\<lambda>(r, xs). Inr (r, x # xs)))"
      by (auto split: sum.split Err.split simp del: many0_fuel.simps(2) simp: many0_fuel.simps(2) [of 2 "length i"])
  qed
  then show ?thesis
    unfolding nom_documented_def map_documented_def nom_complete_def by auto
qed

end
