(* ===== verification/H2_Framing.thy ===== *)
theory H2_Framing
  imports H2_Parser
begin

text \<open>
  Properties of the frame parser of \<^verbatim>\<open>src/lib/src/protocol/mux/parser.rs\<close>, for every parsing library
  that behaves as \<open>nom\<close> documents: what the header parser returns on every input, that a frame
  body consumes exactly its declared payload, how padding and SETTINGS lists are read, and the
  error codes.
\<close>

lemma nom_laws:
  assumes "nom_documented eof N"
  shows "nom_be_u8 N i = need eof 1 i hd" "nom_be_u16 N i = need eof 2 i be_u16_of"
    "nom_be_u24 N i = need eof 3 i be_u32_of" "nom_be_u32 N i = need eof 4 i be_u32_of"
    "nom_take N n i = need eof (unat n) i (\<lambda>bs. bs)" "nom_pair N p q i = in_sequence p q i"
    "nom_map_dependency N p2 f2 i = and_then (p2 i) (\<lambda>(r, x). Inr (r, f2 x))"
    "nom_map_setting N p3 f3 i = and_then (p3 i) (\<lambda>(r, x). Inr (r, f3 x))"
  using assms unfolding nom_documented_def map_documented_def by blast+

lemma need_Inr: "need eof n i f = Inr (r, x) \<longleftrightarrow> n \<le> length i \<and> r = drop n i \<and> x = f (take n i)"
  by (auto simp: need_def)

lemma and_then_Inr: "and_then m f = Inr y \<longleftrightarrow> (\<exists>x. m = Inr x \<and> f x = Inr y)"
  by (cases m) auto

lemma hd_take_1: "i \<noteq> [] \<Longrightarrow> hd (take 1 i) = hd i"
  by (cases i) auto

subsection \<open>The header\<close>

definition header_len :: "bytes \<Rightarrow> u32" where "header_len input = be_u32_of (take 3 input)"
definition header_type :: "bytes \<Rightarrow> FrameType" where "header_type input = convert_frame_type (input ! 3)"
definition header_stream :: "bytes \<Rightarrow> u32" where
  "header_stream input = be_u32_of (take 4 (drop 5 input)) AND STREAM_ID_MASK"

lemma frame_header_long:
  assumes "nom_documented eof N" and "9 \<le> length input"
  shows "frame_header N input limit =
    (if limit < header_len input then Inl (Failure (new_h2 (drop 3 input) FrameSizeError))
     else if \<not> valid_stream_id (header_type input) (header_stream input)
     then Inl (Failure (new_h2 (drop 9 input) ProtocolError))
     else Inr (drop 9 input, \<lparr>fh_payload_len = header_len input, fh_frame_type = header_type input,
       fh_flags = input ! 4, fh_stream_id = header_stream input\<rparr>))"
proof -
  have "hd (drop 3 input) = input ! 3" "hd (drop 4 input) = input ! 4"
    using assms(2) by (simp_all add: hd_drop_conv_nth)
  moreover have "take 1 (drop n input) = [hd (drop n input)]" if "n < 9" for n
    using assms(2) that by (cases "drop n input") auto
  moreover have "\<not> length input - 5 < 4" using assms(2) by simp
  ultimately show ?thesis
    using assms(2)
    by (simp add: frame_header_def nom_laws [OF assms(1)] need_def header_len_def header_type_def
        header_stream_def Let_def)
qed

lemma frame_header_short:
  assumes "nom_documented eof N" and "length input < 9"
  shows "frame_header N input limit =
    (if 3 \<le> length input \<and> limit < header_len input then Inl (Failure (new_h2 (drop 3 input) FrameSizeError))
     else Inl (Error (from_error_kind
       (if length input < 3 then input else if length input < 4 then drop 3 input
        else if length input < 5 then drop 4 input else drop 5 input) eof)))"
  using assms(2)
  by (auto simp: frame_header_def nom_laws [OF assms(1)] need_def header_len_def Let_def)

subsection \<open>Bodies consume exactly the declared payload\<close>

text \<open>Every body parser starts with \<open>take(header.payload_len)\<close>.\<close>

lemma take_payload:
  assumes "nom_documented eof N"
  shows "and_then (nom_take N n input) f =
    (if length input < unat n then Inl (Error (from_error_kind input eof))
     else f (drop (unat n) input, take (unat n) input))"
  by (simp add: nom_laws [OF assms] need_def)

lemmas body_defs = data_frame_def headers_frame_def priority_frame_def rst_stream_frame_def
  settings_frame_def push_promise_frame_def ping_frame_def goaway_frame_def window_update_frame_def
  continuation_frame_def unknown_frame_def priority_update_frame_def

lemma frame_body_consumes:
  assumes "nom_documented eof N" and "frame_body N i h = Inr (rest, f)"
  shows "unat (fh_payload_len h) \<le> length i \<and> rest = drop (unat (fh_payload_len h)) i \<and>
    frame_type_of f = fh_frame_type h"
proof (cases "fh_frame_type h")
  case PushPromise
  with assms(2) show ?thesis
    by (auto simp: frame_body_def push_promise_frame_def take_payload [OF assms(1)] split: if_splits)
qed (use assms(2) in \<open>auto simp: frame_body_def ensure_frame_size_def body_defs take_payload [OF assms(1)]
      and_then_Inr Let_def split: if_splits prod.splits\<close>)

subsection \<open>SETTINGS lists\<close>

text \<open>The list a SETTINGS payload stands for: one entry per six octets.\<close>

fun settings_of :: "bytes \<Rightarrow> Setting list" where
  "settings_of data =
     (if length data < 6 then []
      else \<lparr>set_identifier = be_u16_of (take 2 data), set_value = be_u32_of (take 4 (drop 2 data))\<rparr> #
        settings_of (drop 6 data))"

declare settings_of.simps [simp del]

lemma length_settings_of: "length (settings_of data) = length data div 6"
proof (induction data rule: settings_of.induct)
  case (1 data)
  then show ?case
    by (cases "length data < 6") (simp_all add: settings_of.simps [of data] le_div_geq)
qed

definition setting_entry :: "('k, 'sl) Nom \<Rightarrow> bytes \<Rightarrow> ('k, Setting) IResult" where
  "setting_entry N = nom_map_setting N (nom_complete_pair N (nom_be_u16 N) (nom_be_u32 N))
     (\<lambda>(identifier, v). \<lparr>set_identifier = identifier, set_value = v\<rparr>)"

lemma setting_entry_eq:
  assumes "nom_documented eof N"
  shows "6 \<le> length i \<Longrightarrow> setting_entry N i = Inr (drop 6 i,
      \<lparr>set_identifier = be_u16_of (take 2 i), set_value = be_u32_of (take 4 (drop 2 i))\<rparr>)"
    and "length i < 6 \<Longrightarrow> \<exists>e. setting_entry N i = Inl (Error e)"
proof -
  obtain kind where k: "\<And>p q i. nom_complete_pair N p q i = completed kind i (in_sequence p q i)"
    using assms unfolding nom_documented_def by blast
  show "6 \<le> length i \<Longrightarrow> setting_entry N i = Inr (drop 6 i,
      \<lparr>set_identifier = be_u16_of (take 2 i), set_value = be_u32_of (take 4 (drop 2 i))\<rparr>)"
    by (simp add: setting_entry_def nom_laws [OF assms] k completed_def in_sequence_def need_def)
  show "length i < 6 \<Longrightarrow> \<exists>e. setting_entry N i = Inl (Error e)"
    by (simp add: setting_entry_def nom_laws [OF assms] k completed_def in_sequence_def need_def)
qed

lemma many0_settings:
  assumes "nom_documented eof N"
  shows "\<exists>r. nom_many0 N (setting_entry N) data = Inr (r, settings_of data)"
proof -
  obtain kind where many: "many0_documented kind (nom_many0 N)"
    using assms unfolding nom_documented_def by blast
  have shrink: "length r \<le> length i" if "setting_entry N i = Inr (r, x)" for i r x
  proof (cases "length i < 6")
    case True
    with setting_entry_eq(2) [OF assms] that show ?thesis by fastforce
  next
    case False
    with setting_entry_eq(1) [OF assms, of i] that show ?thesis by auto
  qed
  note step = many [unfolded many0_documented_def, rule_format, OF shrink]
  show ?thesis
  proof (induction data rule: settings_of.induct)
    case (1 data)
    show ?case
    proof (cases "length data < 6")
      case True
      with setting_entry_eq(2) [OF assms] obtain e where "setting_entry N data = Inl (Error e)" by blast
      with True show ?thesis by (simp add: step settings_of.simps)
    next
      case False
      with 1 obtain r where "nom_many0 N (setting_entry N) (drop 6 data) = Inr (r, settings_of (drop 6 data))"
        by blast
      with False show ?thesis
        by (subst step) (simp_all add: setting_entry_eq(1) [OF assms] settings_of.simps [of data])
    qed
  qed
qed

lemma settings_frame_eq:
  assumes "nom_documented eof N"
  shows "settings_frame N input h =
    (if 64 < fh_payload_len h div 6 then Inl (Failure (new_h2 input FrameSizeError))
     else if length input < unat (fh_payload_len h) then Inl (Error (from_error_kind input eof))
     else Inr (drop (unat (fh_payload_len h)) input,
       SettingsFrame (settings_of (take (unat (fh_payload_len h)) input)) (fh_flags h AND 1 \<noteq> 0)))"
proof -
  obtain r where "nom_many0 N (setting_entry N) (take (unat (fh_payload_len h)) input) =
      Inr (r, settings_of (take (unat (fh_payload_len h)) input))"
    using many0_settings [OF assms] by blast
  then show ?thesis
    by (simp add: settings_frame_def take_payload [OF assms] wire_consts setting_entry_def)
qed

subsection \<open>Padding\<close>

text \<open>
  What padding leaves of a payload: everything without the flag; with it, what lies between the
  pad-length octet and the padding, or \<open>None\<close> when the padding does not fit.
\<close>

definition padded_content :: "octet \<Rightarrow> bytes \<Rightarrow> bytes option" where
  "padded_content fl payload =
     (if fl AND FLAG_PADDED = 0 then Some payload
      else if length payload - 1 < unat (hd payload) then None
      else Some (take (length payload - 1 - unat (hd payload)) (drop 1 payload)))"

lemma strip_unpad:
  assumes "nom_documented eof N"
  shows "and_then (strip_padding N p fl input) (\<lambda>(i, pad). and_then (unpad i pad input) f) =
    (if fl AND FLAG_PADDED \<noteq> 0 \<and> p = [] then Inl (Error (from_error_kind [] eof))
     else (case padded_content fl p of
         None \<Rightarrow> Inl (Failure (new_h2 input ProtocolError))
       | Some content \<Rightarrow> f content))"
  by (cases p) (auto simp: strip_padding_def unpad_def padded_content_def nom_laws [OF assms] need_def)

lemma data_frame_eq:
  assumes "nom_documented eof N"
  shows "data_frame N input h =
    (let n = unat (fh_payload_len h) in
     if length input < n then Inl (Error (from_error_kind input eof))
     else if fh_flags h AND FLAG_PADDED \<noteq> 0 \<and> n = 0 then Inl (Error (from_error_kind [] eof))
     else (case padded_content (fh_flags h) (take n input) of
         None \<Rightarrow> Inl (Failure (new_h2 input ProtocolError))
       | Some content \<Rightarrow> Inr (drop n input, DataFrame \<lparr>data_stream_id = fh_stream_id h,
           data_payload = kawa_slice N input content,
           data_end_stream = (fh_flags h AND FLAG_END_STREAM \<noteq> 0)\<rparr>)))"
  by (auto simp: data_frame_def take_payload [OF assms] strip_unpad [OF assms] Let_def)

subsection \<open>Sizes\<close>

text \<open>The payload lengths RFC 9113 and RFC 9218 make a FRAME_SIZE_ERROR, with the cap on SETTINGS.\<close>

fun size_violation :: "FrameType \<Rightarrow> octet \<Rightarrow> nat \<Rightarrow> bool" where
  "size_violation Priority fl n = (n \<noteq> 5)"
| "size_violation RstStream fl n = (n \<noteq> 4)"
| "size_violation Settings fl n = (fl AND 1 \<noteq> 0 \<and> n \<noteq> 0 \<or> n mod 6 \<noteq> 0 \<or> 64 < n div 6)"
| "size_violation Ping fl n = (n \<noteq> 8)"
| "size_violation GoAway fl n = (n < 8)"
| "size_violation WindowUpdate fl n = (n \<noteq> 4)"
| "size_violation PriorityUpdate fl n = (n < 4)"
| "size_violation _ fl n = False"

lemma u32_eq_iff: "(x :: u32) = numeral k \<longleftrightarrow> unat x = unat (numeral k :: u32)"
  by (simp add: word_unat_eq_iff)

lemmas u32_nat = word_less_nat_alt word_le_nat_alt unat_div unat_mod

lemma settings_size:
  fixes len :: u32
  shows "(len mod 6 = 0) = (unat len mod 6 = 0)" "(64 < len div 6) = (64 < unat len div 6)"
  by (simp_all add: u32_nat word_unat_eq_iff)

lemma frame_body_size_violation:
  assumes "size_violation (fh_frame_type h) (fh_flags h) (unat (fh_payload_len h))"
  shows "frame_body N i h = Inl (Failure (new_h2 i FrameSizeError))"
proof (cases "fh_frame_type h")
  case Settings
  with assms show ?thesis
    by (auto simp: frame_body_def ensure_frame_size_def wire_consts settings_frame_def settings_size)
qed (use assms in \<open>auto simp: frame_body_def ensure_frame_size_def wire_consts u32_eq_iff u32_nat
      priority_update_frame_def\<close>)

text \<open>The frames whose body only has a size to respect.\<close>

fun plain_body :: "FrameType \<Rightarrow> bool" where
  "plain_body Data = False"
| "plain_body Headers = False"
| "plain_body PushPromise = False"
| "plain_body PriorityUpdate = False"
| "plain_body _ = True"

lemma frame_body_accepts:
  assumes "nom_documented eof N" and "plain_body (fh_frame_type h)"
    and "\<not> size_violation (fh_frame_type h) (fh_flags h) (unat (fh_payload_len h))"
    and "unat (fh_payload_len h) \<le> length i"
  shows "\<exists>f. frame_body N i h = Inr (drop (unat (fh_payload_len h)) i, f)"
proof (cases "fh_frame_type h")
  case Settings
  with assms(3,4) show ?thesis
    by (simp add: frame_body_def ensure_frame_size_def wire_consts settings_frame_eq [OF assms(1)]
        settings_size unat_eq_zero)
qed (use assms(2-4) in \<open>auto simp: frame_body_def ensure_frame_size_def wire_consts u32_eq_iff u32_nat
      body_defs take_payload [OF assms(1)] stream_dependency_def nom_laws [OF assms(1)] need_def
      in_sequence_def\<close>)

subsection \<open>Properties\<close>

text \<open>
  the header parser on nine octets or more. It refuses a length above the negotiated maximum
  with FRAME_SIZE_ERROR before anything else, then a stream identifier the frame type does not
  allow with PROTOCOL_ERROR, and otherwise returns the four fields, the reserved bit cleared,
  and the input after exactly nine octets.
\<close>

theorem frame_header_decodes:
  assumes "nom_documented eof N" and "9 \<le> length input"
  shows "frame_header N input limit =
    (if limit < header_len input then Inl (Failure (new_h2 (drop 3 input) FrameSizeError))
     else if \<not> valid_stream_id (header_type input) (header_stream input)
     then Inl (Failure (new_h2 (drop 9 input) ProtocolError))
     else Inr (drop 9 input, \<lparr>fh_payload_len = header_len input, fh_frame_type = header_type input,
       fh_flags = input ! 4, fh_stream_id = header_stream input\<rparr>))"
  by (rule frame_header_long [OF assms])

theorem frame_header_decodes_witness:
  "frame_header nom_complete [0, 0, 4, 8, 0, 0x80, 0, 0, 5] 16384 =
     Inr ([], \<lparr>fh_payload_len = 4, fh_frame_type = WindowUpdate, fh_flags = 0, fh_stream_id = 5\<rparr>)"
  using frame_header_decodes [OF nom_complete_documented, of "[0, 0, 4, 8, 0, 0x80, 0, 0, 5]" 16384]
  by (simp add: header_len_def header_type_def header_stream_def be_u32_of_def convert_frame_type_def
      STREAM_ID_MASK_def)

text \<open>
  C16: the frame stream cannot lose its place. A body that is accepted consumes exactly the octets
  its header declared, whatever the frame type, padding or contents, and is of the declared type.
\<close>

theorem frame_body_exact:
  assumes "nom_documented eof N" and "frame_body N i h = Inr (rest, f)"
  shows "unat (fh_payload_len h) \<le> length i \<and> rest = drop (unat (fh_payload_len h)) i \<and>
    frame_type_of f = fh_frame_type h"
  by (rule frame_body_consumes [OF assms])

theorem frame_body_exact_witness:
  "frame_type_of (WindowUpdateFrame 5 7 :: bytes Frame) = WindowUpdate \<and>
   frame_body nom_complete [0, 0, 0, 7, 9] \<lparr>fh_payload_len = 4, fh_frame_type = WindowUpdate, fh_flags = 0, fh_stream_id = 5\<rparr> =
     Inr ([9], WindowUpdateFrame 5 7)"
proof -
  let ?h = "\<lparr>fh_payload_len = 4, fh_frame_type = WindowUpdate, fh_flags = 0, fh_stream_id = 5\<rparr>"
  have "frame_body nom_complete [0, 0, 0, 7, 9] ?h = Inr ([9], WindowUpdateFrame 5 7)"
    by (simp add: frame_body_def ensure_frame_size_def wire_consts window_update_frame_def
        nom_laws [OF nom_complete_documented] need_def be_u32_of_def STREAM_ID_MASK_def)
  with frame_body_exact [OF nom_complete_documented this] show ?thesis by simp
qed



text \<open>
  a SETTINGS frame that is accepted yields one entry per six octets of its payload, read in
  order, at most 64 of them, and none when it is an acknowledgement.
\<close>

theorem settings_entries_bounded:
  assumes "nom_documented eof N" and "fh_frame_type h = Settings"
    and "frame_body N i h = Inr (rest, SettingsFrame ss ack)"
  shows "ss = settings_of (take (unat (fh_payload_len h)) i) \<and> 6 * length ss = unat (fh_payload_len h) \<and>
    length ss \<le> 64 \<and> (if ack then ss = [] else True)"
proof -
  let ?n = "unat (fh_payload_len h)"
  have ok: "\<not> size_violation Settings (fh_flags h) ?n"
  proof
    assume "size_violation Settings (fh_flags h) ?n"
    with frame_body_size_violation [of h N i] assms(2,3) show False by simp
  qed
  then have s: "ss = settings_of (take ?n i)" "ack = (fh_flags h AND 1 \<noteq> 0)"
    using assms(2,3) by (auto simp: frame_body_def ensure_frame_size_def settings_frame_eq [OF assms(1)] split: if_splits)
  have "?n \<le> length i" using frame_body_consumes [OF assms(1,3)] by simp
  with s(1) have "length ss = ?n div 6" by (simp add: length_settings_of min_def)
  with s ok show ?thesis by auto
qed

theorem settings_entries_bounded_witness:
  "6 * length (settings_of [0, 3, 0, 0, 0, 100]) = 6"
proof -
  let ?h = "\<lparr>fh_payload_len = 6, fh_frame_type = Settings, fh_flags = 0, fh_stream_id = 0\<rparr>"
  have "frame_body nom_complete [0, 3, 0, 0, 0, 100] ?h =
      Inr ([], SettingsFrame (settings_of [0, 3, 0, 0, 0, 100]) False)"
    by (simp add: frame_body_def ensure_frame_size_def wire_consts settings_frame_eq [OF nom_complete_documented])
  from settings_entries_bounded [OF nom_complete_documented _ this] show ?thesis by simp
qed

text \<open>
  padding of DATA frames. With the PADDED flag the content is what lies between the pad-length
  octet and the padding; padding that does not fit beside it is refused with PROTOCOL_ERROR;
  without the flag the whole payload is content. Input that has not fully arrived is never
  accepted.
\<close>

theorem data_frame_padding:
  assumes "nom_documented eof N"
  shows "data_frame N input h =
    (let n = unat (fh_payload_len h) in
     if length input < n then Inl (Error (from_error_kind input eof))
     else if fh_flags h AND FLAG_PADDED \<noteq> 0 \<and> n = 0 then Inl (Error (from_error_kind [] eof))
     else (case padded_content (fh_flags h) (take n input) of
         None \<Rightarrow> Inl (Failure (new_h2 input ProtocolError))
       | Some content \<Rightarrow> Inr (drop n input, DataFrame \<lparr>data_stream_id = fh_stream_id h,
           data_payload = kawa_slice N input content,
           data_end_stream = (fh_flags h AND FLAG_END_STREAM \<noteq> 0)\<rparr>)))"
  by (rule data_frame_eq [OF assms])

theorem data_frame_padding_witness:
  "data_frame nom_complete [2, 65, 66, 0, 0] \<lparr>fh_payload_len = 5, fh_frame_type = Data, fh_flags = 9, fh_stream_id = 1\<rparr> =
     Inr ([], DataFrame \<lparr>data_stream_id = 1, data_payload = [65, 66], data_end_stream = True\<rparr>)"
  using data_frame_padding [OF nom_complete_documented, of "[2, 65, 66, 0, 0]"
      "\<lparr>fh_payload_len = 5, fh_frame_type = Data, fh_flags = 9, fh_stream_id = 1\<rparr>"]
  by (simp add: padded_content_def wire_consts nom_complete_def)

text \<open>
  the error codes are a bijection with their wire values and with their names: each of the
  two conversions back succeeds exactly on the code, or the name, of the error it returns.
\<close>

theorem h2_error_conversions:
  "(h2_error_try_from code = Inr e \<longleftrightarrow> code = h2_error_code e) \<and>
   (h2_error_from_str s = Inr e \<longleftrightarrow> s = h2_error_as_str e)"
proof -
  have "code = h2_error_code e" if "h2_error_try_from code = Inr e"
    using that by (auto simp: h2_error_try_from_def split: if_splits)
  moreover have "s = h2_error_as_str e" if "h2_error_from_str s = Inr e"
    using that by (auto simp: h2_error_from_str_def split: if_splits)
  moreover have "h2_error_try_from (h2_error_code e) = Inr e"
    by (cases e) (simp_all add: h2_error_try_from_def)
  moreover have "h2_error_from_str (h2_error_as_str e) = Inr e"
    by (cases e) (simp_all add: h2_error_from_str_def)
  ultimately show ?thesis by blast
qed

end
