(* ===== verification/H2_Serializer.thy ===== *)
theory H2_Serializer
  imports H2_Framing
begin

text \<open>
  The frame serializer, from \<^verbatim>\<open>src/lib/src/protocol/mux/serializer.rs\<close>, and its round trip with the
  parser. The byte generators come from the \<open>cookie_factory\<close> crate: they are the fields of the
  record \<open>CookieFactory\<close>, an argument of every generator, and \<open>cookie_documented\<close> states what the
  crate documents. A \<open>&mut [u8]\<close> that is written to is returned as the second component of the
  result; the first is the error or the number of octets written at its start.
\<close>

record H2Settings =
  settings_header_table_size :: u32
  settings_enable_push :: bool
  settings_max_concurrent_streams :: u32
  settings_initial_window_size :: u32
  settings_max_frame_size :: u32
  settings_max_header_list_size :: u32
  settings_enable_connect_protocol :: bool
  settings_no_rfc7540_priorities :: bool

definition SETTINGS_ACKNOWLEDGEMENT :: bytes where
  "SETTINGS_ACKNOWLEDGEMENT = [0, 0, 0, 4, 1, 0, 0, 0, 0]"

definition PING_ACKNOWLEDGEMENT_HEADER :: bytes where
  "PING_ACKNOWLEDGEMENT_HEADER = [0, 0, 8, 6, 1, 0, 0, 0, 0]"

record ('s, 'g) CookieFactory =
  cf_be_u8 :: "octet \<Rightarrow> 's"
  cf_be_u16 :: "u16 \<Rightarrow> 's"
  cf_be_u24 :: "u32 \<Rightarrow> 's"
  cf_be_u32 :: "u32 \<Rightarrow> 's"
  cf_slice :: "bytes \<Rightarrow> 's"
  cf_tuple :: "'s list \<Rightarrow> 's"
  cf_gen :: "'s \<Rightarrow> bytes \<Rightarrow> ('g + nat) \<times> bytes"

text \<open>Writing into the rest of a buffer whose first \<open>n\<close> octets are written already.\<close>

definition write_after :: "nat \<Rightarrow> bytes \<Rightarrow> (bytes \<Rightarrow> ('g + nat) \<times> bytes) \<Rightarrow> ('g + nat) \<times> bytes" where
  "write_after n buf f =
     (case f (drop n buf) of
        (Inl e, rest) \<Rightarrow> (Inl e, take n buf @ rest)
      | (Inr m, rest) \<Rightarrow> (Inr (n + m), take n buf @ rest))"

fun serialize_frame_type :: "FrameType \<Rightarrow> octet" where
  "serialize_frame_type Data = 0"
| "serialize_frame_type Headers = 1"
| "serialize_frame_type Priority = 2"
| "serialize_frame_type RstStream = 3"
| "serialize_frame_type Settings = 4"
| "serialize_frame_type PushPromise = 5"
| "serialize_frame_type Ping = 6"
| "serialize_frame_type GoAway = 7"
| "serialize_frame_type WindowUpdate = 8"
| "serialize_frame_type Continuation = 9"
| "serialize_frame_type PriorityUpdate = 0x10"
| "serialize_frame_type (Unknown t) = t"

definition gen_frame_header :: "('s, 'g) CookieFactory \<Rightarrow> bytes \<Rightarrow> FrameHeader \<Rightarrow> ('g + nat) \<times> bytes" where
  "gen_frame_header C buf frame =
     cf_gen C (cf_tuple C [
       cf_be_u24 C (fh_payload_len frame),
       cf_be_u8 C (serialize_frame_type (fh_frame_type frame)),
       cf_be_u8 C (fh_flags frame),
       cf_be_u32 C (fh_stream_id frame AND STREAM_ID_MASK)]) buf"

definition gen_ping_acknowledgement :: "('s, 'g) CookieFactory \<Rightarrow> bytes \<Rightarrow> bytes \<Rightarrow> ('g + nat) \<times> bytes" where
  "gen_ping_acknowledgement C buf payload =
     cf_gen C (cf_tuple C [cf_slice C PING_ACKNOWLEDGEMENT_HEADER, cf_slice C payload]) buf"

text \<open>A \<open>bool as u32\<close>.\<close>

definition flag_u32 :: "bool \<Rightarrow> u32" where
  "flag_u32 b = (if b then 1 else 0)"

definition gen_settings :: "('s, 'g) CookieFactory \<Rightarrow> bytes \<Rightarrow> H2Settings \<Rightarrow> ('g + nat) \<times> bytes" where
  "gen_settings C buf settings =
     (case gen_frame_header C buf
         \<lparr>fh_payload_len = SETTINGS_ENTRY_SIZE * SETTINGS_COUNT, fh_frame_type = Settings,
          fh_flags = 0, fh_stream_id = 0\<rparr> of
        (Inl e, buf) \<Rightarrow> (Inl e, buf)
      | (Inr old_size, buf) \<Rightarrow> write_after old_size buf (cf_gen C (cf_tuple C [
          cf_be_u16 C SETTINGS_HEADER_TABLE_SIZE,
          cf_be_u32 C (settings_header_table_size settings),
          cf_be_u16 C SETTINGS_ENABLE_PUSH,
          cf_be_u32 C (flag_u32 (settings_enable_push settings)),
          cf_be_u16 C SETTINGS_MAX_CONCURRENT_STREAMS,
          cf_be_u32 C (settings_max_concurrent_streams settings),
          cf_be_u16 C SETTINGS_INITIAL_WINDOW_SIZE,
          cf_be_u32 C (settings_initial_window_size settings),
          cf_be_u16 C SETTINGS_MAX_FRAME_SIZE,
          cf_be_u32 C (settings_max_frame_size settings),
          cf_be_u16 C SETTINGS_MAX_HEADER_LIST_SIZE,
          cf_be_u32 C (settings_max_header_list_size settings),
          cf_be_u16 C SETTINGS_ENABLE_CONNECT_PROTOCOL,
          cf_be_u32 C (flag_u32 (settings_enable_connect_protocol settings)),
          cf_be_u16 C SETTINGS_NO_RFC7540_PRIORITIES,
          cf_be_u32 C (flag_u32 (settings_no_rfc7540_priorities settings))])))"

definition gen_control_frame ::
  "('s, 'g) CookieFactory \<Rightarrow> bytes \<Rightarrow> FrameHeader \<Rightarrow> (bytes \<Rightarrow> ('g + nat) \<times> bytes) \<Rightarrow> ('g + nat) \<times> bytes" where
  "gen_control_frame C buf header payload =
     (case gen_frame_header C buf header of
        (Inl e, buf) \<Rightarrow> (Inl e, buf)
      | (Inr old_size, buf) \<Rightarrow> write_after old_size buf payload)"

definition gen_rst_stream :: "('s, 'g) CookieFactory \<Rightarrow> bytes \<Rightarrow> u32 \<Rightarrow> H2Error \<Rightarrow> ('g + nat) \<times> bytes" where
  "gen_rst_stream C buf sid error_code =
     gen_control_frame C buf
       \<lparr>fh_payload_len = RST_STREAM_PAYLOAD_SIZE, fh_frame_type = RstStream, fh_flags = 0, fh_stream_id = sid\<rparr>
       (cf_gen C (cf_be_u32 C (h2_error_code error_code)))"

definition gen_window_update :: "('s, 'g) CookieFactory \<Rightarrow> bytes \<Rightarrow> u32 \<Rightarrow> u32 \<Rightarrow> ('g + nat) \<times> bytes" where
  "gen_window_update C buf sid increment =
     gen_control_frame C buf
       \<lparr>fh_payload_len = WINDOW_UPDATE_PAYLOAD_SIZE, fh_frame_type = WindowUpdate, fh_flags = 0, fh_stream_id = sid\<rparr>
       (cf_gen C (cf_be_u32 C (increment AND STREAM_ID_MASK)))"

definition gen_goaway :: "('s, 'g) CookieFactory \<Rightarrow> bytes \<Rightarrow> u32 \<Rightarrow> H2Error \<Rightarrow> ('g + nat) \<times> bytes" where
  "gen_goaway C buf last_stream_id error_code =
     gen_control_frame C buf
       \<lparr>fh_payload_len = GOAWAY_PAYLOAD_SIZE, fh_frame_type = GoAway, fh_flags = 0, fh_stream_id = 0\<rparr>
       (cf_gen C (cf_tuple C [
          cf_be_u32 C (last_stream_id AND STREAM_ID_MASK),
          cf_be_u32 C (h2_error_code error_code)]))"

subsection \<open>What cookie-factory documents\<close>

text \<open>
  Each serializer stands for the octets \<open>wire s\<close>; \<open>gen\<close> writes them at the start of the buffer
  when they fit and answers their number, and answers an error otherwise.
\<close>

definition cookie_documented :: "('s \<Rightarrow> bytes) \<Rightarrow> ('s, 'g) CookieFactory \<Rightarrow> bool" where
  "cookie_documented wire C \<longleftrightarrow>
     (\<forall>x. wire (cf_be_u8 C x) = [x]) \<and>
     (\<forall>x. wire (cf_be_u16 C x) = u16_bytes x) \<and>
     (\<forall>x. wire (cf_be_u24 C x) = u24_bytes x) \<and>
     (\<forall>x. wire (cf_be_u32 C x) = u32_bytes x) \<and>
     (\<forall>bs. wire (cf_slice C bs) = bs) \<and>
     (\<forall>ss. wire (cf_tuple C ss) = concat (map wire ss)) \<and>
     (\<forall>s buf. if length (wire s) \<le> length buf
        then cf_gen C s buf = (Inr (length (wire s)), wire s @ drop (length (wire s)) buf)
        else \<exists>e buf'. cf_gen C s buf = (Inl e, buf') \<and> length buf' = length buf)"

definition cookie_buffer :: "(bytes, unit) CookieFactory" where
  "cookie_buffer =
     \<lparr>cf_be_u8 = (\<lambda>x. [x]), cf_be_u16 = u16_bytes, cf_be_u24 = u24_bytes, cf_be_u32 = u32_bytes,
      cf_slice = (\<lambda>bs. bs), cf_tuple = concat,
      cf_gen = (\<lambda>s buf. if length s \<le> length buf then (Inr (length s), s @ drop (length s) buf)
        else (Inl (), buf))\<rparr>"

lemma cookie_buffer_documented: "cookie_documented (\<lambda>s. s) cookie_buffer"
  by (simp add: cookie_documented_def cookie_buffer_def)

lemma cookie_wire:
  assumes "cookie_documented wire C"
  shows "wire (cf_be_u8 C x8) = [x8]" "wire (cf_be_u16 C x16) = u16_bytes x16"
    "wire (cf_be_u24 C x32) = u24_bytes x32" "wire (cf_be_u32 C x32) = u32_bytes x32"
    "wire (cf_slice C bs) = bs" "wire (cf_tuple C ss) = concat (map wire ss)"
  using assms unfolding cookie_documented_def by blast+

lemma cookie_gen_fits:
  assumes "cookie_documented wire C" and "length (wire s) \<le> length buf"
  shows "cf_gen C s buf = (Inr (length (wire s)), wire s @ drop (length (wire s)) buf)"
  using assms unfolding cookie_documented_def by metis

lemma cookie_gen_full:
  assumes "cookie_documented wire C" and "length buf < length (wire s)"
  shows "\<exists>e buf'. cf_gen C s buf = (Inl e, buf') \<and> length buf' = length buf"
  using assms unfolding cookie_documented_def by (metis not_less)

subsection \<open>The octets of a frame\<close>

definition header_bytes :: "FrameHeader \<Rightarrow> bytes" where
  "header_bytes h = u24_bytes (fh_payload_len h) @ [serialize_frame_type (fh_frame_type h), fh_flags h] @
     u32_bytes (fh_stream_id h AND STREAM_ID_MASK)"

lemma length_header_bytes [simp]: "length (header_bytes h) = 9"
  by (simp add: header_bytes_def)

lemma gen_frame_header_eq:
  assumes "cookie_documented wire C"
  shows "9 \<le> length buf \<Longrightarrow> gen_frame_header C buf h = (Inr 9, header_bytes h @ drop 9 buf)"
    and "length buf < 9 \<Longrightarrow> \<exists>e buf'. gen_frame_header C buf h = (Inl e, buf') \<and> length buf' = length buf"
proof -
  let ?s = "cf_tuple C [cf_be_u24 C (fh_payload_len h), cf_be_u8 C (serialize_frame_type (fh_frame_type h)),
       cf_be_u8 C (fh_flags h), cf_be_u32 C (fh_stream_id h AND STREAM_ID_MASK)]"
  have w: "wire ?s = header_bytes h" by (simp add: cookie_wire [OF assms] header_bytes_def)
  show "9 \<le> length buf \<Longrightarrow> gen_frame_header C buf h = (Inr 9, header_bytes h @ drop 9 buf)"
    using cookie_gen_fits [OF assms, of ?s buf] by (simp add: gen_frame_header_def w)
  show "length buf < 9 \<Longrightarrow> \<exists>e buf'. gen_frame_header C buf h = (Inl e, buf') \<and> length buf' = length buf"
    using cookie_gen_full [OF assms, of buf ?s] by (simp add: gen_frame_header_def w)
qed

lemma gen_control_frame_eq:
  assumes "cookie_documented wire C"
  shows "9 + length (wire s) \<le> length buf \<Longrightarrow> gen_control_frame C buf h (cf_gen C s) =
      (Inr (9 + length (wire s)), header_bytes h @ wire s @ drop (9 + length (wire s)) buf)"
    and "length buf < 9 + length (wire s) \<Longrightarrow>
      \<exists>e buf'. gen_control_frame C buf h (cf_gen C s) = (Inl e, buf') \<and> length buf' = length buf"
proof -
  assume fits: "9 + length (wire s) \<le> length buf"
  then have "cf_gen C s (drop 9 buf) =
      (Inr (length (wire s)), wire s @ drop (9 + length (wire s)) buf)"
    using cookie_gen_fits [OF assms, of s "drop 9 buf"] by (simp add: add.commute)
  with fits show "gen_control_frame C buf h (cf_gen C s) =
      (Inr (9 + length (wire s)), header_bytes h @ wire s @ drop (9 + length (wire s)) buf)"
    by (simp add: gen_control_frame_def gen_frame_header_eq [OF assms] write_after_def)
next
  assume full: "length buf < 9 + length (wire s)"
  show "\<exists>e buf'. gen_control_frame C buf h (cf_gen C s) = (Inl e, buf') \<and> length buf' = length buf"
  proof (cases "length buf < 9")
    case True
    then obtain e buf' where "gen_frame_header C buf h = (Inl e, buf')" "length buf' = length buf"
      using gen_frame_header_eq(2) [OF assms] by blast
    then show ?thesis by (simp add: gen_control_frame_def)
  next
    case False
    with full have "length (drop 9 buf) < length (wire s)" by simp
    then obtain e rest where "cf_gen C s (drop 9 buf) = (Inl e, rest)" "length rest = length (drop 9 buf)"
      using cookie_gen_full [OF assms] by blast
    with False show ?thesis
      by (simp add: gen_control_frame_def gen_frame_header_eq [OF assms] write_after_def)
  qed
qed

subsection \<open>Parsing what was generated\<close>

text \<open>Header, then body, as the connection does.\<close>

definition parse_frame :: "('k, 'sl) Nom \<Rightarrow> bytes \<Rightarrow> u32 \<Rightarrow> ('k, 'sl Frame) IResult" where
  "parse_frame N input limit = and_then (frame_header N input limit) (\<lambda>(i, h). frame_body N i h)"

lemma header_bytes_fields:
  assumes "unat (fh_payload_len h) < 2 ^ 24"
  shows "header_len (header_bytes h @ rest) = fh_payload_len h"
    "header_type (header_bytes h @ rest) = convert_frame_type (serialize_frame_type (fh_frame_type h))"
    "(header_bytes h @ rest) ! 4 = fh_flags h"
    "header_stream (header_bytes h @ rest) = fh_stream_id h AND STREAM_ID_MASK"
  using assms
  by (simp_all add: header_len_def header_type_def header_stream_def header_bytes_def be_u24_of_bytes nth_append
      and.assoc)

lemma convert_serialize:
  assumes "\<forall>t. ft = Unknown t \<longrightarrow> 9 < t \<and> t \<noteq> 0x10"
  shows "convert_frame_type (serialize_frame_type ft) = ft"
proof (cases ft)
  case (Unknown t)
  with assms have "9 < t" "t \<noteq> 0x10" by auto
  then have "t \<notin> {0, 1, 2, 3, 4, 5, 6, 7, 8, 9}" by auto
  with \<open>t \<noteq> 0x10\<close> Unknown show ?thesis by (simp add: convert_frame_type_def)
qed (simp_all add: convert_frame_type_def)

lemma frame_header_roundtrip:
  assumes "nom_documented eof N" and "unat (fh_payload_len h) < 2 ^ 24" and "fh_payload_len h \<le> limit"
    and "\<forall>t. fh_frame_type h = Unknown t \<longrightarrow> 9 < t \<and> t \<noteq> 0x10"
    and "valid_stream_id (fh_frame_type h) (fh_stream_id h AND STREAM_ID_MASK)"
  shows "frame_header N (header_bytes h @ rest) limit =
    Inr (rest, h\<lparr>fh_stream_id := fh_stream_id h AND STREAM_ID_MASK\<rparr>)"
  using assms frame_header_long [OF assms(1), of "header_bytes h @ rest" limit]
  by (simp add: header_bytes_fields convert_serialize not_less)

lemma parse_frame_at:
  assumes "nom_documented eof N" and "unat (fh_payload_len h) < 2 ^ 24" and "fh_payload_len h \<le> limit"
    and "\<forall>t. fh_frame_type h = Unknown t \<longrightarrow> 9 < t \<and> t \<noteq> 0x10"
    and "valid_stream_id (fh_frame_type h) (fh_stream_id h AND STREAM_ID_MASK)"
  shows "parse_frame N (header_bytes h @ rest) limit =
    frame_body N rest (h\<lparr>fh_stream_id := fh_stream_id h AND STREAM_ID_MASK\<rparr>)"
  by (simp add: parse_frame_def frame_header_roundtrip [OF assms])

lemma parse_window_update:
  assumes "nom_documented eof N" and "4 \<le> limit"
  shows "parse_frame N (header_bytes \<lparr>fh_payload_len = WINDOW_UPDATE_PAYLOAD_SIZE, fh_frame_type = WindowUpdate,
      fh_flags = 0, fh_stream_id = sid\<rparr> @ u32_bytes x @ tail) limit =
    Inr (tail, WindowUpdateFrame (sid AND STREAM_ID_MASK) (x AND STREAM_ID_MASK))"
  using assms(2)
  by (subst parse_frame_at [OF assms(1)])
    (simp_all add: frame_body_def ensure_frame_size_def wire_consts need_def window_update_frame_def
      nom_laws [OF assms(1)])

lemma parse_rst_stream:
  assumes "nom_documented eof N" and "4 \<le> limit" and "sid AND STREAM_ID_MASK \<noteq> 0"
  shows "parse_frame N (header_bytes \<lparr>fh_payload_len = RST_STREAM_PAYLOAD_SIZE, fh_frame_type = RstStream,
      fh_flags = 0, fh_stream_id = sid\<rparr> @ u32_bytes x @ tail) limit =
    Inr (tail, RstStreamFrame (sid AND STREAM_ID_MASK) x)"
  using assms(2,3)
  by (subst parse_frame_at [OF assms(1)])
    (simp_all add: frame_body_def ensure_frame_size_def wire_consts need_def rst_stream_frame_def
      nom_laws [OF assms(1)])

lemma parse_goaway:
  assumes "nom_documented eof N" and "8 \<le> limit"
  shows "parse_frame N (header_bytes \<lparr>fh_payload_len = GOAWAY_PAYLOAD_SIZE, fh_frame_type = GoAway,
      fh_flags = 0, fh_stream_id = 0\<rparr> @ u32_bytes x @ u32_bytes y @ tail) limit =
    Inr (tail, GoAwayFrame (x AND STREAM_ID_MASK) y (kawa_slice N (u32_bytes x @ u32_bytes y @ tail) []))"
  using assms(2)
  by (subst parse_frame_at [OF assms(1)])
    (simp_all add: frame_body_def ensure_frame_size_def wire_consts need_def goaway_frame_def
      nom_laws [OF assms(1)])

lemma ping_header: "PING_ACKNOWLEDGEMENT_HEADER =
  header_bytes \<lparr>fh_payload_len = PING_PAYLOAD_SIZE, fh_frame_type = Ping, fh_flags = FLAG_ACK, fh_stream_id = 0\<rparr>"
  by (simp add: PING_ACKNOWLEDGEMENT_HEADER_def header_bytes_def u24_bytes_def u32_bytes_def wire_consts
      be_bytes_numeral)

lemma settings_ack_header: "SETTINGS_ACKNOWLEDGEMENT =
  header_bytes \<lparr>fh_payload_len = 0, fh_frame_type = Settings, fh_flags = FLAG_ACK, fh_stream_id = 0\<rparr>"
  by (simp add: SETTINGS_ACKNOWLEDGEMENT_def header_bytes_def u24_bytes_def u32_bytes_def wire_consts
      be_bytes_numeral)

lemma parse_ping:
  assumes "nom_documented eof N" and "8 \<le> limit" and "length payload = 8"
  shows "parse_frame N (PING_ACKNOWLEDGEMENT_HEADER @ payload @ tail) limit = Inr (tail, PingFrame payload True)"
  using assms(2,3) unfolding ping_header
  by (subst parse_frame_at [OF assms(1)])
    (simp_all add: frame_body_def ensure_frame_size_def wire_consts need_def ping_frame_def
      nom_laws [OF assms(1)])

lemma parse_settings_ack:
  assumes "nom_documented eof N"
  shows "parse_frame N (SETTINGS_ACKNOWLEDGEMENT @ tail) limit = Inr (tail, SettingsFrame [] True)"
  unfolding settings_ack_header
  by (subst parse_frame_at [OF assms(1)])
    (simp_all add: frame_body_def ensure_frame_size_def wire_consts settings_frame_eq [OF assms] settings_of.simps)

text \<open>The entries of the SETTINGS frame sozu sends.\<close>

definition settings_entries :: "H2Settings \<Rightarrow> Setting list" where
  "settings_entries s = map (\<lambda>(identifier, v). \<lparr>set_identifier = identifier, set_value = v\<rparr>) [
     (SETTINGS_HEADER_TABLE_SIZE, settings_header_table_size s),
     (SETTINGS_ENABLE_PUSH, flag_u32 (settings_enable_push s)),
     (SETTINGS_MAX_CONCURRENT_STREAMS, settings_max_concurrent_streams s),
     (SETTINGS_INITIAL_WINDOW_SIZE, settings_initial_window_size s),
     (SETTINGS_MAX_FRAME_SIZE, settings_max_frame_size s),
     (SETTINGS_MAX_HEADER_LIST_SIZE, settings_max_header_list_size s),
     (SETTINGS_ENABLE_CONNECT_PROTOCOL, flag_u32 (settings_enable_connect_protocol s)),
     (SETTINGS_NO_RFC7540_PRIORITIES, flag_u32 (settings_no_rfc7540_priorities s))]"

definition entry_bytes :: "Setting \<Rightarrow> bytes" where
  "entry_bytes e = u16_bytes (set_identifier e) @ u32_bytes (set_value e)"

lemma length_entry_bytes [simp]: "length (entry_bytes e) = 6"
  by (simp add: entry_bytes_def)

lemma settings_of_entries: "settings_of (concat (map entry_bytes es)) = es"
proof (induction es)
  case (Cons e es)
  then show ?case
    by (subst settings_of.simps) (simp add: entry_bytes_def [of e])
qed (simp add: settings_of.simps)

lemma length_concat_entries: "length (concat (map entry_bytes es)) = 6 * length es"
  by (induction es) simp_all

lemma gen_settings_eq:
  assumes "cookie_documented wire C" and "57 \<le> length buf"
  shows "gen_settings C buf s = (Inr 57,
    header_bytes \<lparr>fh_payload_len = 48, fh_frame_type = Settings, fh_flags = 0, fh_stream_id = 0\<rparr> @
    concat (map entry_bytes (settings_entries s)) @ drop 57 buf)"
proof -
  let ?es = "concat (map entry_bytes (settings_entries s))"
  have len: "length ?es = 48" by (simp only: length_concat_entries) (simp add: settings_entries_def)
  have gen: "cf_gen C t (drop 9 buf) = (Inr 48, ?es @ drop 57 buf)" if "wire t = ?es" for t
    using cookie_gen_fits [OF assms(1), of t "drop 9 buf"] assms(2) that len by simp
  show ?thesis
    using assms(2)
    by (simp add: gen_settings_def gen_frame_header_eq [OF assms(1)] write_after_def wire_consts)
      (subst gen, simp_all add: cookie_wire [OF assms(1)] settings_entries_def entry_bytes_def)
qed

lemma parse_settings:
  assumes "nom_documented eof N" and "48 \<le> limit"
  shows "parse_frame N (header_bytes \<lparr>fh_payload_len = 48, fh_frame_type = Settings, fh_flags = 0, fh_stream_id = 0\<rparr> @
      concat (map entry_bytes (settings_entries s)) @ tail) limit =
    Inr (tail, SettingsFrame (settings_entries s) False)"
proof -
  have len: "length (concat (map entry_bytes (settings_entries s))) = 48"
    by (simp add: length_concat_entries settings_entries_def)
  from assms(2) show ?thesis
    by (subst parse_frame_at [OF assms(1)])
      (simp_all add: frame_body_def ensure_frame_size_def wire_consts settings_frame_eq [OF assms(1)] len
        settings_of_entries del: length_concat concat.simps map_append)
qed

subsection \<open>Properties\<close>

text \<open>
  a frame header that is written is read back. For a length of at most 24 bits within the
  reader's maximum, a type byte outside the reserved range for unknown types, and a stream
  identifier the type allows, nine octets are written and the parser returns the same header,
  with the reserved bit of the identifier cleared, and what follows.
\<close>

theorem frame_header_codec:
  assumes "nom_documented eof N" and "cookie_documented wire C" and "9 \<le> length buf"
    and "unat (fh_payload_len h) < 2 ^ 24" and "fh_payload_len h \<le> limit"
    and "\<forall>t. fh_frame_type h = Unknown t \<longrightarrow> 9 < t \<and> t \<noteq> 0x10"
    and "valid_stream_id (fh_frame_type h) (fh_stream_id h AND STREAM_ID_MASK)"
  shows "\<exists>buf'. gen_frame_header C buf h = (Inr 9, buf') \<and> length buf' = length buf \<and>
    frame_header N buf' limit = Inr (drop 9 buf, h\<lparr>fh_stream_id := fh_stream_id h AND STREAM_ID_MASK\<rparr>)"
  using gen_frame_header_eq(1) [OF assms(2,3)] frame_header_roundtrip [OF assms(1,4-7)] assms(3) by simp

theorem frame_header_codec_witness:
  "\<exists>buf'. gen_frame_header cookie_buffer (replicate 9 0)
      \<lparr>fh_payload_len = 16384, fh_frame_type = Data, fh_flags = 1, fh_stream_id = 0x80000003\<rparr> = (Inr 9, buf') \<and>
    frame_header nom_complete buf' 16384 =
      Inr ([], \<lparr>fh_payload_len = 16384, fh_frame_type = Data, fh_flags = 1, fh_stream_id = 3\<rparr>)"
  using frame_header_codec [OF nom_complete_documented cookie_buffer_documented, of "replicate 9 0"
      "\<lparr>fh_payload_len = 16384, fh_frame_type = Data, fh_flags = 1, fh_stream_id = 0x80000003\<rparr>" 16384]
  by (auto simp: STREAM_ID_MASK_def)

text \<open>
  C30: the control frames sozu writes are read back by its parser as what was asked for, followed
  by whatever the buffer held: WINDOW_UPDATE and GOAWAY with the reserved bits cleared, RST_STREAM
  on a non-zero stream, the PING acknowledgement with its payload, the SETTINGS acknowledgement,
  and SETTINGS with its eight entries in order.
\<close>

theorem control_frames_roundtrip:
  assumes "nom_documented eof N" and "cookie_documented wire C" and "57 \<le> length buf" and "48 \<le> limit"
    and "sid AND STREAM_ID_MASK \<noteq> 0" and "length payload = 8"
  shows "(case gen_window_update C buf wsid increment of (r, buf') \<Rightarrow> r = Inr 13 \<and> parse_frame N buf' limit =
      Inr (drop 13 buf, WindowUpdateFrame (wsid AND STREAM_ID_MASK) (increment AND STREAM_ID_MASK))) \<and>
    (case gen_rst_stream C buf sid e of (r, buf') \<Rightarrow> r = Inr 13 \<and> parse_frame N buf' limit =
      Inr (drop 13 buf, RstStreamFrame (sid AND STREAM_ID_MASK) (h2_error_code e))) \<and>
    (case gen_goaway C buf lsid e of (r, buf') \<Rightarrow> r = Inr 17 \<and>
      (\<exists>debug. parse_frame N buf' limit =
        Inr (drop 17 buf, GoAwayFrame (lsid AND STREAM_ID_MASK) (h2_error_code e) debug))) \<and>
    (case gen_ping_acknowledgement C buf payload of (r, buf') \<Rightarrow> r = Inr 17 \<and> parse_frame N buf' limit =
      Inr (drop 17 buf, PingFrame payload True)) \<and>
    parse_frame N (SETTINGS_ACKNOWLEDGEMENT @ buf) limit = Inr (buf, SettingsFrame [] True) \<and>
    (case gen_settings C buf s of (r, buf') \<Rightarrow> r = Inr 57 \<and> parse_frame N buf' limit =
      Inr (drop 57 buf, SettingsFrame (settings_entries s) False))"
proof -
  have l: "4 \<le> limit" "8 \<le> limit" using assms(4) by (auto simp: word_le_nat_alt)
  have ping: "cf_gen C (cf_tuple C [cf_slice C PING_ACKNOWLEDGEMENT_HEADER, cf_slice C payload]) buf =
      (Inr 17, PING_ACKNOWLEDGEMENT_HEADER @ payload @ drop 17 buf)"
    using cookie_gen_fits [OF assms(2), of "cf_tuple C [cf_slice C PING_ACKNOWLEDGEMENT_HEADER, cf_slice C payload]" buf]
      assms(3,6) by (simp add: cookie_wire [OF assms(2)] PING_ACKNOWLEDGEMENT_HEADER_def)
  note control = gen_control_frame_eq(1) [OF assms(2)] cookie_wire [OF assms(2)]
  have "gen_window_update C buf wsid increment = (Inr 13, header_bytes \<lparr>fh_payload_len = WINDOW_UPDATE_PAYLOAD_SIZE,
      fh_frame_type = WindowUpdate, fh_flags = 0, fh_stream_id = wsid\<rparr> @
      u32_bytes (increment AND STREAM_ID_MASK) @ drop 13 buf)"
    using assms(3) by (simp add: gen_window_update_def control)
  moreover have "gen_rst_stream C buf sid e = (Inr 13, header_bytes \<lparr>fh_payload_len = RST_STREAM_PAYLOAD_SIZE,
      fh_frame_type = RstStream, fh_flags = 0, fh_stream_id = sid\<rparr> @ u32_bytes (h2_error_code e) @ drop 13 buf)"
    using assms(3) by (simp add: gen_rst_stream_def control)
  moreover have "gen_goaway C buf lsid e = (Inr 17, header_bytes \<lparr>fh_payload_len = GOAWAY_PAYLOAD_SIZE,
      fh_frame_type = GoAway, fh_flags = 0, fh_stream_id = 0\<rparr> @
      u32_bytes (lsid AND STREAM_ID_MASK) @ u32_bytes (h2_error_code e) @ drop 17 buf)"
    using assms(3) by (simp add: gen_goaway_def control)
  ultimately show ?thesis
    using parse_window_update [OF assms(1) l(1)] parse_rst_stream [OF assms(1) l(1) assms(5)]
      parse_goaway [OF assms(1) l(2)] parse_ping [OF assms(1) l(2) assms(6)] parse_settings_ack [OF assms(1)]
      gen_settings_eq [OF assms(2,3)] parse_settings [OF assms(1,4)]
    by (simp add: gen_ping_acknowledgement_def ping and.assoc)
qed

theorem control_frames_roundtrip_witness:
  "case gen_window_update cookie_buffer (replicate 57 0) 3 1000 of (r, buf') \<Rightarrow> r = Inr 13 \<and>
     parse_frame nom_complete buf' 16384 = Inr (replicate 44 0, WindowUpdateFrame 3 1000)"
  using control_frames_roundtrip [OF nom_complete_documented cookie_buffer_documented, of "replicate 57 0" 16384 1
      "replicate 8 0" 3 1000 NoError 0
      "\<lparr>settings_header_table_size = 4096, settings_enable_push = False, settings_max_concurrent_streams = 100,
        settings_initial_window_size = 65535, settings_max_frame_size = 16384, settings_max_header_list_size = 65536,
        settings_enable_connect_protocol = False, settings_no_rfc7540_priorities = True\<rparr>"]
  by (simp add: STREAM_ID_MASK_def)

end
