(* ===== verification/Sozu_Readiness.thy ===== *)
theory Sozu_Readiness
  imports Sozu_Std
begin

text \<open>
  Readiness words: \<open>Ready\<close> from \<^verbatim>\<open>src/command/src/ready.rs\<close>, and \<open>Readiness\<close> and the
  results of a session step from \<^verbatim>\<open>src/lib/src/lib.rs\<close>.
\<close>

type_synonym Ready = u16

definition READY_EMPTY :: Ready where "READY_EMPTY = 0"
definition READABLE :: Ready where "READABLE = 0b00001"
definition WRITABLE :: Ready where "WRITABLE = 0b00010"
definition READY_ERROR :: Ready where "READY_ERROR = 0b00100"
definition HUP :: Ready where "HUP = 0b01000"
definition WRITE_CLOSED :: Ready where "WRITE_CLOSED = 0b10000"

lemmas ready_consts = READY_EMPTY_def READABLE_def WRITABLE_def READY_ERROR_def HUP_def WRITE_CLOSED_def

definition ready_is_empty :: "Ready \<Rightarrow> bool" where "ready_is_empty r \<longleftrightarrow> r = 0"
definition ready_contains :: "Ready \<Rightarrow> Ready \<Rightarrow> bool" where "ready_contains r other \<longleftrightarrow> r AND other = other"
definition is_readable :: "Ready \<Rightarrow> bool" where "is_readable r \<longleftrightarrow> ready_contains r READABLE"
definition is_writable :: "Ready \<Rightarrow> bool" where "is_writable r \<longleftrightarrow> ready_contains r WRITABLE"
definition is_error :: "Ready \<Rightarrow> bool" where "is_error r \<longleftrightarrow> ready_contains r READY_ERROR"
definition is_hup :: "Ready \<Rightarrow> bool" where "is_hup r \<longleftrightarrow> ready_contains r HUP"
definition is_write_closed :: "Ready \<Rightarrow> bool" where "is_write_closed r \<longleftrightarrow> ready_contains r WRITE_CLOSED"
definition ready_insert :: "Ready \<Rightarrow> Ready \<Rightarrow> Ready" where "ready_insert other r = r OR other"
definition ready_remove :: "Ready \<Rightarrow> Ready \<Rightarrow> Ready" where "ready_remove other r = r AND NOT other"

record Readiness =
  event :: Ready
  interest :: Ready

definition KNOWN_BITS :: Ready where
  "KNOWN_BITS = READABLE OR WRITABLE OR READY_ERROR OR HUP OR WRITE_CLOSED"

definition readiness_new :: Readiness where
  "readiness_new = \<lparr>event = READY_EMPTY, interest = READY_EMPTY\<rparr>"

definition readiness_check_invariants :: "Readiness \<Rightarrow> bool" where
  "readiness_check_invariants r \<longleftrightarrow> event r AND KNOWN_BITS = event r \<and> interest r AND KNOWN_BITS = interest r"

definition readiness_reset :: "Readiness \<Rightarrow> Readiness" where
  "readiness_reset r = r\<lparr>event := READY_EMPTY, interest := READY_EMPTY\<rparr>"

definition filter_interest :: "Readiness \<Rightarrow> Ready" where
  "filter_interest r = event r AND interest r"

definition signal_pending_write :: "Readiness \<Rightarrow> Readiness" where
  "signal_pending_write r = r\<lparr>event := ready_insert WRITABLE (event r)\<rparr>"

definition signal_pending_read :: "Readiness \<Rightarrow> Readiness" where
  "signal_pending_read r = r\<lparr>event := ready_insert READABLE (event r)\<rparr>"

definition arm_writable :: "Readiness \<Rightarrow> Readiness" where
  "arm_writable r = signal_pending_write (r\<lparr>interest := ready_insert WRITABLE (interest r)\<rparr>)"

datatype SessionResult = SClose | SContinue | SUpgrade

datatype SocketResult = SockContinue | SockClosed | SockWouldBlock | SockError

text \<open>One bit of a word, as the predicates above read it.\<close>

lemma contains_bit:
  "is_readable r \<longleftrightarrow> bit r 0" "is_writable r \<longleftrightarrow> bit r 1" "is_error r \<longleftrightarrow> bit r 2" "is_hup r \<longleftrightarrow> bit r 3"
proof -
  have *: "r AND 2 ^ n = 2 ^ n \<longleftrightarrow> bit r n" if "n < 16" for n
  proof
    show "bit r n" if "r AND 2 ^ n = 2 ^ n"
    proof -
      have "bit (r AND 2 ^ n) n" unfolding that using \<open>n < 16\<close> by (simp add: bit_exp_iff)
      then show ?thesis by (simp add: bit_and_iff)
    qed
    show "r AND 2 ^ n = 2 ^ n" if "bit r n"
      by (rule bit_word_eqI) (use that in \<open>auto simp: bit_and_iff bit_exp_iff\<close>)
  qed
  show "is_readable r \<longleftrightarrow> bit r 0" "is_writable r \<longleftrightarrow> bit r 1" "is_error r \<longleftrightarrow> bit r 2" "is_hup r \<longleftrightarrow> bit r 3"
    using * [of 0] * [of 1] * [of 2] * [of 3]
    by (simp_all add: is_readable_def is_writable_def is_error_def is_hup_def ready_contains_def ready_consts)
qed

lemma remove_readable: "is_readable (ready_remove READABLE r) = False" "is_hup (ready_remove READABLE r) = is_hup r"
  "is_error (ready_remove READABLE r) = is_error r"
  by (simp_all add: contains_bit ready_remove_def READABLE_def bit_simps)

lemma filter_interest_bits:
  "is_readable (filter_interest r) \<longleftrightarrow> is_readable (event r) \<and> is_readable (interest r)"
  "is_writable (filter_interest r) \<longleftrightarrow> is_writable (event r) \<and> is_writable (interest r)"
  "is_error (filter_interest r) \<longleftrightarrow> is_error (event r) \<and> is_error (interest r)"
  "is_hup (filter_interest r) \<longleftrightarrow> is_hup (event r) \<and> is_hup (interest r)"
  by (simp_all add: contains_bit filter_interest_def bit_simps)

end
