(* ===== verification/H2_Control_Tx.thy ===== *)
theory H2_Control_Tx
  imports H2_Stream_Table H2_Serializer Sozu_Readiness
begin

text \<open>
  The queue of RST_STREAM frames of a connection, from \<^verbatim>\<open>src/lib/src/protocol/mux/h2_control_tx.rs\<close>:
  bounded, without a second frame for a stream that is tracked as reset, drained in order into the
  room it is given. The set of reset streams belongs to the stream table and is threaded through.
\<close>

definition MIN_PENDING_RST_STREAMS :: nat where "MIN_PENDING_RST_STREAMS = 4000"

definition pending_rst_bound :: "u32 \<Rightarrow> nat" where
  "pending_rst_bound max_concurrent_streams = max MIN_PENDING_RST_STREAMS (min (unat max_concurrent_streams * 4) (2 ^ 64 - 1))"

datatype EnqueueRstOutcome = Queued | Deduped | RstDropped

record H2ControlTx =
  pending_rst_streams :: "(u32 \<times> H2Error) list"
  total_rst_streams_queued :: nat
  max_pending :: nat
  overflowed :: bool

definition control_tx_with_cap :: "nat \<Rightarrow> H2ControlTx" where
  "control_tx_with_cap cap = \<lparr>pending_rst_streams = [], total_rst_streams_queued = 0, max_pending = cap, overflowed = False\<rparr>"

definition control_tx_new :: "u32 \<Rightarrow> H2ControlTx" where
  "control_tx_new max_concurrent_streams = control_tx_with_cap (pending_rst_bound max_concurrent_streams)"

text \<open>The set is \<open>None\<close> for a stream that is not tracked: nothing deduplicates its resets.\<close>

definition enqueue_rst ::
  "u32 list option \<Rightarrow> u32 \<Rightarrow> H2Error \<Rightarrow> H2ControlTx \<Rightarrow> Readiness \<Rightarrow>
     EnqueueRstOutcome \<times> u32 list option \<times> H2ControlTx \<times> Readiness" where
  "enqueue_rst sent sid error tx readiness =
     (if max_pending tx \<le> length (pending_rst_streams tx) then (RstDropped, sent, tx\<lparr>overflowed := True\<rparr>, readiness)
      else
        let (new, sent) = (case sent of Some s \<Rightarrow> (case hashset_insert sid s of (new, s) \<Rightarrow> (new, Some s)) | None \<Rightarrow> (True, None)) in
        if \<not> new then (Deduped, sent, tx, readiness)
        else (Queued, sent,
              tx\<lparr>pending_rst_streams := pending_rst_streams tx @ [(sid, error)],
                 total_rst_streams_queued := total_rst_streams_queued tx + 1\<rparr>,
              arm_writable readiness))"

text \<open>The loop of \<open>drain_rst_streams_into\<close>: the octets and frames written, and the buffer.\<close>

fun rst_drain_loop :: "('s, 'g) CookieFactory \<Rightarrow> (u32 \<times> H2Error) list \<Rightarrow> bytes \<Rightarrow> nat \<Rightarrow> nat \<Rightarrow> nat \<times> nat \<times> bytes" where
  "rst_drain_loop C [] buf offset written = (offset, written, buf)"
| "rst_drain_loop C ((sid, error) # pending) buf offset written =
     (let frame_size = FRAME_HEADER_SIZE + unat RST_STREAM_PAYLOAD_SIZE in
      if length buf < offset + frame_size then (offset, written, buf)
      else case gen_rst_stream C (drop offset buf) sid error of
          (Inr _, rest) \<Rightarrow> rst_drain_loop C pending (take offset buf @ rest) (offset + frame_size) (written + 1)
        | (Inl _, rest) \<Rightarrow> (offset, written, take offset buf @ rest))"

definition drain_rst_streams_into :: "('s, 'g) CookieFactory \<Rightarrow> H2ControlTx \<Rightarrow> bytes \<Rightarrow> (nat \<times> nat) \<times> H2ControlTx \<times> bytes" where
  "drain_rst_streams_into C tx buf =
     (case rst_drain_loop C (pending_rst_streams tx) buf 0 0 of (offset, written, buf) \<Rightarrow>
        ((offset, written), tx\<lparr>pending_rst_streams := drop written (pending_rst_streams tx)\<rparr>, buf))"

definition has_pending :: "H2ControlTx \<Rightarrow> bool" where
  "has_pending tx \<longleftrightarrow> pending_rst_streams tx \<noteq> []"

definition clear_pending :: "H2ControlTx \<Rightarrow> H2ControlTx" where
  "clear_pending tx = tx\<lparr>pending_rst_streams := []\<rparr>"

definition tx_check_invariants :: "H2ControlTx \<Rightarrow> bool" where
  "tx_check_invariants tx \<longleftrightarrow> length (pending_rst_streams tx) \<le> total_rst_streams_queued tx \<and>
     length (pending_rst_streams tx) \<le> max_pending tx + 1 \<and>
     (overflowed tx \<longrightarrow> max_pending tx \<le> total_rst_streams_queued tx)"

subsection \<open>The queue stays within its bound\<close>

definition tx_ok :: "H2ControlTx \<Rightarrow> bool" where
  "tx_ok tx \<longleftrightarrow> length (pending_rst_streams tx) \<le> total_rst_streams_queued tx \<and>
     length (pending_rst_streams tx) \<le> max_pending tx \<and> (overflowed tx \<longrightarrow> max_pending tx \<le> total_rst_streams_queued tx)"

lemma tx_ok_check: "tx_ok tx \<Longrightarrow> tx_check_invariants tx"
  by (simp add: tx_ok_def tx_check_invariants_def)

lemma tx_ok_new [inv_intros]: "tx_ok (control_tx_new m)"
  by (simp add: tx_ok_def control_tx_new_def control_tx_with_cap_def)

lemma tx_ok_enqueue [inv_intros]:
  "tx_ok tx \<Longrightarrow> enqueue_rst sent sid error tx readiness = (outcome, sent', tx', readiness') \<Longrightarrow> tx_ok tx'"
  by (auto simp: tx_ok_def enqueue_rst_def Let_def split: if_splits option.splits prod.splits)

lemma tx_ok_drain [inv_intros]: "tx_ok tx \<Longrightarrow> drain_rst_streams_into C tx buf = (r, tx', buf') \<Longrightarrow> tx_ok tx'"
  by (auto simp: tx_ok_def drain_rst_streams_into_def split: prod.splits)

lemma tx_ok_clear [inv_intros]: "tx_ok tx \<Longrightarrow> tx_ok (clear_pending tx)"
  by (simp add: tx_ok_def clear_pending_def)

subsection \<open>What the drain writes\<close>

definition rst_frame :: "u32 \<times> H2Error \<Rightarrow> bytes" where
  "rst_frame e = header_bytes \<lparr>fh_payload_len = RST_STREAM_PAYLOAD_SIZE, fh_frame_type = RstStream, fh_flags = 0,
     fh_stream_id = fst e\<rparr> @ u32_bytes (h2_error_code (snd e))"

lemma length_rst_frame [simp]: "length (rst_frame e) = 13"
  by (simp add: rst_frame_def)

lemma gen_rst_stream_eq:
  assumes "cookie_documented wire C" and "13 \<le> length buf"
  shows "gen_rst_stream C buf sid error = (Inr 13, rst_frame (sid, error) @ drop 13 buf)"
  using assms(2) by (simp add: gen_rst_stream_def gen_control_frame_eq(1) [OF assms(1)] cookie_wire [OF assms(1)] rst_frame_def)

lemma rst_drain_loop_eq:
  assumes "cookie_documented wire C" and "offset \<le> length buf"
  shows "rst_drain_loop C pending buf offset written =
    (let n = min (length pending) ((length buf - offset) div 13); out = concat (map rst_frame (take n pending)) in
     (offset + 13 * n, written + n, take offset buf @ out @ drop (offset + 13 * n) buf))"
  using assms(2)
proof (induction pending arbitrary: buf offset written)
  case (Cons e pending)
  obtain sid error where e: "e = (sid, error)" by fastforce
  have size: "FRAME_HEADER_SIZE + unat RST_STREAM_PAYLOAD_SIZE = 13" by (simp add: wire_consts)
  show ?case
  proof (cases "length buf < offset + 13")
    case True
    then show ?thesis using Cons.prems by (simp add: e size)
  next
    case False
    then have len: "13 \<le> length (drop offset buf)" by simp
    let ?buf = "take offset buf @ rst_frame e @ drop 13 (drop offset buf)"
    have lb: "length ?buf = length buf" using False Cons.prems by simp
    have q: "(length buf - offset) div 13 = Suc ((length buf - (offset + 13)) div 13)"
      using False le_div_geq [of 13 "length buf - offset"] by simp
    show ?thesis
      using False gen_rst_stream_eq [OF assms(1) len, of sid error] Cons.IH [of "offset + 13" ?buf "written + 1"] lb q Cons.prems
      by (simp add: e size Let_def ac_simps)
  qed
qed simp

end
