(* ===== verification/H2_Output.thy ===== *)
theory H2_Output
  imports Sozu_Std
begin

text \<open>
  The output queue of an HTTP/2 connection, from \<^verbatim>\<open>src/lib/src/protocol/mux/h2_output.rs\<close>: the bytes
  still to send, in an inline array of 128 octets until they no longer fit and in a heap vector for
  as long as anything is queued after that. The capacity of the vector is memory only and left out:
  a vector given back and one cleared are both empty.
\<close>

definition INLINE_CAPACITY :: nat where "INLINE_CAPACITY = 128"
definition RETAINED_CAPACITY :: nat where "RETAINED_CAPACITY = 1024"

record H2Output =
  out_inline :: bytes
  out_end :: nat
  out_heap :: bytes
  out_spilled :: bool
  out_head :: nat
  out_prepaid :: nat

definition output_default :: H2Output where
  "output_default = \<lparr>out_inline = replicate INLINE_CAPACITY 0, out_end = 0, out_heap = [], out_spilled = False,
     out_head = 0, out_prepaid = 0\<rparr>"

definition output_pending :: "H2Output \<Rightarrow> bytes" where
  "output_pending q = (if out_spilled q then drop (out_head q) (out_heap q) else slice (out_inline q) (out_head q) (out_end q))"

definition output_stored :: "H2Output \<Rightarrow> nat" where
  "output_stored q = (if out_spilled q then length (out_heap q) else out_end q)"

definition output_len :: "H2Output \<Rightarrow> nat" where
  "output_len q = output_stored q - out_head q"

definition output_is_empty :: "H2Output \<Rightarrow> bool" where
  "output_is_empty q \<longleftrightarrow> output_len q = 0"

text \<open>\<open>slice::copy_within\<close> to the front.\<close>

definition copy_to_front :: "nat \<Rightarrow> nat \<Rightarrow> 'a list \<Rightarrow> 'a list" where
  "copy_to_front a b xs = slice xs a b @ drop (b - a) xs"

definition grow :: "nat \<Rightarrow> H2Output \<Rightarrow> nat \<times> H2Output" where
  "grow room q =
     (let q = (if \<not> out_spilled q \<and> INLINE_CAPACITY < out_end q + room \<and> 0 < out_head q
               then q\<lparr>out_inline := copy_to_front (out_head q) (out_end q) (out_inline q),
                      out_end := out_end q - out_head q, out_head := 0\<rparr> else q) in
      if \<not> out_spilled q \<and> out_end q + room \<le> INLINE_CAPACITY
      then (out_end q, q\<lparr>out_end := out_end q + room\<rparr>)
      else let q = (if out_spilled q then q
                    else q\<lparr>out_heap := take (out_end q) (out_inline q), out_spilled := True\<rparr>);
               start = length (out_heap q)
           in (start, q\<lparr>out_heap := out_heap q @ replicate room 0\<rparr>))"

definition output_truncate :: "nat \<Rightarrow> H2Output \<Rightarrow> H2Output" where
  "output_truncate stored q =
     (if out_spilled q then q\<lparr>out_heap := take stored (out_heap q)\<rparr> else q\<lparr>out_end := stored\<rparr>)"

definition storage :: "H2Output \<Rightarrow> bytes" where
  "storage q = (if out_spilled q then out_heap q else out_inline q)"

definition set_storage :: "bytes \<Rightarrow> H2Output \<Rightarrow> H2Output" where
  "set_storage bs q = (if out_spilled q then q\<lparr>out_heap := bs\<rparr> else q\<lparr>out_inline := bs\<rparr>)"

text \<open>What is written in the range of the storage from \<open>start\<close> on.\<close>

definition overwrite :: "nat \<Rightarrow> bytes \<Rightarrow> bytes \<Rightarrow> bytes" where
  "overwrite start new bs = take start bs @ new @ drop (start + length new) bs"

text \<open>
  A frame writer gets the fresh room and returns its answer with the room as it left it; what else
  it changes is threaded through \<open>'s\<close>.
\<close>

definition push_frames :: "nat \<Rightarrow> (bytes \<Rightarrow> 's \<Rightarrow> ('e + nat) \<times> bytes \<times> 's) \<Rightarrow> H2Output \<Rightarrow> 's \<Rightarrow> ('e + nat) \<times> H2Output \<times> 's" where
  "push_frames room writer q s =
     (case grow room q of (start, q) \<Rightarrow>
      case writer (slice (storage q) start (start + room)) s of (answer, written, s) \<Rightarrow>
      let q = set_storage (overwrite start written (storage q)) q in
      case answer of
        Inr used \<Rightarrow> (Inr used, output_truncate (start + min used room) q, s)
      | Inl e \<Rightarrow> (Inl e, output_truncate start q, s))"

definition push :: "bytes \<Rightarrow> H2Output \<Rightarrow> H2Output" where
  "push frame q = (case grow (length frame) q of (start, q) \<Rightarrow> set_storage (overwrite start frame (storage q)) q)"

definition output_clear :: "H2Output \<Rightarrow> H2Output" where
  "output_clear q = q\<lparr>out_head := 0, out_end := 0, out_prepaid := 0, out_spilled := False, out_heap := []\<rparr>"

definition output_compact :: "H2Output \<Rightarrow> H2Output" where
  "output_compact q =
     (if \<not> out_spilled q \<or> out_head q < RETAINED_CAPACITY \<or> out_head q < output_len q then q
      else q\<lparr>out_heap := drop (out_head q) (out_heap q), out_head := 0\<rparr>)"

definition output_consume :: "nat \<Rightarrow> H2Output \<Rightarrow> nat \<times> H2Output" where
  "output_consume n q =
     (let n = min n (output_len q); paid = min n (out_prepaid q);
          q = q\<lparr>out_head := out_head q + n, out_prepaid := out_prepaid q - paid\<rparr>
      in (n - paid, if output_is_empty q then output_clear q else output_compact q))"

text \<open>
  The unsent rest of a stream frame is moved out of the stream. The stream buffer is a third-party
  type: the blocks it still has to send, the data of a block (\<open>None\<close> for a delimiter), and how it
  consumes are parameters.
\<close>

fun adopt_blocks :: "bytes option list \<Rightarrow> nat \<Rightarrow> H2Output \<Rightarrow> nat \<times> H2Output" where
  "adopt_blocks [] left q = (left, q)"
| "adopt_blocks (block # blocks) left q =
     (if left = 0 then (left, q)
      else case block of None \<Rightarrow> (left, q)
        | Some data \<Rightarrow> let n = min (length data) left in adopt_blocks blocks (left - n) (push (take n data) q))"

definition adopt_tail :: "('k \<Rightarrow> bytes option list) \<Rightarrow> (nat \<Rightarrow> 'k \<Rightarrow> 'k) \<Rightarrow> nat \<Rightarrow> 'k \<Rightarrow> H2Output \<Rightarrow> 'k \<times> H2Output" where
  "adopt_tail out_blocks consume_kawa tail kawa q =
     (case adopt_blocks (out_blocks kawa) tail q of (left, q) \<Rightarrow>
      let adopted = tail - left in
      (consume_kawa adopted kawa, q\<lparr>out_prepaid := out_prepaid q + adopted\<rparr>))"

subsection \<open>The queue it implements\<close>

definition output_ok :: "H2Output \<Rightarrow> bool" where
  "output_ok q \<longleftrightarrow> length (out_inline q) = INLINE_CAPACITY \<and> out_head q \<le> output_stored q \<and>
     (\<not> out_spilled q \<longrightarrow> out_end q \<le> INLINE_CAPACITY) \<and> out_prepaid q \<le> output_len q \<and>
     (out_head q < RETAINED_CAPACITY \<or> out_head q < output_len q)"

lemma output_default_ok: "output_ok output_default" "output_pending output_default = []"
  by (simp_all add: output_ok_def output_default_def output_stored_def output_len_def output_pending_def slice_def
      RETAINED_CAPACITY_def)

lemma output_pending_stored: "output_pending q = drop (out_head q) (take (output_stored q) (storage q))"
  by (simp add: output_pending_def output_stored_def storage_def slice_def drop_take)

lemma length_output_pending: "output_ok q \<Longrightarrow> length (output_pending q) = output_len q"
  by (auto simp: output_ok_def output_pending_def output_len_def output_stored_def slice_def)

text \<open>Growing keeps what is queued and opens exactly the room asked for behind it.\<close>

lemma grow_ok:
  assumes "output_ok q" and "grow room q = (start, q')"
  shows "length (out_inline q') = INLINE_CAPACITY" and "output_stored q' = start + room"
    and "start + room \<le> length (storage q')" and "out_head q' \<le> start"
    and "drop (out_head q') (take start (storage q')) = output_pending q" and "out_prepaid q' = out_prepaid q"
    and "\<not> out_spilled q' \<Longrightarrow> out_end q' \<le> INLINE_CAPACITY" and "out_spilled q' \<Longrightarrow> start + room = length (out_heap q')"
    and "out_head q' \<le> out_head q"
  using assms by (auto simp: output_ok_def grow_def Let_def copy_to_front_def slice_def storage_def output_stored_def output_pending_def drop_take split: if_splits)

text \<open>Writing into the room, then keeping \<open>n\<close> octets of it.\<close>

lemma written_room:
  assumes q: "output_ok q" and g: "grow room q = (start, q1)" and "length written = room" and n: "n \<le> room"
    and q': "q' = output_truncate (start + n) (set_storage (overwrite start written (storage q1)) q1)"
  shows "output_pending q' = output_pending q @ take n written" and "out_prepaid q' = out_prepaid q" and "output_ok q'"
proof -
  note grown = grow_ok [OF q g]
  have pend: "output_pending q' = drop (out_head q1) (take (start + n) (overwrite start written (storage q1)))"
    using grown(2,3,4,8) assms(3) n unfolding q'
    by (auto simp: output_pending_def output_truncate_def set_storage_def storage_def overwrite_def slice_def drop_take)
  also have "\<dots> = output_pending q @ take n written"
    using grown(3,4,5) assms(3) n by (simp add: overwrite_def)
  finally show p: "output_pending q' = output_pending q @ take n written" .
  show paid: "out_prepaid q' = out_prepaid q"
    using grown(6) by (simp add: q' output_truncate_def set_storage_def)
  have fields: "length (out_inline q') = INLINE_CAPACITY" "output_stored q' = start + n" "out_head q' = out_head q1"
    "\<not> out_spilled q' \<Longrightarrow> out_end q' \<le> INLINE_CAPACITY"
    using grown(1,2,3,7,8) assms(3) n
    by (auto simp: q' output_truncate_def set_storage_def output_stored_def overwrite_def storage_def)
  moreover have "output_len q \<le> output_len q'"
    using arg_cong [OF grown(5), of length] grown(3,4) length_output_pending [OF q] fields
    by (simp add: output_len_def)
  ultimately show "output_ok q'"
    using q grown(4,9) paid by (auto simp: output_ok_def)
qed

lemma push_frames_ok:
  assumes "output_ok q" and "\<And>bs. length (fst (snd (writer bs s))) = length bs"
    and "push_frames room writer q s = (answer, q', s')"
  shows "output_ok q'" and "out_prepaid q' = out_prepaid q"
    and "\<exists>bs written. length bs = room \<and> writer bs s = (answer, written, s') \<and>
      output_pending q' = output_pending q @ (case answer of Inr used \<Rightarrow> take used written | Inl _ \<Rightarrow> [])"
proof -
  obtain start q1 where g: "grow room q = (start, q1)" by fastforce
  let ?bs = "slice (storage q1) start (start + room)"
  obtain ans written s1 where w: "writer ?bs s = (ans, written, s1)" by (cases "writer ?bs s") auto
  have len: "length ?bs = room" using grow_ok(3) [OF assms(1) g] by simp
  then have lw: "length written = room" using assms(2) [of ?bs] w by simp
  define n where "n = (case ans of Inr used \<Rightarrow> min used room | Inl _ \<Rightarrow> 0)"
  have n: "n \<le> room" by (simp add: n_def split: sum.split)
  have res: "answer = ans" "s' = s1" "q' = output_truncate (start + n) (set_storage (overwrite start written (storage q1)) q1)"
    using assms(3) g w by (auto simp: push_frames_def Let_def n_def split: sum.splits)
  note written = written_room [OF assms(1) g lw n res(3)]
  show "output_ok q'" "out_prepaid q' = out_prepaid q" using written by auto
  have "take n written = (case answer of Inr used \<Rightarrow> take used written | Inl _ \<Rightarrow> [])"
    using lw by (auto simp: n_def res(1) min_def split: sum.split)
  then show "\<exists>bs written. length bs = room \<and> writer bs s = (answer, written, s') \<and>
      output_pending q' = output_pending q @ (case answer of Inr used \<Rightarrow> take used written | Inl _ \<Rightarrow> [])"
    using w len written(1) res(1,2) by auto
qed

lemma push_ok:
  assumes "output_ok q"
  shows "output_ok (push frame q)" and "output_pending (push frame q) = output_pending q @ frame"
    and "out_prepaid (push frame q) = out_prepaid q"
proof -
  obtain start q1 where g: "grow (length frame) q = (start, q1)" by fastforce
  have "push frame q = output_truncate (start + length frame) (set_storage (overwrite start frame (storage q1)) q1)"
    using grow_ok(2,8) [OF assms g] g
    by (auto simp: push_def output_truncate_def set_storage_def overwrite_def storage_def output_stored_def)
  from written_room [OF assms g refl order_refl this]
  show "output_ok (push frame q)" "output_pending (push frame q) = output_pending q @ frame"
    "out_prepaid (push frame q) = out_prepaid q" by auto
qed

lemma output_clear_ok: "output_ok q \<Longrightarrow> output_ok (output_clear q)" "output_pending (output_clear q) = []"
  "out_prepaid (output_clear q) = 0"
  by (simp_all add: output_ok_def output_clear_def output_stored_def output_len_def output_pending_def slice_def
      RETAINED_CAPACITY_def)

lemma output_compact_pending: "output_pending (output_compact q) = output_pending q"
  by (simp add: output_compact_def output_pending_def)

lemma output_compact_ok:
  assumes "length (out_inline q) = INLINE_CAPACITY" and "out_head q \<le> output_stored q"
    and "\<not> out_spilled q \<longrightarrow> out_end q \<le> INLINE_CAPACITY" and "out_prepaid q \<le> output_len q"
  shows "output_ok (output_compact q)"
  using assms
  by (auto simp: output_ok_def output_compact_def output_len_def output_stored_def INLINE_CAPACITY_def RETAINED_CAPACITY_def)

lemma output_consume_ok:
  assumes "output_ok q" and "output_consume n q = (overhead, q')"
  shows "output_ok q'" and "output_pending q' = drop n (output_pending q)" and "out_prepaid q' = out_prepaid q - n"
    and "overhead = min n (length (output_pending q)) - out_prepaid q"
proof -
  define m where "m = min n (output_len q)"
  define q1 where "q1 = q\<lparr>out_head := out_head q + m, out_prepaid := out_prepaid q - min m (out_prepaid q)\<rparr>"
  have q': "q' = (if output_is_empty q1 then output_clear q1 else output_compact q1)" and over: "overhead = m - min m (out_prepaid q)"
    using assms(2) unfolding output_consume_def Let_def m_def [symmetric] q1_def [symmetric] by auto
  have paid: "out_prepaid q \<le> output_len q" and len: "length (output_pending q) = output_len q"
    using assms(1) length_output_pending by (auto simp: output_ok_def)
  have q1: "length (out_inline q1) = INLINE_CAPACITY" "out_head q1 \<le> output_stored q1"
      "\<not> out_spilled q1 \<longrightarrow> out_end q1 \<le> INLINE_CAPACITY" "out_prepaid q1 \<le> output_len q1"
      "output_len q1 = output_len q - m"
    using assms(1) by (auto simp: q1_def m_def output_ok_def output_len_def output_stored_def)
  have pend: "output_pending q1 = drop m (output_pending q)"
    by (simp add: q1_def output_pending_def slice_def drop_take add.commute)
  have drop_m: "drop m (output_pending q) = drop n (output_pending q)" using len by (simp add: m_def min_def)
  show "overhead = min n (length (output_pending q)) - out_prepaid q" using over len by (simp add: m_def min_def)
  show "output_pending q' = drop n (output_pending q)"
  proof (cases "output_is_empty q1")
    case True
    then have "length (drop m (output_pending q)) = 0" using q1(5) len by (simp add: output_is_empty_def)
    then show ?thesis using True q' drop_m by (simp add: output_clear_ok)
  qed (use q' pend drop_m in \<open>simp add: output_compact_pending\<close>)
  have left: "out_prepaid q1 = out_prepaid q - n" using paid by (simp add: q1_def m_def min_def)
  show "out_prepaid q' = out_prepaid q - n"
  proof (cases "output_is_empty q1")
    case True
    then show ?thesis using q' q1(4) left by (simp add: output_clear_ok output_is_empty_def)
  qed (use q' left in \<open>simp add: output_compact_def\<close>)
  show "output_ok q'"
  proof (cases "output_is_empty q1")
    case True
    then show ?thesis
      using q' q1(1) by (simp add: output_ok_def output_clear_def output_stored_def output_len_def RETAINED_CAPACITY_def)
  qed (use q' output_compact_ok [OF q1(1-4)] in simp)
qed

text \<open>The data in front of the first delimiter.\<close>

fun leading_data :: "bytes option list \<Rightarrow> bytes" where
  "leading_data (Some data # blocks) = data @ leading_data blocks"
| "leading_data _ = []"

lemma adopt_blocks_ok:
  assumes "output_ok q" and "adopt_blocks blocks left q = (left', q')"
  shows "output_ok q' \<and> output_pending q' = output_pending q @ take left (leading_data blocks) \<and>
    out_prepaid q' = out_prepaid q \<and> left' = left - length (leading_data blocks)"
  using assms
proof (induction blocks left q rule: adopt_blocks.induct)
  case (2 block blocks left q)
  show ?case
  proof (cases "left = 0 \<or> block = None")
    case False
    then obtain data where [simp]: "block = Some data" and "0 < left" by auto
    let ?n = "min (length data) left"
    have "adopt_blocks blocks (left - ?n) (push (take ?n data) q) = (left', q')"
      using 2(3) \<open>0 < left\<close> by (simp add: Let_def)
    then show ?thesis
      using 2(1) [OF _ _ refl, of data] \<open>0 < left\<close> push_ok [OF 2(2), of "take ?n data"]
      by (auto simp: min_def split: if_splits)
  qed (use 2(2,3) in \<open>auto split: if_splits\<close>)
qed auto

lemma adopt_tail_ok:
  assumes "output_ok q" and "output_is_empty q" and "adopt_tail out_blocks consume_kawa tail kawa q = (kawa', q')"
  shows "output_ok q' \<and> output_pending q' = take tail (leading_data (out_blocks kawa)) \<and>
    out_prepaid q' = length (output_pending q') \<and> kawa' = consume_kawa (length (output_pending q')) kawa"
proof -
  have drained: "output_pending q = []" "out_prepaid q = 0"
    using assms(1,2) length_output_pending [OF assms(1)] by (auto simp: output_is_empty_def output_ok_def)
  obtain left q1 where a: "adopt_blocks (out_blocks kawa) tail q = (left, q1)" by fastforce
  note adopted = adopt_blocks_ok [OF assms(1) a]
  have q': "q' = q1\<lparr>out_prepaid := out_prepaid q1 + (tail - left)\<rparr>" "kawa' = consume_kawa (tail - left) kawa"
    using assms(3) a by (auto simp: adopt_tail_def Let_def)
  have same: "output_pending q' = output_pending q1" "output_len q' = output_len q1" "output_stored q' = output_stored q1"
    by (simp_all add: q' output_pending_def output_len_def output_stored_def)
  have tail: "tail - left = length (output_pending q')" using adopted drained same by simp
  have "output_ok q'"
    using adopted drained same(2,3) tail same(1) length_output_pending [of q1]
    by (simp add: output_ok_def q'(1))
  then show ?thesis using adopted drained same(1) q' tail by simp
qed

text \<open>
  C18: wherever it keeps its bytes, the queue is a first-in first-out sequence of octets. Pushed
  frames follow what is queued, a failed frame writer queues nothing, consuming drops from the front
  and counts as overhead what was not prepaid, the rest of a stream frame moved into an empty queue is
  the data the stream would have sent next and is all prepaid, and clearing empties. What was already
  sent is kept below 1024 octets or below what is still queued.
\<close>

theorem output_is_byte_queue:
  assumes "output_ok q" and "\<And>bs. length (fst (snd (writer bs s))) = length bs"
  shows "(case push_frames room writer q s of (answer, q', s') \<Rightarrow> output_ok q' \<and>
      (\<exists>bs written. length bs = room \<and> writer bs s = (answer, written, s') \<and>
         output_pending q' = output_pending q @ (case answer of Inr used \<Rightarrow> take used written | Inl _ \<Rightarrow> []))) \<and>
    (let q' = push frame q in output_ok q' \<and> output_pending q' = output_pending q @ frame) \<and>
    (case output_consume n q of (overhead, q') \<Rightarrow> output_ok q' \<and> output_pending q' = drop n (output_pending q) \<and>
      out_prepaid q' = out_prepaid q - n \<and> overhead = min n (length (output_pending q)) - out_prepaid q) \<and>
    (case adopt_tail out_blocks consume_kawa tail kawa q of (kawa', q') \<Rightarrow> output_is_empty q \<longrightarrow> output_ok q' \<and>
      output_pending q' = take tail (leading_data (out_blocks kawa)) \<and> out_prepaid q' = length (output_pending q') \<and>
      kawa' = consume_kawa (length (output_pending q')) kawa) \<and>
    (let q' = output_clear q in output_ok q' \<and> output_pending q' = []) \<and>
    output_stored q \<le> output_len q + max RETAINED_CAPACITY (output_len q)"
proof (intro conjI)
  show "case push_frames room writer q s of (answer, q', s') \<Rightarrow> output_ok q' \<and>
      (\<exists>bs written. length bs = room \<and> writer bs s = (answer, written, s') \<and>
         output_pending q' = output_pending q @ (case answer of Inr used \<Rightarrow> take used written | Inl _ \<Rightarrow> []))"
  proof (cases "push_frames room writer q s")
    case (fields answer q' s')
    then show ?thesis using push_frames_ok(1,3) [where writer = writer and s = s, OF assms fields] by simp
  qed
  show "case output_consume n q of (overhead, q') \<Rightarrow> output_ok q' \<and> output_pending q' = drop n (output_pending q) \<and>
      out_prepaid q' = out_prepaid q - n \<and> overhead = min n (length (output_pending q)) - out_prepaid q"
    by (cases "output_consume n q") (use output_consume_ok [OF assms(1)] in simp)
  show "case adopt_tail out_blocks consume_kawa tail kawa q of (kawa', q') \<Rightarrow> output_is_empty q \<longrightarrow> output_ok q' \<and>
      output_pending q' = take tail (leading_data (out_blocks kawa)) \<and> out_prepaid q' = length (output_pending q') \<and>
      kawa' = consume_kawa (length (output_pending q')) kawa"
  proof (cases "adopt_tail out_blocks consume_kawa tail kawa q")
    case (Pair kawa' q')
    then show ?thesis using adopt_tail_ok [OF assms(1) _ Pair] by auto
  qed
  show "output_stored q \<le> output_len q + max RETAINED_CAPACITY (output_len q)"
    using assms(1) by (auto simp: output_ok_def output_len_def max_def)
qed (use push_ok [OF assms(1)] output_clear_ok [of q] assms(1) in \<open>simp_all add: Let_def\<close>)

theorem output_is_byte_queue_witness:
  "output_pending (push [1, 2, 3] (push (replicate 130 7) output_default)) = replicate 130 7 @ [1, 2, 3]"
proof -
  let ?writer = "\<lambda>bs s. (Inr 0 :: unit + nat, bs, s :: unit)"
  have writer: "length (fst (snd (?writer bs ()))) = length bs" for bs :: bytes by simp
  have step: "output_ok (push f q) \<and> output_pending (push f q) = output_pending q @ f" if "output_ok q" for f q
    using output_is_byte_queue [where writer = ?writer and s = "()" and q = q and frame = f and n = 0 and tail = 0
        and room = 0 and out_blocks = "\<lambda>_. []" and consume_kawa = "\<lambda>_ k. k" and kawa = "()", OF that writer,
        THEN conjunct2, THEN conjunct1] by (simp only: Let_def)
  show ?thesis
    using step [of output_default "replicate 130 7"] step [of "push (replicate 130 7) output_default" "[1, 2, 3]"]
      output_default_ok by simp
qed

end
