(* ===== verification/H2_Flow_Control.thy ===== *)
theory H2_Flow_Control
  imports Sozu_Std H2_Serializer
begin

text \<open>
  Connection-level flow control, from \<^verbatim>\<open>src/lib/src/protocol/mux/h2_flow_control.rs\<close>: the send window,
  an \<open>i32\<close> kept as an integer in its range, the count of received octets not yet credited back,
  and the queue of WINDOW_UPDATE frames, a \<open>BTreeMap\<close> from stream identifiers to increments.
\<close>

record H2FlowControl =
  window :: int
  received_bytes_since_update :: u32
  pending_window_updates :: "(u32, u32) btree_map"

datatype QueueWindowUpdateOutcome = Coalesced u32 u32 | Inserted u32 | Dropped | Noop

datatype ApplyWindowUpdateOutcome = Applied int bool | Overflow

definition flow_control_new :: "int \<Rightarrow> H2FlowControl" where
  "flow_control_new initial_window =
     \<lparr>window = initial_window, received_bytes_since_update = 0, pending_window_updates = []\<rparr>"

definition consume_send_window :: "H2FlowControl \<Rightarrow> int \<Rightarrow> H2FlowControl" where
  "consume_send_window fc consumed = fc\<lparr>window := i32_saturating_sub (window fc) consumed\<rparr>"

definition refund_send_window :: "H2FlowControl \<Rightarrow> int \<Rightarrow> ApplyWindowUpdateOutcome \<times> H2FlowControl" where
  "refund_send_window fc refunded =
     (case i32_checked_add (window fc) refunded of
        None \<Rightarrow> (Overflow, fc)
      | Some w \<Rightarrow> (Applied w (window fc \<le> 0 \<and> 0 < w), fc\<lparr>window := w\<rparr>))"

definition apply_window_update :: "H2FlowControl \<Rightarrow> int \<Rightarrow> ApplyWindowUpdateOutcome \<times> H2FlowControl" where
  "apply_window_update fc increment =
     (case i32_checked_add (window fc) increment of
        Some new_window \<Rightarrow>
          (Applied new_window (window fc \<le> 0 \<and> 0 < new_window), fc\<lparr>window := new_window\<rparr>)
      | None \<Rightarrow> (Overflow, fc))"

definition account_received_bytes :: "H2FlowControl \<Rightarrow> u32 \<Rightarrow> u32 \<Rightarrow> u32 option \<times> H2FlowControl" where
  "account_received_bytes fc wire_payload_len threshold =
     (let received = u32_saturating_add (received_bytes_since_update fc) wire_payload_len in
      if threshold \<le> received then (Some received, fc\<lparr>received_bytes_since_update := 0\<rparr>)
      else (None, fc\<lparr>received_bytes_since_update := received\<rparr>))"

definition clear_pending_window_updates :: "H2FlowControl \<Rightarrow> H2FlowControl" where
  "clear_pending_window_updates fc = fc\<lparr>pending_window_updates := []\<rparr>"

definition queue_window_update ::
  "H2FlowControl \<Rightarrow> u32 \<Rightarrow> u32 \<Rightarrow> nat \<Rightarrow> QueueWindowUpdateOutcome \<times> H2FlowControl" where
  "queue_window_update fc sid increment max_pending =
     (if increment = 0 then (Noop, fc)
      else let max_increment = 0x7FFFFFFF; pending = pending_window_updates fc in
        case btree_get pending sid of
          Some old \<Rightarrow>
            let new = min (u32_saturating_add old increment) max_increment in
            (Coalesced old new, fc\<lparr>pending_window_updates := btree_insert sid new pending\<rparr>)
        | None \<Rightarrow>
            if length pending < max_pending then
              let capped = min increment max_increment in
              (Inserted capped, fc\<lparr>pending_window_updates := btree_insert sid capped pending\<rparr>)
            else (Dropped, fc))"

text \<open>
  The loop of \<open>drain_window_updates_into\<close> over the entries: the offset, the number of frames, the
  drained identifiers and the buffer.
\<close>

fun drain_loop ::
  "('s, 'g) CookieFactory \<Rightarrow> (u32 \<times> u32) list \<Rightarrow> bytes \<Rightarrow> nat \<Rightarrow> nat \<Rightarrow> u32 list \<Rightarrow> nat \<times> nat \<times> u32 list \<times> bytes" where
  "drain_loop C [] buf offset frames drained = (offset, frames, drained, buf)"
| "drain_loop C ((sid, increment) # es) buf offset frames drained =
     (if increment = 0 then drain_loop C es buf offset frames (drained @ [sid])
      else (case gen_window_update C (drop offset buf) sid increment of
          (Inr written, rest) \<Rightarrow>
            drain_loop C es (take offset buf @ rest) (offset + written) (frames + 1) (drained @ [sid])
        | (Inl _, rest) \<Rightarrow> (offset, frames, drained, take offset buf @ rest)))"

text \<open>The result: octets and frames written, the state, and the buffer.\<close>

definition drain_window_updates_into ::
  "('s, 'g) CookieFactory \<Rightarrow> H2FlowControl \<Rightarrow> bytes \<Rightarrow> (nat \<times> nat) \<times> H2FlowControl \<times> bytes" where
  "drain_window_updates_into C fc buf =
     (case drain_loop C (pending_window_updates fc) buf 0 0 [] of
        (offset, frames, drained, buf) \<Rightarrow>
          ((offset, frames),
           fc\<lparr>pending_window_updates := foldl (\<lambda>m k. btree_remove k m) (pending_window_updates fc) drained\<rparr>,
           buf))"

text \<open>The sweep of \<open>check_invariants\<close>, and the bounds the type and the RFC add to it.\<close>

definition fc_check_invariants :: "H2FlowControl \<Rightarrow> bool" where
  "fc_check_invariants fc \<longleftrightarrow> list_all (\<lambda>e. snd e \<noteq> 0) (pending_window_updates fc)"

definition update_ok :: "u32 \<Rightarrow> bool" where
  "update_ok v \<longleftrightarrow> v \<noteq> 0 \<and> unat v < 2 ^ 31"

definition fc_ok :: "H2FlowControl \<Rightarrow> bool" where
  "fc_ok fc \<longleftrightarrow> is_i32 (window fc) \<and> btree_ok (pending_window_updates fc) \<and>
     list_all (\<lambda>e. update_ok (snd e)) (pending_window_updates fc)"

lemma fc_ok_check: "fc_ok fc \<Longrightarrow> fc_check_invariants fc"
  by (auto simp: fc_ok_def fc_check_invariants_def update_ok_def list_all_iff)

subsection \<open>Invariants\<close>

lemma u32_min: "unat (min x y) = min (unat x) (unat (y :: u32))"
  by (simp add: min_def word_le_nat_alt)

lemma update_okI: "0 < unat v \<Longrightarrow> unat v < 2 ^ 31 \<Longrightarrow> update_ok v"
  by (auto simp: update_ok_def)

lemma coalesced_value: "unat (min (u32_saturating_add old increment) 0x7FFFFFFF) =
    min (unat old + unat increment) (2 ^ 31 - 1)"
  by (simp add: u32_min unat_u32_saturating_add)

lemma inserted_value: "unat (min increment (0x7FFFFFFF :: u32)) = min (unat increment) (2 ^ 31 - 1)"
  by (simp add: u32_min)

lemma list_all_btree_insert: "P v \<Longrightarrow> list_all (\<lambda>e. P (snd e)) m \<Longrightarrow> list_all (\<lambda>e. P (snd e)) (btree_insert k v m)"
  by (induction k v m rule: btree_insert.induct) auto

lemma fc_ok_set_pending:
  assumes "fc_ok fc" and "update_ok v"
  shows "fc_ok (fc\<lparr>pending_window_updates := btree_insert sid v (pending_window_updates fc)\<rparr>)"
  using assms by (simp add: fc_ok_def btree_insert_ok list_all_btree_insert)

lemma fc_ok_queue:
  assumes "fc_ok fc"
  shows "fc_ok (snd (queue_window_update fc sid increment max_pending))"
proof (cases "increment = 0")
  case False
  then have pos: "0 < unat increment" by (simp add: unat_gt_0)
  have "update_ok (min increment 0x7FFFFFFF)"
    by (rule update_okI) (use pos in \<open>simp_all only: inserted_value\<close>, simp_all)
  moreover have "update_ok (min (u32_saturating_add old increment) 0x7FFFFFFF)" for old
    by (rule update_okI) (use pos in \<open>simp_all only: coalesced_value\<close>, simp_all)
  ultimately show ?thesis
    using assms False
    by (simp add: queue_window_update_def Let_def fc_ok_set_pending split: option.split)
qed (simp add: queue_window_update_def assms)

lemma fc_ok_remove:
  assumes "fc_ok fc"
  shows "fc_ok (fc\<lparr>pending_window_updates := foldl (\<lambda>m k. btree_remove k m) (pending_window_updates fc) ks\<rparr>)"
proof -
  have "btree_ok (foldl (\<lambda>m k. btree_remove k m) m ks) \<and>
      list_all (\<lambda>e. update_ok (snd e)) (foldl (\<lambda>m k. btree_remove k m) m ks)"
    if "btree_ok m" "list_all (\<lambda>e. update_ok (snd e)) m" for m :: "(u32, u32) btree_map"
    using that
  proof (induction ks arbitrary: m)
    case (Cons k ks)
    have "list_all (\<lambda>e. update_ok (snd e)) (btree_remove k m)"
      using Cons.prems(2) by (simp add: btree_remove_def list_all_iff)
    with Cons.IH [OF btree_remove_ok [OF Cons.prems(1)]] show ?case by simp
  qed simp
  with assms show ?thesis by (simp add: fc_ok_def)
qed

lemma queue_length:
  assumes "length (pending_window_updates fc) \<le> max_pending"
    and "btree_ok (pending_window_updates fc)"
  shows "length (pending_window_updates (snd (queue_window_update fc sid increment max_pending))) \<le> max_pending"
proof -
  have "sid \<in> fst ` set (pending_window_updates fc) \<longleftrightarrow> btree_get (pending_window_updates fc) sid \<noteq> None"
    by (metis map_of_eq_None_iff)
  with assms show ?thesis
    by (auto simp: queue_window_update_def Let_def btree.size_insert split: option.splits)
qed


text \<open>The states a connection reaches from its initial window, with the cap it passes to every call.\<close>

inductive fc_reachable :: "('s, 'g) CookieFactory \<Rightarrow> int \<Rightarrow> nat \<Rightarrow> H2FlowControl \<Rightarrow> bool"
  for C initial_window max_pending where
  fc_new: "fc_reachable C initial_window max_pending (flow_control_new initial_window)"
| fc_consume: "fc_reachable C initial_window max_pending fc \<Longrightarrow>
    fc_reachable C initial_window max_pending (consume_send_window fc consumed)"
| fc_refund: "fc_reachable C initial_window max_pending fc \<Longrightarrow>
    fc_reachable C initial_window max_pending (snd (refund_send_window fc refunded))"
| fc_apply: "fc_reachable C initial_window max_pending fc \<Longrightarrow>
    fc_reachable C initial_window max_pending (snd (apply_window_update fc increment))"
| fc_account: "fc_reachable C initial_window max_pending fc \<Longrightarrow>
    fc_reachable C initial_window max_pending (snd (account_received_bytes fc n threshold))"
| fc_clear: "fc_reachable C initial_window max_pending fc \<Longrightarrow>
    fc_reachable C initial_window max_pending (clear_pending_window_updates fc)"
| fc_queue: "fc_reachable C initial_window max_pending fc \<Longrightarrow>
    fc_reachable C initial_window max_pending (snd (queue_window_update fc sid increment max_pending))"
| fc_drain: "fc_reachable C initial_window max_pending fc \<Longrightarrow>
    fc_reachable C initial_window max_pending (fst (snd (drain_window_updates_into C fc buf)))"

lemma fc_ok_window: "fc_ok fc \<Longrightarrow> is_i32 w \<Longrightarrow> fc_ok (fc\<lparr>window := w\<rparr>)"
  by (simp add: fc_ok_def)

lemma fc_ok_received: "fc_ok fc \<Longrightarrow> fc_ok (fc\<lparr>received_bytes_since_update := r\<rparr>)"
  by (simp add: fc_ok_def)

lemma drain_state: "fst (snd (drain_window_updates_into C fc buf)) =
    fc\<lparr>pending_window_updates := foldl (\<lambda>m k. btree_remove k m) (pending_window_updates fc)
       (fst (snd (snd (drain_loop C (pending_window_updates fc) buf 0 0 []))))\<rparr>"
  by (simp add: drain_window_updates_into_def split: prod.split)

lemma length_removals: "length (foldl (\<lambda>m k. btree_remove k m) m ks) \<le> length m"
proof (induction ks arbitrary: m)
  case (Cons k ks)
  have "length (btree_remove k m) \<le> length m" by (simp add: btree_remove_def)
  with Cons.IH [of "btree_remove k m"] show ?case by simp
qed simp

lemma fc_reachable_ok:
  assumes "fc_reachable C initial_window max_pending fc" and "is_i32 initial_window"
  shows "fc_ok fc \<and> length (pending_window_updates fc) \<le> max_pending"
  using assms(1)
proof induction
  case fc_new
  show ?case using assms(2) by (simp add: flow_control_new_def fc_ok_def)
next
  case (fc_consume fc consumed)
  have "is_i32 (i32_saturating_sub (window fc) consumed)"
    by (simp add: i32_saturating_sub_def is_i32_def i32_MIN_def i32_MAX_def)
  with fc_consume show ?case by (simp add: consume_send_window_def fc_ok_window)
next
  case (fc_refund fc refunded)
  then show ?case by (simp add: refund_send_window_def i32_checked_add_def fc_ok_window)
next
  case (fc_apply fc increment)
  then show ?case by (simp add: apply_window_update_def i32_checked_add_def fc_ok_window)
next
  case (fc_account fc n threshold)
  then show ?case by (simp add: account_received_bytes_def Let_def fc_ok_received)
next
  case (fc_clear fc)
  then show ?case by (simp add: clear_pending_window_updates_def fc_ok_def)
next
  case (fc_queue fc sid increment)
  then have "btree_ok (pending_window_updates fc)" by (simp add: fc_ok_def)
  with fc_queue show ?case by (simp add: fc_ok_queue queue_length)
next
  case (fc_drain fc buf)
  then show ?case
    using length_removals by (auto simp: drain_state intro: fc_ok_remove le_trans)
qed

subsection \<open>Draining the queue\<close>

definition update_frame :: "u32 \<times> u32 \<Rightarrow> bytes" where
  "update_frame e = header_bytes \<lparr>fh_payload_len = WINDOW_UPDATE_PAYLOAD_SIZE, fh_frame_type = WindowUpdate,
     fh_flags = 0, fh_stream_id = fst e\<rparr> @ u32_bytes (snd e AND STREAM_ID_MASK)"

lemma length_update_frame [simp]: "length (update_frame e) = 13"
  by (simp add: update_frame_def)

lemma length_update_frames [simp]: "length (concat (map update_frame es)) = 13 * length es"
  by (induction es) auto

lemma gen_window_update_eq:
  assumes "cookie_documented wire C"
  shows "13 \<le> length buf \<Longrightarrow> gen_window_update C buf sid v = (Inr 13, update_frame (sid, v) @ drop 13 buf)"
    and "length buf < 13 \<Longrightarrow> \<exists>e buf'. gen_window_update C buf sid v = (Inl e, buf') \<and> length buf' = length buf"
proof -
  let ?s = "cf_be_u32 C (v AND STREAM_ID_MASK)"
  have w: "wire ?s = u32_bytes (v AND STREAM_ID_MASK)" by (simp add: cookie_wire [OF assms])
  show "13 \<le> length buf \<Longrightarrow> gen_window_update C buf sid v = (Inr 13, update_frame (sid, v) @ drop 13 buf)"
    using gen_control_frame_eq(1) [OF assms, of ?s buf] by (simp add: gen_window_update_def update_frame_def w)
  show "length buf < 13 \<Longrightarrow> \<exists>e buf'. gen_window_update C buf sid v = (Inl e, buf') \<and> length buf' = length buf"
    using gen_control_frame_eq(2) [OF assms, of buf ?s] by (simp add: gen_window_update_def w)
qed

text \<open>The loop writes the first entries that fit, in the order of the map, and stops.\<close>

lemma drain_loop_writes:
  assumes "cookie_documented wire C" and "list_all (\<lambda>e. update_ok (snd e)) es" and "offset \<le> length buf"
  shows "\<exists>tail. length tail = length buf - offset - 13 * min (length es) ((length buf - offset) div 13) \<and>
    drain_loop C es buf offset frames drained =
      (offset + 13 * min (length es) ((length buf - offset) div 13),
       frames + min (length es) ((length buf - offset) div 13),
       drained @ map fst (take ((length buf - offset) div 13) es),
       take offset buf @ concat (map update_frame (take ((length buf - offset) div 13) es)) @ tail)"
  using assms(2,3)
proof (induction es arbitrary: buf offset frames drained)
  case Nil
  then show ?case by (intro exI [of _ "drop offset buf"]) simp
next
  case (Cons e es)
  obtain sid v where e: "e = (sid, v)" by (cases e)
  then have v: "v \<noteq> 0" "list_all (\<lambda>e. update_ok (snd e)) es" using Cons.prems by (auto simp: update_ok_def)
  show ?case
  proof (cases "13 \<le> length buf - offset")
    case True
    let ?buf = "take offset buf @ update_frame e @ drop (offset + 13) buf"
    have d: "(length buf - offset) div 13 = Suc ((length buf - (offset + 13)) div 13)"
      using True by (simp add: le_div_geq)
    have step: "drain_loop C (e # es) buf offset frames drained =
        drain_loop C es ?buf (offset + 13) (frames + 1) (drained @ [sid])"
      using gen_window_update_eq(1) [OF assms(1), of "drop offset buf" sid v] True v
      by (simp add: e add.commute)
    have "length ?buf = length buf" "offset + 13 \<le> length ?buf" using True Cons.prems(2) by auto
    moreover have "take (offset + 13) ?buf = take offset buf @ update_frame e" using Cons.prems(2) by simp
    ultimately show ?thesis
      using Cons.IH [OF v(2), of "offset + 13" ?buf "frames + 1" "drained @ [sid]"]
      unfolding step by (simp add: d e add.assoc)
  next
    case False
    then obtain g rest where "gen_window_update C (drop offset buf) sid v = (Inl g, rest)"
      and l: "length rest = length buf - offset"
      using gen_window_update_eq(2) [OF assms(1), of "drop offset buf" sid v] by auto
    then show ?thesis using False v by (intro exI [of _ rest]) (simp add: e)
  qed
qed

lemma drain_writes:
  assumes "cookie_documented wire C" and "fc_ok fc"
  shows "\<exists>tail. drain_window_updates_into C fc buf =
    ((13 * min (length (pending_window_updates fc)) (length buf div 13),
      min (length (pending_window_updates fc)) (length buf div 13)),
     fc\<lparr>pending_window_updates := drop (length buf div 13) (pending_window_updates fc)\<rparr>,
     concat (map update_frame (take (length buf div 13) (pending_window_updates fc))) @ tail) \<and>
    length tail = length buf - 13 * min (length (pending_window_updates fc)) (length buf div 13)"
proof -
  let ?m = "pending_window_updates fc" and ?k = "length buf div 13"
  have ok: "btree_ok ?m" "list_all (\<lambda>e. update_ok (snd e)) ?m" using assms(2) by (simp_all add: fc_ok_def)
  obtain tail where "drain_loop C ?m buf 0 0 [] = (13 * min (length ?m) ?k, min (length ?m) ?k,
      map fst (take ?k ?m), concat (map update_frame (take ?k ?m)) @ tail)"
    and "length tail = length buf - 13 * min (length ?m) ?k"
    using drain_loop_writes [OF assms(1) ok(2), of 0 buf 0 "[]"] by auto
  moreover have "foldl (\<lambda>m k. btree_remove k m) ?m (map fst (take ?k ?m)) = drop ?k ?m"
    using btree_remove_prefix [of "take ?k ?m" "drop ?k ?m"] ok(1) by simp
  ultimately show ?thesis by (simp add: drain_window_updates_into_def)
qed

lemma update_ok_mask: "update_ok v \<Longrightarrow> v AND STREAM_ID_MASK = v"
proof -
  assume "update_ok v"
  then have "unat (take_bit 31 v) = unat v" by (simp add: update_ok_def unsigned_take_bit_eq take_bit_nat_eq_self)
  then have "take_bit 31 v = v" by (simp only: unsigned_word_eqI)
  moreover have "STREAM_ID_MASK = mask 31" by (simp add: STREAM_ID_MASK_def mask_numeral)
  ultimately show ?thesis by (simp add: take_bit_eq_mask)
qed

text \<open>Successive passes, each into a buffer of its own, and what they put on the wire.\<close>

fun drain_passes :: "('s, 'g) CookieFactory \<Rightarrow> H2FlowControl \<Rightarrow> bytes list \<Rightarrow> bytes \<times> H2FlowControl" where
  "drain_passes C fc [] = ([], fc)"
| "drain_passes C fc (buf # bufs) =
     (case drain_window_updates_into C fc buf of
        ((n, _), fc', buf') \<Rightarrow> (case drain_passes C fc' bufs of (out, fc'') \<Rightarrow> (take n buf' @ out, fc'')))"

fun parse_frames :: "('k, 'sl) Nom \<Rightarrow> nat \<Rightarrow> bytes \<Rightarrow> u32 \<Rightarrow> ('k, 'sl Frame list) IResult" where
  "parse_frames N 0 input limit = Inr (input, [])"
| "parse_frames N (Suc n) input limit = and_then (parse_frame N input limit) (\<lambda>(i, f).
     and_then (parse_frames N n i limit) (\<lambda>(i, fs). Inr (i, f # fs)))"

lemma parse_update_frames:
  assumes "nom_documented eof N" and "4 \<le> limit" and "list_all (\<lambda>e. update_ok (snd e)) es"
  shows "parse_frames N (length es) (concat (map update_frame es)) limit =
    Inr ([], map (\<lambda>(sid, v). WindowUpdateFrame (sid AND STREAM_ID_MASK) v) es)"
  using assms(3)
proof (induction es)
  case (Cons e es)
  obtain sid v where e: "e = (sid, v)" by (cases e)
  with Cons.prems have "v AND STREAM_ID_MASK = v" by (simp add: update_ok_mask)
  then have "parse_frame N (update_frame e @ tail) limit =
      Inr (tail, WindowUpdateFrame (sid AND STREAM_ID_MASK) v)" for tail
    using parse_window_update [OF assms(1,2), of sid v tail] by (simp add: update_frame_def e)
  with Cons show ?case by (simp add: e)
qed simp

lemma drain_passes_all:
  assumes "cookie_documented wire C" and "fc_ok fc" and "list_all (\<lambda>b. 13 \<le> length b) bufs"
    and "length (pending_window_updates fc) \<le> length bufs"
  shows "drain_passes C fc bufs =
    (concat (map update_frame (pending_window_updates fc)), clear_pending_window_updates fc)"
  using assms(2-)
proof (induction bufs arbitrary: fc)
  case Nil
  then show ?case by (simp add: clear_pending_window_updates_def)
next
  case (Cons buf bufs)
  let ?m = "pending_window_updates fc" and ?k = "length buf div 13"
  let ?fc = "fc\<lparr>pending_window_updates := drop ?k ?m\<rparr>"
  obtain tail where d: "drain_window_updates_into C fc buf =
      ((13 * min (length ?m) ?k, min (length ?m) ?k), ?fc, concat (map update_frame (take ?k ?m)) @ tail)"
    using drain_writes [OF assms(1) Cons.prems(1), of buf] by blast
  have k: "1 \<le> ?k" using Cons.prems(2) div_le_mono [of 13 "length buf" 13] by simp
  have "btree_ok (drop ?k ?m)"
    using Cons.prems(1) by (simp add: fc_ok_def btree_ok_def sorted_wrt_drop flip: drop_map)
  moreover have "list_all (\<lambda>e. update_ok (snd e)) (drop ?k ?m)"
    using Cons.prems(1) by (auto simp: fc_ok_def list_all_iff dest: in_set_dropD)
  ultimately have "fc_ok ?fc" using Cons.prems(1) by (simp add: fc_ok_def)
  moreover have "length (pending_window_updates ?fc) \<le> length bufs" using Cons.prems(3) k by simp
  ultimately have "drain_passes C ?fc bufs =
      (concat (map update_frame (drop ?k ?m)), clear_pending_window_updates fc)"
    using Cons.IH [of ?fc] Cons.prems(2) by (simp add: clear_pending_window_updates_def)
  moreover have "concat (map update_frame (take ?k ?m)) @ concat (map update_frame (drop ?k ?m)) =
      concat (map update_frame ?m)"
    by (simp flip: concat_append map_append)
  ultimately show ?case by (simp add: d min.commute)
qed

subsection \<open>Conservation of credit\<close>

text \<open>
  The send window along a run: what was consumed, what was refunded and granted by accepted
  WINDOW_UPDATE frames.
\<close>

datatype window_event = Consume int | Refund int | Grant int

fun window_amount :: "window_event \<Rightarrow> int" where
  "window_amount (Consume n) = n"
| "window_amount (Refund n) = n"
| "window_amount (Grant n) = n"

fun window_run :: "H2FlowControl \<Rightarrow> window_event list \<Rightarrow> int \<times> int \<times> H2FlowControl" where
  "window_run fc [] = (0, 0, fc)"
| "window_run fc (Consume n # es) =
     (case window_run (consume_send_window fc n) es of (sent, given, fc') \<Rightarrow> (sent + n, given, fc'))"
| "window_run fc (Refund n # es) =
     (case refund_send_window fc n of (r, fc1) \<Rightarrow> case window_run fc1 es of (sent, given, fc') \<Rightarrow>
        (sent, given + (if r = Overflow then 0 else n), fc'))"
| "window_run fc (Grant n # es) =
     (case apply_window_update fc n of (r, fc1) \<Rightarrow> case window_run fc1 es of (sent, given, fc') \<Rightarrow>
        (sent, given + (if r = Overflow then 0 else n), fc'))"

lemma refund_is_apply: "refund_send_window fc n = apply_window_update fc n"
  by (simp add: refund_send_window_def apply_window_update_def split: option.split)

lemma window_give:
  assumes "is_i32 (window fc)" and "0 \<le> n" and "n + rest \<le> window fc + 2 ^ 31"
    and "\<And>fc sent given. is_i32 (window fc) \<Longrightarrow> rest \<le> window fc + 2 ^ 31 \<Longrightarrow> run fc = (sent, given, fc') \<Longrightarrow>
      window fc' = window fc - sent + given \<and> is_i32 (window fc')"
    and "(case apply_window_update fc n of (r, fc1) \<Rightarrow> case run fc1 of (sent, given, fc') \<Rightarrow>
        (sent, given + (if r = Overflow then 0 else n), fc')) = (sent, given, fc')"
  shows "window fc' = window fc - sent + given \<and> is_i32 (window fc')"
proof (cases "is_i32 (window fc + n)")
  case True
  then have "run (fc\<lparr>window := window fc + n\<rparr>) = (sent, given - n, fc')"
    using assms(5) by (auto simp: apply_window_update_def i32_checked_add_def split: prod.splits)
  from assms(4) [OF _ _ this] show ?thesis using True assms(2,3) by auto
next
  case False
  then have "run fc = (sent, given, fc')"
    using assms(5) by (auto simp: apply_window_update_def i32_checked_add_def split: prod.splits)
  from assms(4) [OF assms(1) _ this] show ?thesis using assms(2,3) by auto
qed

lemma window_run_conserves:
  assumes "list_all (\<lambda>e. 0 \<le> window_amount e) es" and "is_i32 (window fc)"
    and "sum_list (map window_amount es) \<le> window fc + 2 ^ 31"
    and "window_run fc es = (sent, given, fc')"
  shows "window fc' = window fc - sent + given \<and> is_i32 (window fc')"
  using assms
proof (induction es arbitrary: fc sent given)
  case (Cons e es)
  have nonneg: "0 \<le> sum_list (map window_amount es)"
    using Cons.prems(1) by (intro sum_list_nonneg) (auto simp: list_all_iff)
  have IH: "window fc' = window fc - sent + given \<and> is_i32 (window fc')"
    if "is_i32 (window fc)" "sum_list (map window_amount es) \<le> window fc + 2 ^ 31"
      "window_run fc es = (sent, given, fc')" for fc sent given
    using Cons.IH [OF _ that] Cons.prems(1) by auto
  show ?case
  proof (cases e)
    case (Consume n)
    let ?fc = "consume_send_window fc n"
    have n: "0 \<le> n" using Cons.prems(1) Consume by simp
    then have w: "window ?fc = window fc - n"
      using Cons.prems(2,3) nonneg Consume
      by (simp add: consume_send_window_def i32_saturating_sub_def is_i32_def i32_MIN_def i32_MAX_def)
    obtain sent' where s: "window_run ?fc es = (sent', given, fc')" "sent = sent' + n"
      using Cons.prems(4) Consume by (auto split: prod.splits)
    have "is_i32 (window ?fc)"
      using w n nonneg Cons.prems(2,3) Consume by (simp add: is_i32_def i32_MIN_def i32_MAX_def)
    then show ?thesis
      using IH [OF _ _ s(1)] Cons.prems(3) w s(2) Consume by auto
  next
    case (Refund n)
    show ?thesis
      by (rule window_give [OF Cons.prems(2) _ _ IH]) (use Cons.prems Refund in \<open>simp_all add: refund_is_apply\<close>)
  next
    case (Grant n)
    show ?thesis
      by (rule window_give [OF Cons.prems(2) _ _ IH]) (use Cons.prems Grant in \<open>simp_all\<close>)
  qed
qed simp

text \<open>The received octets along a run of DATA frames, and the increments handed back.\<close>

fun credit_run :: "H2FlowControl \<Rightarrow> u32 \<Rightarrow> u32 list \<Rightarrow> u32 list \<times> H2FlowControl" where
  "credit_run fc threshold [] = ([], fc)"
| "credit_run fc threshold (n # ns) =
     (case account_received_bytes fc n threshold of (r, fc1) \<Rightarrow> case credit_run fc1 threshold ns of
        (rs, fc') \<Rightarrow> ((case r of None \<Rightarrow> rs | Some v \<Rightarrow> v # rs), fc'))"

lemma account_exact:
  assumes "unat (received_bytes_since_update fc) + unat n < 2 ^ 32"
    and "account_received_bytes fc n threshold = (r, fc1)"
  shows "(case r of None \<Rightarrow> 0 | Some v \<Rightarrow> unat v) + unat (received_bytes_since_update fc1) =
      unat (received_bytes_since_update fc) + unat n"
    and "r = Some v \<Longrightarrow> threshold \<le> v"
    and "0 < threshold \<Longrightarrow> received_bytes_since_update fc1 < threshold"
  using assms unat_u32_saturating_add [of "received_bytes_since_update fc" n]
  by (auto simp: account_received_bytes_def Let_def split: if_splits)

lemma credit_run_conserves:
  assumes "credit_run fc threshold ns = (rs, fc')" and "0 < threshold"
    and "received_bytes_since_update fc < threshold"
    and "list_all (\<lambda>n. unat threshold + unat n \<le> 2 ^ 32) ns"
  shows "sum_list (map unat rs) + unat (received_bytes_since_update fc') =
      unat (received_bytes_since_update fc) + sum_list (map unat ns) \<and>
    list_all ((\<le>) threshold) rs \<and> received_bytes_since_update fc' < threshold"
  using assms
proof (induction ns arbitrary: fc rs)
  case (Cons n ns)
  obtain r fc1 where r: "account_received_bytes fc n threshold = (r, fc1)" by (cases "account_received_bytes fc n threshold")
  obtain rs1 where rs: "credit_run fc1 threshold ns = (rs1, fc')" "rs = (case r of None \<Rightarrow> rs1 | Some v \<Rightarrow> v # rs1)"
    using Cons.prems(1) by (auto simp: r split: prod.splits)
  have "unat (received_bytes_since_update fc) + unat n < 2 ^ 32"
    using Cons.prems(3,4) by (simp add: word_less_nat_alt)
  note acc = account_exact [OF this r]
  show ?case
    using Cons.IH [OF rs(1) Cons.prems(2) acc(3) [OF Cons.prems(2)]] Cons.prems(4) acc(1,2)
    by (auto simp: rs(2) split: option.splits)
qed simp

subsection \<open>Properties\<close>

text \<open>
  C34: every state the flow controller reaches, whatever the order and the arguments of the calls,
  keeps the send window in \<open>i32\<close>, the queue in strictly ascending stream order with at most
  \<open>max_pending\<close> entries, and every queued increment between 1 and \<open>2 ^ 31 - 1\<close>, so the debug sweep
  never fires.
\<close>

theorem flow_control_reachable_invariant:
  assumes "fc_reachable C initial_window max_pending fc" and "is_i32 initial_window"
  shows "is_i32 (window fc) \<and> sorted_wrt (<) (map fst (pending_window_updates fc)) \<and>
    length (pending_window_updates fc) \<le> max_pending \<and>
    list_all (\<lambda>(_, v). 1 \<le> unat v \<and> unat v \<le> 2 ^ 31 - 1) (pending_window_updates fc) \<and>
    fc_check_invariants fc"
  using fc_reachable_ok [OF assms] fc_ok_check [of fc]
  by (auto simp: fc_ok_def btree_ok_def update_ok_def list_all_iff Suc_le_eq unat_gt_0)

theorem flow_control_reachable_invariant_witness:
  "fc_check_invariants (snd (queue_window_update (flow_control_new 65535) 1 0xFFFFFFFF 4))"
proof -
  have "fc_reachable cookie_buffer 65535 4 (snd (queue_window_update (flow_control_new 65535) 1 0xFFFFFFFF 4))"
    by (intro fc_queue fc_new)
  from flow_control_reachable_invariant [OF this] show ?thesis by (simp add: is_i32_def i32_MIN_def i32_MAX_def)
qed

text \<open>
  C19: no queued WINDOW_UPDATE is lost or reordered, however small the output buffers. As many passes
  as there are entries, each into a buffer that holds at least one frame, empty the queue, and the
  octets they produced, read by the frame parser, are exactly the queued updates, in stream order.
\<close>

theorem window_updates_all_drained:
  assumes "cookie_documented wire C" and "nom_documented eof N" and "4 \<le> limit"
    and "fc_reachable C initial_window max_pending fc" and "is_i32 initial_window"
    and "list_all (\<lambda>b. 13 \<le> length b) bufs" and "length (pending_window_updates fc) \<le> length bufs"
  shows "\<exists>out fc'. drain_passes C fc bufs = (out, fc') \<and> pending_window_updates fc' = [] \<and>
    parse_frames N (length (pending_window_updates fc)) out limit =
      Inr ([], map (\<lambda>(sid, v). WindowUpdateFrame (sid AND STREAM_ID_MASK) v) (pending_window_updates fc))"
proof -
  have ok: "fc_ok fc" using fc_reachable_ok [OF assms(4,5)] by simp
  then have "list_all (\<lambda>e. update_ok (snd e)) (pending_window_updates fc)" by (simp add: fc_ok_def)
  then show ?thesis
    using drain_passes_all [OF assms(1) ok assms(6,7)] parse_update_frames [OF assms(2,3)]
    by (simp add: clear_pending_window_updates_def)
qed

theorem window_updates_all_drained_witness:
  "\<exists>out fc'. drain_passes cookie_buffer
      (snd (queue_window_update (snd (queue_window_update (flow_control_new 65535) 3 7 4)) 1 9 4))
      [replicate 14 0, replicate 13 0] = (out, fc') \<and> pending_window_updates fc' = [] \<and>
    parse_frames nom_complete 2 out 16384 = Inr ([], [WindowUpdateFrame 1 9, WindowUpdateFrame 3 7])"
proof -
  let ?fc = "snd (queue_window_update (snd (queue_window_update (flow_control_new 65535) 3 7 4)) 1 9 4)"
  have "fc_reachable cookie_buffer 65535 4 ?fc" by (intro fc_queue fc_new)
  moreover have "pending_window_updates ?fc = [(1, 9), (3, 7)]"
    by (simp add: queue_window_update_def flow_control_new_def)
  ultimately show ?thesis
    using window_updates_all_drained [OF cookie_buffer_documented nom_complete_documented, of 16384 65535 4 ?fc
        "[replicate 14 0, replicate 13 0]"]
    by (simp add: is_i32_def i32_MIN_def i32_MAX_def STREAM_ID_MASK_def flip: numeral_2_eq_2)
qed

text \<open>
  the send window is conserved. Along any run of consumptions, refunds and WINDOW_UPDATE
  increments whose total stays clear of the lower bound of \<open>i32\<close>, the window ends at its start less
  what was sent plus what was given back or granted, updates refused as overflows counting for
  nothing, and it never leaves \<open>i32\<close>.
\<close>

theorem send_window_conserved:
  assumes "list_all (\<lambda>e. 0 \<le> window_amount e) es" and "is_i32 (window fc)"
    and "sum_list (map window_amount es) \<le> window fc + 2 ^ 31"
    and "window_run fc es = (sent, given, fc')"
  shows "window fc' = window fc - sent + given \<and> is_i32 (window fc')"
  by (rule window_run_conserves [OF assms])

theorem send_window_conserved_witness:
  "\<exists>fc'. window_run (flow_control_new 65535) [Consume 65535, Grant 100, Grant (2 ^ 31 - 1), Refund 5] =
    (65535, 105, fc') \<and> window fc' = 105"
  using send_window_conserved [of "[Consume 65535, Grant 100, Grant (2 ^ 31 - 1), Refund 5]" "flow_control_new 65535"]
  by (simp add: flow_control_new_def consume_send_window_def apply_window_update_def refund_send_window_def
      i32_saturating_sub_def i32_checked_add_def is_i32_def i32_MIN_def i32_MAX_def)

text \<open>
  received octets are credited back exactly once. Along any sequence of DATA frames small enough
  not to saturate the counter, the increments handed to the queue and the octets still counted add
  up to what was received; each increment reaches the threshold and the rest stays below it.
\<close>

theorem receive_credit_conserved:
  assumes "credit_run fc threshold ns = (rs, fc')" and "0 < threshold"
    and "received_bytes_since_update fc < threshold"
    and "list_all (\<lambda>n. unat threshold + unat n \<le> 2 ^ 32) ns"
  shows "sum_list (map unat rs) + unat (received_bytes_since_update fc') =
      unat (received_bytes_since_update fc) + sum_list (map unat ns) \<and>
    list_all ((\<le>) threshold) rs \<and> received_bytes_since_update fc' < threshold"
  by (rule credit_run_conserves [OF assms])

theorem receive_credit_conserved_witness:
  "\<exists>fc'. credit_run (flow_control_new 65535) 100 [60, 70, 30] = ([130], fc') \<and> received_bytes_since_update fc' = 30"
  using receive_credit_conserved [of "flow_control_new 65535" 100 "[60, 70, 30]" "[130]"]
  by (simp add: flow_control_new_def account_received_bytes_def u32_saturating_add_def)

end
