(* ===== verification/H2_Flood.thy ===== *)
theory H2_Flood
  imports H2_Parser
begin

text \<open>
  The flood detector of an HTTP/2 connection, from \<^verbatim>\<open>src/lib/src/protocol/mux/h2_flood_detector.rs\<close>:
  the thresholds, the counters and what each frame does to them, the half-decay of the rate
  counters and the checks that end a connection with ENHANCE_YOUR_CALM. Counters are natural
  numbers with the wrap-around of \<open>+= 1\<close> and the saturation of \<open>saturating_add\<close> written out at the
  width the code has; instants are nanoseconds.
\<close>

subsection \<open>Thresholds\<close>

definition DEFAULT_MAX_RST_STREAM_PER_WINDOW :: nat where "DEFAULT_MAX_RST_STREAM_PER_WINDOW = 2000"
definition DEFAULT_MAX_RST_STREAM_LIFETIME :: nat where "DEFAULT_MAX_RST_STREAM_LIFETIME = 200000"
definition DEFAULT_MAX_RST_STREAM_ABUSIVE_LIFETIME :: nat where "DEFAULT_MAX_RST_STREAM_ABUSIVE_LIFETIME = 1000"
definition DEFAULT_MAX_RST_STREAM_EMITTED_LIFETIME :: nat where "DEFAULT_MAX_RST_STREAM_EMITTED_LIFETIME = 10000"
definition DEFAULT_MAX_PING_PER_WINDOW :: nat where "DEFAULT_MAX_PING_PER_WINDOW = 2000"
definition DEFAULT_MAX_PING_LIFETIME :: nat where "DEFAULT_MAX_PING_LIFETIME = 200000"
definition DEFAULT_MAX_SETTINGS_PER_WINDOW :: nat where "DEFAULT_MAX_SETTINGS_PER_WINDOW = 1000"
definition DEFAULT_MAX_SETTINGS_LIFETIME :: nat where "DEFAULT_MAX_SETTINGS_LIFETIME = 200000"
definition DEFAULT_MAX_EMPTY_DATA_PER_WINDOW :: nat where "DEFAULT_MAX_EMPTY_DATA_PER_WINDOW = 2000"
definition DEFAULT_MAX_WINDOW_UPDATE_STREAM0_PER_WINDOW :: nat where "DEFAULT_MAX_WINDOW_UPDATE_STREAM0_PER_WINDOW = 2000"
definition WINDOW_UPDATE_STREAM0_CREDIT_PER_DATA_FRAME :: nat where "WINDOW_UPDATE_STREAM0_CREDIT_PER_DATA_FRAME = 2"
definition DEFAULT_MAX_CONTINUATION_FRAMES :: nat where "DEFAULT_MAX_CONTINUATION_FRAMES = 20"
definition DEFAULT_MAX_HEADER_TABLE_SIZE :: nat where "DEFAULT_MAX_HEADER_TABLE_SIZE = 65536"
definition DEFAULT_MAX_HEADER_FIELDS :: nat where "DEFAULT_MAX_HEADER_FIELDS = 128"
definition DEFAULT_STREAM_REFUSAL_PERCENT :: nat where "DEFAULT_STREAM_REFUSAL_PERCENT = 50"
definition DEFAULT_MAX_GLITCH_COUNT :: nat where "DEFAULT_MAX_GLITCH_COUNT = 2000"
definition MAX_HEADER_LIST_SIZE :: nat where "MAX_HEADER_LIST_SIZE = 65536"
definition FLOOD_WINDOW_DURATION :: nat where "FLOOD_WINDOW_DURATION = 1000000000"

lemmas flood_consts =
  DEFAULT_MAX_RST_STREAM_PER_WINDOW_def
  DEFAULT_MAX_RST_STREAM_LIFETIME_def
  DEFAULT_MAX_RST_STREAM_ABUSIVE_LIFETIME_def
  DEFAULT_MAX_RST_STREAM_EMITTED_LIFETIME_def
  DEFAULT_MAX_PING_PER_WINDOW_def
  DEFAULT_MAX_PING_LIFETIME_def
  DEFAULT_MAX_SETTINGS_PER_WINDOW_def
  DEFAULT_MAX_SETTINGS_LIFETIME_def
  DEFAULT_MAX_EMPTY_DATA_PER_WINDOW_def
  DEFAULT_MAX_WINDOW_UPDATE_STREAM0_PER_WINDOW_def
  WINDOW_UPDATE_STREAM0_CREDIT_PER_DATA_FRAME_def
  DEFAULT_MAX_CONTINUATION_FRAMES_def
  DEFAULT_MAX_HEADER_TABLE_SIZE_def
  DEFAULT_MAX_HEADER_FIELDS_def
  DEFAULT_STREAM_REFUSAL_PERCENT_def
  DEFAULT_MAX_GLITCH_COUNT_def
  MAX_HEADER_LIST_SIZE_def
  FLOOD_WINDOW_DURATION_def

record H2FloodConfig =
  max_rst_stream_per_window :: nat
  max_ping_per_window :: nat
  max_settings_per_window :: nat
  max_empty_data_per_window :: nat
  max_window_update_stream0_per_window :: nat
  max_continuation_frames :: nat
  max_glitch_count :: nat
  max_rst_stream_lifetime :: nat
  max_rst_stream_abusive_lifetime :: nat
  max_rst_stream_emitted_lifetime :: nat
  max_header_list_size :: nat
  max_header_table_size :: nat
  max_header_fields :: nat
  stream_refusal_percent :: nat

definition flood_config_default :: H2FloodConfig where
  "flood_config_default = \<lparr>
     max_rst_stream_per_window = DEFAULT_MAX_RST_STREAM_PER_WINDOW,
     max_ping_per_window = DEFAULT_MAX_PING_PER_WINDOW,
     max_settings_per_window = DEFAULT_MAX_SETTINGS_PER_WINDOW,
     max_empty_data_per_window = DEFAULT_MAX_EMPTY_DATA_PER_WINDOW,
     max_window_update_stream0_per_window = DEFAULT_MAX_WINDOW_UPDATE_STREAM0_PER_WINDOW,
     max_continuation_frames = DEFAULT_MAX_CONTINUATION_FRAMES,
     max_glitch_count = DEFAULT_MAX_GLITCH_COUNT,
     max_rst_stream_lifetime = DEFAULT_MAX_RST_STREAM_LIFETIME,
     max_rst_stream_abusive_lifetime = DEFAULT_MAX_RST_STREAM_ABUSIVE_LIFETIME,
     max_rst_stream_emitted_lifetime = DEFAULT_MAX_RST_STREAM_EMITTED_LIFETIME,
     max_header_list_size = MAX_HEADER_LIST_SIZE,
     max_header_table_size = DEFAULT_MAX_HEADER_TABLE_SIZE,
     max_header_fields = DEFAULT_MAX_HEADER_FIELDS,
     stream_refusal_percent = DEFAULT_STREAM_REFUSAL_PERCENT\<rparr>"

definition flood_config_new ::
  "nat \<Rightarrow> nat \<Rightarrow> nat \<Rightarrow> nat \<Rightarrow> nat \<Rightarrow> nat \<Rightarrow> nat \<Rightarrow> nat \<Rightarrow> nat \<Rightarrow> nat \<Rightarrow> nat \<Rightarrow> nat \<Rightarrow> nat \<Rightarrow> nat \<Rightarrow> H2FloodConfig" where
  "flood_config_new rst ping settings empty_data wu0 cont glitch rst_life rst_abusive rst_emitted list_size table_size fields_max percent = \<lparr>
     max_rst_stream_per_window = max rst 1,
     max_ping_per_window = max ping 1,
     max_settings_per_window = max settings 1,
     max_empty_data_per_window = max empty_data 1,
     max_window_update_stream0_per_window = max wu0 1,
     max_continuation_frames = max cont 1,
     max_glitch_count = max glitch 1,
     max_rst_stream_lifetime = max rst_life 1,
     max_rst_stream_abusive_lifetime = max rst_abusive 1,
     max_rst_stream_emitted_lifetime = max rst_emitted 1,
     max_header_list_size = max list_size 1,
     max_header_table_size = max table_size 1,
     max_header_fields = max fields_max 1,
     stream_refusal_percent = percent\<rparr>"

definition unwrap_or :: "'a option \<Rightarrow> 'a \<Rightarrow> 'a" where
  "unwrap_or x y = (case x of Some v \<Rightarrow> v | None \<Rightarrow> y)"

definition flood_config_from_optional ::
  "nat option \<Rightarrow> nat option \<Rightarrow> nat option \<Rightarrow> nat option \<Rightarrow> nat option \<Rightarrow> nat option \<Rightarrow> nat option \<Rightarrow> nat option \<Rightarrow> nat option \<Rightarrow> nat option \<Rightarrow> nat option \<Rightarrow> nat option \<Rightarrow> nat option \<Rightarrow> nat option \<Rightarrow> H2FloodConfig" where
  "flood_config_from_optional rst ping settings empty_data wu0 cont glitch rst_life rst_abusive rst_emitted list_size table_size fields_max percent =
     (let defaults = flood_config_default in flood_config_new
       (unwrap_or rst (max_rst_stream_per_window defaults))
       (unwrap_or ping (max_ping_per_window defaults))
       (unwrap_or settings (max_settings_per_window defaults))
       (unwrap_or empty_data (max_empty_data_per_window defaults))
       (unwrap_or wu0 (max_window_update_stream0_per_window defaults))
       (unwrap_or cont (max_continuation_frames defaults))
       (unwrap_or glitch (max_glitch_count defaults))
       (unwrap_or rst_life (max_rst_stream_lifetime defaults))
       (unwrap_or rst_abusive (max_rst_stream_abusive_lifetime defaults))
       (unwrap_or rst_emitted (max_rst_stream_emitted_lifetime defaults))
       (unwrap_or list_size (max_header_list_size defaults))
       (unwrap_or table_size (max_header_table_size defaults))
       (unwrap_or fields_max (max_header_fields defaults))
       (unwrap_or percent (stream_refusal_percent defaults)))"

subsection \<open>The detector\<close>

record H2FloodViolation =
  fv_error :: H2Error
  fv_reason :: string
  fv_metric_key :: string
  fv_count :: nat
  fv_threshold :: nat

record H2FloodDetector =
  rst_stream_count :: nat
  total_rst_received_lifetime :: nat
  total_abusive_rst_received_lifetime :: nat
  total_rst_streams_emitted_lifetime :: nat
  streams_opened :: nat
  window_update_stream0_credit :: nat
  data_frames_recent :: nat
  ping_count :: nat
  total_ping_received_lifetime :: nat
  settings_count :: nat
  total_settings_received_lifetime :: nat
  empty_data_count :: nat
  window_update_stream0_count :: nat
  continuation_count :: nat
  accumulated_header_size :: nat
  glitch_count :: nat
  last_pre_response_rst_at :: "nat option"
  window_start :: nat
  flood_config :: H2FloodConfig

definition u32_inc :: "nat \<Rightarrow> nat" where
  "u32_inc x = (x + 1) mod 2 ^ 32"

definition u32_sat_add :: "nat \<Rightarrow> nat \<Rightarrow> nat" where
  "u32_sat_add x y = min (x + y) (2 ^ 32 - 1)"

definition u64_sat_add :: "nat \<Rightarrow> nat \<Rightarrow> nat" where
  "u64_sat_add x y = min (x + y) (2 ^ 64 - 1)"

definition u64_sat_mul :: "nat \<Rightarrow> nat \<Rightarrow> nat" where
  "u64_sat_mul x y = min (x * y) (2 ^ 64 - 1)"

definition flood_new :: "H2FloodConfig \<Rightarrow> nat \<Rightarrow> H2FloodDetector" where
  "flood_new cfg now = \<lparr>
     rst_stream_count = 0,
     total_rst_received_lifetime = 0,
     total_abusive_rst_received_lifetime = 0,
     total_rst_streams_emitted_lifetime = 0,
     streams_opened = 0,
     window_update_stream0_credit = 0,
     data_frames_recent = 0,
     ping_count = 0,
     total_ping_received_lifetime = 0,
     settings_count = 0,
     total_settings_received_lifetime = 0,
     empty_data_count = 0,
     window_update_stream0_count = 0,
     continuation_count = 0,
     accumulated_header_size = 0,
     glitch_count = 0,
     last_pre_response_rst_at = None,
     window_start = now,
     flood_config = cfg\<rparr>"

definition record_stream_opened :: "H2FloodDetector \<Rightarrow> H2FloodDetector" where
  "record_stream_opened d = d\<lparr>streams_opened := u64_sat_add (streams_opened d) 1\<rparr>"

definition window_update_stream0_credit_cap :: "H2FloodDetector \<Rightarrow> nat" where
  "window_update_stream0_credit_cap d =
     u64_sat_mul (u64_sat_add (max_window_update_stream0_per_window (flood_config d)) (data_frames_recent d))
       WINDOW_UPDATE_STREAM0_CREDIT_PER_DATA_FRAME"

definition record_data_frames_sent :: "nat \<Rightarrow> H2FloodDetector \<Rightarrow> H2FloodDetector" where
  "record_data_frames_sent frames d =
     (let d = d\<lparr>data_frames_recent := u64_sat_add (data_frames_recent d) frames\<rparr>;
          cap = window_update_stream0_credit_cap d
      in d\<lparr>window_update_stream0_credit :=
             min (u64_sat_add (window_update_stream0_credit d)
                    (u64_sat_mul frames WINDOW_UPDATE_STREAM0_CREDIT_PER_DATA_FRAME)) cap\<rparr>)"

definition exceeds_floor_and_ratio :: "nat \<Rightarrow> nat \<Rightarrow> nat \<Rightarrow> nat \<Rightarrow> bool" where
  "exceeds_floor_and_ratio cnt fl ratio_count opened \<longleftrightarrow> fl < cnt \<and> opened < ratio_count"

definition pre_response_resets :: "H2FloodDetector \<Rightarrow> nat" where
  "pre_response_resets d =
     u64_sat_add (total_abusive_rst_received_lifetime d) (total_rst_streams_emitted_lifetime d)"

definition record_rst_lifetime :: "bool \<Rightarrow> H2FloodDetector \<Rightarrow> H2FloodViolation option \<times> H2FloodDetector" where
  "record_rst_lifetime response_started d =
     (let d = d\<lparr>total_rst_received_lifetime := u64_sat_add (total_rst_received_lifetime d) 1\<rparr>;
          d = (if response_started then d
               else d\<lparr>total_abusive_rst_received_lifetime :=
                        u64_sat_add (total_abusive_rst_received_lifetime d) 1\<rparr>)
      in if exceeds_floor_and_ratio (total_rst_received_lifetime d) (max_rst_stream_lifetime (flood_config d))
              (total_rst_received_lifetime d - total_abusive_rst_received_lifetime d) (streams_opened d)
         then (Some \<lparr>fv_error = EnhanceYourCalm, fv_reason = ''Rapid Reset: lifetime RST_STREAM'',
                 fv_metric_key = ''h2.flood.violation.rst_stream_lifetime'',
                 fv_count = total_rst_received_lifetime d,
                 fv_threshold = max_rst_stream_lifetime (flood_config d)\<rparr>, d)
         else if exceeds_floor_and_ratio (total_abusive_rst_received_lifetime d)
              (max_rst_stream_abusive_lifetime (flood_config d)) (pre_response_resets d) (streams_opened d)
         then (Some \<lparr>fv_error = EnhanceYourCalm, fv_reason = ''Rapid Reset: lifetime pre-response RST_STREAM'',
                 fv_metric_key = ''h2.flood.violation.rst_stream_pre_response_lifetime'',
                 fv_count = total_abusive_rst_received_lifetime d,
                 fv_threshold = max_rst_stream_abusive_lifetime (flood_config d)\<rparr>, d)
         else (None, d))"

definition record_rst_received ::
  "bool \<Rightarrow> bool \<Rightarrow> nat \<Rightarrow> H2FloodDetector \<Rightarrow> H2FloodViolation option \<times> H2FloodDetector" where
  "record_rst_received response_started answered now d =
     (let d = (if answered then record_stream_opened d else d);
          d = (if response_started then d else d\<lparr>last_pre_response_rst_at := Some now\<rparr>)
      in record_rst_lifetime response_started d)"

definition refuses_new_streams :: "H2FloodDetector \<Rightarrow> nat \<Rightarrow> bool" where
  "refuses_new_streams d now \<longleftrightarrow>
     (let percent = stream_refusal_percent (flood_config d) in
      if percent = 0 then False
      else
        let recent = (case last_pre_response_rst_at d of None \<Rightarrow> False | Some t \<Rightarrow> now - t < FLOOD_WINDOW_DURATION);
            past_soft_floor =
              max_rst_stream_abusive_lifetime (flood_config d) * percent < total_abusive_rst_received_lifetime d * 100
        in recent \<and> past_soft_floor \<and> streams_opened d < pre_response_resets d)"

definition record_rst_emitted :: "H2FloodDetector \<Rightarrow> H2FloodViolation option \<times> H2FloodDetector" where
  "record_rst_emitted d =
     (let d = d\<lparr>total_rst_streams_emitted_lifetime := u64_sat_add (total_rst_streams_emitted_lifetime d) 1\<rparr>
      in if exceeds_floor_and_ratio (total_rst_streams_emitted_lifetime d)
              (max_rst_stream_emitted_lifetime (flood_config d)) (pre_response_resets d) (streams_opened d)
         then (Some \<lparr>fv_error = EnhanceYourCalm, fv_reason = ''MadeYouReset: lifetime server-emitted RST_STREAM'',
                 fv_metric_key = ''h2.flood.violation.rst_stream_emitted_lifetime'',
                 fv_count = total_rst_streams_emitted_lifetime d,
                 fv_threshold = max_rst_stream_emitted_lifetime (flood_config d)\<rparr>, d)
         else (None, d))"

definition record_rst_stream_window :: "H2FloodDetector \<Rightarrow> H2FloodDetector" where
  "record_rst_stream_window d = d\<lparr>rst_stream_count := u32_inc (rst_stream_count d)\<rparr>"

definition record_ping_frame :: "H2FloodDetector \<Rightarrow> H2FloodDetector" where
  "record_ping_frame d = d\<lparr>ping_count := u32_inc (ping_count d),
     total_ping_received_lifetime := u32_sat_add (total_ping_received_lifetime d) 1\<rparr>"

definition record_settings_frame :: "H2FloodDetector \<Rightarrow> H2FloodDetector" where
  "record_settings_frame d = d\<lparr>settings_count := u32_inc (settings_count d),
     total_settings_received_lifetime := u32_sat_add (total_settings_received_lifetime d) 1\<rparr>"

definition record_empty_data_frame :: "H2FloodDetector \<Rightarrow> H2FloodDetector" where
  "record_empty_data_frame d = d\<lparr>empty_data_count := u32_inc (empty_data_count d)\<rparr>"

definition record_window_update_stream0 :: "H2FloodDetector \<Rightarrow> H2FloodDetector" where
  "record_window_update_stream0 d =
     (if 0 < window_update_stream0_credit d
      then d\<lparr>window_update_stream0_credit := window_update_stream0_credit d - 1\<rparr>
      else d\<lparr>window_update_stream0_count := u32_sat_add (window_update_stream0_count d) 1\<rparr>)"

definition record_glitch :: "H2FloodDetector \<Rightarrow> H2FloodDetector" where
  "record_glitch d = d\<lparr>glitch_count := u32_inc (glitch_count d)\<rparr>"

definition record_continuation_frame :: "nat \<Rightarrow> H2FloodDetector \<Rightarrow> H2FloodDetector" where
  "record_continuation_frame payload_len d = d\<lparr>continuation_count := u32_inc (continuation_count d),
     accumulated_header_size := u32_sat_add (accumulated_header_size d) payload_len\<rparr>"

definition begin_header_block_if_new :: "nat \<Rightarrow> H2FloodDetector \<Rightarrow> H2FloodDetector" where
  "begin_header_block_if_new initial_fragment_len d =
     (if continuation_count d = 0 then d\<lparr>accumulated_header_size := initial_fragment_len\<rparr> else d)"

definition maybe_reset_window :: "nat \<Rightarrow> H2FloodDetector \<Rightarrow> H2FloodDetector" where
  "maybe_reset_window now d =
     (if FLOOD_WINDOW_DURATION \<le> now - window_start d then
        let d = d\<lparr>rst_stream_count := rst_stream_count d div 2,
                  ping_count := ping_count d div 2,
                  settings_count := settings_count d div 2,
                  empty_data_count := empty_data_count d div 2,
                  window_update_stream0_count := window_update_stream0_count d div 2,
                  data_frames_recent := data_frames_recent d div 2\<rparr>
        in d\<lparr>window_update_stream0_credit :=
               min (window_update_stream0_credit d) (window_update_stream0_credit_cap d),
             glitch_count := glitch_count d div 2,
             window_start := now\<rparr>
      else d)"

definition flag :: "string \<Rightarrow> string \<Rightarrow> nat \<Rightarrow> nat \<Rightarrow> H2FloodViolation option" where
  "flag reason metric_key cnt threshold =
     (if threshold < cnt
      then Some \<lparr>fv_error = EnhanceYourCalm, fv_reason = reason, fv_metric_key = metric_key,
                 fv_count = cnt, fv_threshold = threshold\<rparr>
      else None)"

fun or_else :: "'a option \<Rightarrow> 'a option \<Rightarrow> 'a option" where
  "or_else (Some x) y = Some x"
| "or_else None y = y"

definition check_flood :: "nat \<Rightarrow> H2FloodDetector \<Rightarrow> H2FloodViolation option \<times> H2FloodDetector" where
  "check_flood now d =
     (let d = maybe_reset_window now d; cfg = flood_config d in
      (or_else (flag ''RST_STREAM'' ''h2.flood.violation.rst_stream_window''
                  (rst_stream_count d) (max_rst_stream_per_window cfg))
      (or_else (flag ''PING'' ''h2.flood.violation.ping_window''
                  (ping_count d) (max_ping_per_window cfg))
      (or_else (flag ''PING lifetime'' ''h2.flood.violation.ping_lifetime''
                  (total_ping_received_lifetime d) DEFAULT_MAX_PING_LIFETIME)
      (or_else (flag ''SETTINGS'' ''h2.flood.violation.settings_window''
                  (settings_count d) (max_settings_per_window cfg))
      (or_else (flag ''SETTINGS lifetime'' ''h2.flood.violation.settings_lifetime''
                  (total_settings_received_lifetime d) DEFAULT_MAX_SETTINGS_LIFETIME)
      (or_else (flag ''empty DATA'' ''h2.flood.violation.empty_data_window''
                  (empty_data_count d) (max_empty_data_per_window cfg))
      (or_else (flag ''CONTINUATION'' ''h2.flood.violation.continuation_per_block''
                  (continuation_count d) (max_continuation_frames cfg))
      (or_else (flag ''WINDOW_UPDATE stream 0'' ''h2.flood.violation.window_update_stream0_window''
                  (window_update_stream0_count d) (max_window_update_stream0_per_window cfg))
      (or_else (flag ''accumulated header size'' ''h2.flood.violation.header_size_per_block''
                  (accumulated_header_size d) (max_header_list_size cfg))
        (flag ''glitch'' ''h2.flood.violation.glitch_window'' (glitch_count d) (max_glitch_count cfg)))))))))),
      d))"

definition reset_continuation :: "H2FloodDetector \<Rightarrow> H2FloodDetector" where
  "reset_continuation d = d\<lparr>continuation_count := 0, accumulated_header_size := 0\<rparr>"

definition flood_check_invariants :: "H2FloodDetector \<Rightarrow> bool" where
  "flood_check_invariants d \<longleftrightarrow> total_abusive_rst_received_lifetime d \<le> total_rst_received_lifetime d"

end
