(* ===== verification/H2_Scheduler.thy ===== *)
theory H2_Scheduler
  imports H2_Parser "HOL-Library.AList" "HOL-Library.Product_Lexorder"
begin

text \<open>
  RFC 9218 stream priorities and the order of a write pass, from
  \<^verbatim>\<open>src/lib/src/protocol/mux/h2_scheduler.rs\<close>. The priority map is an association list, the
  wire stream map a list of open stream identifiers, and the readiness projection of a pass a
  predicate that threads its own state. Traces and buffer capacities are left out.
\<close>

definition DEFAULT_URGENCY :: octet where "DEFAULT_URGENCY = 3"
definition MAX_PRIORITIES :: nat where "MAX_PRIORITIES = 4096"
definition PRIORITY_IDLE_LOOKAHEAD :: u32 where "PRIORITY_IDLE_LOOKAHEAD = 64"
definition MAX_URGENCY :: octet where "MAX_URGENCY = 7"
definition URGENCY_LEVELS :: nat where "URGENCY_LEVELS = unat MAX_URGENCY + 1"

definition bucket :: "octet \<Rightarrow> nat" where
  "bucket urgency = unat (min urgency MAX_URGENCY)"

record Prioriser =
  priorities :: "(u32 \<times> octet \<times> bool) list"
  incremental_cursor :: "u32 list"

definition prioriser_default :: Prioriser where
  "prioriser_default = \<lparr>priorities = [], incremental_cursor = replicate URGENCY_LEVELS 0\<rparr>"

definition prioriser_get :: "Prioriser \<Rightarrow> u32 \<Rightarrow> octet \<times> bool" where
  "prioriser_get P stream_id = (case map_of (priorities P) stream_id of Some p \<Rightarrow> p | None \<Rightarrow> (DEFAULT_URGENCY, False))"

definition push_priority :: "u32 \<Rightarrow> PriorityPart \<Rightarrow> Prioriser \<Rightarrow> bool \<times> Prioriser" where
  "push_priority stream_id priority P =
     (if map_of (priorities P) stream_id = None \<and> MAX_PRIORITIES \<le> length (priorities P) then (False, P)
      else case priority of
             Rfc7540 dependency weight \<Rightarrow> (dep_stream_id dependency = stream_id, P)
           | Rfc9218 urgency incremental \<Rightarrow>
               (False, P\<lparr>priorities := AList.update stream_id (min urgency 7, incremental) (priorities P)\<rparr>))"

definition is_acceptable :: "u32 \<Rightarrow> u32 \<Rightarrow> u32 list \<Rightarrow> bool" where
  "is_acceptable stream_id last_stream_id open_streams \<longleftrightarrow>
     (if stream_id \<in> set open_streams then True
      else last_stream_id < stream_id \<and> stream_id \<le> u32_saturating_add last_stream_id PRIORITY_IDLE_LOOKAHEAD)"

definition push_priority_guarded :: "u32 \<Rightarrow> PriorityPart \<Rightarrow> u32 \<Rightarrow> u32 list \<Rightarrow> Prioriser \<Rightarrow> bool \<times> Prioriser" where
  "push_priority_guarded stream_id priority last_stream_id open_streams P =
     (if \<not> is_acceptable stream_id last_stream_id open_streams then (False, P) else push_priority stream_id priority P)"

definition prioriser_remove :: "u32 \<Rightarrow> Prioriser \<Rightarrow> Prioriser" where
  "prioriser_remove stream_id P = P\<lparr>priorities := AList.delete stream_id (priorities P)\<rparr>"

text \<open>\<open>slice::partition_point\<close>, on a slice that holds the elements with the property first.\<close>

definition partition_point :: "('a \<Rightarrow> bool) \<Rightarrow> 'a list \<Rightarrow> nat" where
  "partition_point p xs = length (takeWhile p xs)"

text \<open>One run of equal urgency: the incremental streams go last, and their tail is rotated.\<close>

definition rotate_run :: "Prioriser \<Rightarrow> octet \<Rightarrow> u32 list \<Rightarrow> u32 list \<times> nat" where
  "rotate_run P urgency run =
     (let cursor = incremental_cursor P ! bucket urgency in
      if 1 < length run then
        let run = sort_key (\<lambda>i. snd (prioriser_get P i)) run;
            split = partition_point (\<lambda>i. \<not> snd (prioriser_get P i)) run;
            incremental_tail = drop split run;
            rotated = (if 1 < length incremental_tail
                       then rotate (partition_point (\<lambda>i. i \<le> cursor) incremental_tail) incremental_tail
                       else incremental_tail)
        in (take split run @ rotated, length rotated)
      else (run, if length run = 1 \<and> snd (prioriser_get P (hd run)) then 1 else 0))"

function apply_incremental_rotation :: "Prioriser \<Rightarrow> u32 list \<Rightarrow> u32 list \<times> nat" where
  "apply_incremental_rotation P [] = ([], 0)"
| "apply_incremental_rotation P (i # rest) =
     (let urgency_i = fst (prioriser_get P i);
          same = (\<lambda>j. fst (prioriser_get P j) = urgency_i);
          (run, n) = rotate_run P urgency_i (i # takeWhile same rest);
          (out, total_incremental) = apply_incremental_rotation P (dropWhile same rest)
      in (run @ out, n + total_incremental))"
  by pat_completeness auto
termination
  by (relation "measure (\<lambda>(P, buf). length buf)") (auto simp: length_dropWhile_le le_imp_less_Suc)

fun advance_cursors :: "u32 list \<Rightarrow> u32 option list \<Rightarrow> u32 list" where
  "advance_cursors (cursor # cs) (leader # ls) =
     (case leader of Some i \<Rightarrow> i | None \<Rightarrow> cursor) # advance_cursors cs ls"
| "advance_cursors cs _ = cs"

definition advance_incremental_cursor :: "u32 option list \<Rightarrow> Prioriser \<Rightarrow> Prioriser" where
  "advance_incremental_cursor fired P = P\<lparr>incremental_cursor := advance_cursors (incremental_cursor P) fired\<rparr>"

subsection \<open>The census of a pass\<close>

record ReadyIncrementalCensus =
  ready :: "nat list"
  incremental_count :: nat
  first_incremental_fired :: "u32 option list"

definition incremental_peer_count :: "octet \<Rightarrow> ReadyIncrementalCensus \<Rightarrow> nat" where
  "incremental_peer_count urgency c = ready c ! bucket urgency"

definition note_ineligible :: "octet \<Rightarrow> bool \<Rightarrow> ReadyIncrementalCensus \<Rightarrow> ReadyIncrementalCensus" where
  "note_ineligible urgency is_incremental c =
     (if \<not> is_incremental then c
      else c\<lparr>ready := (ready c)[bucket urgency := ready c ! bucket urgency - 1]\<rparr>)"

definition note_fired :: "octet \<Rightarrow> u32 \<Rightarrow> bool \<Rightarrow> int \<Rightarrow> ReadyIncrementalCensus \<Rightarrow> ReadyIncrementalCensus" where
  "note_fired urgency stream_id is_incremental consumed c =
     (if \<not> is_incremental \<or> consumed \<le> 0 then c
      else if first_incremental_fired c ! bucket urgency = None
      then c\<lparr>first_incremental_fired := (first_incremental_fired c)[bucket urgency := Some stream_id]\<rparr>
      else c)"

definition ready_total :: "ReadyIncrementalCensus \<Rightarrow> nat" where
  "ready_total c = sum_list (ready c)"

subsection \<open>The scheduler\<close>

record H2Scheduler =
  prioriser :: Prioriser
  order :: "u32 list"

definition scheduler_default :: H2Scheduler where
  "scheduler_default = \<lparr>prioriser = prioriser_default, order = []\<rparr>"

definition scheduler_priority :: "H2Scheduler \<Rightarrow> u32 \<Rightarrow> octet \<times> bool" where
  "scheduler_priority s stream_id = prioriser_get (prioriser s) stream_id"

definition scheduler_push_priority :: "u32 \<Rightarrow> PriorityPart \<Rightarrow> H2Scheduler \<Rightarrow> bool \<times> H2Scheduler" where
  "scheduler_push_priority stream_id priority s =
     (let (bad, P) = push_priority stream_id priority (prioriser s) in (bad, s\<lparr>prioriser := P\<rparr>))"

definition scheduler_push_priority_guarded ::
  "u32 \<Rightarrow> PriorityPart \<Rightarrow> u32 \<Rightarrow> u32 list \<Rightarrow> H2Scheduler \<Rightarrow> bool \<times> H2Scheduler" where
  "scheduler_push_priority_guarded stream_id priority last_stream_id open_streams s =
     (let (bad, P) = push_priority_guarded stream_id priority last_stream_id open_streams (prioriser s)
      in (bad, s\<lparr>prioriser := P\<rparr>))"

definition remove_stream :: "u32 \<Rightarrow> H2Scheduler \<Rightarrow> H2Scheduler" where
  "remove_stream stream_id s = s\<lparr>prioriser := prioriser_remove stream_id (prioriser s)\<rparr>"

fun count_ready ::
  "Prioriser \<Rightarrow> (u32 \<Rightarrow> 'c \<Rightarrow> bool \<times> 'c) \<Rightarrow> u32 list \<Rightarrow> ReadyIncrementalCensus \<times> 'c \<Rightarrow> ReadyIncrementalCensus \<times> 'c" where
  "count_ready P is_ready [] (c, q) = (c, q)"
| "count_ready P is_ready (i # ids) (c, q) =
     (let (urgency, is_incremental) = prioriser_get P i in
      if \<not> is_incremental then count_ready P is_ready ids (c, q)
      else
        let (r, q) = is_ready i q in
        count_ready P is_ready ids
          (if r then c\<lparr>ready := (ready c)[bucket urgency := ready c ! bucket urgency + 1]\<rparr> else c, q))"

definition begin_pass ::
  "u32 list \<Rightarrow> (u32 \<Rightarrow> 'c \<Rightarrow> bool \<times> 'c) \<Rightarrow> 'c \<Rightarrow> H2Scheduler \<Rightarrow> (u32 list \<times> ReadyIncrementalCensus) \<times> 'c \<times> H2Scheduler" where
  "begin_pass stream_ids is_ready q s =
     (let P = prioriser s;
          sorted_order = sort_key (\<lambda>i. (fst (prioriser_get P i), i)) stream_ids;
          (out, incremental_count) = apply_incremental_rotation P sorted_order;
          census = \<lparr>ready = replicate URGENCY_LEVELS 0, incremental_count = incremental_count,
                    first_incremental_fired = replicate URGENCY_LEVELS None\<rparr>;
          (census, q) = count_ready P is_ready out (census, q)
      in ((out, census), q, s\<lparr>order := []\<rparr>))"

definition end_pass :: "u32 list \<Rightarrow> ReadyIncrementalCensus \<Rightarrow> H2Scheduler \<Rightarrow> H2Scheduler" where
  "end_pass out census s =
     s\<lparr>order := out, prioriser := advance_incremental_cursor (first_incremental_fired census) (prioriser s)\<rparr>"

end
