(* ===== verification/Hpack_Integer.thy ===== *)
theory Hpack_Integer
  imports Sozu_Prelude
begin

text \<open>
  The integer representation of HPACK (RFC 7541, section 5.1), from
  \<^verbatim>\<open>src/lib/src/protocol/mux/hpack/mod.rs\<close>: \<open>decode_integer\<close>, \<open>encode_integer\<close> and the
  \<open>DecoderError\<close> every decoder of the codec returns. The lemmas show that decoding inverts
  encoding up to the five-octet limit, that a longer encoding is refused, and that the
  decoded value stays far below the width of \<open>usize\<close>.
\<close>

datatype HuffmanError = Eos | InvalidPadding | PaddingTooLong

datatype DecoderError =
    Truncated
  | IntegerOverflow
  | InvalidIndex
  | Huffman HuffmanError
  | TableSizeTooLarge
  | SizeUpdateNotAtStart
  | TooManySizeUpdates
  | SizeUpdateAtEnd

definition MAX_INTEGER_OCTETS :: nat where
  "MAX_INTEGER_OCTETS = 5"

definition prefix_mask :: "nat \<Rightarrow> octet" where
  "prefix_mask prefix_bits = ucast ((push_bit prefix_bits 1 :: u16) - 1)"

text \<open>The continuation octets, from position \<open>position\<close> of the input on.\<close>

fun decode_integer_loop :: "nat \<Rightarrow> nat \<Rightarrow> bytes \<Rightarrow> DecoderError + nat \<times> nat" where
  "decode_integer_loop value position [] = Inl Truncated"
| "decode_integer_loop value position (octet # input) =
     (if MAX_INTEGER_OCTETS \<le> position then Inl IntegerOverflow
      else let value = value + push_bit (7 * (position - 1)) (unat (octet AND 0x7f)) in
        if octet AND 0x80 = 0 then Inr (value, position + 1)
        else decode_integer_loop value (position + 1) input)"

definition decode_integer :: "bytes \<Rightarrow> nat \<Rightarrow> DecoderError + nat \<times> nat" where
  "decode_integer input prefix_bits =
     (case input of
        [] \<Rightarrow> Inl Truncated
      | first # rest \<Rightarrow>
          let mask = prefix_mask prefix_bits;
              value = unat (first AND mask)
          in if value < unat mask then Inr (value, 1)
             else decode_integer_loop value 1 rest)"

text \<open>The \<open>while rest >= 0x80\<close> loop and the final push.\<close>

function encode_integer_loop :: "nat \<Rightarrow> bytes \<Rightarrow> bytes" where
  "encode_integer_loop rest out =
     (if 0x80 \<le> rest
      then encode_integer_loop (drop_bit 7 rest) (out @ [of_nat (rest AND 0x7f) OR 0x80])
      else out @ [of_nat rest])"
  by pat_completeness auto
termination
  by (relation "measure fst") (auto simp: drop_bit_eq_div)

declare encode_integer_loop.simps [simp del]

definition encode_integer :: "nat \<Rightarrow> nat \<Rightarrow> octet \<Rightarrow> bytes \<Rightarrow> bytes" where
  "encode_integer value prefix_bits flags out =
     (let mask = prefix_mask prefix_bits in
      if value < unat mask then out @ [flags OR of_nat value]
      else encode_integer_loop (value - unat mask) (out @ [flags OR mask]))"

subsection \<open>Masks and octets\<close>

lemma prefix_mask_eq: "1 \<le> p \<Longrightarrow> p \<le> 8 \<Longrightarrow> prefix_mask p = mask p"
proof -
  assume "1 \<le> p" "p \<le> 8"
  then have "p \<in> {1, 2, 3, 4, 5, 6, 7, 8}" by auto
  then show ?thesis by (auto simp: prefix_mask_def mask_eq_exp_minus_1)
qed

lemma unat_prefix_mask: "1 \<le> p \<Longrightarrow> p \<le> 8 \<Longrightarrow> unat (prefix_mask p) = 2 ^ p - 1"
proof -
  assume "1 \<le> p" "p \<le> 8"
  then have "p \<in> {1, 2, 3, 4, 5, 6, 7, 8}" by auto
  then show ?thesis by (auto simp: prefix_mask_def)
qed

lemma and_prefix_mask:
  fixes flags :: octet
  assumes "1 \<le> p" and "p \<le> 8" and "flags AND prefix_mask p = 0" and "v < 2 ^ p"
  shows "unat ((flags OR of_nat v) AND prefix_mask p) = v"
proof -
  have "(flags OR of_nat v) AND prefix_mask p = take_bit p (of_nat v)"
    using assms by (simp add: prefix_mask_eq bit.conj_disj_distrib2 take_bit_eq_mask)
  also have "\<dots> = of_nat v"
    using assms(4) by (simp add: take_bit_of_nat take_bit_nat_eq_self)
  finally show ?thesis
    using assms(2,4) power_increasing [of p 8 "2::nat"] by (simp add: unat_of_nat)
qed

lemma and_full_prefix_mask:
  fixes flags :: octet
  assumes "1 \<le> p" and "p \<le> 8" and "flags AND prefix_mask p = 0"
  shows "(flags OR prefix_mask p) AND prefix_mask p = prefix_mask p"
  using assms by (simp add: bit.conj_disj_distrib2)

lemma low_seven: "unat (o1 AND 0x7f) = unat (o1 :: octet) mod 128"
proof -
  have "o1 AND 0x7f = take_bit 7 o1" by (simp add: take_bit_eq_mask mask_eq_exp_minus_1)
  then have "unat (o1 AND 0x7f) = take_bit 7 (unat o1)" by (simp only: unsigned_take_bit_eq)
  then show ?thesis by (simp add: take_bit_eq_mod)
qed

lemma continuation_octet:
  fixes rest :: nat
  shows "unat ((of_nat (rest AND 0x7f) OR 0x80 :: octet) AND 0x7f) = rest mod 128"
    and "(of_nat (rest AND 0x7f) OR 0x80 :: octet) AND 0x80 \<noteq> 0"
proof -
  have r: "rest AND 0x7f = rest mod 128"
    using take_bit_eq_mask [of 7 rest] by (simp add: take_bit_eq_mod mask_eq_exp_minus_1)
  have "(of_nat (rest AND 0x7f) OR 0x80 :: octet) AND 0x7f = of_nat (rest mod 128) AND 0x7f"
    by (simp add: bit.conj_disj_distrib2 r)
  then show "unat ((of_nat (rest AND 0x7f) OR 0x80 :: octet) AND 0x7f) = rest mod 128"
    by (simp add: low_seven unat_of_nat mod_mod_cancel)
  have "bit ((of_nat (rest AND 0x7f) OR 0x80 :: octet) AND 0x80) 7"
    by (simp add: bit_and_iff bit_or_iff)
  then show "(of_nat (rest AND 0x7f) OR 0x80 :: octet) AND 0x80 \<noteq> 0"
    by (metis bit_0_eq bot_apply bot_bool_def)
qed

lemma final_octet:
  assumes "rest < 0x80"
  shows "unat ((of_nat rest :: octet) AND 0x7f) = rest"
    and "(of_nat rest :: octet) AND 0x80 = 0"
proof -
  show "unat ((of_nat rest :: octet) AND 0x7f) = rest"
    using assms by (simp add: low_seven unat_of_nat)
  have "take_bit 7 (of_nat rest :: octet) = of_nat rest"
    using assms by (simp add: take_bit_of_nat take_bit_nat_eq_self)
  moreover have "take_bit 7 w AND 0x80 = 0" for w :: octet
    by (simp add: take_bit_eq_mask mask_eq_exp_minus_1 and.assoc)
  ultimately show "(of_nat rest :: octet) AND 0x80 = 0" by metis
qed

subsection \<open>The encoder appends\<close>

lemma encode_integer_loop_prepend:
  "encode_integer_loop rest (xs @ out) = xs @ encode_integer_loop rest out"
proof (induction rest out rule: encode_integer_loop.induct)
  case (1 rest out)
  then show ?case
    by (cases "0x80 \<le> rest")
      (simp_all add: encode_integer_loop.simps [of rest out]
        encode_integer_loop.simps [of rest "xs @ out"])
qed

lemma encode_integer_prepend:
  "encode_integer v p flags (xs @ out) = xs @ encode_integer v p flags out"
  by (simp add: encode_integer_def Let_def encode_integer_loop_prepend)

lemma encode_integer_append: "encode_integer v p flags out = out @ encode_integer v p flags []"
  using encode_integer_prepend [of v p flags out "[]"] by simp

text \<open>The continuation octets of \<open>rest\<close>, low seven bits first.\<close>

lemma encode_loop_step:
  "encode_integer_loop rest [] =
     (if 0x80 \<le> rest
      then (of_nat (rest AND 0x7f) OR 0x80) # encode_integer_loop (drop_bit 7 rest) []
      else [of_nat rest])"
  using encode_integer_loop_prepend [of "drop_bit 7 rest" "[of_nat (rest AND 0x7f) OR 0x80]" "[]"]
  by (simp add: encode_integer_loop.simps [of rest "[]"])

lemma encode_loop_nonempty [simp]: "encode_integer_loop rest [] \<noteq> []"
  by (subst encode_loop_step) simp

lemma encode_integer_Cons:
  "encode_integer v p flags [] =
     (if v < unat (prefix_mask p) then [flags OR of_nat v]
      else (flags OR prefix_mask p) # encode_integer_loop (v - unat (prefix_mask p)) [])"
  using encode_integer_loop_prepend [of "v - unat (prefix_mask p)" "[flags OR prefix_mask p]" "[]"]
  by (simp add: encode_integer_def Let_def)

subsection \<open>Decoding what was encoded\<close>

lemma decode_loop_at_limit:
  "xs \<noteq> [] \<Longrightarrow> decode_integer_loop value 5 (xs @ more) = Inl IntegerOverflow"
  by (cases xs) (simp_all add: MAX_INTEGER_OCTETS_def)

lemma decode_loop_encode:
  assumes "1 \<le> position" and "position \<le> 4"
  shows "decode_integer_loop acc position (encode_integer_loop rest [] @ more) =
     (if rest < 2 ^ (7 * (5 - position))
      then Inr (acc + rest * 2 ^ (7 * (position - 1)),
                position + length (encode_integer_loop rest []))
      else Inl IntegerOverflow)"
  using assms
proof (induction rest arbitrary: acc position rule: less_induct)
  case (less rest)
  show ?case
  proof (cases "0x80 \<le> rest")
    case False
    have "(128::nat) = 2 ^ 7" by simp
    also have "\<dots> \<le> 2 ^ (7 * (5 - position))"
      using less.prems by (intro power_increasing) auto
    finally have "rest < 2 ^ (7 * (5 - position))" using False by linarith
    with False less.prems show ?thesis
      by (simp add: encode_loop_step [of rest] MAX_INTEGER_OCTETS_def final_octet push_bit_eq_mult)
  next
    case True
    let ?q = "drop_bit 7 rest"
    have q: "?q = rest div 128" by (simp add: drop_bit_eq_div)
    have step: "decode_integer_loop acc position (encode_integer_loop rest [] @ more) =
        decode_integer_loop (acc + (rest mod 128) * 2 ^ (7 * (position - 1))) (position + 1)
          (encode_integer_loop ?q [] @ more)"
      using True less.prems
      by (simp add: encode_loop_step [of rest] MAX_INTEGER_OCTETS_def continuation_octet
          push_bit_eq_mult)
    show ?thesis
    proof (cases "position = 4")
      case True
      with step \<open>0x80 \<le> rest\<close> show ?thesis
        using decode_loop_at_limit [of "encode_integer_loop ?q []"] by simp
    next
      case False
      with less.prems have pos: "1 \<le> position + 1" "position + 1 \<le> 4" by auto
      have pow: "(2::nat) ^ (7 * (5 - position)) = 128 * 2 ^ (7 * (5 - (position + 1)))"
      proof -
        have "7 * (5 - position) = 7 + 7 * (5 - (position + 1))" using less.prems by auto
        then show ?thesis by (simp only: power_add) simp
      qed
      have bound: "?q < 2 ^ (7 * (5 - (position + 1))) \<longleftrightarrow> rest < 2 ^ (7 * (5 - position))"
        unfolding q pow by (simp add: div_less_iff_less_mult mult.commute)
      have sum_eq: "rest mod 128 * 2 ^ (7 * (position - 1)) + ?q * 2 ^ (7 * position) =
          rest * 2 ^ (7 * (position - 1))"
      proof -
        have "7 * position = 7 * (position - 1) + 7" using less.prems by auto
        then have "(2::nat) ^ (7 * position) = 128 * 2 ^ (7 * (position - 1))"
          by (simp only: power_add) simp
        then have "rest mod 128 * 2 ^ (7 * (position - 1)) + ?q * 2 ^ (7 * position) =
            (rest mod 128 + 128 * (rest div 128)) * 2 ^ (7 * (position - 1))"
          by (simp only: q distrib_right distrib_left mult_ac)
        then show ?thesis by (simp only: mod_mult_div_eq)
      qed
      have "?q < rest" using True by (simp add: q)
      from less.IH [OF this pos] step bound sum_eq True show ?thesis
        by (simp add: encode_loop_step [of rest] add.assoc)
    qed
  qed
qed

lemma decode_encode_integer:
  assumes "1 \<le> p" and "p \<le> 8" and "flags AND prefix_mask p = 0"
  shows "decode_integer (encode_integer v p flags [] @ more) p =
     (if v < 2 ^ 28 + unat (prefix_mask p)
      then Inr (v, length (encode_integer v p flags []))
      else Inl IntegerOverflow)"
proof (cases "v < unat (prefix_mask p)")
  case True
  with assms have "unat ((flags OR of_nat v) AND prefix_mask p) = v"
    by (intro and_prefix_mask) (auto simp: unat_prefix_mask)
  with True show ?thesis
    by (simp add: encode_integer_Cons decode_integer_def)
next
  case False
  have "decode_integer (encode_integer v p flags [] @ more) p =
      decode_integer_loop (unat (prefix_mask p)) 1
        (encode_integer_loop (v - unat (prefix_mask p)) [] @ more)"
    using False assms by (simp add: encode_integer_Cons decode_integer_def and_full_prefix_mask)
  with False show ?thesis
    by (auto simp: decode_loop_encode encode_integer_Cons)
qed

subsection \<open>What a successful decode consumes\<close>

lemma decode_loop_bounds:
  assumes "decode_integer_loop acc position input = Inr (v, n)" and "1 \<le> position"
  shows "position < n \<and> n \<le> MAX_INTEGER_OCTETS \<and> n \<le> position + length input \<and>
    v + 2 ^ (7 * (position - 1)) \<le> acc + 2 ^ (7 * (n - 1))"
  using assms
proof (induction acc position input rule: decode_integer_loop.induct)
  case (2 acc position octet input)
  let ?acc = "acc + push_bit (7 * (position - 1)) (unat (octet AND 0x7f))"
  have digit: "unat (octet AND 0x7f) < 128" by (simp add: low_seven)
  have acc: "?acc + 2 ^ (7 * (position - 1)) \<le> acc + 2 ^ (7 * position)"
  proof -
    have "7 * position = 7 * (position - 1) + 7" using "2.prems" by auto
    then have pw: "(2::nat) ^ (7 * position) = 128 * 2 ^ (7 * (position - 1))"
      by (simp only: power_add) simp
    have "(unat (octet AND 0x7f) + 1) * 2 ^ (7 * (position - 1)) \<le> 128 * 2 ^ (7 * (position - 1))"
      using digit by (intro mult_right_mono) auto
    with pw show ?thesis by (simp add: push_bit_eq_mult)
  qed
  show ?case
  proof (cases "octet AND 0x80 = 0")
    case True
    with "2.prems" acc show ?thesis
      by (auto simp: Let_def split: if_splits)
  next
    case False
    from "2.prems" have lim: "\<not> MAX_INTEGER_OCTETS \<le> position" by (auto split: if_splits)
    with False "2.prems" have "decode_integer_loop ?acc (position + 1) input = Inr (v, n)"
      by simp
    from "2.IH" [OF lim refl False this] have ih: "position + 1 < n \<and> n \<le> MAX_INTEGER_OCTETS \<and>
      n \<le> position + 1 + length input \<and> v + 2 ^ (7 * position) \<le> ?acc + 2 ^ (7 * (n - 1))" by simp
    with acc show ?thesis by simp
  qed
qed simp

lemma decode_integer_bounds:
  assumes "decode_integer input p = Inr (v, n)"
  shows "1 \<le> n" and "n \<le> MAX_INTEGER_OCTETS" and "n \<le> length input" and "v < 2 ^ 28 + 256"
proof -
  obtain first rest where input: "input = first # rest"
    using assms by (cases input) (auto simp: decode_integer_def)
  have first: "unat (first AND prefix_mask p) < 256"
    using unsigned_less [of "first AND prefix_mask p"] by simp
  have "1 \<le> n \<and> n \<le> MAX_INTEGER_OCTETS \<and> n \<le> length input \<and> v < 2 ^ 28 + 256"
  proof (cases "unat (first AND prefix_mask p) < unat (prefix_mask p)")
    case True
    with assms input first show ?thesis
      by (auto simp: decode_integer_def Let_def MAX_INTEGER_OCTETS_def)
  next
    case False
    with assms input
    have "decode_integer_loop (unat (first AND prefix_mask p)) 1 rest = Inr (v, n)"
      by (simp add: decode_integer_def)
    from decode_loop_bounds [OF this]
    have b: "1 < n" "n \<le> MAX_INTEGER_OCTETS" "n \<le> 1 + length rest"
      "v + 1 \<le> unat (first AND prefix_mask p) + 2 ^ (7 * (n - 1))" by auto
    have "(2::nat) ^ (7 * (n - 1)) \<le> 2 ^ 28"
      using b(2) by (intro power_increasing) (auto simp: MAX_INTEGER_OCTETS_def)
    with b input first show ?thesis by auto
  qed
  then show "1 \<le> n" "n \<le> MAX_INTEGER_OCTETS" "n \<le> length input" "v < 2 ^ 28 + 256"
    by auto
qed

subsection \<open>Properties\<close>

text \<open>
  for every prefix width and flags outside the prefix, decoding what \<open>encode_integer\<close> wrote,
  whatever follows it, returns the value and the number of octets it took; a value of
  \<open>2 ^ 28\<close> plus the prefix maximum or more is refused with \<open>IntegerOverflow\<close>, never truncated.
\<close>

theorem hpack_integer_roundtrip:
  assumes "1 \<le> p" and "p \<le> 8" and "flags AND prefix_mask p = 0"
  shows "decode_integer (encode_integer v p flags [] @ more) p =
     (if v < 2 ^ 28 + unat (prefix_mask p)
      then Inr (v, length (encode_integer v p flags []))
      else Inl IntegerOverflow)"
  by (rule decode_encode_integer [OF assms])

theorem hpack_integer_roundtrip_witness:
  "decode_integer (encode_integer 1337 5 0x20 [] @ [0xff]) 5 = Inr (1337, length (encode_integer 1337 5 0x20 []))"
  using hpack_integer_roundtrip [of 5 "0x20" 1337 "[0xff]"] by (simp add: prefix_mask_def)

text \<open>
  an integer read from any input takes between one and five octets of it and stays below
  \<open>2 ^ 28 + 256\<close>, so the accumulation cannot overflow a 32-bit \<open>usize\<close>.
\<close>

theorem hpack_integer_bounds:
  assumes "decode_integer input p = Inr (v, n)"
  shows "1 \<le> n \<and> n \<le> MAX_INTEGER_OCTETS \<and> n \<le> length input \<and> v < 2 ^ 28 + 256"
  using decode_integer_bounds [OF assms] by simp

theorem hpack_integer_bounds_witness:
  "decode_integer [0x1f, 0x9a, 0x0a] 5 = Inr (1337, 3) \<and> (3 :: nat) \<le> MAX_INTEGER_OCTETS"
proof -
  have "decode_integer [0x1f, 0x9a, 0x0a] 5 = Inr (1337, 3)"
    by (simp add: decode_integer_def prefix_mask_def MAX_INTEGER_OCTETS_def)
  with hpack_integer_bounds [OF this] show ?thesis by simp
qed

end
