(* ===== verification/Hpack_Huffman.thy ===== *)
theory Hpack_Huffman
  imports Hpack_Integer
begin

text \<open>
  The Huffman code of HPACK (RFC 7541, section 5.2 and Appendix B), from
  \<^verbatim>\<open>src/lib/src/protocol/mux/hpack/huffman.rs\<close>. \<open>CODES\<close> is the transcribed table.
  \<open>build_machine\<close> is the \<open>const fn\<close> that builds the decoding tree and the nibble
  transitions at compile time; each of its \<open>assert!\<close>s fails the build, which is \<open>None\<close>
  here. The \<open>u16\<close> and \<open>u32\<close> values of the tables are only compared, shifted right and
  masked, so they are natural numbers; the \<open>u64\<close> accumulator of \<open>encode\<close> keeps its width
  with an explicit \<open>take_bit 64\<close>.
\<close>

definition CODES :: "(nat \<times> nat) list" where
  "CODES = [
    (0x1ff8, 13), (0x7fffd8, 23), (0xfffffe2, 28), (0xfffffe3, 28), (0xfffffe4, 28), (0xfffffe5, 28),
    (0xfffffe6, 28), (0xfffffe7, 28), (0xfffffe8, 28), (0xffffea, 24), (0x3ffffffc, 30), (0xfffffe9, 28),
    (0xfffffea, 28), (0x3ffffffd, 30), (0xfffffeb, 28), (0xfffffec, 28), (0xfffffed, 28), (0xfffffee, 28),
    (0xfffffef, 28), (0xffffff0, 28), (0xffffff1, 28), (0xffffff2, 28), (0x3ffffffe, 30), (0xffffff3, 28),
    (0xffffff4, 28), (0xffffff5, 28), (0xffffff6, 28), (0xffffff7, 28), (0xffffff8, 28), (0xffffff9, 28),
    (0xffffffa, 28), (0xffffffb, 28), (0x14, 6), (0x3f8, 10), (0x3f9, 10), (0xffa, 12),
    (0x1ff9, 13), (0x15, 6), (0xf8, 8), (0x7fa, 11), (0x3fa, 10), (0x3fb, 10),
    (0xf9, 8), (0x7fb, 11), (0xfa, 8), (0x16, 6), (0x17, 6), (0x18, 6),
    (0x0, 5), (0x1, 5), (0x2, 5), (0x19, 6), (0x1a, 6), (0x1b, 6),
    (0x1c, 6), (0x1d, 6), (0x1e, 6), (0x1f, 6), (0x5c, 7), (0xfb, 8),
    (0x7ffc, 15), (0x20, 6), (0xffb, 12), (0x3fc, 10), (0x1ffa, 13), (0x21, 6),
    (0x5d, 7), (0x5e, 7), (0x5f, 7), (0x60, 7), (0x61, 7), (0x62, 7),
    (0x63, 7), (0x64, 7), (0x65, 7), (0x66, 7), (0x67, 7), (0x68, 7),
    (0x69, 7), (0x6a, 7), (0x6b, 7), (0x6c, 7), (0x6d, 7), (0x6e, 7),
    (0x6f, 7), (0x70, 7), (0x71, 7), (0x72, 7), (0xfc, 8), (0x73, 7),
    (0xfd, 8), (0x1ffb, 13), (0x7fff0, 19), (0x1ffc, 13), (0x3ffc, 14), (0x22, 6),
    (0x7ffd, 15), (0x3, 5), (0x23, 6), (0x4, 5), (0x24, 6), (0x5, 5),
    (0x25, 6), (0x26, 6), (0x27, 6), (0x6, 5), (0x74, 7), (0x75, 7),
    (0x28, 6), (0x29, 6), (0x2a, 6), (0x7, 5), (0x2b, 6), (0x76, 7),
    (0x2c, 6), (0x8, 5), (0x9, 5), (0x2d, 6), (0x77, 7), (0x78, 7),
    (0x79, 7), (0x7a, 7), (0x7b, 7), (0x7ffe, 15), (0x7fc, 11), (0x3ffd, 14),
    (0x1ffd, 13), (0xffffffc, 28), (0xfffe6, 20), (0x3fffd2, 22), (0xfffe7, 20), (0xfffe8, 20),
    (0x3fffd3, 22), (0x3fffd4, 22), (0x3fffd5, 22), (0x7fffd9, 23), (0x3fffd6, 22), (0x7fffda, 23),
    (0x7fffdb, 23), (0x7fffdc, 23), (0x7fffdd, 23), (0x7fffde, 23), (0xffffeb, 24), (0x7fffdf, 23),
    (0xffffec, 24), (0xffffed, 24), (0x3fffd7, 22), (0x7fffe0, 23), (0xffffee, 24), (0x7fffe1, 23),
    (0x7fffe2, 23), (0x7fffe3, 23), (0x7fffe4, 23), (0x1fffdc, 21), (0x3fffd8, 22), (0x7fffe5, 23),
    (0x3fffd9, 22), (0x7fffe6, 23), (0x7fffe7, 23), (0xffffef, 24), (0x3fffda, 22), (0x1fffdd, 21),
    (0xfffe9, 20), (0x3fffdb, 22), (0x3fffdc, 22), (0x7fffe8, 23), (0x7fffe9, 23), (0x1fffde, 21),
    (0x7fffea, 23), (0x3fffdd, 22), (0x3fffde, 22), (0xfffff0, 24), (0x1fffdf, 21), (0x3fffdf, 22),
    (0x7fffeb, 23), (0x7fffec, 23), (0x1fffe0, 21), (0x1fffe1, 21), (0x3fffe0, 22), (0x1fffe2, 21),
    (0x7fffed, 23), (0x3fffe1, 22), (0x7fffee, 23), (0x7fffef, 23), (0xfffea, 20), (0x3fffe2, 22),
    (0x3fffe3, 22), (0x3fffe4, 22), (0x7ffff0, 23), (0x3fffe5, 22), (0x3fffe6, 22), (0x7ffff1, 23),
    (0x3ffffe0, 26), (0x3ffffe1, 26), (0xfffeb, 20), (0x7fff1, 19), (0x3fffe7, 22), (0x7ffff2, 23),
    (0x3fffe8, 22), (0x1ffffec, 25), (0x3ffffe2, 26), (0x3ffffe3, 26), (0x3ffffe4, 26), (0x7ffffde, 27),
    (0x7ffffdf, 27), (0x3ffffe5, 26), (0xfffff1, 24), (0x1ffffed, 25), (0x7fff2, 19), (0x1fffe3, 21),
    (0x3ffffe6, 26), (0x7ffffe0, 27), (0x7ffffe1, 27), (0x3ffffe7, 26), (0x7ffffe2, 27), (0xfffff2, 24),
    (0x1fffe4, 21), (0x1fffe5, 21), (0x3ffffe8, 26), (0x3ffffe9, 26), (0xffffffd, 28), (0x7ffffe3, 27),
    (0x7ffffe4, 27), (0x7ffffe5, 27), (0xfffec, 20), (0xfffff3, 24), (0xfffed, 20), (0x1fffe6, 21),
    (0x3fffe9, 22), (0x1fffe7, 21), (0x1fffe8, 21), (0x7ffff3, 23), (0x3fffea, 22), (0x3fffeb, 22),
    (0x1ffffee, 25), (0x1ffffef, 25), (0xfffff4, 24), (0xfffff5, 24), (0x3ffffea, 26), (0x7ffff4, 23),
    (0x3ffffeb, 26), (0x7ffffe6, 27), (0x3ffffec, 26), (0x3ffffed, 26), (0x7ffffe7, 27), (0x7ffffe8, 27),
    (0x7ffffe9, 27), (0x7ffffea, 27), (0x7ffffeb, 27), (0xffffffe, 28), (0x7ffffec, 27), (0x7ffffed, 27),
    (0x7ffffee, 27), (0x7ffffef, 27), (0x7fffff0, 27), (0x3ffffee, 26), (0x3fffffff, 30)]"

definition EOS :: nat where
  "EOS = 256"

definition EMIT :: octet where
  "EMIT = 1"

definition FAIL :: octet where
  "FAIL = 2"

definition NOT_PADDING :: octet where
  "NOT_PADDING = 255"

record Transition =
  tr_next :: octet
  tr_flags :: octet
  tr_symbol :: octet

record Machine =
  m_transitions :: "Transition list list"
  m_padding :: "octet list"

subsection \<open>Building the decoding tree\<close>

definition NONE :: nat where
  "NONE = 65535"

definition LEAF :: nat where
  "LEAF = 256"

type_synonym children = "nat list list"

text \<open>\<open>children[node][branch] = v\<close>\<close>

definition set_child :: "children \<Rightarrow> nat \<Rightarrow> nat \<Rightarrow> nat \<Rightarrow> children" where
  "set_child children node branch v = children[node := (children ! node)[branch := v]]"

text \<open>The \<open>while bit > 1\<close> loop of one code: it walks the tree and allocates inner nodes.\<close>

fun build_walk ::
  "nat \<Rightarrow> nat \<Rightarrow> children \<Rightarrow> nat \<Rightarrow> nat \<Rightarrow> (children \<times> nat \<times> nat) option" where
  "build_walk (Suc (Suc b)) code children internal node =
     (let branch = drop_bit (Suc b) code AND 1;
          child = children ! node ! branch
      in if child = NONE then
           (if internal < 256
            then build_walk (Suc b) code (set_child children node branch internal)
                   (internal + 1) internal
            else None)
         else if child < LEAF then build_walk (Suc b) code children internal child
         else None)"
| "build_walk _ code children internal node = Some (children, internal, node)"

text \<open>The \<open>while symbol < CODES.len()\<close> loop.\<close>

fun build_symbols ::
  "(nat \<times> nat) list \<Rightarrow> nat \<Rightarrow> children \<Rightarrow> nat \<Rightarrow> (children \<times> nat) option" where
  "build_symbols [] symbol children internal = Some (children, internal)"
| "build_symbols ((code, len) # codes) symbol children internal =
     (case build_walk len code children internal 0 of
        None \<Rightarrow> None
      | Some (children, internal, node) \<Rightarrow>
          let branch = code AND 1 in
          if children ! node ! branch = NONE
          then build_symbols codes (symbol + 1)
                 (set_child children node branch (LEAF + symbol)) internal
          else None)"

text \<open>
  The walk down the all-ones path. \<open>depth\<close> is a \<open>u8\<close>: incrementing it past 255 is a
  compile-time overflow, which also bounds the loop.
\<close>

function padding_walk ::
  "children \<Rightarrow> nat \<Rightarrow> nat \<Rightarrow> octet list \<Rightarrow> (nat \<times> octet list) option" where
  "padding_walk children node depth padding =
     (if children ! node ! 1 < LEAF then
        (if 255 \<le> depth then None
         else let node = children ! node ! 1; depth = depth + 1 in
              padding_walk children node depth (padding[node := of_nat depth]))
      else Some (node, padding))"
  by pat_completeness auto
termination
  by (relation "measure (\<lambda>(children, node, depth, padding). 255 - depth)") auto

declare padding_walk.simps [simp del]

text \<open>The \<open>while bit > 0\<close> loop of one transition; \<open>break\<close> on EOS.\<close>

fun nibble_walk ::
  "children \<Rightarrow> nat \<Rightarrow> nat \<Rightarrow> nat \<Rightarrow> octet \<Rightarrow> octet \<Rightarrow> (nat \<times> octet \<times> octet) option" where
  "nibble_walk children 0 nibble node flags emitted = Some (node, flags, emitted)"
| "nibble_walk children (Suc b) nibble node flags emitted =
     (let child = children ! node ! (drop_bit b nibble AND 1) in
      if LEAF \<le> child then
        let symbol = child - LEAF in
        if symbol = EOS then Some (0, FAIL, emitted)
        else if flags AND EMIT = 0
        then nibble_walk children b nibble 0 (flags OR EMIT) (of_nat symbol)
        else None
      else nibble_walk children b nibble child flags emitted)"

definition build_transition :: "children \<Rightarrow> nat \<Rightarrow> nat \<Rightarrow> Transition option" where
  "build_transition children state nibble =
     (case nibble_walk children 4 nibble state 0 0 of
        None \<Rightarrow> None
      | Some (node, flags, emitted) \<Rightarrow>
          Some \<lparr>tr_next = of_nat node, tr_flags = flags, tr_symbol = emitted\<rparr>)"

definition build_transitions :: "children \<Rightarrow> Transition list list option" where
  "build_transitions children =
     those (map (\<lambda>state. those (map (build_transition children state) [0..<16])) [0..<256])"

definition build_machine :: "Machine option" where
  "build_machine =
     (case build_symbols CODES 0 (replicate 256 [NONE, NONE]) 1 of
        None \<Rightarrow> None
      | Some (children, internal) \<Rightarrow>
          if internal \<noteq> 256 then None
          else (case padding_walk children 0 0 ((replicate 256 NOT_PADDING)[0 := 0]) of
              None \<Rightarrow> None
            | Some (node, padding) \<Rightarrow>
                if children ! node ! 1 \<noteq> LEAF + EOS then None
                else (case build_transitions children of
                    None \<Rightarrow> None
                  | Some transitions \<Rightarrow>
                      Some \<lparr>m_transitions = transitions, m_padding = padding\<rparr>)))"

definition MACHINE :: Machine where
  "MACHINE = the build_machine"

subsection \<open>Decoding\<close>

definition max_decoded_len :: "nat \<Rightarrow> nat" where
  "max_decoded_len encoded_len = encoded_len div 5 * 8 + 8"

text \<open>
  The nibble loop: the state reached, or EOS; the second component is \<open>out\<close>, which keeps
  what was pushed before an error.
\<close>

fun huffman_decode_nibbles ::
  "nat list \<Rightarrow> nat \<Rightarrow> bytes \<Rightarrow> (HuffmanError + nat) \<times> bytes" where
  "huffman_decode_nibbles [] state out = (Inr state, out)"
| "huffman_decode_nibbles (nibble # nibbles) state out =
     (let transition = m_transitions MACHINE ! state ! nibble in
      if tr_flags transition AND FAIL \<noteq> 0 then (Inl Eos, out)
      else huffman_decode_nibbles nibbles (unat (tr_next transition))
             (if tr_flags transition AND EMIT \<noteq> 0 then out @ [tr_symbol transition] else out))"

definition huffman_decode :: "bytes \<Rightarrow> bytes \<Rightarrow> (HuffmanError + unit) \<times> bytes" where
  "huffman_decode src out =
     (case huffman_decode_nibbles
             (concat (map (\<lambda>byte. [unat (drop_bit 4 byte), unat (byte AND 0x0f)]) src)) 0 out of
        (Inl e, out) \<Rightarrow> (Inl e, out)
      | (Inr state, out) \<Rightarrow>
          let ones = m_padding MACHINE ! state in
          if ones = NOT_PADDING then (Inl InvalidPadding, out)
          else if 7 < ones then (Inl PaddingTooLong, out)
          else (Inr (), out))"

subsection \<open>Encoding\<close>

definition huffman_encoded_len :: "bytes \<Rightarrow> nat" where
  "huffman_encoded_len src =
     (let bits = sum_list (map (\<lambda>byte. snd (CODES ! unat byte)) src) in (bits + 7) div 8)"

text \<open>The inner \<open>while bits >= 8\<close> loop.\<close>

fun flush_octets :: "nat \<Rightarrow> nat \<Rightarrow> bytes \<Rightarrow> nat \<times> bytes" where
  "flush_octets pending bits out =
     (if 8 \<le> bits
      then flush_octets pending (bits - 8) (out @ [of_nat (drop_bit (bits - 8) pending)])
      else (bits, out))"

declare flush_octets.simps [simp del]

fun huffman_encode_loop :: "bytes \<Rightarrow> nat \<Rightarrow> nat \<Rightarrow> bytes \<Rightarrow> nat \<times> nat \<times> bytes" where
  "huffman_encode_loop [] pending bits out = (pending, bits, out)"
| "huffman_encode_loop (byte # src) pending bits out =
     (let (code, len) = CODES ! unat byte;
          pending = take_bit 64 (push_bit len pending) OR code;
          (bits, out) = flush_octets pending (bits + len) out
      in huffman_encode_loop src (pending AND (push_bit bits 1 - 1)) bits out)"

definition huffman_encode :: "bytes \<Rightarrow> bytes \<Rightarrow> bytes" where
  "huffman_encode src out =
     (case huffman_encode_loop src 0 0 out of
        (pending, bits, out) \<Rightarrow>
          if 0 < bits
          then out @ [of_nat (push_bit (8 - bits) pending) OR drop_bit bits 0xff]
          else out)"

end
