(* ===== verification/Hpack_Table.thy ===== *)
theory Hpack_Table
  imports Sozu_Prelude
begin

text \<open>
  The static and the dynamic table of HPACK, from
  \<^verbatim>\<open>src/lib/src/protocol/mux/hpack/table.rs\<close>. The dynamic table is the record of the source: one
  byte buffer (with its \<open>Vec\<close> capacity, which decides when the buffer is compacted), the offset
  of the oldest live byte, and a ring of entries. \<open>contents\<close> is the list of fields it stands
  for, newest first; every operation is shown to implement the operation of RFC 7541,
  section 4, on that list and to keep \<open>check_invariants\<close> true.
\<close>

type_synonym field = "bytes \<times> bytes"

definition octets :: "string \<Rightarrow> bytes" where
  "octets s = map of_char s"

definition STATIC_TABLE :: "field list" where
  "STATIC_TABLE = map (\<lambda>(name, v). (octets name, octets v)) [
     ('':authority'', ''''),
     ('':method'', ''GET''),
     ('':method'', ''POST''),
     ('':path'', ''/''),
     ('':path'', ''/index.html''),
     ('':scheme'', ''http''),
     ('':scheme'', ''https''),
     ('':status'', ''200''),
     ('':status'', ''204''),
     ('':status'', ''206''),
     ('':status'', ''304''),
     ('':status'', ''400''),
     ('':status'', ''404''),
     ('':status'', ''500''),
     (''accept-charset'', ''''),
     (''accept-encoding'', ''gzip, deflate''),
     (''accept-language'', ''''),
     (''accept-ranges'', ''''),
     (''accept'', ''''),
     (''access-control-allow-origin'', ''''),
     (''age'', ''''),
     (''allow'', ''''),
     (''authorization'', ''''),
     (''cache-control'', ''''),
     (''content-disposition'', ''''),
     (''content-encoding'', ''''),
     (''content-language'', ''''),
     (''content-length'', ''''),
     (''content-location'', ''''),
     (''content-range'', ''''),
     (''content-type'', ''''),
     (''cookie'', ''''),
     (''date'', ''''),
     (''etag'', ''''),
     (''expect'', ''''),
     (''expires'', ''''),
     (''from'', ''''),
     (''host'', ''''),
     (''if-match'', ''''),
     (''if-modified-since'', ''''),
     (''if-none-match'', ''''),
     (''if-range'', ''''),
     (''if-unmodified-since'', ''''),
     (''last-modified'', ''''),
     (''link'', ''''),
     (''location'', ''''),
     (''max-forwards'', ''''),
     (''proxy-authenticate'', ''''),
     (''proxy-authorization'', ''''),
     (''range'', ''''),
     (''referer'', ''''),
     (''refresh'', ''''),
     (''retry-after'', ''''),
     (''server'', ''''),
     (''set-cookie'', ''''),
     (''strict-transport-security'', ''''),
     (''transfer-encoding'', ''''),
     (''user-agent'', ''''),
     (''vary'', ''''),
     (''via'', ''''),
     (''www-authenticate'', '''')]"

definition DYNAMIC_TABLE_START :: nat where
  "DYNAMIC_TABLE_START = length STATIC_TABLE + 1"

definition ENTRY_OVERHEAD :: nat where
  "ENTRY_OVERHEAD = 32"

definition DEFAULT_MAX_SIZE :: nat where
  "DEFAULT_MAX_SIZE = 4096"

definition INITIAL_BYTES :: nat where
  "INITIAL_BYTES = 512"

record Entry =
  e_offset :: nat
  e_name_len :: nat
  e_value_len :: nat

record DynamicTable =
  t_bytes :: bytes
  t_capacity :: nat
  t_start :: nat
  t_entries :: "Entry list"
  t_size :: nat
  t_max_size :: nat

definition table_new :: "nat \<Rightarrow> DynamicTable" where
  "table_new max_size =
     \<lparr>t_bytes = [], t_capacity = 0, t_start = 0, t_entries = [], t_size = 0, t_max_size = max_size\<rparr>"

definition table_len :: "DynamicTable \<Rightarrow> nat" where
  "table_len t = length (t_entries t)"

text \<open>\<open>checked_sub(index + 1)?\<close> is the range test; the two slices of the buffer follow.\<close>

definition table_get :: "DynamicTable \<Rightarrow> nat \<Rightarrow> field option" where
  "table_get t index =
     (if index + 1 \<le> length (t_entries t) then
        let entry = t_entries t ! (length (t_entries t) - (index + 1));
            value_start = e_offset entry + e_name_len entry
        in Some (slice (t_bytes t) (e_offset entry) value_start,
                 slice (t_bytes t) value_start (value_start + e_value_len entry))
      else None)"

definition table_iter :: "DynamicTable \<Rightarrow> field list" where
  "table_iter t = List.map_filter (table_get t) [0..<length (t_entries t)]"

definition evict_oldest :: "DynamicTable \<Rightarrow> DynamicTable" where
  "evict_oldest t =
     (case t_entries t of
        [] \<Rightarrow> t\<lparr>t_size := 0\<rparr>
      | oldest # entries \<Rightarrow>
          let t = t\<lparr>t_entries := entries,
                    t_size := t_size t - (e_name_len oldest + e_value_len oldest + ENTRY_OVERHEAD)\<rparr>
          in (case entries of
                next # _ \<Rightarrow> t\<lparr>t_start := e_offset next\<rparr>
              | [] \<Rightarrow> t\<lparr>t_bytes := [], t_start := 0\<rparr>))"

text \<open>The loop \<open>while self.size > limit { self.evict_oldest() }\<close>.\<close>

function evict_until :: "nat \<Rightarrow> DynamicTable \<Rightarrow> DynamicTable" where
  "evict_until limit t = (if limit < t_size t then evict_until limit (evict_oldest t) else t)"
  by pat_completeness auto
termination
  by (relation "measure (\<lambda>(_, t). length (t_entries t) + of_bool (0 < t_size t))")
    (auto simp: evict_oldest_def Let_def split: list.splits)

declare evict_until.simps [simp del]

definition set_max_size :: "DynamicTable \<Rightarrow> nat \<Rightarrow> DynamicTable" where
  "set_max_size t max_size = evict_until max_size (t\<lparr>t_max_size := max_size\<rparr>)"

definition table_clear :: "DynamicTable \<Rightarrow> DynamicTable" where
  "table_clear t = t\<lparr>t_entries := [], t_bytes := [], t_start := 0, t_size := 0\<rparr>"

definition compact :: "DynamicTable \<Rightarrow> DynamicTable" where
  "compact t =
     t\<lparr>t_bytes := drop (t_start t) (t_bytes t),
       t_entries := map (\<lambda>entry. entry\<lparr>e_offset := e_offset entry - t_start t\<rparr>) (t_entries t),
       t_start := 0\<rparr>"

text \<open>\<open>Vec::reserve\<close>: no change when the spare capacity suffices, amortised doubling otherwise.\<close>

definition vec_reserve :: "nat \<Rightarrow> nat \<Rightarrow> nat \<Rightarrow> nat" where
  "vec_reserve len capacity additional =
     (if additional \<le> capacity - len then capacity
      else max (max (2 * capacity) (len + additional)) 8)"

text \<open>
  The \<open>while self.size + entry_size > self.max_size\<close> loop of \<open>insert\<close> runs when
  \<open>entry_size \<le> max_size\<close>, so its test is \<open>max_size - entry_size < size\<close>.
\<close>

definition table_insert :: "DynamicTable \<Rightarrow> bytes \<Rightarrow> bytes \<Rightarrow> DynamicTable" where
  "table_insert t name v =
     (let entry_size = length name + length v + ENTRY_OVERHEAD in
      if t_max_size t < entry_size then table_clear t
      else
        let t = evict_until (t_max_size t - entry_size) t;
            needed = length name + length v;
            live = length (t_bytes t) - t_start t;
            t = (if t_capacity t < length (t_bytes t) + needed \<and> 0 < t_start t \<and> live \<le> t_start t
                 then compact t else t);
            capacity = (if t_capacity t = 0
              then vec_reserve (length (t_bytes t)) 0 (max needed (min INITIAL_BYTES (t_max_size t)))
              else vec_reserve (length (t_bytes t)) (t_capacity t) needed);
            offset = length (t_bytes t)
        in t\<lparr>t_capacity := capacity,
             t_bytes := t_bytes t @ name @ v,
             t_entries := t_entries t @
               [\<lparr>e_offset = offset, e_name_len = length name, e_value_len = length v\<rparr>],
             t_size := t_size t + entry_size\<rparr>)"

text \<open>The sweep of \<open>check_invariants\<close>, its assertions as a conjunction.\<close>

definition entry_len :: "Entry \<Rightarrow> nat" where
  "entry_len entry = e_name_len entry + e_value_len entry"

fun tiles :: "nat \<Rightarrow> Entry list \<Rightarrow> nat \<Rightarrow> bool" where
  "tiles start [] end = (start = end)"
| "tiles start (entry # entries) end =
     (e_offset entry = start \<and> tiles (start + entry_len entry) entries end)"

definition check_invariants :: "DynamicTable \<Rightarrow> bool" where
  "check_invariants t \<longleftrightarrow>
     tiles (t_start t) (t_entries t) (length (t_bytes t)) \<and>
     sum_list (map (\<lambda>entry. entry_len entry + ENTRY_OVERHEAD) (t_entries t)) = t_size t \<and>
     t_size t \<le> t_max_size t \<and>
     length (t_entries t) \<le> t_max_size t div ENTRY_OVERHEAD"

subsection \<open>The abstract table of RFC 7541, section 4\<close>

definition field_size :: "field \<Rightarrow> nat" where
  "field_size f = length (fst f) + length (snd f) + ENTRY_OVERHEAD"

text \<open>The newest fields whose sizes add up to at most \<open>limit\<close>.\<close>

fun fit :: "nat \<Rightarrow> field list \<Rightarrow> field list" where
  "fit limit [] = []"
| "fit limit (f # fs) = (if field_size f \<le> limit then f # fit (limit - field_size f) fs else [])"

definition spec_insert :: "nat \<Rightarrow> field \<Rightarrow> field list \<Rightarrow> field list" where
  "spec_insert max_size f fs =
     (if max_size < field_size f then [] else f # fit (max_size - field_size f) fs)"

definition fields_size :: "field list \<Rightarrow> nat" where
  "fields_size fs = sum_list (map field_size fs)"

lemma fields_size_simps [simp]:
  "fields_size [] = 0" "fields_size (f # fs) = field_size f + fields_size fs"
  "fields_size (fs @ gs) = fields_size fs + fields_size gs"
  by (simp_all add: fields_size_def)

lemma field_size_pos [simp]: "0 < field_size f"
  by (simp add: field_size_def ENTRY_OVERHEAD_def)

lemma fit_all: "fields_size fs \<le> limit \<Longrightarrow> fit limit fs = fs"
  by (induction limit fs rule: fit.induct) auto

lemma fit_last: "limit < fields_size (fs @ [f]) \<Longrightarrow> fit limit (fs @ [f]) = fit limit fs"
  by (induction limit fs rule: fit.induct) auto

lemma fit_size: "fields_size (fit limit fs) \<le> limit"
  by (induction limit fs rule: fit.induct) auto

lemma fit_take: "\<exists>k. fit limit fs = take k fs"
proof (induction limit fs rule: fit.induct)
  case (2 limit f fs)
  show ?case
  proof (cases "field_size f \<le> limit")
    case True
    with 2 obtain k where "fit (limit - field_size f) fs = take k fs" by auto
    with True show ?thesis by (intro exI [of _ "Suc k"]) simp
  qed (intro exI [of _ 0], simp)
qed simp

lemma fit_fit: "fit a (fit b fs) = fit (min a b) fs"
  by (induction b fs arbitrary: a rule: fit.induct) (auto simp: min_def)

lemma fit_0 [simp]: "fit 0 fs = []"
  using field_size_pos by (cases fs) (auto simp: not_le)

lemma spec_insert_size: "fields_size (spec_insert max_size f fs) \<le> max_size"
  using fit_size [of "max_size - field_size f" fs] by (auto simp: spec_insert_def)

lemma fields_count: "ENTRY_OVERHEAD * length fs \<le> fields_size fs"
  by (induction fs) (auto simp: field_size_def)

subsection \<open>The fields a table stands for\<close>

definition entry_field :: "bytes \<Rightarrow> Entry \<Rightarrow> field" where
  "entry_field bs entry =
     (slice bs (e_offset entry) (e_offset entry + e_name_len entry),
      slice bs (e_offset entry + e_name_len entry)
        (e_offset entry + e_name_len entry + e_value_len entry))"

definition contents :: "DynamicTable \<Rightarrow> field list" where
  "contents t = map (entry_field (t_bytes t)) (rev (t_entries t))"

lemma table_get_contents:
  "table_get t index = (if index < length (contents t) then Some (contents t ! index) else None)"
  by (simp add: table_get_def contents_def entry_field_def Let_def rev_nth)

lemma table_len_contents: "table_len t = length (contents t)"
  by (simp add: table_len_def contents_def)

lemma table_iter_contents: "table_iter t = contents t"
proof -
  have "length (t_entries t) = length (contents t)" by (simp add: contents_def)
  then show ?thesis
    by (auto simp: table_iter_def List.map_filter_def table_get_contents intro!: nth_equalityI)
qed

text \<open>\<open>well_formed\<close> is \<open>check_invariants\<close> without the bound by the maximum size.\<close>

definition well_formed :: "DynamicTable \<Rightarrow> bool" where
  "well_formed t \<longleftrightarrow> tiles (t_start t) (t_entries t) (length (t_bytes t)) \<and>
     sum_list (map (\<lambda>entry. entry_len entry + ENTRY_OVERHEAD) (t_entries t)) = t_size t"

lemma tiles_append:
  "tiles start (es @ fs) end \<longleftrightarrow>
     tiles start es (start + sum_list (map entry_len es)) \<and>
     tiles (start + sum_list (map entry_len es)) fs end"
  by (induction es arbitrary: start) (auto simp: add.assoc)

lemma tiles_end: "tiles start es end \<Longrightarrow> end = start + sum_list (map entry_len es)"
  by (induction es arbitrary: start) fastforce+

lemma tiles_range:
  "tiles start es end \<Longrightarrow> entry \<in> set es \<Longrightarrow>
     start \<le> e_offset entry \<and> e_offset entry + entry_len entry \<le> end"
proof (induction es arbitrary: start)
  case (Cons e es)
  then show ?case using tiles_end [of start "e # es" "end"] by fastforce
qed simp

lemma tiles_shift:
  "tiles start es end \<Longrightarrow> d \<le> start \<Longrightarrow>
     tiles (start - d) (map (\<lambda>entry. entry\<lparr>e_offset := e_offset entry - d\<rparr>) es) (end - d)"
proof (induction es arbitrary: start)
  case (Cons e es)
  from Cons.IH [of "start + entry_len e"] Cons.prems show ?case
    by (simp add: entry_len_def)
qed simp

lemma entry_field_size:
  "e_offset entry + entry_len entry \<le> length bs \<Longrightarrow>
     field_size (entry_field bs entry) = entry_len entry + ENTRY_OVERHEAD"
  by (simp add: field_size_def entry_field_def entry_len_def)

lemma contents_size:
  assumes "well_formed t"
  shows "fields_size (contents t) = t_size t"
proof -
  have eq: "map (\<lambda>entry. field_size (entry_field (t_bytes t) entry)) (t_entries t) =
      map (\<lambda>entry. entry_len entry + ENTRY_OVERHEAD) (t_entries t)"
    using assms tiles_range by (auto simp: well_formed_def intro!: entry_field_size)
  have "fields_size (contents t) =
      sum_list (rev (map (\<lambda>entry. field_size (entry_field (t_bytes t) entry)) (t_entries t)))"
    by (simp add: contents_def fields_size_def comp_def rev_map)
  then show ?thesis using assms by (simp only: eq well_formed_def sum_list_rev)
qed

lemma check_invariants_iff:
  "check_invariants t \<longleftrightarrow> well_formed t \<and> t_size t \<le> t_max_size t"
proof -
  have "length (t_entries t) \<le> t_max_size t div ENTRY_OVERHEAD"
    if "well_formed t" "t_size t \<le> t_max_size t"
  proof -
    have "ENTRY_OVERHEAD * length (contents t) \<le> t_max_size t"
      using fields_count [of "contents t"] contents_size that by simp
    then show ?thesis
      by (simp add: contents_def ENTRY_OVERHEAD_def less_eq_div_iff_mult_less_eq mult.commute)
  qed
  then show ?thesis by (auto simp: check_invariants_def well_formed_def)
qed

subsection \<open>Every operation implements its specification\<close>

lemma table_new_ok: "check_invariants (table_new m)" "contents (table_new m) = []"
  by (simp_all add: table_new_def check_invariants_def contents_def)

lemma table_clear_ok: "check_invariants (table_clear t)" "contents (table_clear t) = []"
  by (simp_all add: table_clear_def check_invariants_def contents_def)

lemma evict_oldest_keeps [simp]:
  "t_max_size (evict_oldest t) = t_max_size t" "t_capacity (evict_oldest t) = t_capacity t"
  "length (t_bytes (evict_oldest t)) \<le> length (t_bytes t)"
  by (auto simp: evict_oldest_def Let_def split: list.splits)

lemma evict_oldest_ok:
  assumes "well_formed t" and "t_entries t = oldest # entries"
  shows "well_formed (evict_oldest t)" and "contents (evict_oldest t) = butlast (contents t)"
    and "e_name_len oldest + e_value_len oldest + ENTRY_OVERHEAD \<le> t_size t"
proof -
  show "well_formed (evict_oldest t)"
    using assms by (cases entries) (auto simp: well_formed_def evict_oldest_def entry_len_def)
  show "contents (evict_oldest t) = butlast (contents t)"
    using assms(2) by (cases entries) (auto simp: contents_def evict_oldest_def butlast_append)
  show "e_name_len oldest + e_value_len oldest + ENTRY_OVERHEAD \<le> t_size t"
    using assms by (auto simp: well_formed_def entry_len_def)
qed

lemma evict_until_keeps:
  "t_max_size (evict_until limit t) = t_max_size t \<and>
   t_capacity (evict_until limit t) = t_capacity t \<and>
   length (t_bytes (evict_until limit t)) \<le> length (t_bytes t)"
proof (induction limit t rule: evict_until.induct)
  case (1 limit t)
  then show ?case
    by (subst (1 2 3) evict_until.simps) (auto intro: order_trans)
qed

lemma evict_until_ok:
  assumes "well_formed t"
  shows "well_formed (evict_until limit t) \<and> t_size (evict_until limit t) \<le> limit \<and>
    contents (evict_until limit t) = fit limit (contents t)"
  using assms
proof (induction limit t rule: evict_until.induct)
  case (1 limit t)
  show ?case
  proof (cases "limit < t_size t")
    case True
    then obtain oldest entries where es: "t_entries t = oldest # entries"
      using "1.prems" by (cases "t_entries t") (auto simp: well_formed_def)
    note ok = evict_oldest_ok [OF "1.prems" es]
    have "contents t \<noteq> []" by (simp add: contents_def es)
    then have "contents t = butlast (contents t) @ [last (contents t)]" by simp
    then have "fit limit (contents t) = fit limit (butlast (contents t))"
      using True fit_last [of limit "butlast (contents t)" "last (contents t)"]
        contents_size [OF "1.prems"] by simp
    then show ?thesis
      using "1.IH" [OF True ok(1)] True by (simp add: evict_until.simps [of limit t] ok(2))
  next
    case False
    then show ?thesis
      using "1.prems" contents_size [of t] by (simp add: evict_until.simps fit_all)
  qed
qed

lemma compact_ok:
  assumes "well_formed t"
  shows "well_formed (compact t)" and "contents (compact t) = contents t"
    and "t_size (compact t) = t_size t"
proof -
  have t: "tiles (t_start t) (t_entries t) (length (t_bytes t))"
    using assms by (simp add: well_formed_def)
  show "well_formed (compact t)"
    using tiles_shift [OF t order_refl] assms
    by (simp add: well_formed_def compact_def comp_def entry_len_def)
  show "contents (compact t) = contents t"
  proof -
    have "entry_field (drop (t_start t) (t_bytes t)) (entry\<lparr>e_offset := e_offset entry - t_start t\<rparr>) =
        entry_field (t_bytes t) entry" if "entry \<in> set (t_entries t)" for entry
      using tiles_range [OF t that] by (simp add: entry_field_def slice_drop)
    then show ?thesis by (simp add: contents_def compact_def flip: rev_map)
  qed
qed (simp add: compact_def)

lemma live_bytes:
  assumes "well_formed t"
  shows "length (t_bytes t) - t_start t \<le> t_size t" and "t_start t \<le> length (t_bytes t)"
proof -
  have "length (t_bytes t) = t_start t + sum_list (map entry_len (t_entries t))"
    using assms tiles_end by (simp add: well_formed_def)
  moreover have "sum_list (map entry_len (t_entries t)) \<le>
      sum_list (map (\<lambda>entry. entry_len entry + ENTRY_OVERHEAD) (t_entries t))"
    by (intro sum_list_mono) simp
  ultimately show "length (t_bytes t) - t_start t \<le> t_size t" "t_start t \<le> length (t_bytes t)"
    using assms by (auto simp: well_formed_def)
qed

text \<open>The state of \<open>insert\<close> just before the field is appended: evicted, and compacted when due.\<close>

definition make_room :: "DynamicTable \<Rightarrow> nat \<Rightarrow> DynamicTable" where
  "make_room t needed =
     (let t = evict_until (t_max_size t - (needed + ENTRY_OVERHEAD)) t in
      if t_capacity t < length (t_bytes t) + needed \<and> 0 < t_start t \<and>
        length (t_bytes t) - t_start t \<le> t_start t
      then compact t else t)"

lemma table_insert_room:
  assumes "\<not> t_max_size t < field_size (name, v)"
  shows "\<exists>capacity. table_insert t name v =
    (let t = make_room t (length name + length v) in
     t\<lparr>t_capacity := capacity, t_bytes := t_bytes t @ name @ v,
       t_entries := t_entries t @
         [\<lparr>e_offset = length (t_bytes t), e_name_len = length name, e_value_len = length v\<rparr>],
       t_size := t_size t + field_size (name, v)\<rparr>) \<and>
    capacity = (let t = make_room t (length name + length v) in
      if t_capacity t = 0
      then vec_reserve (length (t_bytes t)) 0
             (max (length name + length v) (min INITIAL_BYTES (t_max_size t)))
      else vec_reserve (length (t_bytes t)) (t_capacity t) (length name + length v))"
  using assms by (simp add: table_insert_def make_room_def field_size_def Let_def)

lemma make_room_ok:
  assumes "well_formed t"
  shows "well_formed (make_room t needed)"
    and "contents (make_room t needed) = fit (t_max_size t - (needed + ENTRY_OVERHEAD)) (contents t)"
    and "t_size (make_room t needed) \<le> t_max_size t - (needed + ENTRY_OVERHEAD)"
    and "t_max_size (make_room t needed) = t_max_size t"
    and "t_capacity (make_room t needed) = t_capacity t"
    and "length (t_bytes (make_room t needed)) \<le> length (t_bytes t)"
proof -
  let ?limit = "t_max_size t - (needed + ENTRY_OVERHEAD)"
  note ev = evict_until_ok [OF assms, of ?limit] evict_until_keeps [of ?limit t]
  note co = compact_ok [of "evict_until ?limit t"]
  show "well_formed (make_room t needed)" "contents (make_room t needed) = fit ?limit (contents t)"
    "t_size (make_room t needed) \<le> ?limit" "t_max_size (make_room t needed) = t_max_size t"
    "t_capacity (make_room t needed) = t_capacity t"
    using ev co by (auto simp: make_room_def Let_def compact_def)
  show "length (t_bytes (make_room t needed)) \<le> length (t_bytes t)"
    using ev by (auto simp: make_room_def Let_def compact_def intro: le_trans [OF diff_le_self])
qed

lemma table_insert_ok:
  assumes "check_invariants t"
  shows "check_invariants (table_insert t name v)"
    and "contents (table_insert t name v) = spec_insert (t_max_size t) (name, v) (contents t)"
    and "t_max_size (table_insert t name v) = t_max_size t"
proof -
  have wf: "well_formed t" using assms check_invariants_iff by blast
  show "check_invariants (table_insert t name v)"
    "contents (table_insert t name v) = spec_insert (t_max_size t) (name, v) (contents t)"
    "t_max_size (table_insert t name v) = t_max_size t"
  proof (atomize (full), cases "t_max_size t < field_size (name, v)")
    case True
    then have "table_insert t name v = table_clear t" by (simp add: table_insert_def field_size_def)
    then show "check_invariants (table_insert t name v) \<and>
        contents (table_insert t name v) = spec_insert (t_max_size t) (name, v) (contents t) \<and>
        t_max_size (table_insert t name v) = t_max_size t"
      using table_clear_ok True by (simp add: spec_insert_def table_clear_def)
  next
    case False
    let ?r = "make_room t (length name + length v)"
    note room = make_room_ok [OF wf, of "length name + length v"]
    let ?e = "\<lparr>e_offset = length (t_bytes ?r), e_name_len = length name, e_value_len = length v\<rparr>"
    from table_insert_room [OF False] obtain capacity where t': "table_insert t name v =
      ?r\<lparr>t_capacity := capacity, t_bytes := t_bytes ?r @ name @ v, t_entries := t_entries ?r @ [?e],
        t_size := t_size ?r + field_size (name, v)\<rparr>" by (auto simp: Let_def)
    have tl: "tiles (t_start ?r) (t_entries ?r) (length (t_bytes ?r))"
      using room(1) by (simp add: well_formed_def)
    have "well_formed (table_insert t name v)"
      using room(1) tl tiles_end [OF tl]
      by (simp add: t' well_formed_def tiles_append field_size_def entry_len_def)
    moreover have "t_size (table_insert t name v) \<le> t_max_size (table_insert t name v)"
      using room(3,4) False by (simp add: t' field_size_def)
    moreover have "contents (table_insert t name v) = (name, v) # contents ?r"
    proof -
      have "entry_field (t_bytes ?r @ name @ v) entry = entry_field (t_bytes ?r) entry"
        if "entry \<in> set (t_entries ?r)" for entry
        using tiles_range [OF tl that] by (simp add: entry_field_def entry_len_def)
      then show ?thesis
        by (simp add: t' contents_def entry_field_def slice_append_right)
    qed
    ultimately show "check_invariants (table_insert t name v) \<and>
        contents (table_insert t name v) = spec_insert (t_max_size t) (name, v) (contents t) \<and>
        t_max_size (table_insert t name v) = t_max_size t"
      using False room(2,4)
      by (simp add: check_invariants_iff t' spec_insert_def field_size_def)
  qed
qed

lemma set_max_size_ok:
  assumes "check_invariants t"
  shows "check_invariants (set_max_size t m)"
    and "contents (set_max_size t m) = fit m (contents t)"
    and "t_max_size (set_max_size t m) = m"
proof -
  let ?t = "t\<lparr>t_max_size := m\<rparr>"
  have "well_formed ?t" using assms by (simp add: check_invariants_iff well_formed_def)
  then show "check_invariants (set_max_size t m)" "contents (set_max_size t m) = fit m (contents t)"
    "t_max_size (set_max_size t m) = m"
    using evict_until_ok [of ?t m] evict_until_keeps [of m ?t]
    by (auto simp: set_max_size_def check_invariants_iff contents_def)
qed

subsection \<open>The buffer stays within a small multiple of the maximum size\<close>

definition buffer_bound :: "nat \<Rightarrow> DynamicTable \<Rightarrow> bool" where
  "buffer_bound m t \<longleftrightarrow> t_max_size t \<le> m \<and> length (t_bytes t) \<le> t_capacity t \<and> t_capacity t \<le> 4 * m"

lemma table_insert_buffer:
  assumes "check_invariants t" and "buffer_bound m t"
  shows "buffer_bound m (table_insert t name v)"
proof (cases "t_max_size t < field_size (name, v)")
  case True
  then show ?thesis
    using assms(2) by (simp add: table_insert_def field_size_def table_clear_def buffer_bound_def)
next
  case False
  let ?needed = "length name + length v"
  let ?r = "make_room t ?needed"
  have wf: "well_formed t" using assms(1) check_invariants_iff by blast
  note room = make_room_ok [OF wf, of ?needed]
  have cap: "t_capacity ?r \<le> 4 * m" "length (t_bytes ?r) \<le> t_capacity ?r" "t_max_size t \<le> m"
    using assms(2) room(5,6) by (auto simp: buffer_bound_def)
  have len: "length (t_bytes ?r) + ?needed \<le> 2 * t_max_size t" if "t_capacity ?r < length (t_bytes ?r) + ?needed"
  proof -
    have "\<not> (0 < t_start ?r \<and> length (t_bytes ?r) - t_start ?r \<le> t_start ?r)"
      using that by (auto simp: make_room_def Let_def compact_def split: if_splits)
    then have "length (t_bytes ?r) \<le> 2 * (length (t_bytes ?r) - t_start ?r)" by auto
    also have "\<dots> \<le> 2 * (t_max_size t - (?needed + ENTRY_OVERHEAD))"
      using live_bytes(1) [OF room(1)] room(3) by simp
    finally show ?thesis using False by (simp add: field_size_def)
  qed
  have big: "?needed + 32 \<le> t_max_size t" using False by (simp add: field_size_def ENTRY_OVERHEAD_def)
  have "length (t_bytes ?r) + ?needed \<le> vec_reserve (length (t_bytes ?r)) (t_capacity ?r) ?needed \<and>
      vec_reserve (length (t_bytes ?r)) (t_capacity ?r) ?needed \<le> 4 * m"
    using cap big len by (cases "t_capacity ?r < length (t_bytes ?r) + ?needed")
      (auto simp: vec_reserve_def)
  moreover have "?needed \<le> vec_reserve 0 0 (max ?needed (min INITIAL_BYTES (t_max_size t))) \<and>
      vec_reserve 0 0 (max ?needed (min INITIAL_BYTES (t_max_size t))) \<le> 4 * m"
    using cap(3) big by (auto simp: vec_reserve_def)
  ultimately show ?thesis
    using table_insert_room [OF False] cap room(4)
    by (cases "t_capacity ?r = 0") (auto simp: Let_def buffer_bound_def)
qed

lemma set_max_size_buffer:
  assumes "buffer_bound m t" and "k \<le> m"
  shows "buffer_bound m (set_max_size t k)"
  using assms evict_until_keeps [of k "t\<lparr>t_max_size := k\<rparr>"]
  by (auto simp: buffer_bound_def set_max_size_def)

subsection \<open>The interface the encoder and the decoder use\<close>

text \<open>
  What the two clients rely on: the operations they call and how each acts on the list of
  fields. Two tables are in step when they hold the same fields under the same maximum size;
  the laws make the operations of an encoder and of its peer's decoder keep them in step.
\<close>

locale field_table =
  fixes get :: "'t \<Rightarrow> nat \<Rightarrow> field option"
    and insert :: "'t \<Rightarrow> bytes \<Rightarrow> bytes \<Rightarrow> 't"
    and resize :: "'t \<Rightarrow> nat \<Rightarrow> 't"
    and max_size :: "'t \<Rightarrow> nat"
    and fields :: "'t \<Rightarrow> field list"
    and valid :: "'t \<Rightarrow> bool"
  assumes get_law: "valid t \<Longrightarrow> get t i = (if i < length (fields t) then Some (fields t ! i) else None)"
    and insert_law: "valid t \<Longrightarrow> fields (insert t name v) = spec_insert (max_size t) (name, v) (fields t)"
    and insert_max: "valid t \<Longrightarrow> max_size (insert t name v) = max_size t"
    and insert_valid: "valid t \<Longrightarrow> valid (insert t name v)"
    and resize_law: "valid t \<Longrightarrow> fields (resize t m) = fit m (fields t)"
    and resize_max: "valid t \<Longrightarrow> max_size (resize t m) = m"
    and resize_valid: "valid t \<Longrightarrow> valid (resize t m)"
    and size_law: "valid t \<Longrightarrow> fields_size (fields t) \<le> max_size t"
begin

lemma get_insert_newest:
  assumes "valid t" and "field_size (name, v) \<le> max_size t"
  shows "get (insert t name v) 0 = Some (name, v)"
  using assms by (simp add: get_law insert_valid insert_law spec_insert_def)

lemma get_insert_older:
  assumes "valid t" and "get (insert t name v) (Suc i) = Some f"
  shows "get t i = Some f"
proof -
  obtain k where k: "fit (max_size t - field_size (name, v)) (fields t) = take k (fields t)"
    using fit_take by blast
  from assms show ?thesis
    by (auto simp: get_law insert_valid insert_law spec_insert_def k split: if_splits)
qed

lemma insert_in_step:
  assumes "valid a" and "valid b" and "fields a = fields b" and "max_size a = max_size b"
  shows "fields (insert a name v) = fields (insert b name v)"
    and "max_size (insert a name v) = max_size (insert b name v)"
  using assms by (simp_all add: insert_law insert_max)

lemma get_in_step:
  assumes "valid a" and "valid b" and "fields a = fields b"
  shows "get a i = get b i"
  using assms by (simp add: get_law)

lemma resize_twice:
  assumes "valid t" and "low \<le> high"
  shows "fields (resize (resize t low) high) = fit low (fields t)"
  using assms by (simp add: resize_law resize_valid fit_fit)

lemma resize_zero_empties: "valid t \<Longrightarrow> fields (resize (resize t 0) m) = []"
  by (simp add: resize_law resize_valid)

lemma count_bound: "valid t \<Longrightarrow> length (fields t) \<le> max_size t div ENTRY_OVERHEAD"
proof -
  assume "valid t"
  then have "ENTRY_OVERHEAD * length (fields t) \<le> max_size t"
    using fields_count [of "fields t"] size_law by (meson order_trans)
  then show ?thesis
    by (simp add: ENTRY_OVERHEAD_def less_eq_div_iff_mult_less_eq mult.commute)
qed

end

interpretation dyn: field_table table_get table_insert set_max_size t_max_size contents check_invariants
proof unfold_locales
  fix t :: DynamicTable assume t: "check_invariants t"
  then show "fields_size (contents t) \<le> t_max_size t"
    using contents_size check_invariants_iff by simp
qed (simp_all add: table_get_contents table_insert_ok set_max_size_ok)

subsection \<open>Reachable tables\<close>

text \<open>The tables of a connection whose maximum size never exceeds \<open>m\<close>.\<close>

inductive table_reachable :: "nat \<Rightarrow> DynamicTable \<Rightarrow> bool" for m where
  reach_new: "k \<le> m \<Longrightarrow> table_reachable m (table_new k)"
| reach_insert: "table_reachable m t \<Longrightarrow> table_reachable m (table_insert t name v)"
| reach_resize: "table_reachable m t \<Longrightarrow> k \<le> m \<Longrightarrow> table_reachable m (set_max_size t k)"

lemma table_reachable_inv:
  "table_reachable m t \<Longrightarrow> check_invariants t \<and> buffer_bound m t"
proof (induction rule: table_reachable.induct)
  case (reach_new k)
  then show ?case by (simp add: table_new_ok(1)) (simp add: buffer_bound_def table_new_def)
qed (auto intro: table_insert_ok table_insert_buffer set_max_size_ok set_max_size_buffer)

subsection \<open>Properties\<close>

text \<open>
  C21: inserting a field does what RFC 7541, section 4.4, says. The table keeps every assertion
  of \<open>check_invariants\<close>; it then holds the new field followed by the newest old fields that fit
  beside it, or nothing when the field alone is larger than the maximum size. Eviction,
  compaction and growth of the buffer leave no other trace.
\<close>

theorem table_insert_refines:
  assumes "check_invariants t"
  shows "check_invariants (table_insert t name v) \<and>
    contents (table_insert t name v) = spec_insert (t_max_size t) (name, v) (contents t)"
  using assms table_insert_ok by simp

theorem table_insert_refines_witness:
  "check_invariants (table_insert (table_new 68) [1] [2]) \<and>
   contents (table_insert (table_insert (table_new 68) [1] [2]) [3, 4] [5]) = [([3, 4], [5])]"
  using table_insert_refines [of "table_new 68" "[1]" "[2]"]
    table_insert_refines [of "table_insert (table_new 68) [1] [2]" "[3, 4]" "[5]"]
  by (simp add: table_new_ok table_insert_ok spec_insert_def field_size_def ENTRY_OVERHEAD_def)
    (simp add: table_new_def spec_insert_def field_size_def ENTRY_OVERHEAD_def)

text \<open>
  changing the maximum size keeps the newest fields that fit the new size and evicts the
  others (RFC 7541, section 4.3), and keeps the invariants.
\<close>

theorem set_max_size_refines:
  assumes "check_invariants t"
  shows "check_invariants (set_max_size t m) \<and> contents (set_max_size t m) = fit m (contents t) \<and>
    t_max_size (set_max_size t m) = m"
  using assms set_max_size_ok by simp

theorem set_max_size_refines_witness:
  "contents (set_max_size (table_insert (table_new 70) [1] [2]) 33) = []"
  using set_max_size_refines [of "table_insert (table_new 70) [1] [2]" 33]
  by (simp add: table_new_ok table_insert_ok spec_insert_def field_size_def ENTRY_OVERHEAD_def)

text \<open>
  C39: whatever was inserted and however the size changed, while no maximum size above \<open>m\<close> was
  set: the invariants hold, every name and value a lookup slices lies inside the buffer, the
  table has at most \<open>m div 32\<close> entries, and the buffer's capacity stays within four times \<open>m\<close>.
\<close>

theorem table_reachable_bounded:
  assumes "table_reachable m t"
  shows "check_invariants t \<and>
    list_all (\<lambda>entry. e_offset entry + e_name_len entry + e_value_len entry \<le> length (t_bytes t)) (t_entries t) \<and>
    table_len t \<le> m div ENTRY_OVERHEAD \<and> length (t_bytes t) \<le> t_capacity t \<and> t_capacity t \<le> 4 * m"
proof -
  have inv: "check_invariants t" "buffer_bound m t" using table_reachable_inv [OF assms] by simp_all
  have "table_len t \<le> t_max_size t div ENTRY_OVERHEAD"
    using dyn.count_bound [OF inv(1)] by (simp add: table_len_contents)
  then have "table_len t \<le> m div ENTRY_OVERHEAD"
    using inv(2) div_le_mono [of "t_max_size t" m ENTRY_OVERHEAD] by (simp add: buffer_bound_def)
  with inv show ?thesis
    using tiles_range [of "t_start t" "t_entries t" "length (t_bytes t)"]
    by (fastforce simp: check_invariants_def buffer_bound_def entry_len_def list_all_iff)
qed

theorem table_reachable_bounded_witness:
  "t_capacity (set_max_size (table_insert (table_new 70) [1] [2]) 50) \<le> 280"
  using table_reachable_bounded [of 70 "set_max_size (table_insert (table_new 70) [1] [2]) 50"]
  by (simp add: table_reachable.intros)

end
