(* ===== verification/Hpack_Encoder.thy ===== *)
theory Hpack_Encoder
  imports Hpack_Integer Hpack_Huffman Hpack_Table
begin

text \<open>
  The HPACK encoder, from \<^verbatim>\<open>src/lib/src/protocol/mux/hpack/encoder.rs\<close>: the representations, the
  table search, the size updates that open a block and the reset of the table after a dropped
  block. The lemmas show what a search can return and that the policy the proxy uses keeps
  at most one dynamic entry per name.
\<close>

datatype Representation = Proxy | IncrementalIndexing | WithoutIndexing | NeverIndexed

datatype Found = Field nat | FoundName nat nat | Nothing

record PendingSizeUpdate =
  p_smallest :: nat
  p_last :: nat

record Encoder =
  e_table :: DynamicTable
  pending_size_update :: "PendingSizeUpdate option"

definition encoder_new :: Encoder where
  "encoder_new = \<lparr>e_table = table_new DEFAULT_MAX_SIZE, pending_size_update = None\<rparr>"

definition set_max_table_size :: "Encoder \<Rightarrow> nat \<Rightarrow> Encoder" where
  "set_max_table_size e max_size = e\<lparr>e_table := set_max_size (e_table e) max_size\<rparr>"

definition change_max_table_size :: "Encoder \<Rightarrow> nat \<Rightarrow> Encoder" where
  "change_max_table_size e max_size =
     (let e = e\<lparr>e_table := set_max_size (e_table e) max_size\<rparr>;
          least = (case pending_size_update e of
             None \<Rightarrow> max_size | Some pending \<Rightarrow> min (p_smallest pending) max_size)
      in e\<lparr>pending_size_update := Some \<lparr>p_smallest = least, p_last = max_size\<rparr>\<rparr>)"

text \<open>The result: the number of updates, the encoder without pending change, and the buffer.\<close>

definition encode_size_updates_into :: "Encoder \<Rightarrow> nat \<Rightarrow> bytes \<Rightarrow> nat \<times> Encoder \<times> bytes" where
  "encode_size_updates_into e last_size out =
     (let (updates, out) =
        (case pending_size_update e of
           Some pending \<Rightarrow>
             if p_smallest pending < last_size then (1, encode_integer (p_smallest pending) 5 0x20 out)
             else (0, out)
         | None \<Rightarrow> (0, out))
      in (updates + 1, e\<lparr>pending_size_update := None\<rparr>, encode_integer last_size 5 0x20 out))"

definition reset_table :: "Encoder \<Rightarrow> nat \<times> Encoder" where
  "reset_table e =
     (let max_size = t_max_size (e_table e) in
      (max_size, change_max_table_size (change_max_table_size e 0) max_size))"

definition encode_string :: "bytes \<Rightarrow> bool \<Rightarrow> bytes \<Rightarrow> bytes" where
  "encode_string s huffman out =
     (if huffman then huffman_encode s (encode_integer (huffman_encoded_len s) 7 0x80 out)
      else encode_integer (length s) 7 0x00 out @ s)"

text \<open>The \<open>for\<close> loop of \<open>find\<close> over the chained tables from position \<open>position\<close> on.\<close>

fun find_loop :: "field list \<Rightarrow> nat \<Rightarrow> bytes \<Rightarrow> bytes \<Rightarrow> Found \<Rightarrow> Found" where
  "find_loop [] position name v found = found"
| "find_loop ((entry_name, entry_value) # entries) position name v found =
     (if entry_name \<noteq> name then find_loop entries (position + 1) name v found
      else let index = position + 1 in
        if entry_value = v then Field index
        else find_loop entries (position + 1) name v
               (case found of
                  FoundName first _ \<Rightarrow> FoundName first index
                | _ \<Rightarrow> FoundName index index))"

definition find :: "Encoder \<Rightarrow> bytes \<Rightarrow> bytes \<Rightarrow> Found" where
  "find e name v = find_loop (STATIC_TABLE @ table_iter (e_table e)) 0 name v Nothing"

definition encode_field ::
  "Encoder \<Rightarrow> bytes \<Rightarrow> bytes \<Rightarrow> Representation \<Rightarrow> bool \<Rightarrow> bytes \<Rightarrow> Encoder \<times> bytes" where
  "encode_field e name v representation huffman out =
     (let found = find e name v;
          inserted = e\<lparr>e_table := table_insert (e_table e) name v\<rparr>;
          new_name = encode_string v huffman (encode_string name huffman (out @ [0x40]))
      in case representation of
           Proxy \<Rightarrow>
             (case found of
                Field index \<Rightarrow> (e, encode_integer index 7 0x80 out)
              | FoundName first_index last_index \<Rightarrow>
                  (e, encode_string v huffman (encode_integer last_index 4 0x00 out))
              | Nothing \<Rightarrow> (inserted, new_name))
         | IncrementalIndexing \<Rightarrow>
             (case found of
                Field index \<Rightarrow> (e, encode_integer index 7 0x80 out)
              | FoundName first_index last_index \<Rightarrow>
                  (inserted, encode_string v huffman (encode_integer first_index 6 0x40 out))
              | Nothing \<Rightarrow> (inserted, new_name))
         | _ \<Rightarrow>
             let flags = (if representation = NeverIndexed then 0x10 else 0x00);
                 out = (case found of
                   Field index \<Rightarrow> encode_integer index 4 flags out
                 | FoundName first_index last_index \<Rightarrow> encode_integer first_index 4 flags out
                 | Nothing \<Rightarrow> encode_string name huffman (out @ [flags]))
             in (e, encode_string v huffman out))"

definition encode_header_into :: "Encoder \<Rightarrow> field \<Rightarrow> bytes \<Rightarrow> Encoder \<times> bytes" where
  "encode_header_into e f out = encode_field e (fst f) (snd f) Proxy False out"

fun encode_into :: "Encoder \<Rightarrow> field list \<Rightarrow> bytes \<Rightarrow> Encoder \<times> bytes" where
  "encode_into e [] out = (e, out)"
| "encode_into e (header # headers) out =
     (let (e, out) = encode_header_into e header out in encode_into e headers out)"

subsection \<open>What a search returns\<close>

fun found_ok :: "field list \<Rightarrow> bytes \<Rightarrow> bytes \<Rightarrow> Found \<Rightarrow> bool" where
  "found_ok T name v (Field i) = (0 < i \<and> i \<le> length T \<and> T ! (i - 1) = (name, v))"
| "found_ok T name v (FoundName i j) =
     (0 < i \<and> i \<le> j \<and> j \<le> length T \<and> fst (T ! (i - 1)) = name \<and> fst (T ! (j - 1)) = name)"
| "found_ok T name v Nothing = (name \<notin> fst ` set T)"

lemma found_ok_snoc:
  assumes "found_ok pre name v found" and "\<And>i. found \<noteq> Field i"
  shows "fst f \<noteq> name \<Longrightarrow> found_ok (pre @ [f]) name v found"
    and "fst f = name \<Longrightarrow> found_ok (pre @ [f]) name v
      (case found of FoundName i _ \<Rightarrow> FoundName i (Suc (length pre))
       | _ \<Rightarrow> FoundName (Suc (length pre)) (Suc (length pre)))"
  using assms by (cases found; auto simp: nth_append image_iff)+

lemma find_loop_ok:
  assumes "found_ok pre name v found" and "\<And>i. found \<noteq> Field i"
  shows "found_ok (pre @ entries) name v (find_loop entries (length pre) name v found)"
  using assms
proof (induction entries arbitrary: pre found)
  case (Cons f entries)
  obtain n w where f: "f = (n, w)" by fastforce
  note snoc = found_ok_snoc [OF Cons.prems, of f]
  show ?case
  proof (cases "n = name")
    case False
    with f have "found_ok ((pre @ [f]) @ entries) name v
        (find_loop entries (length (pre @ [f])) name v found)"
      using snoc(1) Cons.prems(2) by (intro Cons.IH) auto
    with f False show ?thesis by simp
  next
    case True
    let ?found = "case found of FoundName i _ \<Rightarrow> FoundName i (Suc (length pre))
       | _ \<Rightarrow> FoundName (Suc (length pre)) (Suc (length pre))"
    have "found_ok ((pre @ [f]) @ entries) name v
        (find_loop entries (length (pre @ [f])) name v ?found)"
      using snoc(2) f True by (intro Cons.IH) (auto split: Found.splits)
    with f True show ?thesis by (auto simp: Let_def nth_append)
  qed
qed simp

lemma find_ok: "found_ok (STATIC_TABLE @ contents (e_table e)) name v (find e name v)"
  using find_loop_ok [of "[]" name v Nothing "STATIC_TABLE @ contents (e_table e)"]
  by (simp add: find_def table_iter_contents)

subsection \<open>The tables an encoder of the proxy reaches\<close>

text \<open>
  The operations the proxy calls between and inside blocks; \<open>encode_field\<close> only with the \<open>Proxy\<close>
  representation.
\<close>

inductive proxy_reachable :: "Encoder \<Rightarrow> bool" where
  proxy_new: "proxy_reachable encoder_new"
| proxy_set: "proxy_reachable e \<Longrightarrow> proxy_reachable (set_max_table_size e m)"
| proxy_change: "proxy_reachable e \<Longrightarrow> proxy_reachable (change_max_table_size e m)"
| proxy_updates: "proxy_reachable e \<Longrightarrow> encode_size_updates_into e m out = (n, e', out') \<Longrightarrow>
    proxy_reachable e'"
| proxy_reset: "proxy_reachable e \<Longrightarrow> proxy_reachable (snd (reset_table e))"
| proxy_encode: "proxy_reachable e \<Longrightarrow> proxy_reachable (fst (encode_header_into e f out))"

definition one_per_name :: "Encoder \<Rightarrow> bool" where
  "one_per_name e \<longleftrightarrow> check_invariants (e_table e) \<and> distinct (map fst (contents (e_table e))) \<and>
     fst ` set STATIC_TABLE \<inter> fst ` set (contents (e_table e)) = {}"

lemma one_per_name_fit:
  assumes "distinct (map fst fs)" and "S \<inter> fst ` set fs = {}"
  shows "distinct (map fst (fit m fs))" and "fst ` set (fit m fs) \<subseteq> fst ` set fs"
    and "S \<inter> fst ` set (fit m fs) = {}"
proof -
  obtain k where k: "fit m fs = take k fs" using fit_take by blast
  show "distinct (map fst (fit m fs))" using assms(1) by (simp add: k distinct_take flip: take_map)
  show "fst ` set (fit m fs) \<subseteq> fst ` set fs" unfolding k by (intro image_mono set_take_subset)
  with assms(2) show "S \<inter> fst ` set (fit m fs) = {}" by blast
qed

lemma one_per_name_resize:
  assumes "one_per_name e" and "e_table e' = set_max_size (e_table e) m"
  shows "one_per_name e'"
  using assms one_per_name_fit [of "contents (e_table e)" "fst ` set STATIC_TABLE" m]
  by (simp add: one_per_name_def set_max_size_ok)

lemma one_per_name_encode:
  assumes "one_per_name e"
  shows "one_per_name (fst (encode_header_into e f out))"
proof (cases "find e (fst f) (snd f)")
  case Nothing
  have new: "fst f \<notin> fst ` set STATIC_TABLE" "fst f \<notin> fst ` set (contents (e_table e))"
    using find_ok [of e "fst f" "snd f"] Nothing by auto
  have inv: "check_invariants (e_table e)" using assms by (simp add: one_per_name_def)
  let ?fit = "fit (t_max_size (e_table e) - field_size f) (contents (e_table e))"
  note fit = one_per_name_fit [of "contents (e_table e)" "fst ` set STATIC_TABLE"
      "t_max_size (e_table e) - field_size f"]
  have "distinct (map fst ?fit)" "fst f \<notin> fst ` set ?fit" "fst ` set STATIC_TABLE \<inter> fst ` set ?fit = {}"
    using fit new(2) assms unfolding one_per_name_def by blast+
  then have "one_per_name (e\<lparr>e_table := table_insert (e_table e) (fst f) (snd f)\<rparr>)"
    using new(1) by (simp add: one_per_name_def table_insert_ok [OF inv] spec_insert_def)
  then show ?thesis using Nothing by (simp add: encode_header_into_def encode_field_def Let_def)
qed (use assms in \<open>simp_all add: encode_header_into_def encode_field_def\<close>)

lemma proxy_reachable_one_per_name: "proxy_reachable e \<Longrightarrow> one_per_name e"
proof (induction rule: proxy_reachable.induct)
  case proxy_new
  show ?case by (simp add: one_per_name_def encoder_new_def table_new_ok)
next
  case (proxy_set e m)
  then show ?case by (auto intro: one_per_name_resize simp: set_max_table_size_def)
next
  case (proxy_change e m)
  then show ?case by (auto intro: one_per_name_resize simp: change_max_table_size_def Let_def)
next
  case (proxy_updates e m out n e' out')
  then have "e_table e' = e_table e"
    by (auto simp: encode_size_updates_into_def split: prod.splits)
  with proxy_updates show ?case by (simp add: one_per_name_def)
next
  case (proxy_reset e)
  have "one_per_name (change_max_table_size e m)" if "one_per_name e" for e m
    using that by (auto intro: one_per_name_resize simp: change_max_table_size_def Let_def)
  with proxy_reset show ?case by (simp add: reset_table_def Let_def)
qed (rule one_per_name_encode)

subsection \<open>Properties\<close>

text \<open>
  C33: with the representation policy of the proxy the dynamic table never holds two entries with
  the same name, nor an entry whose name is in the static table, whatever sequence of fields,
  size changes, size updates and resets the encoder went through.
\<close>

theorem proxy_policy_one_entry_per_name:
  assumes "proxy_reachable e"
  shows "check_invariants (e_table e) \<and> distinct (map fst (contents (e_table e))) \<and>
    fst ` set STATIC_TABLE \<inter> fst ` set (contents (e_table e)) = {}"
  using proxy_reachable_one_per_name [OF assms] by (simp add: one_per_name_def)

theorem proxy_policy_one_entry_per_name_witness:
  "distinct (map fst (contents (e_table
     (fst (encode_header_into (change_max_table_size encoder_new 100) ([0x78], [0x79]) [])))))"
  using proxy_policy_one_entry_per_name
    [of "fst (encode_header_into (change_max_table_size encoder_new 100) ([0x78], [0x79]) [])"]
  by (simp add: proxy_reachable.intros)

end
