(* ===== verification/Hpack_Decoder.thy ===== *)
theory Hpack_Decoder
  imports Hpack_Integer Hpack_Huffman Hpack_Table
begin

text \<open>
  The HPACK decoder over an untrusted header block, from
  \<^verbatim>\<open>src/lib/src/protocol/mux/hpack/decoder.rs\<close>. A callback is modelled by the list of fields it has
  been given, which an error leaves in place. \<open>decode_with_cb\<close> is total: its loop always moves
  forward. The lemmas show that no input breaks the table's invariants or raises its maximum
  size above what was advertised.
\<close>

definition MAX_LEADING_SIZE_UPDATES :: nat where
  "MAX_LEADING_SIZE_UPDATES = 2"

datatype Source = Input nat nat | Scratch nat nat | Static bytes

datatype Name = SourceName Source | Dynamic nat

record Decoder =
  d_table :: DynamicTable
  d_max_allowed_size :: nat
  d_scratch :: bytes

text \<open>\<open>usize::MAX\<close> on the 64-bit targets.\<close>

definition decoder_new :: Decoder where
  "decoder_new =
     \<lparr>d_table = table_new DEFAULT_MAX_SIZE, d_max_allowed_size = 2 ^ 64 - 1, d_scratch = []\<rparr>"

definition set_max_allowed_table_size :: "Decoder \<Rightarrow> nat \<Rightarrow> Decoder" where
  "set_max_allowed_table_size d max_allowed_size = d\<lparr>d_max_allowed_size := max_allowed_size\<rparr>"

definition decoder_set_max_table_size :: "Decoder \<Rightarrow> nat \<Rightarrow> Decoder" where
  "decoder_set_max_table_size d max_size = d\<lparr>d_table := set_max_size (d_table d) max_size\<rparr>"

text \<open>\<open>capacity\<close> is the allocator's answer to \<open>self.scratch.capacity()\<close>.\<close>

definition shrink_scratch :: "nat \<Rightarrow> Decoder \<Rightarrow> nat \<Rightarrow> Decoder" where
  "shrink_scratch capacity d retain = (if retain < capacity then d\<lparr>d_scratch := []\<rparr> else d)"

definition lookup :: "Decoder \<Rightarrow> nat \<Rightarrow> DecoderError + field" where
  "lookup d index =
     (if index = 0 then Inl InvalidIndex
      else if index < DYNAMIC_TABLE_START then Inr (STATIC_TABLE ! (index - 1))
      else (case table_get (d_table d) (index - DYNAMIC_TABLE_START) of
          None \<Rightarrow> Inl InvalidIndex
        | Some f \<Rightarrow> Inr f))"

text \<open>The scratch buffer is the second component of the result, kept on error.\<close>

definition decode_string :: "bytes \<Rightarrow> nat \<Rightarrow> bytes \<Rightarrow> (DecoderError + Source \<times> nat) \<times> bytes" where
  "decode_string block position scratch =
     (case drop position block of
        [] \<Rightarrow> (Inl Truncated, scratch)
      | first # _ \<Rightarrow>
          (case decode_integer (drop position block) 7 of
             Inl e \<Rightarrow> (Inl e, scratch)
           | Inr (len, consumed) \<Rightarrow>
               if length (drop position block) - consumed < len then (Inl Truncated, scratch)
               else let start = position + consumed; end = start + len in
                 if first AND 0x80 = 0 then (Inr (Input start end, end), scratch)
                 else (case huffman_decode (slice block start end) scratch of
                     (Inl e, scratch') \<Rightarrow> (Inl (Huffman e), scratch')
                   | (Inr _, scratch') \<Rightarrow>
                       (Inr (Scratch (length scratch) (length scratch'), end), scratch'))))"

fun resolve :: "Source \<Rightarrow> bytes \<Rightarrow> bytes \<Rightarrow> bytes" where
  "resolve (Input start end) block scratch = slice block start end"
| "resolve (Scratch start end) block scratch = slice scratch start end"
| "resolve (Static name) block scratch = name"

text \<open>The \<open>match index\<close> of \<open>literal\<close>: the name, the position after it and the decoder.\<close>

definition literal_name ::
  "Decoder \<Rightarrow> bytes \<Rightarrow> nat \<Rightarrow> nat \<Rightarrow> bool \<Rightarrow> (DecoderError + Name \<times> nat) \<times> Decoder" where
  "literal_name d block position index indexing =
     (if index = 0 then
        (case decode_string block position (d_scratch d) of
           (Inl e, scratch) \<Rightarrow> (Inl e, d\<lparr>d_scratch := scratch\<rparr>)
         | (Inr (name, next), scratch) \<Rightarrow>
             (Inr (SourceName name, next), d\<lparr>d_scratch := scratch\<rparr>))
      else if index < DYNAMIC_TABLE_START then
        (Inr (SourceName (Static (fst (STATIC_TABLE ! (index - 1)))), position), d)
      else let dynamic = index - DYNAMIC_TABLE_START in
        (case table_get (d_table d) dynamic of
           None \<Rightarrow> (Inl InvalidIndex, d)
         | Some (name, _) \<Rightarrow>
             if indexing then
               let scratch = d_scratch d @ name in
               (Inr (SourceName (Scratch 0 (length scratch)), position), d\<lparr>d_scratch := scratch\<rparr>)
             else (Inr (Dynamic dynamic, position), d)))"

definition literal ::
  "Decoder \<Rightarrow> bytes \<Rightarrow> nat \<Rightarrow> nat \<Rightarrow> bool \<Rightarrow> field list \<Rightarrow>
     (DecoderError + nat) \<times> Decoder \<times> field list" where
  "literal d block position prefix indexing out =
     (let d = d\<lparr>d_scratch := []\<rparr> in
      case decode_integer (drop position block) prefix of
        Inl e \<Rightarrow> (Inl e, d, out)
      | Inr (index, consumed) \<Rightarrow>
          (case literal_name d block (position + consumed) index indexing of
             (Inl e, d) \<Rightarrow> (Inl e, d, out)
           | (Inr (name, position), d) \<Rightarrow>
               (case decode_string block position (d_scratch d) of
                  (Inl e, scratch) \<Rightarrow> (Inl e, d\<lparr>d_scratch := scratch\<rparr>, out)
                | (Inr (v, position), scratch) \<Rightarrow>
                    let d = d\<lparr>d_scratch := scratch\<rparr>; v = resolve v block scratch in
                    (case name of
                       SourceName name \<Rightarrow>
                         let name = resolve name block scratch in
                         (Inr position,
                          if indexing then d\<lparr>d_table := table_insert (d_table d) name v\<rparr> else d,
                          out @ [(name, v)])
                     | Dynamic index \<Rightarrow>
                         (case table_get (d_table d) index of
                            None \<Rightarrow> (Inl InvalidIndex, d, out)
                          | Some (name, _) \<Rightarrow> (Inr position, d, out @ [(name, v)]))))))"

subsection \<open>Positions move forward inside the block\<close>

lemma decode_integer_advance:
  assumes "decode_integer (drop position block) prefix = Inr (v, n)"
  shows "0 < n" and "position + n \<le> length block"
proof -
  from decode_integer_bounds [OF assms] show "0 < n" by simp
  with decode_integer_bounds(3) [OF assms] show "position + n \<le> length block" by simp
qed

lemma decode_string_advance:
  assumes "decode_string block position scratch = (Inr (source, next), scratch')"
  shows "position < next \<and> next \<le> length block"
proof -
  obtain first rest where rest: "drop position block = first # rest"
    using assms by (cases "drop position block") (auto simp: decode_string_def)
  obtain len n where i: "decode_integer (drop position block) 7 = Inr (len, n)"
    using assms rest by (cases "decode_integer (drop position block) 7") (auto simp: decode_string_def)
  have "next = position + n + len \<and> len \<le> length (drop position block) - n"
  proof (cases "length (drop position block) - n < len")
    case True
    with assms rest i show ?thesis by (simp add: decode_string_def)
  next
    case False
    then have "decode_string block position scratch =
      (if first AND 0x80 = 0 then (Inr (Input (position + n) (position + n + len), position + n + len), scratch)
       else (case huffman_decode (slice block (position + n) (position + n + len)) scratch of
           (Inl e, scratch') \<Rightarrow> (Inl (Huffman e), scratch')
         | (Inr _, scratch') \<Rightarrow>
             (Inr (Scratch (length scratch) (length scratch'), position + n + len), scratch')))"
      using rest i by (simp add: decode_string_def Let_def del: length_drop)
    with assms False show ?thesis by (auto split: if_splits sum.splits prod.splits)
  qed
  with decode_integer_advance [OF i] show ?thesis by simp linarith
qed

lemma literal_name_advance:
  assumes "literal_name d block position index indexing = (Inr (name, next), d')"
    and "position \<le> length block"
  shows "position \<le> next \<and> next \<le> length block"
  using assms
  by (auto simp: literal_name_def Let_def dest!: decode_string_advance
      split: if_splits sum.splits prod.splits option.splits)

lemma literal_advance:
  assumes "literal d block position prefix indexing out = (Inr next, d', out')"
  shows "position < next \<and> next \<le> length block"
proof -
  let ?d = "d\<lparr>d_scratch := []\<rparr>"
  obtain index n where i: "decode_integer (drop position block) prefix = Inr (index, n)"
    using assms by (cases "decode_integer (drop position block) prefix") (auto simp: literal_def)
  note pos = decode_integer_advance [OF i]
  obtain r1 d1 where r1: "literal_name ?d block (position + n) index indexing = (r1, d1)" by fastforce
  obtain name p where n: "r1 = Inr (name, p)"
    using assms i r1 by (cases r1) (auto simp: literal_def)
  obtain r2 scratch where r2: "decode_string block p (d_scratch d1) = (r2, scratch)" by fastforce
  obtain v p2 where v: "r2 = Inr (v, p2)"
    using assms i r1 n r2 by (cases r2) (auto simp: literal_def)
  have "p2 = next"
    using assms i r1 n r2 v
    by (cases name) (auto simp: literal_def Let_def split: option.splits)
  with r2 v have "decode_string block p (d_scratch d1) = (Inr (v, next), scratch)" by simp
  from decode_string_advance [OF this] literal_name_advance [OF r1 [unfolded n] pos(2)] pos show ?thesis
    by linarith
qed

subsection \<open>The block loop\<close>

text \<open>The \<open>while position < block.len()\<close> loop; \<open>updates\<close> is \<open>leading_size_updates\<close>,
  \<open>n_fields\<close> is \<open>fields\<close>.\<close>

function decode_loop ::
  "Decoder \<Rightarrow> bytes \<Rightarrow> nat \<Rightarrow> nat \<Rightarrow> nat \<Rightarrow> bool \<Rightarrow> field list \<Rightarrow>
     (DecoderError + unit) \<times> Decoder \<times> field list" where
  "decode_loop d block position n_fields updates last_was_size_update out =
     (if position < length block then
        let first = block ! position in
        if first AND 0x80 \<noteq> 0 then
          (case decode_integer (drop position block) 7 of
             Inl e \<Rightarrow> (Inl e, d, out)
           | Inr (index, consumed) \<Rightarrow>
               (case lookup d index of
                  Inl e \<Rightarrow> (Inl e, d, out)
                | Inr f \<Rightarrow>
                    decode_loop d block (position + consumed) (n_fields + 1) updates False (out @ [f])))
        else if first AND 0x40 \<noteq> 0 then
          (case literal d block position 6 True out of
             (Inl e, d, out) \<Rightarrow> (Inl e, d, out)
           | (Inr position, d, out) \<Rightarrow> decode_loop d block position (n_fields + 1) updates False out)
        else if first AND 0x20 \<noteq> 0 then
          if 0 < n_fields then (Inl SizeUpdateNotAtStart, d, out)
          else if MAX_LEADING_SIZE_UPDATES < updates + 1 then (Inl TooManySizeUpdates, d, out)
          else (case decode_integer (drop position block) 5 of
             Inl e \<Rightarrow> (Inl e, d, out)
           | Inr (new_size, consumed) \<Rightarrow>
               if d_max_allowed_size d < new_size then (Inl TableSizeTooLarge, d, out)
               else decode_loop (d\<lparr>d_table := set_max_size (d_table d) new_size\<rparr>) block
                      (position + consumed) n_fields (updates + 1) True out)
        else
          (case literal d block position 4 False out of
             (Inl e, d, out) \<Rightarrow> (Inl e, d, out)
           | (Inr position, d, out) \<Rightarrow> decode_loop d block position (n_fields + 1) updates False out)
      else if last_was_size_update then (Inl SizeUpdateAtEnd, d, out)
      else (Inr (), d, out))"
  by pat_completeness auto
termination
proof (relation "measure (\<lambda>(d, block, position, _). length block - position)")
qed (auto dest!: decode_integer_advance(1) literal_advance [OF sym] intro: diff_less_mono2)

declare decode_loop.simps [simp del]

definition decode_with_cb :: "Decoder \<Rightarrow> bytes \<Rightarrow> (DecoderError + unit) \<times> Decoder \<times> field list" where
  "decode_with_cb d block = decode_loop d block 0 0 0 False []"

subsection \<open>What a block can do to the decoder\<close>

lemma literal_name_keeps:
  "d_table (snd (literal_name d block position index indexing)) = d_table d \<and>
   d_max_allowed_size (snd (literal_name d block position index indexing)) = d_max_allowed_size d"
  by (auto simp: literal_name_def Let_def split: sum.splits prod.splits option.splits)

lemma literal_effect:
  assumes "literal d block position prefix indexing out = (r, d', out')"
  shows "d_max_allowed_size d' = d_max_allowed_size d \<and>
    (d_table d' = d_table d \<or> (\<exists>name v. d_table d' = table_insert (d_table d) name v))"
proof (cases "decode_integer (drop position block) prefix")
  case (Inl e)
  with assms show ?thesis by (auto simp: literal_def)
next
  case (Inr i)
  obtain index n where i: "i = (index, n)" by fastforce
  obtain r1 d1 where r1:
    "literal_name (d\<lparr>d_scratch := []\<rparr>) block (position + n) index indexing = (r1, d1)" by fastforce
  have d1: "d_table d1 = d_table d" "d_max_allowed_size d1 = d_max_allowed_size d"
    using literal_name_keeps [of "d\<lparr>d_scratch := []\<rparr>" block "position + n" index indexing] r1
    by simp_all
  show ?thesis
  proof (cases r1)
    case (Inl e)
    with assms Inr i r1 d1 show ?thesis by (auto simp: literal_def)
  next
    case r: (Inr np)
    obtain name p where np: "np = (name, p)" by fastforce
    obtain r2 scratch where r2: "decode_string block p (d_scratch d1) = (r2, scratch)" by fastforce
    show ?thesis
    proof (cases r2)
      case (Inl e)
      with assms Inr i r1 d1 r np r2 show ?thesis by (auto simp: literal_def)
    next
      case v: (Inr vp)
      with assms Inr i r1 d1 r np r2 show ?thesis
        by (cases vp; cases name)
          (auto simp: literal_def Let_def split: option.splits if_splits, blast)
    qed
  qed
qed

text \<open>A property of tables that insertions and admissible size updates keep is kept by a block.\<close>

lemma decode_loop_table:
  assumes "P (d_table d)" and "d_max_allowed_size d = m"
    and "\<And>t name v. P t \<Longrightarrow> P (table_insert t name v)"
    and "\<And>t k. P t \<Longrightarrow> k \<le> m \<Longrightarrow> P (set_max_size t k)"
    and "decode_loop d block position n_fields updates last_was_size_update out = (r, d', out')"
  shows "P (d_table d') \<and> d_max_allowed_size d' = m"
  using assms(1,2,5)
proof (induction d block position n_fields updates last_was_size_update out
    rule: decode_loop.induct)
  case (1 d block position n_fields updates last_was_size_update out)
  let ?first = "block ! position"
  have lit: "P (d_table d1) \<and> d_max_allowed_size d1 = m"
    if "literal d block position prefix indexing out = (r1, d1, out1)" for prefix indexing r1 d1 out1
    using literal_effect [OF that] "1.prems" assms(3) by auto
  consider (stop) "\<not> position < length block"
    | (indexed) "position < length block" "?first AND 0x80 \<noteq> 0"
    | (inc) "position < length block" "?first AND 0x80 = 0" "?first AND 0x40 \<noteq> 0"
    | (update) "position < length block" "?first AND 0x80 = 0" "?first AND 0x40 = 0" "?first AND 0x20 \<noteq> 0"
    | (plain) "position < length block" "?first AND 0x80 = 0" "?first AND 0x40 = 0" "?first AND 0x20 = 0"
    by blast
  then show ?case
  proof cases
    case stop
    with "1.prems" show ?thesis by (auto simp: decode_loop.simps split: if_splits)
  next
    case indexed
    with "1.prems" "1.IH"(1) [OF indexed(1) refl indexed(2)] show ?thesis
      by (auto simp: decode_loop.simps [of d block position] split: sum.splits prod.splits)
  next
    case inc
    obtain r1 d1 out1 where l: "literal d block position 6 True out = (r1, d1, out1)"
      by (metis prod_cases3)
    with inc "1.prems" "1.IH"(2) [OF inc(1) refl _ inc(3) l [symmetric] _ refl] lit [OF l] show ?thesis
      by (cases r1) (auto simp: decode_loop.simps [of d block position])
  next
    case update
    with "1.prems" "1.IH"(3) [OF update(1) refl _ _ update(4)] assms(4) show ?thesis
      by (auto simp: decode_loop.simps [of d block position] split: sum.splits prod.splits if_splits)
  next
    case plain
    obtain r1 d1 out1 where l: "literal d block position 4 False out = (r1, d1, out1)"
      by (metis prod_cases3)
    with plain "1.prems" "1.IH"(4) [OF plain(1) refl _ _ _ l [symmetric] _ refl] lit [OF l] show ?thesis
      by (cases r1) (auto simp: decode_loop.simps [of d block position])
  qed
qed

subsection \<open>Properties\<close>

text \<open>
  C9: no header block, however malformed, harms the decoder. Decoding terminates on every input;
  while neither the advertised size nor an earlier maximum exceeds \<open>m\<close>, the table afterwards
  satisfies \<open>check_invariants\<close>, its maximum size is at most \<open>m\<close> and its buffer at most four
  times \<open>m\<close>, whether the block was accepted or refused.
\<close>

theorem decode_with_cb_untrusted:
  assumes "table_reachable m (d_table d)" and "d_max_allowed_size d \<le> m"
  shows "case decode_with_cb d block of (r, d', fs) \<Rightarrow>
    check_invariants (d_table d') \<and> t_max_size (d_table d') \<le> m \<and>
    t_capacity (d_table d') \<le> 4 * m \<and> d_max_allowed_size d' = d_max_allowed_size d"
proof -
  obtain r d' fs where res: "decode_with_cb d block = (r, d', fs)" by (metis prod_cases3)
  have "table_reachable m (d_table d') \<and> d_max_allowed_size d' = d_max_allowed_size d"
  proof (rule decode_loop_table [where P = "table_reachable m", OF assms(1) refl])
    show "table_reachable m (set_max_size t k)"
      if "table_reachable m t" "k \<le> d_max_allowed_size d" for t k
      using that assms(2) by (auto intro: reach_resize)
  qed (use res in \<open>simp_all add: decode_with_cb_def reach_insert\<close>)
  with table_reachable_inv [of m "d_table d'"] res show ?thesis
    by (simp add: buffer_bound_def)
qed

theorem decode_with_cb_untrusted_witness:
  "check_invariants (d_table (fst (snd
     (decode_with_cb (set_max_allowed_table_size decoder_new 4096) [0x40, 0x01, 0x61, 0xff]))))"
  using decode_with_cb_untrusted [of 4096 "set_max_allowed_table_size decoder_new 4096"
      "[0x40, 0x01, 0x61, 0xff]"]
  by (simp add: decoder_new_def set_max_allowed_table_size_def DEFAULT_MAX_SIZE_def
      reach_new case_prod_unfold)

end
