(* ===== verification/H2_Connection.thy ===== *)
theory H2_Connection
  imports H2_Lifecycle H2_Control_Tx H2_Output H2_Flow_Control H2_Flood H2_Scheduler Hpack_Encoder Hpack_Decoder
begin

text \<open>
  The control path of an HTTP/2 connection, from \<^verbatim>\<open>src/lib/src/protocol/mux/h2.rs\<close>: the state machine of
  the connection over the stream table, the output queue, the flow control, the RST_STREAM queue,
  the flood detector and the drain. Frames are written through the third-party serializer \<open>C\<close>.
  Metric events and log lines are left out. Instants are nanoseconds. The cluster and the backend
  a \<open>Position\<close> carries are not read here. Where the source marks an arm \<open>unreachable!\<close>, the model
  returns \<open>None\<close>.
\<close>

definition SETTINGS_ACK_TIMEOUT :: nat where "SETTINGS_ACK_TIMEOUT = 5000000000"
definition BACKPRESSURE_REFUSAL_THRESHOLD :: u32 where "BACKPRESSURE_REFUSAL_THRESHOLD = 1000"
definition BACKPRESSURE_WINDOW_DURATION :: nat where "BACKPRESSURE_WINDOW_DURATION = 60000000000"
definition WINDOW_UPDATE_FRAME_SIZE :: nat where
  "WINDOW_UPDATE_FRAME_SIZE = FRAME_HEADER_SIZE + unat WINDOW_UPDATE_PAYLOAD_SIZE"
definition RST_STREAM_FRAME_SIZE :: nat where "RST_STREAM_FRAME_SIZE = FRAME_HEADER_SIZE + unat RST_STREAM_PAYLOAD_SIZE"
definition GOAWAY_FRAME_SIZE :: nat where "GOAWAY_FRAME_SIZE = FRAME_HEADER_SIZE + unat GOAWAY_PAYLOAD_SIZE"
definition SETTINGS_FRAME_SIZE :: nat where
  "SETTINGS_FRAME_SIZE = FRAME_HEADER_SIZE + unat (SETTINGS_ENTRY_SIZE * SETTINGS_COUNT)"
definition MIN_MAX_FRAME_SIZE :: u32 where "MIN_MAX_FRAME_SIZE = push_bit 14 1"
definition MAX_MAX_FRAME_SIZE :: u32 where "MAX_MAX_FRAME_SIZE = push_bit 24 1"

definition H2_PRI :: bytes where
  "H2_PRI = [0x50, 0x52, 0x49, 0x20, 0x2a, 0x20, 0x48, 0x54, 0x54, 0x50, 0x2f, 0x32, 0x2e, 0x30, 0xd, 0xa, 0xd, 0xa, 0x53, 0x4d, 0xd, 0xa, 0xd, 0xa]"

datatype BackendStatus = Connecting nat | Connected | KeepAlive | Disconnecting

datatype Position = PosClient BackendStatus | PosServer

fun is_server :: "Position \<Rightarrow> bool" where
  "is_server (PosClient _) = False"
| "is_server PosServer = True"

definition is_client :: "Position \<Rightarrow> bool" where
  "is_client p \<longleftrightarrow> \<not> is_server p"

datatype MuxResult = MuxContinue | MuxUpgrade | MuxCloseSession

datatype 'sl H2State =
    ClientPreface
  | ClientSettings
  | ServerSettings
  | HeaderState
  | FrameState FrameHeader
  | ContinuationHeader "'sl HeadersPart"
  | ContinuationFrame "'sl HeadersPart"
  | GoAwayState
  | ErrorState
  | Discard

datatype DiscardedFieldBlock = NewBlock octet | ContinuationBlock bytes bool

datatype RstOrigin = PeerProvoked | Local

datatype H2ForceDisconnectTarget = DisconnectClient | DisconnectServer bool

datatype H2ControlFlushTarget = FlushProceed | FlushDone MuxResult | FlushStalled | FlushOutput

datatype H2WritableStateTarget = WritableDone MuxResult | WritableFlush | WriteStreams

datatype H2FinalizeTarget = FinalizeDone MuxResult | FinalizeFlush | FinalizeSkipFlush

record 'sl ConnectionH2 =
  cn_encoder :: Encoder
  cn_decoder :: Decoder
  cn_pending_table_size_update :: "u32 option"
  cn_drain :: H2DrainState
  cn_graceful_goaway :: bool
  cn_stream_table :: H2StreamTable
  cn_scheduler :: H2Scheduler
  cn_last_stream_id :: u32
  cn_local_settings :: H2Settings
  cn_peer_settings :: H2Settings
  cn_position :: Position
  cn_readiness :: Readiness
  cn_state :: "'sl H2State"
  cn_flow_control :: H2FlowControl
  cn_control_tx :: H2ControlTx
  cn_output :: H2Output
  cn_output_read_cap :: nat
  cn_reads_wait_for_output :: bool
  cn_zero_bytes_read :: nat
  cn_overhead_bin :: nat
  cn_overhead_bout :: nat
  cn_flood_detector :: H2FloodDetector
  cn_connection_config :: H2ConnectionConfig
  cn_max_pending_window_updates :: nat
  cn_connection_window_enlarged :: bool
  cn_settings_sent_at :: "nat option"
  cn_close_notify_sent :: bool
  cn_kernel_refused_write :: bool
  cn_parked_data :: int
  cn_discarded_field_block :: "(u32 \<times> DiscardedFieldBlock) option"
  cn_refuse_count_window :: u32
  cn_refuse_window_start :: nat
  cn_mcs_backpressure_applied :: bool
  cn_now :: nat
  cn_pending_force_disconnect :: "H2ForceDisconnectTarget option"

definition DEFAULT_HEADER_TABLE_SIZE :: u32 where "DEFAULT_HEADER_TABLE_SIZE = 4096"
definition DEFAULT_MAX_FRAME_SIZE :: u32 where "DEFAULT_MAX_FRAME_SIZE = push_bit 14 1"

definition settings_default :: H2Settings where
  "settings_default =
     \<lparr>settings_header_table_size = DEFAULT_HEADER_TABLE_SIZE,
      settings_enable_push = False,
      settings_max_concurrent_streams = DEFAULT_MAX_CONCURRENT_STREAMS,
      settings_initial_window_size = DEFAULT_INITIAL_WINDOW_SIZE,
      settings_max_frame_size = DEFAULT_MAX_FRAME_SIZE,
      settings_max_header_list_size = of_nat MAX_HEADER_LIST_SIZE,
      settings_enable_connect_protocol = False,
      settings_no_rfc7540_priorities = True\<rparr>"

text \<open>A connection whose buffers could be checked out; \<open>read_cap\<close> is the capacity of the one it reads into.\<close>

definition connection_new ::
  "Position \<Rightarrow> nat \<Rightarrow> nat \<Rightarrow> H2FloodConfig \<Rightarrow> H2ConnectionConfig \<Rightarrow> nat option \<Rightarrow> (H2StreamId \<times> nat) option \<Rightarrow> Ready \<Rightarrow> 'sl ConnectionH2" where
  "connection_new position now read_cap flood connection_config deadline expected readiness_interest =
     (let local_settings = settings_default\<lparr>settings_max_concurrent_streams := max_concurrent_streams connection_config\<rparr> in
      \<lparr>cn_encoder = encoder_new,
       cn_decoder = set_max_allowed_table_size decoder_new (unat (settings_header_table_size local_settings)),
       cn_pending_table_size_update = None,
       cn_drain = drain_new deadline,
       cn_graceful_goaway = False,
       cn_stream_table = stream_table_new expected,
       cn_scheduler = scheduler_default,
       cn_last_stream_id = 0,
       cn_local_settings = local_settings,
       cn_peer_settings = settings_default,
       cn_position = position,
       cn_readiness = \<lparr>event = READY_EMPTY, interest = readiness_interest\<rparr>,
       cn_state = ClientPreface,
       cn_flow_control = flow_control_new (uint DEFAULT_INITIAL_WINDOW_SIZE),
       cn_control_tx = control_tx_new (max_concurrent_streams connection_config),
       cn_output = output_default,
       cn_output_read_cap = read_cap,
       cn_reads_wait_for_output = False,
       cn_zero_bytes_read = 0,
       cn_overhead_bin = 0,
       cn_overhead_bout = 0,
       cn_flood_detector = flood_new flood now,
       cn_connection_config = connection_config,
       cn_max_pending_window_updates = 1 + unat (max_concurrent_streams connection_config) * 4,
       cn_connection_window_enlarged = False,
       cn_settings_sent_at = None,
       cn_close_notify_sent = False,
       cn_kernel_refused_write = False,
       cn_parked_data = 0,
       cn_discarded_field_block = None,
       cn_refuse_count_window = 0,
       cn_refuse_window_start = now,
       cn_mcs_backpressure_applied = False,
       cn_now = now,
       cn_pending_force_disconnect = None\<rparr>)"

subsection \<open>Readiness and output\<close>

definition update_readiness :: "nat \<Rightarrow> SocketResult \<Rightarrow> Ready \<Rightarrow> Readiness \<Rightarrow> bool \<times> Readiness" where
  "update_readiness n status half r =
     (let r = (case status of SockContinue \<Rightarrow> r | _ \<Rightarrow> r\<lparr>event := ready_remove half (event r)\<rparr>) in
      if 0 < n then (False, r) else (True, r\<lparr>event := ready_remove half (event r)\<rparr>))"

definition update_readiness_after_write :: "nat \<Rightarrow> SocketResult \<Rightarrow> Readiness \<Rightarrow> bool \<times> Readiness" where
  "update_readiness_after_write n status r = update_readiness n status WRITABLE r"

definition frontend_hung_up_while_draining :: "'sl ConnectionH2 \<Rightarrow> bool" where
  "frontend_hung_up_while_draining c \<longleftrightarrow> cn_position c = PosServer \<and> draining (cn_drain c) \<and>
     (is_hup (event (cn_readiness c)) \<or> is_error (event (cn_readiness c)))"

definition closing :: "'sl H2State \<Rightarrow> bool" where
  "closing s \<longleftrightarrow> (case s of GoAwayState \<Rightarrow> True | ErrorState \<Rightarrow> True | _ \<Rightarrow> False)"

definition peer_gone_after_final_goaway :: "'sl ConnectionH2 \<Rightarrow> bool" where
  "peer_gone_after_final_goaway c \<longleftrightarrow> frontend_hung_up_while_draining c \<and> closing (cn_state c) \<and>
     streams (cn_stream_table c) = [] \<and> expect_write (cn_stream_table c) = None \<and> output_is_empty (cn_output c)"

definition ensure_tls_flushed :: "bool \<Rightarrow> 'sl ConnectionH2 \<Rightarrow> 'sl ConnectionH2" where
  "ensure_tls_flushed tls_wants_write c =
     (if tls_wants_write \<and> \<not> cn_kernel_refused_write c then c\<lparr>cn_readiness := signal_pending_write (cn_readiness c)\<rparr> else c)"

definition note_write_status :: "SocketResult \<Rightarrow> 'sl ConnectionH2 \<Rightarrow> 'sl ConnectionH2" where
  "note_write_status status c =
     (let c = c\<lparr>cn_kernel_refused_write := status = SockWouldBlock\<rparr> in
      if cn_kernel_refused_write c
      then c\<lparr>cn_readiness := (cn_readiness c)\<lparr>event := ready_remove WRITABLE (event (cn_readiness c))\<rparr>\<rparr> else c)"

definition interest_insert :: "Ready \<Rightarrow> 'sl ConnectionH2 \<Rightarrow> 'sl ConnectionH2" where
  "interest_insert half c = c\<lparr>cn_readiness := (cn_readiness c)\<lparr>interest := ready_insert half (interest (cn_readiness c))\<rparr>\<rparr>"

definition interest_remove :: "Ready \<Rightarrow> 'sl ConnectionH2 \<Rightarrow> 'sl ConnectionH2" where
  "interest_remove half c = c\<lparr>cn_readiness := (cn_readiness c)\<lparr>interest := ready_remove half (interest (cn_readiness c))\<rparr>\<rparr>"

definition conn_arm_writable :: "'sl ConnectionH2 \<Rightarrow> 'sl ConnectionH2" where
  "conn_arm_writable c = c\<lparr>cn_readiness := arm_writable (cn_readiness c)\<rparr>"

definition conn_signal_pending_write :: "'sl ConnectionH2 \<Rightarrow> 'sl ConnectionH2" where
  "conn_signal_pending_write c = c\<lparr>cn_readiness := signal_pending_write (cn_readiness c)\<rparr>"

definition attribute_bytes_to_overhead :: "'sl ConnectionH2 \<Rightarrow> 'sl ConnectionH2" where
  "attribute_bytes_to_overhead c = c\<lparr>cn_overhead_bin := cn_overhead_bin c + cn_zero_bytes_read c, cn_zero_bytes_read := 0\<rparr>"

definition queue_output :: "'sl ConnectionH2 \<Rightarrow> 'sl ConnectionH2" where
  "queue_output c = conn_signal_pending_write (interest_insert WRITABLE c)"

definition clear_output :: "'sl ConnectionH2 \<Rightarrow> 'sl ConnectionH2" where
  "clear_output c =
     (let c = c\<lparr>cn_output := output_clear (cn_output c)\<rparr> in
      if cn_reads_wait_for_output c then interest_insert READABLE (c\<lparr>cn_reads_wait_for_output := False\<rparr>) else c)"

definition consume_output :: "nat \<Rightarrow> 'sl ConnectionH2 \<Rightarrow> 'sl ConnectionH2" where
  "consume_output n c =
     (case output_consume n (cn_output c) of (overhead, q) \<Rightarrow>
      let c = c\<lparr>cn_output := q, cn_overhead_bout := cn_overhead_bout c + overhead\<rparr> in
      if cn_reads_wait_for_output c \<and> output_len (cn_output c) < cn_output_read_cap c
      then interest_insert READABLE (c\<lparr>cn_reads_wait_for_output := False\<rparr>) else c)"

definition consume_output_flush :: "nat \<Rightarrow> SocketResult \<Rightarrow> 'sl ConnectionH2 \<Rightarrow> bool \<times> 'sl ConnectionH2" where
  "consume_output_flush n status c =
     (let c = consume_output n (note_write_status status c) in
      case update_readiness_after_write n status (cn_readiness c) of (stalled, r) \<Rightarrow> (stalled, c\<lparr>cn_readiness := r\<rparr>))"

definition output_flush_closes_connection :: "'sl ConnectionH2 \<Rightarrow> bool" where
  "output_flush_closes_connection c \<longleftrightarrow> is_server (cn_position c) \<and> cn_state c = GoAwayState \<and>
     \<not> cn_close_notify_sent c \<and> streams (cn_stream_table c) = [] \<and>
     pending_window_updates (cn_flow_control c) = [] \<and> \<not> has_pending (cn_control_tx c)"

definition has_pending_write_with :: "'sl ConnectionH2 \<Rightarrow> bool \<Rightarrow> bool" where
  "has_pending_write_with c tls_wants_write \<longleftrightarrow> \<not> peer_gone_after_final_goaway c \<and>
     (expect_write (cn_stream_table c) \<noteq> None \<or> \<not> output_is_empty (cn_output c) \<or> tls_wants_write)"

subsection \<open>Closing\<close>

definition CLOSING_INTEREST :: Ready where
  "CLOSING_INTEREST = WRITABLE OR HUP OR READY_ERROR"

definition force_disconnect :: "'sl ConnectionH2 \<Rightarrow> MuxResult \<times> 'sl ConnectionH2" where
  "force_disconnect c =
     (let c = c\<lparr>cn_state := ErrorState\<rparr>; peer_gone = peer_gone_after_final_goaway c in
      case cn_position c of
        PosClient status \<Rightarrow>
          (MuxContinue, c\<lparr>cn_position := PosClient Disconnecting, cn_readiness := (cn_readiness c)\<lparr>event := HUP\<rparr>,
             cn_pending_force_disconnect := Some DisconnectClient\<rparr>)
      | PosServer \<Rightarrow>
          (if peer_gone then MuxCloseSession else MuxContinue,
           c\<lparr>cn_pending_force_disconnect := Some (DisconnectServer peer_gone)\<rparr>))"

definition poll_force_disconnect :: "'sl ConnectionH2 \<Rightarrow> H2ForceDisconnectTarget option \<times> 'sl ConnectionH2" where
  "poll_force_disconnect c = (cn_pending_force_disconnect c, c\<lparr>cn_pending_force_disconnect := None\<rparr>)"

definition force_disconnect_after_query ::
  "H2ForceDisconnectTarget \<Rightarrow> bool \<Rightarrow> 'sl ConnectionH2 \<Rightarrow> MuxResult \<times> 'sl ConnectionH2" where
  "force_disconnect_after_query t tls_wants_write c =
     (case t of
        DisconnectClient \<Rightarrow> (MuxContinue, c)
      | DisconnectServer peer_gone \<Rightarrow>
          if force_disconnect_action peer_gone tls_wants_write = ReArmAndContinue
          then (MuxContinue, ensure_tls_flushed tls_wants_write
                  (c\<lparr>cn_readiness := (cn_readiness c)\<lparr>interest := CLOSING_INTEREST\<rparr>\<rparr>))
          else (MuxCloseSession, c))"

text \<open>A frame writer that changes nothing but the room it is given.\<close>

definition plain_writer :: "(bytes \<Rightarrow> ('g + nat) \<times> bytes) \<Rightarrow> bytes \<Rightarrow> unit \<Rightarrow> ('g + nat) \<times> bytes \<times> unit" where
  "plain_writer gen buf s = (case gen buf of (answer, buf) \<Rightarrow> (answer, buf, s))"

definition goaway_with_last_stream_id ::
  "('s, 'g) CookieFactory \<Rightarrow> H2Error \<Rightarrow> u32 \<Rightarrow> 'sl ConnectionH2 \<Rightarrow> MuxResult \<times> 'sl ConnectionH2" where
  "goaway_with_last_stream_id C error last_stream_id c =
     (let c = c\<lparr>cn_state := ErrorState, cn_drain := enter_final_goaway (cn_drain c), cn_graceful_goaway := error = NoError,
                cn_stream_table := set_expect_read None (cn_stream_table c), cn_settings_sent_at := None\<rparr> in
      case push_frames GOAWAY_FRAME_SIZE (plain_writer (\<lambda>buf. gen_goaway C buf last_stream_id error)) (cn_output c) () of
        (Inr _, q, _) \<Rightarrow>
          (MuxContinue, c\<lparr>cn_output := q, cn_state := GoAwayState,
             cn_readiness := signal_pending_write ((cn_readiness c)\<lparr>interest := CLOSING_INTEREST\<rparr>)\<rparr>)
      | (Inl _, q, _) \<Rightarrow> force_disconnect (c\<lparr>cn_output := q\<rparr>))"

definition goaway :: "('s, 'g) CookieFactory \<Rightarrow> H2Error \<Rightarrow> 'sl ConnectionH2 \<Rightarrow> MuxResult \<times> 'sl ConnectionH2" where
  "goaway C error c = goaway_with_last_stream_id C error (highest_peer_stream_id (cn_stream_table c)) c"

definition send_initial_goaway :: "('s, 'g) CookieFactory \<Rightarrow> 'sl ConnectionH2 \<Rightarrow> MuxResult \<times> 'sl ConnectionH2" where
  "send_initial_goaway C c =
     (case push_frames GOAWAY_FRAME_SIZE (plain_writer (\<lambda>buf. gen_goaway C buf STREAM_ID_MAX NoError)) (cn_output c) () of
        (Inr _, q, _) \<Rightarrow> (MuxContinue, conn_arm_writable (c\<lparr>cn_output := q\<rparr>))
      | (Inl _, q, _) \<Rightarrow> force_disconnect (c\<lparr>cn_output := q\<rparr>))"

definition graceful_goaway :: "('s, 'g) CookieFactory \<Rightarrow> nat \<Rightarrow> 'sl ConnectionH2 \<Rightarrow> MuxResult \<times> 'sl ConnectionH2" where
  "graceful_goaway C now c =
     (case begin_graceful_drain now (cn_drain c) of (decision, d) \<Rightarrow>
      let c = c\<lparr>cn_drain := d\<rparr> in
      case decision of AlreadyDraining \<Rightarrow> goaway C NoError c | SendInitial \<Rightarrow> send_initial_goaway C c)"

definition handle_flood_violation ::
  "('s, 'g) CookieFactory \<Rightarrow> H2FloodViolation \<Rightarrow> 'sl ConnectionH2 \<Rightarrow> MuxResult \<times> 'sl ConnectionH2" where
  "handle_flood_violation C violation c = goaway C (fv_error violation) c"

text \<open>The macro \<open>check_flood_or_return!\<close>: the result to return early, if any.\<close>

definition check_flood_or_return :: "('s, 'g) CookieFactory \<Rightarrow> 'sl ConnectionH2 \<Rightarrow> MuxResult option \<times> 'sl ConnectionH2" where
  "check_flood_or_return C c =
     (case check_flood (cn_now c) (cn_flood_detector c) of (v, d) \<Rightarrow>
      let c = c\<lparr>cn_flood_detector := d\<rparr> in
      case v of
        Some violation \<Rightarrow> (case handle_flood_violation C violation c of (r, c) \<Rightarrow> (Some r, c))
      | None \<Rightarrow> (None, c))"

subsection \<open>Queueing control frames\<close>

definition conn_queue_window_update :: "u32 \<Rightarrow> u32 \<Rightarrow> 'sl ConnectionH2 \<Rightarrow> 'sl ConnectionH2" where
  "conn_queue_window_update sid increment c =
     (case queue_window_update (cn_flow_control c) sid increment (cn_max_pending_window_updates c) of (_, fc) \<Rightarrow>
        conn_arm_writable (c\<lparr>cn_flow_control := fc\<rparr>))"

definition account_emitted_rst ::
  "('s, 'g) CookieFactory \<Rightarrow> H2Error \<Rightarrow> RstOrigin \<Rightarrow> 'sl ConnectionH2 \<Rightarrow> MuxResult option \<times> 'sl ConnectionH2" where
  "account_emitted_rst C error origin c =
     (if origin = PeerProvoked \<and> error \<noteq> NoError then
        (case record_rst_emitted (cn_flood_detector c) of (v, d) \<Rightarrow>
         let c = c\<lparr>cn_flood_detector := d\<rparr> in
         case v of
           Some violation \<Rightarrow> (case handle_flood_violation C violation c of (r, c) \<Rightarrow> (Some r, c))
         | None \<Rightarrow> check_flood_or_return C (c\<lparr>cn_flood_detector := record_glitch (cn_flood_detector c)\<rparr>))
      else (None, c))"

definition conn_enqueue_rst ::
  "('s, 'g) CookieFactory \<Rightarrow> u32 \<Rightarrow> H2Error \<Rightarrow> RstOrigin \<Rightarrow> 'sl ConnectionH2 \<Rightarrow> MuxResult option \<times> 'sl ConnectionH2" where
  "conn_enqueue_rst C sid error origin c =
     (let t = cn_stream_table c;
          sent = (if stream_table_get t sid \<noteq> None then Some (rst_sent t) else None) in
      case enqueue_rst sent sid error (cn_control_tx c) (cn_readiness c) of (outcome, sent, tx, r) \<Rightarrow>
      let c = c\<lparr>cn_stream_table := (case sent of Some s \<Rightarrow> t\<lparr>rst_sent := s\<rparr> | None \<Rightarrow> t),
                cn_control_tx := tx, cn_readiness := r\<rparr> in
      case outcome of
        Queued \<Rightarrow> account_emitted_rst C error origin c
      | Deduped \<Rightarrow> (None, c)
      | RstDropped \<Rightarrow> (None, c))"

text \<open>The three stages of \<open>flush_pending_control_frames\<close> that only change the queues.\<close>

definition drop_if_hung_up :: "'sl ConnectionH2 \<Rightarrow> 'sl ConnectionH2" where
  "drop_if_hung_up c =
     (if frontend_hung_up_while_draining c
      then let c = clear_output (c\<lparr>cn_stream_table := set_expect_write None (cn_stream_table c)\<rparr>) in
           c\<lparr>cn_flow_control := clear_pending_window_updates (cn_flow_control c),
             cn_control_tx := clear_pending (cn_control_tx c)\<rparr>
      else c)"

definition serialize_window_updates :: "('s, 'g) CookieFactory \<Rightarrow> 'sl ConnectionH2 \<Rightarrow> 'sl ConnectionH2" where
  "serialize_window_updates C c =
     (let pending = length (pending_window_updates (cn_flow_control c)) in
      if 0 < pending
      then (case push_frames (pending * WINDOW_UPDATE_FRAME_SIZE)
              (\<lambda>buf fc. case drain_window_updates_into C fc buf of ((offset, _), fc, buf) \<Rightarrow> (Inr offset :: unit + nat, buf, fc))
              (cn_output c) (cn_flow_control c) of
            (_, q, fc) \<Rightarrow> c\<lparr>cn_output := q, cn_flow_control := fc\<rparr>)
      else c)"

definition serialize_rst_streams :: "('s, 'g) CookieFactory \<Rightarrow> 'sl ConnectionH2 \<Rightarrow> 'sl ConnectionH2" where
  "serialize_rst_streams C c =
     (let pending = length (pending_rst_streams (cn_control_tx c)) in
      if 0 < pending
      then (case push_frames (pending * RST_STREAM_FRAME_SIZE)
              (\<lambda>buf tx. case drain_rst_streams_into C tx buf of ((offset, _), tx, buf) \<Rightarrow> (Inr offset :: unit + nat, buf, tx))
              (cn_output c) (cn_control_tx c) of
            (_, q, tx) \<Rightarrow> c\<lparr>cn_output := q, cn_control_tx := tx\<rparr>)
      else c)"

definition settings_ack_overdue :: "'sl ConnectionH2 \<Rightarrow> bool" where
  "settings_ack_overdue c \<longleftrightarrow>
     (case cn_settings_sent_at c of Some sent_at \<Rightarrow> SETTINGS_ACK_TIMEOUT \<le> cn_now c - sent_at | None \<Rightarrow> False)"

definition flush_pending_control_frames :: "('s, 'g) CookieFactory \<Rightarrow> 'sl ConnectionH2 \<Rightarrow> H2ControlFlushTarget \<times> 'sl ConnectionH2" where
  "flush_pending_control_frames C c =
     (let c = drop_if_hung_up c in
      if settings_ack_overdue c then (case goaway C SettingsTimeout c of (r, c) \<Rightarrow> (FlushDone r, c))
      else let c = serialize_window_updates C c in
        if \<not> closing (cn_state c) \<and> overflowed (cn_control_tx c)
        then (case goaway C EnhanceYourCalm c of (r, c) \<Rightarrow> (FlushDone r, c))
        else let c = serialize_rst_streams C c in
          (if output_is_empty (cn_output c) then FlushProceed else FlushOutput, c))"

fun handle_control_flush :: "bool \<Rightarrow> H2ControlFlushTarget" where
  "handle_control_flush stalled = (if stalled then FlushStalled else FlushProceed)"

subsection \<open>The writable state and the end of a write pass\<close>

definition expect_header :: "'sl ConnectionH2 \<Rightarrow> 'sl ConnectionH2" where
  "expect_header c = c\<lparr>cn_state := HeaderState, cn_stream_table := set_expect_read (Some (Zero, 9)) (cn_stream_table c)\<rparr>"

definition parked_on_stream :: "H2StreamTable \<Rightarrow> bool" where
  "parked_on_stream t \<longleftrightarrow> (case expect_write t of Some (Other _ _) \<Rightarrow> True | _ \<Rightarrow> False)"

definition writable_done :: "MuxResult \<times> 'sl ConnectionH2 \<Rightarrow> (H2WritableStateTarget \<times> 'sl ConnectionH2) option" where
  "writable_done rc = (case rc of (r, c) \<Rightarrow> Some (WritableDone r, c))"

definition dispatch_writable_state ::
  "('s, 'g) CookieFactory \<Rightarrow> bool \<Rightarrow> 'sl ConnectionH2 \<Rightarrow> (H2WritableStateTarget \<times> 'sl ConnectionH2) option" where
  "dispatch_writable_state C tls_wants_write c =
     (case cn_state c of
        ErrorState \<Rightarrow>
          (if is_server (cn_position c) then
             (case error_close_action tls_wants_write of
                ReArmAndContinue \<Rightarrow> Some (WritableDone MuxContinue, ensure_tls_flushed tls_wants_write c)
              | CloseNow \<Rightarrow> Some (WritableDone MuxCloseSession, c)
              | _ \<Rightarrow> None)
           else writable_done (force_disconnect c))
      | ServerSettings \<Rightarrow>
          (if is_client (cn_position c) then Some (WritableDone MuxContinue, interest_remove WRITABLE c)
           else Some (WritableDone MuxContinue, expect_header c))
      | ClientSettings \<Rightarrow>
          (if is_server (cn_position c) then writable_done (force_disconnect c)
           else
             let c = c\<lparr>cn_state := ServerSettings, cn_stream_table := set_expect_read (Some (Zero, 9)) (cn_stream_table c)\<rparr>
             in Some (WritableDone MuxContinue, interest_remove WRITABLE (interest_insert READABLE c)))
      | ClientPreface \<Rightarrow>
          (if is_server (cn_position c) then Some (WritableDone MuxContinue, c)
           else
             let c = c\<lparr>cn_output := push H2_PRI (cn_output c)\<rparr> in
             case push_frames SETTINGS_FRAME_SIZE (plain_writer (\<lambda>buf. gen_settings C buf (cn_local_settings c))) (cn_output c) () of
               (Inr _, q, _) \<Rightarrow>
                 Some (WritableDone MuxContinue, conn_signal_pending_write
                   (c\<lparr>cn_output := q, cn_settings_sent_at := Some (cn_now c), cn_state := ClientSettings\<rparr>))
             | (Inl _, q, _) \<Rightarrow> writable_done (force_disconnect (c\<lparr>cn_output := q\<rparr>)))
      | Discard \<Rightarrow> Some (WritableDone MuxContinue, c)
      | GoAwayState \<Rightarrow>
          (if parked_on_stream (cn_stream_table c) then Some (WriteStreams, c)
           else case goaway_close_action BeforeFlush (peer_gone_after_final_goaway c) tls_wants_write of
               CloseNow \<Rightarrow> Some (WritableDone MuxCloseSession, c)
             | FlushFirst \<Rightarrow> Some (WritableFlush, c)
             | Disconnect \<Rightarrow> writable_done (force_disconnect c)
             | ReArmAndContinue \<Rightarrow> None)
      | HeaderState \<Rightarrow> Some (WriteStreams, c)
      | FrameState _ \<Rightarrow> Some (WriteStreams, c)
      | ContinuationFrame _ \<Rightarrow> Some (WriteStreams, c)
      | ContinuationHeader _ \<Rightarrow> Some (WriteStreams, c))"

definition dispatch_writable_state_after_flush :: "bool \<Rightarrow> 'sl ConnectionH2 \<Rightarrow> (MuxResult \<times> 'sl ConnectionH2) option" where
  "dispatch_writable_state_after_flush tls_wants_write c =
     (case goaway_close_action AfterFlush False tls_wants_write of
        ReArmAndContinue \<Rightarrow> Some (MuxContinue, ensure_tls_flushed tls_wants_write c)
      | Disconnect \<Rightarrow> Some (force_disconnect c)
      | _ \<Rightarrow> None)"

text \<open>Whether a stream still has a response to send is a question to the streams: \<open>any_pending_back\<close>.\<close>

definition finalize_write ::
  "('s, 'g) CookieFactory \<Rightarrow> bool \<Rightarrow> bool \<Rightarrow> nat \<Rightarrow> bool \<Rightarrow> 'sl ConnectionH2 \<Rightarrow> (H2FinalizeTarget \<times> 'sl ConnectionH2) option" where
  "finalize_write C tls_wants_write socket_write bytes_written_this_pass any_pending_back c =
     (if draining (cn_drain c) \<and> streams (cn_stream_table c) = []
      then (case graceful_goaway C (cn_now c) c of (r, c) \<Rightarrow> Some (FinalizeDone r, c))
      else case finalize_action BeforeFlush tls_wants_write socket_write (expect_write (cn_stream_table c) \<noteq> None)
             (0 < bytes_written_this_pass) any_pending_back
             (has_pending (cn_control_tx c) \<or> pending_window_updates (cn_flow_control c) \<noteq> [] \<or> \<not> output_is_empty (cn_output c)) of
          FinParked \<Rightarrow> Some (FinalizeDone MuxContinue, c)
        | FinRetainPendingBack \<Rightarrow> Some (FinalizeDone MuxContinue, c)
        | FinArmControlQueue \<Rightarrow> Some (FinalizeDone MuxContinue, conn_arm_writable c)
        | FinQuiesce \<Rightarrow> Some (FinalizeDone MuxContinue, interest_remove WRITABLE c)
        | FinFlush \<Rightarrow> Some (FinalizeFlush, c)
        | FinSkipFlush \<Rightarrow> Some (FinalizeSkipFlush, c)
        | _ \<Rightarrow> None)"

definition finalize_write_after_flush :: "bool \<Rightarrow> 'sl ConnectionH2 \<Rightarrow> (MuxResult \<times> 'sl ConnectionH2) option" where
  "finalize_write_after_flush tls_wants_write c =
     (case finalize_action AfterFlush tls_wants_write False False False False False of
        FinReArm \<Rightarrow> Some (MuxContinue, ensure_tls_flushed tls_wants_write c)
      | FinSettled \<Rightarrow> Some (MuxContinue, c)
      | _ \<Rightarrow> None)"

subsection \<open>Frames of the peer and the streams they end\<close>

text \<open>
  The send windows of the streams, which the \<open>Context\<close> owns, are a list indexed by the slot a stream
  has; the code indexes it with the slots of the table.
\<close>

definition i32_try_from :: "int \<Rightarrow> int option" where
  "i32_try_from x = (if is_i32 x then Some x else None)"

fun shift_windows :: "int \<Rightarrow> nat list \<Rightarrow> bool \<Rightarrow> int list \<Rightarrow> bool \<times> int list" where
  "shift_windows delta [] open_window windows = (open_window, windows)"
| "shift_windows delta (gid # gids) open_window windows =
     (let stream_window = windows ! gid; new_window = stream_window + delta in
      shift_windows delta gids (open_window \<or> stream_window \<le> 0 \<and> 0 < new_window) (windows[gid := new_window]))"

definition update_initial_window_size ::
  "u32 \<Rightarrow> int list \<Rightarrow> 'sl ConnectionH2 \<Rightarrow> bool \<times> int list \<times> 'sl ConnectionH2" where
  "update_initial_window_size v windows c =
     (if FLOW_CONTROL_MAX_WINDOW < v then (True, windows, c)
      else case i32_try_from (uint v - uint (settings_initial_window_size (cn_peer_settings c))) of
          None \<Rightarrow> (True, windows, c)
        | Some delta \<Rightarrow>
            let gids = map snd (streams (cn_stream_table c)) in
            if list_ex (\<lambda>gid. i32_checked_add (windows ! gid) delta = None) gids then (True, windows, c)
            else case shift_windows delta gids False windows of (open_window, windows) \<Rightarrow>
              let c = (if open_window then conn_arm_writable c else c) in
              (False, windows, c\<lparr>cn_peer_settings := (cn_peer_settings c)\<lparr>settings_initial_window_size := v\<rparr>\<rparr>))"

definition set_peer_settings :: "(H2Settings \<Rightarrow> H2Settings) \<Rightarrow> 'sl ConnectionH2 \<Rightarrow> 'sl ConnectionH2" where
  "set_peer_settings f c = c\<lparr>cn_peer_settings := f (cn_peer_settings c)\<rparr>"

text \<open>One entry of a SETTINGS frame: whether it is invalid, or the result that ends the handler.\<close>

definition apply_setting ::
  "('s, 'g) CookieFactory \<Rightarrow> Setting \<Rightarrow> int list \<Rightarrow> 'sl ConnectionH2 \<Rightarrow> (MuxResult + bool) \<times> int list \<times> 'sl ConnectionH2" where
  "apply_setting C setting windows c =
     (let v = set_value setting; i = set_identifier setting in
      if i = SETTINGS_HEADER_TABLE_SIZE then
        let capped = min v (of_nat (max_header_table_size (flood_config (cn_flood_detector c)))) in
        (Inr False, windows,
         (set_peer_settings (settings_header_table_size_update (\<lambda>_. capped)) c)
           \<lparr>cn_encoder := change_max_table_size (cn_encoder c) (unat capped), cn_pending_table_size_update := Some capped\<rparr>)
      else if i = SETTINGS_ENABLE_PUSH then
        (Inr (1 < v), windows, set_peer_settings (settings_enable_push_update (\<lambda>_. v = 1)) c)
      else if i = SETTINGS_MAX_CONCURRENT_STREAMS then
        (Inr False, windows, set_peer_settings (settings_max_concurrent_streams_update (\<lambda>_. v)) c)
      else if i = SETTINGS_INITIAL_WINDOW_SIZE then
        (case update_initial_window_size v windows c of (failed, windows, c) \<Rightarrow>
         if failed then (case goaway C FlowControlError c of (r, c) \<Rightarrow> (Inl r, windows, c)) else (Inr False, windows, c))
      else if i = SETTINGS_MAX_FRAME_SIZE then
        (Inr (\<not> (MIN_MAX_FRAME_SIZE \<le> v \<and> v < MAX_MAX_FRAME_SIZE)), windows,
         set_peer_settings (settings_max_frame_size_update (\<lambda>_. v)) c)
      else if i = SETTINGS_MAX_HEADER_LIST_SIZE then
        (Inr False, windows, set_peer_settings (settings_max_header_list_size_update (\<lambda>_. v)) c)
      else if i = SETTINGS_ENABLE_CONNECT_PROTOCOL then
        (Inr (1 < v), windows, set_peer_settings (settings_enable_connect_protocol_update (\<lambda>_. v = 1)) c)
      else if i = SETTINGS_NO_RFC7540_PRIORITIES then
        (Inr (1 < v), windows, set_peer_settings (settings_no_rfc7540_priorities_update (\<lambda>_. v = 1)) c)
      else (Inr False, windows, c\<lparr>cn_flood_detector := record_glitch (cn_flood_detector c)\<rparr>))"

fun apply_settings ::
  "('s, 'g) CookieFactory \<Rightarrow> Setting list \<Rightarrow> int list \<Rightarrow> 'sl ConnectionH2 \<Rightarrow> MuxResult option \<times> int list \<times> 'sl ConnectionH2" where
  "apply_settings C [] windows c = (None, windows, c)"
| "apply_settings C (setting # settings) windows c =
     (case apply_setting C setting windows c of
        (Inl r, windows, c) \<Rightarrow> (Some r, windows, c)
      | (Inr True, windows, c) \<Rightarrow> (case goaway C ProtocolError c of (r, c) \<Rightarrow> (Some r, windows, c))
      | (Inr False, windows, c) \<Rightarrow> apply_settings C settings windows c)"

definition handle_settings_frame ::
  "('s, 'g) CookieFactory \<Rightarrow> Setting list \<Rightarrow> bool \<Rightarrow> int list \<Rightarrow> 'sl ConnectionH2 \<Rightarrow> MuxResult \<times> int list \<times> 'sl ConnectionH2" where
  "handle_settings_frame C settings ack windows c =
     (if ack then
        (if settings \<noteq> [] then (case goaway C FrameSizeError c of (r, c) \<Rightarrow> (r, windows, c))
         else (MuxContinue, windows, attribute_bytes_to_overhead
           (c\<lparr>cn_settings_sent_at := None,
              cn_decoder := set_max_allowed_table_size (cn_decoder c) (unat (settings_header_table_size (cn_local_settings c)))\<rparr>)))
      else case check_flood_or_return C (c\<lparr>cn_flood_detector := record_settings_frame (cn_flood_detector c)\<rparr>) of
          (Some r, c) \<Rightarrow> (r, windows, c)
        | (None, c) \<Rightarrow>
          (case apply_settings C settings windows c of
             (Some r, windows, c) \<Rightarrow> (r, windows, c)
           | (None, windows, c) \<Rightarrow>
               let c = attribute_bytes_to_overhead c;
                   c = (if is_client (cn_position c) \<and> \<not> cn_connection_window_enlarged c then
                          let c = c\<lparr>cn_connection_window_enlarged := True\<rparr>;
                              win = initial_connection_window (cn_connection_config c);
                              increment = (if DEFAULT_INITIAL_WINDOW_SIZE \<le> win then win - DEFAULT_INITIAL_WINDOW_SIZE else 0)
                          in if 0 < increment then conn_queue_window_update 0 increment c else c
                        else c)
               in (MuxContinue, windows, queue_output (c\<lparr>cn_output := push SETTINGS_ACKNOWLEDGEMENT (cn_output c)\<rparr>))))"

definition handle_ping_frame :: "('s, 'g) CookieFactory \<Rightarrow> bytes \<Rightarrow> bool \<Rightarrow> 'sl ConnectionH2 \<Rightarrow> MuxResult \<times> 'sl ConnectionH2" where
  "handle_ping_frame C payload ack c =
     (if ack then (MuxContinue, attribute_bytes_to_overhead c)
      else case check_flood_or_return C (c\<lparr>cn_flood_detector := record_ping_frame (cn_flood_detector c)\<rparr>) of
          (Some r, c) \<Rightarrow> (r, c)
        | (None, c) \<Rightarrow>
          (let c = attribute_bytes_to_overhead c in
           case push_frames (length PING_ACKNOWLEDGEMENT_HEADER + 8)
               (plain_writer (\<lambda>buf. gen_ping_acknowledgement C buf payload)) (cn_output c) () of
             (Inr _, q, _) \<Rightarrow> (MuxContinue, queue_output (c\<lparr>cn_output := q\<rparr>))
           | (Inl _, q, _) \<Rightarrow> force_disconnect (c\<lparr>cn_output := q\<rparr>)))"

definition apply_mcs_backpressure :: "'sl ConnectionH2 \<Rightarrow> 'sl ConnectionH2" where
  "apply_mcs_backpressure c =
     c\<lparr>cn_local_settings := (cn_local_settings c)
          \<lparr>settings_max_concurrent_streams := max (settings_max_concurrent_streams (cn_local_settings c) div 2) 1\<rparr>,
       cn_mcs_backpressure_applied := True\<rparr>"

definition record_refusal_for_backpressure :: "'sl ConnectionH2 \<Rightarrow> 'sl ConnectionH2" where
  "record_refusal_for_backpressure c =
     (let c = (if BACKPRESSURE_WINDOW_DURATION \<le> cn_now c - cn_refuse_window_start c
               then c\<lparr>cn_refuse_count_window := 0, cn_refuse_window_start := cn_now c\<rparr> else c);
          c = c\<lparr>cn_refuse_count_window := u32_saturating_add (cn_refuse_count_window c) 1\<rparr>
      in if \<not> cn_mcs_backpressure_applied c \<and> BACKPRESSURE_REFUSAL_THRESHOLD \<le> cn_refuse_count_window c
         then apply_mcs_backpressure c else c)"

definition discard_field_block :: "u32 \<Rightarrow> u32 \<Rightarrow> DiscardedFieldBlock \<Rightarrow> 'sl ConnectionH2 \<Rightarrow> MuxResult \<times> 'sl ConnectionH2" where
  "discard_field_block sid payload_len discarded c =
     (let c = (case discarded of
                 NewBlock _ \<Rightarrow> c\<lparr>cn_flood_detector := begin_header_block_if_new (unat payload_len) (cn_flood_detector c)\<rparr>
               | ContinuationBlock _ _ \<Rightarrow> c)
      in (MuxContinue, c\<lparr>cn_state := Discard,
            cn_stream_table := set_expect_read (Some (Zero, unat payload_len)) (cn_stream_table c),
            cn_discarded_field_block := Some (sid, discarded)\<rparr>))"

definition refuse_stream_and_discard ::
  "('s, 'g) CookieFactory \<Rightarrow> u32 \<Rightarrow> H2Error \<Rightarrow> RstOrigin \<Rightarrow> u32 \<Rightarrow> DiscardedFieldBlock \<Rightarrow> 'sl ConnectionH2 \<Rightarrow> MuxResult \<times> 'sl ConnectionH2" where
  "refuse_stream_and_discard C sid error origin payload_len discarded c =
     (case conn_enqueue_rst C sid error origin c of
        (Some r, c) \<Rightarrow> (r, c)
      | (None, c) \<Rightarrow>
          (case discard_field_block sid payload_len discarded
                 (c\<lparr>cn_stream_table := remember_refused sid (cn_stream_table c)\<rparr>) of
             (r, c) \<Rightarrow> (r, record_refusal_for_backpressure c)))"

definition skip_orphaned_data_payload :: "nat \<Rightarrow> u32 \<Rightarrow> 'sl ConnectionH2 \<Rightarrow> 'sl ConnectionH2" where
  "skip_orphaned_data_payload remaining payload_len c =
     (case account_received_bytes (cn_flow_control c) payload_len (initial_connection_window (cn_connection_config c) div 2) of
        (increment, fc) \<Rightarrow>
        let c = c\<lparr>cn_flow_control := fc\<rparr>;
            c = (case increment of Some n \<Rightarrow> conn_arm_writable (conn_queue_window_update 0 n c) | None \<Rightarrow> c)
        in interest_insert READABLE
             (c\<lparr>cn_state := Discard, cn_discarded_field_block := None,
                cn_stream_table := set_expect_read (Some (Zero, remaining)) (cn_stream_table c)\<rparr>))"

definition discard_frame_payload :: "FrameHeader \<Rightarrow> 'sl ConnectionH2 \<Rightarrow> MuxResult \<times> 'sl ConnectionH2" where
  "discard_frame_payload header c =
     (if fh_frame_type header = Headers
      then discard_field_block (fh_stream_id header) (fh_payload_len header) (NewBlock (fh_flags header)) c
      else (MuxContinue, skip_orphaned_data_payload (unat (fh_payload_len header)) (fh_payload_len header) c))"

definition refund_parked_data :: "('s, 'g) CookieFactory \<Rightarrow> int \<Rightarrow> 'sl ConnectionH2 \<Rightarrow> MuxResult option \<times> 'sl ConnectionH2" where
  "refund_parked_data C dropped c =
     (case refund_send_window (cn_flow_control c) dropped of
        (Applied new_window should_arm_writable, fc) \<Rightarrow>
          (None, if should_arm_writable then conn_arm_writable (c\<lparr>cn_flow_control := fc\<rparr>) else c\<lparr>cn_flow_control := fc\<rparr>)
      | (Overflow, fc) \<Rightarrow> (case goaway C FlowControlError (c\<lparr>cn_flow_control := fc\<rparr>) of (r, c) \<Rightarrow> (Some r, c)))"

definition remove_dead_stream :: "('s, 'g) CookieFactory \<Rightarrow> u32 \<Rightarrow> nat \<Rightarrow> 'sl ConnectionH2 \<Rightarrow> 'sl ConnectionH2" where
  "remove_dead_stream C sid gid c =
     (let c = (case expect_write (cn_stream_table c) of
                 Some (Other _ g) \<Rightarrow>
                   if g = gid then
                     let parked_data = cn_parked_data c; c = c\<lparr>cn_parked_data := 0\<rparr> in
                     if 0 < parked_data then snd (refund_parked_data C parked_data c) else c
                   else c
               | _ \<Rightarrow> c);
          orphaned = (case (expect_read (cn_stream_table c), cn_state c) of
                        (Some (Other _ g, remaining), FrameState header) \<Rightarrow>
                          if g = gid then Some (remaining, fh_payload_len header) else None
                      | _ \<Rightarrow> None);
          c = c\<lparr>cn_stream_table := snd (stream_table_remove sid gid (cn_stream_table c)),
                cn_scheduler := remove_stream sid (cn_scheduler c)\<rparr>
      in case orphaned of
           Some (remaining, payload_len) \<Rightarrow> skip_orphaned_data_payload remaining payload_len c
         | None \<Rightarrow> c)"

text \<open>\<open>slot\<close> is the answer of the \<open>Context\<close> to the request for a slot.\<close>

definition create_stream :: "u32 \<Rightarrow> nat option \<Rightarrow> 'sl ConnectionH2 \<Rightarrow> nat option \<times> 'sl ConnectionH2" where
  "create_stream sid slot c =
     (if draining (cn_drain c) then (None, c)
      else
        let c = c\<lparr>cn_stream_table := observe_peer_stream_id sid (cn_stream_table c)\<rparr> in
        case slot of
          None \<Rightarrow> (None, c)
        | Some gid \<Rightarrow>
            (Some gid, c\<lparr>cn_last_stream_id := (sid + 2) AND NOT 1,
               cn_stream_table := register sid gid (cn_now c) (cn_stream_table c)\<rparr>))"

definition new_stream_id :: "'sl ConnectionH2 \<Rightarrow> u32 option \<times> 'sl ConnectionH2" where
  "new_stream_id c =
     (case next_stream_id (cn_last_stream_id c) (is_client (cn_position c)) of
        None \<Rightarrow> (None, c)
      | Some (issued, next) \<Rightarrow> (Some issued, c\<lparr>cn_last_stream_id := next\<rparr>))"

end
