(* ===== verification/H2_Connection_Control.thy ===== *)
theory H2_Connection_Control
  imports H2_Connection
begin

text \<open>
  What the control path of \<open>H2_Connection\<close> puts on the wire: the exact frames of the output queue after
  a GOAWAY, a graceful drain, an acknowledgement or a flush of the two control queues, and the
  invariants every operation keeps.
\<close>

subsection \<open>Writers into the output queue\<close>

lemma push_plain:
  assumes "output_ok q" and "room = length frame" and "\<And>buf. length buf = room \<Longrightarrow> gen buf = (Inr room, frame)"
    and "\<And>buf. length (snd (gen buf)) = length buf"
  shows "\<exists>q'. push_frames room (plain_writer gen) q () = (Inr room, q', ()) \<and> output_ok q' \<and>
    output_pending q' = output_pending q @ frame \<and> out_prepaid q' = out_prepaid q"
proof -
  have len: "length (fst (snd (plain_writer gen bs ()))) = length bs" for bs
    using assms(4) [of bs] by (cases "gen bs") (simp add: plain_writer_def)
  obtain answer q' u where p: "push_frames room (plain_writer gen) q () = (answer, q', u)"
    by (cases "push_frames room (plain_writer gen) q ()")
  note ok = push_frames_ok [where writer = "plain_writer gen" and s = "()", OF assms(1) len p]
  obtain bs written where "length bs = room" "plain_writer gen bs () = (answer, written, u)"
    "output_pending q' = output_pending q @ (case answer of Inr used \<Rightarrow> take used written | Inl _ \<Rightarrow> [])"
    using ok(3) by auto
  then show ?thesis using p ok(1,2) assms(2) assms(3) [of bs] by (auto simp: plain_writer_def)
qed

lemma gen_control_exact:
  assumes "cookie_documented wire C"
  shows "length buf = 9 + length (wire s) \<Longrightarrow>
      gen_control_frame C buf h (cf_gen C s) = (Inr (9 + length (wire s)), header_bytes h @ wire s)"
    and "length (snd (gen_control_frame C buf h (cf_gen C s))) = length buf"
proof -
  show "length buf = 9 + length (wire s) \<Longrightarrow>
      gen_control_frame C buf h (cf_gen C s) = (Inr (9 + length (wire s)), header_bytes h @ wire s)"
    using gen_control_frame_eq(1) [OF assms] by simp
  show "length (snd (gen_control_frame C buf h (cf_gen C s))) = length buf"
    using gen_control_frame_eq(1) [OF assms, of s buf h] gen_control_frame_eq(2) [OF assms, of buf s h]
    by (cases "9 + length (wire s) \<le> length buf") auto
qed

lemma cookie_gen_exact:
  assumes "cookie_documented wire C"
  shows "length buf = length (wire s) \<Longrightarrow> cf_gen C s buf = (Inr (length (wire s)), wire s)"
    and "length (snd (cf_gen C s buf)) = length buf"
  using cookie_gen_fits [OF assms, of s buf] cookie_gen_full [OF assms, of buf s]
  by (auto, cases "length (wire s) \<le> length buf") auto

definition goaway_bytes :: "u32 \<Rightarrow> H2Error \<Rightarrow> bytes" where
  "goaway_bytes last_stream_id error =
     header_bytes \<lparr>fh_payload_len = GOAWAY_PAYLOAD_SIZE, fh_frame_type = GoAway, fh_flags = 0, fh_stream_id = 0\<rparr> @
     u32_bytes (last_stream_id AND STREAM_ID_MASK) @ u32_bytes (h2_error_code error)"

lemma length_goaway_bytes [simp]: "length (goaway_bytes l e) = 17"
  by (simp add: goaway_bytes_def)

lemma frame_sizes: "GOAWAY_FRAME_SIZE = 17" "RST_STREAM_FRAME_SIZE = 13" "WINDOW_UPDATE_FRAME_SIZE = 13"
    "SETTINGS_FRAME_SIZE = 57"
  by (simp_all add: GOAWAY_FRAME_SIZE_def RST_STREAM_FRAME_SIZE_def WINDOW_UPDATE_FRAME_SIZE_def SETTINGS_FRAME_SIZE_def
      wire_consts)

lemma push_goaway:
  assumes "cookie_documented wire C" and "output_ok q"
  shows "\<exists>q'. push_frames GOAWAY_FRAME_SIZE (plain_writer (\<lambda>buf. gen_goaway C buf l e)) q () =
      (Inr 17, q', ()) \<and> output_ok q' \<and> output_pending q' = output_pending q @ goaway_bytes l e"
proof -
  let ?s = "cf_tuple C [cf_be_u32 C (l AND STREAM_ID_MASK), cf_be_u32 C (h2_error_code e)]"
  have w: "wire ?s = u32_bytes (l AND STREAM_ID_MASK) @ u32_bytes (h2_error_code e)"
    by (simp add: cookie_wire [OF assms(1)])
  then show ?thesis
    using push_plain [OF assms(2), of 17 "goaway_bytes l e" "\<lambda>buf. gen_goaway C buf l e"]
      gen_control_exact [OF assms(1), where s = ?s]
    by (auto simp: frame_sizes gen_goaway_def goaway_bytes_def)
qed

lemma push_ping:
  assumes "cookie_documented wire C" and "output_ok q" and "length payload = 8"
  shows "\<exists>q'. push_frames (length PING_ACKNOWLEDGEMENT_HEADER + 8)
      (plain_writer (\<lambda>buf. gen_ping_acknowledgement C buf payload)) q () = (Inr 17, q', ()) \<and> output_ok q' \<and>
    output_pending q' = output_pending q @ PING_ACKNOWLEDGEMENT_HEADER @ payload"
proof -
  let ?s = "cf_tuple C [cf_slice C PING_ACKNOWLEDGEMENT_HEADER, cf_slice C payload]"
  have n: "length PING_ACKNOWLEDGEMENT_HEADER = 9" by (simp add: PING_ACKNOWLEDGEMENT_HEADER_def)
  have w: "wire ?s = PING_ACKNOWLEDGEMENT_HEADER @ payload" by (simp add: cookie_wire [OF assms(1)])
  then show ?thesis
    using push_plain [OF assms(2), of 17 "PING_ACKNOWLEDGEMENT_HEADER @ payload" "\<lambda>buf. gen_ping_acknowledgement C buf payload"]
      cookie_gen_exact [OF assms(1), where s = ?s] assms(3)
    by (auto simp: gen_ping_acknowledgement_def n)
qed

definition settings_bytes :: "H2Settings \<Rightarrow> bytes" where
  "settings_bytes s = header_bytes \<lparr>fh_payload_len = 48, fh_frame_type = Settings, fh_flags = 0, fh_stream_id = 0\<rparr> @
     concat (map entry_bytes (settings_entries s))"

lemma push_settings:
  assumes "cookie_documented wire C" and "output_ok q"
  shows "\<exists>q'. push_frames SETTINGS_FRAME_SIZE (plain_writer (\<lambda>buf. gen_settings C buf st)) q () = (Inr 57, q', ()) \<and>
    output_ok q' \<and> output_pending q' = output_pending q @ settings_bytes st"
proof -
  have "\<exists>h s. \<forall>buf. gen_settings C buf st = gen_control_frame C buf h (cf_gen C s)"
    unfolding gen_settings_def gen_control_frame_def by blast
  then have "length (snd (gen_settings C buf st)) = length buf" for buf
    using gen_control_exact(2) [OF assms(1)] by metis
  moreover have "length (settings_bytes st) = 57"
    by (simp only: settings_bytes_def length_append length_concat_entries) (simp add: settings_entries_def)
  ultimately show ?thesis
    using push_plain [OF assms(2), of 57 "settings_bytes st" "\<lambda>buf. gen_settings C buf st"] gen_settings_eq [OF assms(1)]
    by (auto simp: frame_sizes settings_bytes_def)
qed

text \<open>The drains of the two control queues, given room for all they hold.\<close>

lemma push_window_updates:
  assumes "cookie_documented wire C" and "output_ok q" and "fc_ok fc"
  shows "\<exists>q'. push_frames (length (pending_window_updates fc) * WINDOW_UPDATE_FRAME_SIZE)
      (\<lambda>buf fc. case drain_window_updates_into C fc buf of ((offset, _), fc, buf) \<Rightarrow> (Inr offset :: unit + nat, buf, fc)) q fc =
      (Inr (13 * length (pending_window_updates fc)), q', fc\<lparr>pending_window_updates := []\<rparr>) \<and> output_ok q' \<and>
    output_pending q' = output_pending q @ concat (map update_frame (pending_window_updates fc))"
proof -
  let ?w = "\<lambda>buf fc. case drain_window_updates_into C fc buf of ((offset, _), fc, buf) \<Rightarrow> (Inr offset :: unit + nat, buf, fc)"
    and ?n = "length (pending_window_updates fc)"
  have len: "length (fst (snd (?w bs fc))) = length bs" for bs
    using drain_writes [OF assms(1,3), of bs] by (auto simp: min_def)
  obtain answer q' fc' where p: "push_frames (?n * WINDOW_UPDATE_FRAME_SIZE) ?w q fc = (answer, q', fc')"
    by (cases "push_frames (?n * WINDOW_UPDATE_FRAME_SIZE) ?w q fc")
  note ok = push_frames_ok [where writer = ?w and s = fc, OF assms(2) len p]
  obtain bs written where "length bs = ?n * WINDOW_UPDATE_FRAME_SIZE" and w: "?w bs fc = (answer, written, fc')"
    and pending: "output_pending q' = output_pending q @ (case answer of Inr used \<Rightarrow> take used written | Inl _ \<Rightarrow> [])"
    using ok(3) by auto
  then have b: "length bs div 13 = ?n" by (simp add: frame_sizes)
  then obtain tail where "drain_window_updates_into C fc bs =
      ((13 * ?n, ?n), fc\<lparr>pending_window_updates := []\<rparr>, concat (map update_frame (pending_window_updates fc)) @ tail)"
    using drain_writes [OF assms(1,3), of bs] by auto
  with w pending ok(1) show ?thesis unfolding p by auto
qed

lemma drain_rst_exact:
  assumes "cookie_documented wire C"
  shows "\<exists>tail. drain_rst_streams_into C tx buf =
    ((13 * min (length (pending_rst_streams tx)) (length buf div 13), min (length (pending_rst_streams tx)) (length buf div 13)),
     tx\<lparr>pending_rst_streams := drop (length buf div 13) (pending_rst_streams tx)\<rparr>,
     concat (map rst_frame (take (length buf div 13) (pending_rst_streams tx))) @ tail) \<and>
    length tail = length buf - 13 * min (length (pending_rst_streams tx)) (length buf div 13)"
  using rst_drain_loop_eq [OF assms, of 0 buf "pending_rst_streams tx" 0]
  by (auto simp: drain_rst_streams_into_def Let_def min_def)

lemma length_rst_frames [simp]: "length (concat (map rst_frame es)) = 13 * length es"
  by (induction es) auto

lemma push_rsts:
  assumes "cookie_documented wire C" and "output_ok q"
  shows "\<exists>q'. push_frames (length (pending_rst_streams tx) * RST_STREAM_FRAME_SIZE)
      (\<lambda>buf tx. case drain_rst_streams_into C tx buf of ((offset, _), tx, buf) \<Rightarrow> (Inr offset :: unit + nat, buf, tx)) q tx =
      (Inr (13 * length (pending_rst_streams tx)), q', tx\<lparr>pending_rst_streams := []\<rparr>) \<and> output_ok q' \<and>
    output_pending q' = output_pending q @ concat (map rst_frame (pending_rst_streams tx))"
proof -
  let ?w = "\<lambda>buf tx. case drain_rst_streams_into C tx buf of ((offset, _), tx, buf) \<Rightarrow> (Inr offset :: unit + nat, buf, tx)"
    and ?n = "length (pending_rst_streams tx)"
  have len: "length (fst (snd (?w bs tx))) = length bs" for bs
    using drain_rst_exact [OF assms(1), of tx bs] by (auto simp: min_def)
  obtain answer q' tx' where p: "push_frames (?n * RST_STREAM_FRAME_SIZE) ?w q tx = (answer, q', tx')"
    by (cases "push_frames (?n * RST_STREAM_FRAME_SIZE) ?w q tx")
  note ok = push_frames_ok [where writer = ?w and s = tx, OF assms(2) len p]
  obtain bs written where "length bs = ?n * RST_STREAM_FRAME_SIZE" and w: "?w bs tx = (answer, written, tx')"
    and pending: "output_pending q' = output_pending q @ (case answer of Inr used \<Rightarrow> take used written | Inl _ \<Rightarrow> [])"
    using ok(3) by auto
  then have b: "length bs div 13 = ?n" by (simp add: frame_sizes)
  then obtain tail where "drain_rst_streams_into C tx bs =
      ((13 * ?n, ?n), tx\<lparr>pending_rst_streams := []\<rparr>, concat (map rst_frame (pending_rst_streams tx)) @ tail)"
    using drain_rst_exact [OF assms(1), of tx bs] by auto
  with w pending ok(1) show ?thesis unfolding p by auto
qed

subsection \<open>The invariant of the connection\<close>

definition conn_ok :: "'sl ConnectionH2 \<Rightarrow> bool" where
  "conn_ok c \<longleftrightarrow> output_ok (cn_output c) \<and> fc_ok (cn_flow_control c) \<and> tx_ok (cn_control_tx c) \<and>
     table_ok (cn_stream_table c) \<and> drain_check_invariants (cn_drain c)"

text \<open>What is queued and not yet on the socket.\<close>

definition queued :: "'sl ConnectionH2 \<Rightarrow> bytes" where
  "queued c = output_pending (cn_output c)"

lemma goaway_exact:
  assumes "cookie_documented wire C" and "conn_ok c"
  shows "\<exists>q. goaway_with_last_stream_id C e l c = (MuxContinue, c\<lparr>cn_drain := enter_final_goaway (cn_drain c),
      cn_graceful_goaway := e = NoError, cn_stream_table := set_expect_read None (cn_stream_table c), cn_settings_sent_at := None,
      cn_output := q, cn_state := GoAwayState,
      cn_readiness := signal_pending_write ((cn_readiness c)\<lparr>interest := CLOSING_INTEREST\<rparr>)\<rparr>) \<and>
    output_ok q \<and> output_pending q = queued c @ goaway_bytes l e"
proof -
  obtain q where "push_frames GOAWAY_FRAME_SIZE (plain_writer (\<lambda>buf. gen_goaway C buf l e)) (cn_output c) () = (Inr 17, q, ())"
    "output_ok q" "output_pending q = queued c @ goaway_bytes l e"
    using push_goaway [OF assms(1), of "cn_output c" l e] assms(2) by (auto simp: conn_ok_def queued_def)
  then show ?thesis by (intro exI [of _ q]) (simp add: goaway_with_last_stream_id_def Let_def)
qed

lemma table_ok_set_expect [inv_intros]:
  "table_ok t \<Longrightarrow> table_ok (set_expect_read r t)" "table_ok t \<Longrightarrow> table_ok (set_expect_write w t)"
  by (simp_all add: table_ok_defs set_expect_read_def set_expect_write_def)

lemma conn_ok_goaway [inv_intros]:
  assumes "cookie_documented wire C" and "conn_ok c" and "goaway_with_last_stream_id C e l c = (r, c')"
  shows "conn_ok c' \<and> r = MuxContinue \<and> queued c' = queued c @ goaway_bytes l e \<and> cn_state c' = GoAwayState \<and>
    draining (cn_drain c') \<and> cn_pending_force_disconnect c' = cn_pending_force_disconnect c \<and>
    interest (cn_readiness c') = CLOSING_INTEREST"
  using goaway_exact [OF assms(1,2), of e l] assms(2,3) table_ok_set_expect(1) [of "cn_stream_table c" None]
  by (auto simp: signal_pending_write_def conn_ok_def queued_def enter_final_goaway_def drain_check_invariants_def)

lemma output_is_empty_pending: "output_ok q \<Longrightarrow> output_is_empty q \<longleftrightarrow> output_pending q = []"
  using length_output_pending [of q] by (auto simp: output_is_empty_def)

lemma fc_ok_cleared: "fc_ok fc \<Longrightarrow> fc_ok (fc\<lparr>pending_window_updates := []\<rparr>)"
  by (simp add: fc_ok_def)

lemma tx_ok_cleared: "tx_ok tx \<Longrightarrow> tx_ok (tx\<lparr>pending_rst_streams := []\<rparr>)"
  by (simp add: tx_ok_def)

lemma serialize_window_updates_exact:
  assumes "cookie_documented wire C" and "conn_ok c"
  shows "\<exists>q. serialize_window_updates C c = c\<lparr>cn_output := q, cn_flow_control := (cn_flow_control c)\<lparr>pending_window_updates := []\<rparr>\<rparr> \<and>
    output_ok q \<and> output_pending q = queued c @ concat (map update_frame (pending_window_updates (cn_flow_control c)))"
proof (cases "pending_window_updates (cn_flow_control c) = []")
  case True
  then have "(cn_flow_control c)\<lparr>pending_window_updates := []\<rparr> = cn_flow_control c" by simp
  then show ?thesis using True assms(2) by (intro exI [of _ "cn_output c"]) (simp add: serialize_window_updates_def conn_ok_def queued_def)
next
  case False
  obtain q where "push_frames (length (pending_window_updates (cn_flow_control c)) * WINDOW_UPDATE_FRAME_SIZE)
      (\<lambda>buf fc. case drain_window_updates_into C fc buf of ((offset, _), fc, buf) \<Rightarrow> (Inr offset :: unit + nat, buf, fc))
      (cn_output c) (cn_flow_control c) =
      (Inr (13 * length (pending_window_updates (cn_flow_control c))), q, (cn_flow_control c)\<lparr>pending_window_updates := []\<rparr>)"
    "output_ok q" "output_pending q = queued c @ concat (map update_frame (pending_window_updates (cn_flow_control c)))"
    using push_window_updates [OF assms(1), of "cn_output c" "cn_flow_control c"] assms(2) by (auto simp: conn_ok_def queued_def)
  then show ?thesis using False by (intro exI [of _ q]) (simp add: serialize_window_updates_def)
qed

lemma serialize_rst_streams_exact:
  assumes "cookie_documented wire C" and "conn_ok c"
  shows "\<exists>q. serialize_rst_streams C c = c\<lparr>cn_output := q, cn_control_tx := (cn_control_tx c)\<lparr>pending_rst_streams := []\<rparr>\<rparr> \<and>
    output_ok q \<and> output_pending q = queued c @ concat (map rst_frame (pending_rst_streams (cn_control_tx c)))"
proof (cases "pending_rst_streams (cn_control_tx c) = []")
  case True
  then have "(cn_control_tx c)\<lparr>pending_rst_streams := []\<rparr> = cn_control_tx c" by simp
  then show ?thesis using True assms(2) by (intro exI [of _ "cn_output c"]) (simp add: serialize_rst_streams_def conn_ok_def queued_def)
next
  case False
  obtain q where "push_frames (length (pending_rst_streams (cn_control_tx c)) * RST_STREAM_FRAME_SIZE)
      (\<lambda>buf tx. case drain_rst_streams_into C tx buf of ((offset, _), tx, buf) \<Rightarrow> (Inr offset :: unit + nat, buf, tx))
      (cn_output c) (cn_control_tx c) =
      (Inr (13 * length (pending_rst_streams (cn_control_tx c))), q, (cn_control_tx c)\<lparr>pending_rst_streams := []\<rparr>)"
    "output_ok q" "output_pending q = queued c @ concat (map rst_frame (pending_rst_streams (cn_control_tx c)))"
    using push_rsts [OF assms(1), of "cn_output c" "cn_control_tx c"] assms(2) by (auto simp: conn_ok_def queued_def)
  then show ?thesis using False by (intro exI [of _ q]) (simp add: serialize_rst_streams_def)
qed

lemma drop_if_hung_up_effect:
  assumes "conn_ok c"
  shows "conn_ok (drop_if_hung_up c)" and "queued (drop_if_hung_up c) = (if frontend_hung_up_while_draining c then [] else queued c)"
    and "pending_window_updates (cn_flow_control (drop_if_hung_up c)) =
      (if frontend_hung_up_while_draining c then [] else pending_window_updates (cn_flow_control c))"
    and "pending_rst_streams (cn_control_tx (drop_if_hung_up c)) =
      (if frontend_hung_up_while_draining c then [] else pending_rst_streams (cn_control_tx c))"
    and "cn_state (drop_if_hung_up c) = cn_state c" and "overflowed (cn_control_tx (drop_if_hung_up c)) = overflowed (cn_control_tx c)"
    and "settings_ack_overdue (drop_if_hung_up c) = settings_ack_overdue c"
    and "highest_peer_stream_id (cn_stream_table (drop_if_hung_up c)) = highest_peer_stream_id (cn_stream_table c)"
    and "cn_pending_force_disconnect (drop_if_hung_up c) = cn_pending_force_disconnect c"
  using assms table_ok_set_expect(2) [of "cn_stream_table c" None]
  by (simp_all add: drop_if_hung_up_def conn_ok_def queued_def clear_output_def Let_def output_clear_ok
      fc_ok_cleared tx_ok_cleared clear_pending_window_updates_def clear_pending_def interest_insert_def settings_ack_overdue_def
      set_expect_write_def split: option.split)

lemma flush_effect:
  assumes "cookie_documented wire C" and "conn_ok c" and "drop_if_hung_up c0 = c"
    and "flush_pending_control_frames C c0 = (t, c')"
  shows "conn_ok c' \<and> cn_pending_force_disconnect c' = cn_pending_force_disconnect c \<and>
    (if settings_ack_overdue c
     then t = FlushDone MuxContinue \<and> cn_state c' = GoAwayState \<and> interest (cn_readiness c') = CLOSING_INTEREST \<and>
       queued c' = queued c @ goaway_bytes (highest_peer_stream_id (cn_stream_table c)) SettingsTimeout
     else if \<not> closing (cn_state c) \<and> overflowed (cn_control_tx c)
     then t = FlushDone MuxContinue \<and> cn_state c' = GoAwayState \<and> interest (cn_readiness c') = CLOSING_INTEREST \<and>
       queued c' = queued c @ concat (map update_frame (pending_window_updates (cn_flow_control c))) @
         goaway_bytes (highest_peer_stream_id (cn_stream_table c)) EnhanceYourCalm
     else t = (if queued c' = [] then FlushProceed else FlushOutput) \<and> cn_state c' = cn_state c \<and>
       cn_position c' = cn_position c \<and> cn_stream_table c' = cn_stream_table c \<and> cn_readiness c' = cn_readiness c \<and>
       pending_window_updates (cn_flow_control c') = [] \<and> pending_rst_streams (cn_control_tx c') = [] \<and>
       queued c' = queued c @ concat (map update_frame (pending_window_updates (cn_flow_control c))) @
         concat (map rst_frame (pending_rst_streams (cn_control_tx c))))"
proof -
  obtain q where w: "serialize_window_updates C c =
      c\<lparr>cn_output := q, cn_flow_control := (cn_flow_control c)\<lparr>pending_window_updates := []\<rparr>\<rparr>" and q: "output_ok q"
      "output_pending q = queued c @ concat (map update_frame (pending_window_updates (cn_flow_control c)))"
    using serialize_window_updates_exact [OF assms(1,2)] by auto
  define c1 where "c1 = serialize_window_updates C c"
  have c1: "conn_ok c1" "queued c1 = queued c @ concat (map update_frame (pending_window_updates (cn_flow_control c)))"
    using q assms(2) by (simp_all add: c1_def w conn_ok_def queued_def fc_ok_cleared)
  obtain q2 where r: "serialize_rst_streams C c1 = c1\<lparr>cn_output := q2, cn_control_tx := (cn_control_tx c1)\<lparr>pending_rst_streams := []\<rparr>\<rparr>"
    and q2: "output_ok q2" "output_pending q2 = queued c1 @ concat (map rst_frame (pending_rst_streams (cn_control_tx c1)))"
    using serialize_rst_streams_exact [OF assms(1) c1(1)] by auto
  have same: "cn_state c1 = cn_state c" "cn_control_tx c1 = cn_control_tx c" "cn_stream_table c1 = cn_stream_table c"
      "cn_position c1 = cn_position c" "cn_readiness c1 = cn_readiness c" "cn_pending_force_disconnect c1 = cn_pending_force_disconnect c" "pending_window_updates (cn_flow_control c1) = []"
    by (simp_all add: c1_def w)
  have step: "flush_pending_control_frames C c0 =
      (if settings_ack_overdue c then (case goaway C SettingsTimeout c of (r, c) \<Rightarrow> (FlushDone r, c))
       else if \<not> closing (cn_state c) \<and> overflowed (cn_control_tx c)
       then (case goaway C EnhanceYourCalm c1 of (r, c) \<Rightarrow> (FlushDone r, c))
       else (if output_is_empty (cn_output (serialize_rst_streams C c1)) then FlushProceed else FlushOutput,
             serialize_rst_streams C c1))"
    by (simp only: flush_pending_control_frames_def assms(3) Let_def c1_def [symmetric] same)
  consider (late) "settings_ack_overdue c" | (full) "\<not> settings_ack_overdue c" "\<not> closing (cn_state c)" "overflowed (cn_control_tx c)"
    | (queues) "\<not> settings_ack_overdue c" "closing (cn_state c) \<or> \<not> overflowed (cn_control_tx c)" by blast
  then show ?thesis
  proof cases
    case late
    obtain r' c'' where g: "goaway C SettingsTimeout c = (r', c'')" by fastforce
    then have "t = FlushDone r'" "c' = c''"
      using assms(4) late by (simp_all add: step)
    then show ?thesis using late conn_ok_goaway [OF assms(1,2) g [unfolded goaway_def]] by simp
  next
    case full
    obtain r' c'' where g: "goaway C EnhanceYourCalm c1 = (r', c'')" by fastforce
    then have "t = FlushDone r'" "c' = c''"
      using assms(4) full by (simp_all add: step)
    then show ?thesis
      using full conn_ok_goaway [OF assms(1) c1(1) g [unfolded goaway_def]] c1(2) same by simp
  next
    case queues
    then have c': "c' = serialize_rst_streams C c1" "t = (if output_is_empty (cn_output c') then FlushProceed else FlushOutput)"
      using assms(4) by (auto simp: step)
    then have ok: "conn_ok c'" using q2(1) c1(1) by (simp add: r conn_ok_def tx_ok_cleared)
    then have "output_is_empty (cn_output c') \<longleftrightarrow> queued c' = []"
      by (simp add: conn_ok_def queued_def output_is_empty_pending)
    with queues ok c' q2(2) c1(2) show ?thesis using same by (auto simp: r queued_def)
  qed
qed

end
