(* ===== verification/Sozu_Socket.thy ===== *)
theory Sozu_Socket
  imports Sozu_Readiness
begin

text \<open>
  Plain TCP sockets, from \<^verbatim>\<open>src/lib/src/socket.rs\<close>. The transport behind a socket is the list of
  answers the kernel will give: a read side of arriving chunks and faults, a write side of free room
  and faults. A read takes what fits of the next chunk; an empty chunk is the end of the stream, and
  after a reset a read sees the end of the stream. Counters and logs are left out.
\<close>

definition MAX_LOOP_ITERATIONS :: nat where "MAX_LOOP_ITERATIONS = 100000"

datatype ErrorKind =
  Interrupted | WouldBlock | ConnectionReset | ConnectionAborted | BrokenPipe | ConnectionRefused | OtherKind nat

datatype kernel_read = Arrived bytes | ReadFault ErrorKind
datatype kernel_write = Room nat | WriteFault ErrorKind

fun is_closing :: "ErrorKind \<Rightarrow> bool" where
  "is_closing ConnectionReset = True"
| "is_closing ConnectionAborted = True"
| "is_closing BrokenPipe = True"
| "is_closing ConnectionRefused = True"
| "is_closing _ = False"

subsection \<open>Reading\<close>

text \<open>\<open>Read::read\<close> into a slice of \<open>n\<close> bytes.\<close>

fun os_read :: "nat \<Rightarrow> kernel_read list \<Rightarrow> (ErrorKind + bytes) \<times> kernel_read list" where
  "os_read n [] = (Inr [], [])"
| "os_read n (Arrived bs # k) =
     (if bs = [] then (Inr [], Arrived [] # k)
      else if length bs \<le> n then (Inr bs, k)
      else (Inr (take n bs), Arrived (drop n bs) # k))"
| "os_read n (ReadFault e # k) = (Inl e, if is_closing e then [] else k)"

lemma os_read_interrupted: "(Inl e, k') = os_read n k \<Longrightarrow> length k' < length k"
  by (cases "(n, k)" rule: os_read.cases) (auto split: if_splits)

text \<open>The loop of \<open>plain_socket_read\<close>.\<close>

function read_uninterrupted :: "nat \<Rightarrow> kernel_read list \<Rightarrow> (ErrorKind + bytes) \<times> kernel_read list" where
  "read_uninterrupted n k =
     (case os_read n k of
        (Inl Interrupted, k) \<Rightarrow> read_uninterrupted n k
      | r \<Rightarrow> r)"
  by pat_completeness auto
termination
  by (relation "measure (\<lambda>(n, k). length k)") (auto intro: os_read_interrupted)

declare read_uninterrupted.simps [simp del]

definition plain_socket_read ::
  "nat \<Rightarrow> kernel_read list \<Rightarrow> (bytes \<times> SocketResult \<times> ErrorKind option) \<times> kernel_read list" where
  "plain_socket_read n k =
     (if n = 0 then (([], SockContinue, None), k)
      else
        let (read, k) = read_uninterrupted n k in
        (case read of
           Inr data \<Rightarrow>
             if data = [] then ([], SockClosed, None)
             else if length data = n then (data, SockContinue, None)
             else (data, SockWouldBlock, None)
         | Inl WouldBlock \<Rightarrow> ([], SockWouldBlock, None)
         | Inl e \<Rightarrow> if is_closing e then ([], SockClosed, None) else ([], SockError, Some e), k))"

type_synonym 's socket_read = "nat \<Rightarrow> 's \<Rightarrow> (bytes \<times> SocketResult) \<times> 's"

definition tcp_socket_read :: "kernel_read list socket_read" where
  "tcp_socket_read n k = (let ((data, res, fault), k) = plain_socket_read n k in ((data, res), k))"

subsection \<open>Writing\<close>

text \<open>A write side: the bytes the kernel has accepted and the answers to come. With none left the socket is full.\<close>

record WriteSide =
  accepted :: bytes
  answers :: "kernel_write list"

definition os_write :: "bytes \<Rightarrow> WriteSide \<Rightarrow> (ErrorKind + nat) \<times> WriteSide" where
  "os_write buf w =
     (case answers w of
        [] \<Rightarrow> (Inl WouldBlock, w)
      | Room m # k \<Rightarrow> (Inr (min m (length buf)), \<lparr>accepted = accepted w @ take m buf, answers = k\<rparr>)
      | WriteFault e # k \<Rightarrow> (Inl e, w\<lparr>answers := k\<rparr>))"

datatype PlainWriteFault = LoopLimit | Io ErrorKind

fun plain_write_error :: "ErrorKind \<Rightarrow> SocketResult \<times> PlainWriteFault option" where
  "plain_write_error WouldBlock = (SockWouldBlock, None)"
| "plain_write_error ConnectionReset = (SockClosed, None)"
| "plain_write_error ConnectionAborted = (SockClosed, None)"
| "plain_write_error BrokenPipe = (SockClosed, None)"
| "plain_write_error ConnectionRefused = (SockClosed, None)"
| "plain_write_error e = (SockError, Some (Io e))"

text \<open>The loop; the first argument is the number of iterations left below \<open>MAX_LOOP_ITERATIONS\<close>.\<close>

fun plain_socket_write_loop ::
  "nat \<Rightarrow> bytes \<Rightarrow> nat \<Rightarrow> WriteSide \<Rightarrow> (nat \<times> SocketResult \<times> PlainWriteFault option) \<times> WriteSide" where
  "plain_socket_write_loop 0 buf sz w = ((sz, SockError, Some LoopLimit), w)"
| "plain_socket_write_loop (Suc c) buf sz w =
     (if sz = length buf then ((sz, SockContinue, None), w)
      else case os_write (drop sz buf) w of
             (Inr n, w) \<Rightarrow>
               if n = 0 then ((sz, SockContinue, None), w) else plain_socket_write_loop c buf (sz + n) w
           | (Inl Interrupted, w) \<Rightarrow> plain_socket_write_loop c buf sz w
           | (Inl e, w) \<Rightarrow> ((sz, plain_write_error e), w))"

definition plain_socket_write ::
  "bytes \<Rightarrow> WriteSide \<Rightarrow> (nat \<times> SocketResult \<times> PlainWriteFault option) \<times> WriteSide" where
  "plain_socket_write buf w = plain_socket_write_loop MAX_LOOP_ITERATIONS buf 0 w"

definition tcp_socket_write :: "bytes \<Rightarrow> WriteSide \<Rightarrow> (nat \<times> SocketResult) \<times> WriteSide" where
  "tcp_socket_write buf w = (let ((sz, res, fault), w) = plain_socket_write buf w in ((sz, res), w))"

text \<open>One \<open>writev\<close> over the concatenation of the slices, retried when interrupted.\<close>

function write_vectored_uninterrupted :: "bytes list \<Rightarrow> WriteSide \<Rightarrow> (ErrorKind + nat) \<times> WriteSide" where
  "write_vectored_uninterrupted bufs w =
     (case os_write (concat bufs) w of
        (Inl Interrupted, w) \<Rightarrow> write_vectored_uninterrupted bufs w
      | r \<Rightarrow> r)"
  by pat_completeness auto
termination
  by (relation "measure (\<lambda>(bufs, w). length (answers w))")
    (auto simp: os_write_def split: list.splits kernel_write.splits)

declare write_vectored_uninterrupted.simps [simp del]

definition plain_socket_write_vectored ::
  "bytes list \<Rightarrow> WriteSide \<Rightarrow> (nat \<times> SocketResult \<times> PlainWriteFault option) \<times> WriteSide" where
  "plain_socket_write_vectored bufs w =
     (let (written, w) = write_vectored_uninterrupted bufs w in
      (case written of Inr sz \<Rightarrow> (sz, SockContinue, None) | Inl e \<Rightarrow> (0, plain_write_error e), w))"

definition tcp_socket_write_vectored :: "bytes list \<Rightarrow> WriteSide \<Rightarrow> (nat \<times> SocketResult) \<times> WriteSide" where
  "tcp_socket_write_vectored bufs w = (let ((sz, res, fault), w) = plain_socket_write_vectored bufs w in ((sz, res), w))"

subsection \<open>The contract of a socket that is read\<close>

text \<open>
  What a protocol state relies on: a read delivers the next pending bytes, at most as many as asked;
  a closed socket has none left; while some are pending every read gets closer to them; and a sound
  socket, one without transport errors, never reports one.
\<close>

locale byte_source =
  fixes rd :: "'s socket_read" and pending :: "'s \<Rightarrow> bytes" and effort :: "'s \<Rightarrow> nat" and sound :: "'s \<Rightarrow> bool"
  assumes delivers: "rd n s = ((data, res), s') \<Longrightarrow> length data \<le> n \<and> pending s = data @ pending s'"
    and closed: "rd n s = ((data, SockClosed), s') \<Longrightarrow> pending s' = []"
    and progress: "rd n s = (r, s') \<Longrightarrow> 0 < n \<Longrightarrow> pending s \<noteq> [] \<Longrightarrow> effort s' < effort s"
    and sound: "rd n s = ((data, res), s') \<Longrightarrow> sound s \<Longrightarrow> res \<noteq> SockError \<and> sound s'"

text \<open>The bytes a kernel script delivers, the number of steps it can take, and that it has no transport error.\<close>

fun kernel_pending :: "kernel_read list \<Rightarrow> bytes" where
  "kernel_pending [] = []"
| "kernel_pending (Arrived bs # k) = (if bs = [] then [] else bs @ kernel_pending k)"
| "kernel_pending (ReadFault e # k) = (if is_closing e then [] else kernel_pending k)"

fun kernel_effort :: "kernel_read list \<Rightarrow> nat" where
  "kernel_effort [] = 0"
| "kernel_effort (Arrived bs # k) = length bs + kernel_effort k"
| "kernel_effort (ReadFault e # k) = Suc (kernel_effort k)"

fun kernel_sound :: "kernel_read list \<Rightarrow> bool" where
  "kernel_sound [] = True"
| "kernel_sound (Arrived bs # k) = kernel_sound k"
| "kernel_sound (ReadFault e # k) = ((\<forall>n. e \<noteq> OtherKind n) \<and> kernel_sound k)"

lemma os_read_pending:
  assumes "os_read n k = (r, k')"
  shows "kernel_pending k = (case r of Inr data \<Rightarrow> data | Inl e \<Rightarrow> []) @ kernel_pending k'"
    and "r = Inr data \<Longrightarrow> length data \<le> n" and "r = Inr [] \<Longrightarrow> 0 < n \<Longrightarrow> kernel_pending k' = []"
    and "r = Inl e \<Longrightarrow> is_closing e \<Longrightarrow> kernel_pending k' = []"
    and "0 < n \<Longrightarrow> kernel_pending k \<noteq> [] \<Longrightarrow> kernel_effort k' < kernel_effort k"
    and "kernel_sound k \<Longrightarrow> kernel_sound k' \<and> r \<noteq> Inl (OtherKind m)"
  using assms by (cases "(n, k)" rule: os_read.cases; auto split: if_splits)+

lemma read_uninterrupted_pending:
  assumes "read_uninterrupted n k = (r, k')"
  shows "kernel_pending k = (case r of Inr data \<Rightarrow> data | Inl e \<Rightarrow> []) @ kernel_pending k' \<and>
    (\<forall>data. r = Inr data \<longrightarrow> length data \<le> n \<and> (data = [] \<and> 0 < n \<longrightarrow> kernel_pending k' = [])) \<and>
    (\<forall>e. r = Inl e \<longrightarrow> e \<noteq> Interrupted \<and> (is_closing e \<longrightarrow> kernel_pending k' = [])) \<and>
    (0 < n \<and> kernel_pending k \<noteq> [] \<longrightarrow> kernel_effort k' < kernel_effort k) \<and>
    (kernel_sound k \<longrightarrow> kernel_sound k' \<and> (\<forall>m. r \<noteq> Inl (OtherKind m)))"
  using assms
proof (induction n k rule: read_uninterrupted.induct)
  case (1 n k)
  obtain q m where q: "os_read n k = (q, m)" by (rule prod.exhaust)
  note laws = os_read_pending [OF q]
  show ?case
  proof (cases "q = Inl Interrupted")
    case True
    then have "read_uninterrupted n m = (r, k')" using 1(2) q by (simp add: read_uninterrupted.simps [of n k])
    from 1(1) [OF q [symmetric] True refl this] show ?thesis using laws(1,5,6) True by auto
  next
    case False
    then have "(q, m) = (r, k')"
      using 1(2) q by (auto simp: read_uninterrupted.simps [of n k] split: sum.splits ErrorKind.splits)
    then show ?thesis using laws False by auto
  qed
qed

lemma tcp_socket_read_cases:
  assumes "tcp_socket_read n k = ((data, res), k')"
  shows "length data \<le> n \<and> kernel_pending k = data @ kernel_pending k' \<and> (res = SockClosed \<longrightarrow> kernel_pending k' = []) \<and>
    (0 < n \<and> kernel_pending k \<noteq> [] \<longrightarrow> kernel_effort k' < kernel_effort k) \<and>
    (kernel_sound k \<longrightarrow> kernel_sound k' \<and> res \<noteq> SockError)"
proof (cases "n = 0")
  case True
  then show ?thesis using assms by (auto simp: tcp_socket_read_def plain_socket_read_def)
next
  case False
  obtain r m where r: "read_uninterrupted n k = (r, m)" by (rule prod.exhaust)
  from read_uninterrupted_pending [OF r] assms False show ?thesis
    by (auto simp: tcp_socket_read_def plain_socket_read_def r split: sum.splits if_splits ErrorKind.splits)
qed

interpretation tcp_source: byte_source tcp_socket_read kernel_pending kernel_effort kernel_sound
proof
  fix n k data res k' r
  show "tcp_socket_read n k = ((data, res), k') \<Longrightarrow> length data \<le> n \<and> kernel_pending k = data @ kernel_pending k'"
    using tcp_socket_read_cases by blast
  show "tcp_socket_read n k = ((data, SockClosed), k') \<Longrightarrow> kernel_pending k' = []"
    using tcp_socket_read_cases by blast
  show "tcp_socket_read n k = (r, k') \<Longrightarrow> 0 < n \<Longrightarrow> kernel_pending k \<noteq> [] \<Longrightarrow> kernel_effort k' < kernel_effort k"
    using tcp_socket_read_cases by (cases r) blast
  show "tcp_socket_read n k = ((data, res), k') \<Longrightarrow> kernel_sound k \<Longrightarrow> res \<noteq> SockError \<and> kernel_sound k'"
    using tcp_socket_read_cases by blast
qed

subsection \<open>What a write leaves behind\<close>

text \<open>The result of a write follows from the answers the kernel used up, of which it took one per iteration.\<close>

definition write_explained :: "nat \<Rightarrow> nat \<Rightarrow> SocketResult \<Rightarrow> kernel_write list \<Rightarrow> WriteSide \<Rightarrow> bool" where
  "write_explained c left res used w' \<longleftrightarrow>
     (res = SockContinue \<longrightarrow> left = 0 \<or> used \<noteq> [] \<and> last used = Room 0) \<and>
     (res = SockWouldBlock \<longrightarrow> left \<noteq> 0 \<and> (answers w' = [] \<or> used \<noteq> [] \<and> last used = WriteFault WouldBlock)) \<and>
     (res = SockClosed \<longrightarrow> left \<noteq> 0 \<and> used \<noteq> [] \<and> (\<exists>e. last used = WriteFault e \<and> is_closing e)) \<and>
     (res = SockError \<longrightarrow> length used = c \<or> left \<noteq> 0 \<and> used \<noteq> [] \<and> (\<exists>k. last used = WriteFault (OtherKind k)))"

definition write_exact ::
  "nat \<Rightarrow> bytes \<Rightarrow> nat \<Rightarrow> WriteSide \<Rightarrow> (nat \<times> SocketResult \<times> PlainWriteFault option) \<times> WriteSide \<Rightarrow> bool" where
  "write_exact c buf sz w r =
     (case r of ((sz', res, fault), w') \<Rightarrow>
        sz \<le> sz' \<and> sz' \<le> length buf \<and> accepted w' = accepted w @ slice buf sz sz' \<and> fault \<noteq> Some (Io Interrupted) \<and>
        (\<exists>used. answers w = used @ answers w' \<and> write_explained c (length buf - sz') res used w'))"

lemma write_exact_step:
  assumes "answers w = a # k" and "n \<le> length buf - sz" and "sz \<le> length buf"
    and "write_exact c buf (sz + n) \<lparr>accepted = accepted w @ take n (drop sz buf), answers = k\<rparr> r"
  shows "write_exact (Suc c) buf sz w r"
proof -
  obtain sz' res fault w' where r: "r = ((sz', res, fault), w')" by (metis prod.exhaust)
  obtain used where u: "sz + n \<le> sz'" "sz' \<le> length buf" "accepted w' = accepted w @ take n (drop sz buf) @ slice buf (sz + n) sz'"
    "fault \<noteq> Some (Io Interrupted)" "k = used @ answers w'" "write_explained c (length buf - sz') res used w'"
    using assms(4) by (auto simp: write_exact_def r)
  have "write_explained (Suc c) (length buf - sz') res (a # used) w'" using u(6) by (auto simp: write_explained_def)
  moreover have "take n (drop sz buf) @ slice buf (sz + n) sz' = slice buf sz sz'"
    using u(1) take_add [of n "sz' - (sz + n)" "drop sz buf"] by (simp add: slice_def add.commute)
  ultimately show ?thesis using u assms(1) by (auto simp: write_exact_def r)
qed

lemma plain_socket_write_loop_exact: "sz \<le> length buf \<Longrightarrow> write_exact c buf sz w (plain_socket_write_loop c buf sz w)"
proof (induction c arbitrary: sz w)
  case 0
  then show ?case by (auto simp: write_exact_def write_explained_def slice_def)
next
  case (Suc c)
  note explained = write_exact_def write_explained_def slice_def os_write_def
  consider (stop) "sz = length buf \<or> answers w = []" | (room) n k where "sz < length buf" "answers w = Room n # k"
    | (fault) e k where "sz < length buf" "answers w = WriteFault e # k"
    using Suc.prems by (metis kernel_write.exhaust list.exhaust le_neq_implies_less)
  then show ?case
  proof cases
    case stop
    then show ?thesis using Suc.prems by (auto simp: explained)
  next
    case (room n k)
    let ?n = "min n (length buf - sz)"
    have "write_exact (Suc c) buf sz w (plain_socket_write_loop c buf (sz + ?n) \<lparr>accepted = accepted w @ take ?n (drop sz buf), answers = k\<rparr>)"
      using room by (intro write_exact_step [of _ "Room n" k ?n] Suc.IH) auto
    moreover have "take ?n (drop sz buf) = take n (drop sz buf)" by (auto simp: min_def)
    ultimately have "write_exact (Suc c) buf sz w (plain_socket_write_loop (Suc c) buf sz w)" if "n \<noteq> 0"
      using room that by (simp add: os_write_def min_def)
    moreover have "write_exact (Suc c) buf sz w (plain_socket_write_loop (Suc c) buf sz w)" if "n = 0"
      using room that by (simp add: explained)
    ultimately show ?thesis by blast
  next
    case (fault e k)
    have "write_exact (Suc c) buf sz w (plain_socket_write_loop c buf (sz + 0) \<lparr>accepted = accepted w @ take 0 (drop sz buf), answers = k\<rparr>)"
      using fault by (intro write_exact_step [of _ "WriteFault e" k 0] Suc.IH) auto
    then have "write_exact (Suc c) buf sz w (plain_socket_write_loop (Suc c) buf sz w)" if "e = Interrupted"
      using fault that by (cases w) (simp add: os_write_def)
    moreover have "write_exact (Suc c) buf sz w (plain_socket_write_loop (Suc c) buf sz w)" if "e \<noteq> Interrupted"
      using fault that by (cases e) (simp_all add: explained)
    ultimately show ?thesis by blast
  qed
qed

subsection \<open>The contract of a socket that is written\<close>

text \<open>A vectored write takes a prefix of what it is offered, as long as it reports.\<close>

locale byte_sink =
  fixes wr :: "bytes list \<Rightarrow> 'w \<Rightarrow> (nat \<times> SocketResult) \<times> 'w" and taken :: "'w \<Rightarrow> bytes"
  assumes takes: "wr bufs w = ((n, res), w') \<Longrightarrow> n \<le> length (concat bufs) \<and> taken w' = taken w @ take n (concat bufs)"

lemma write_vectored_takes:
  "write_vectored_uninterrupted bufs w = (r, w') \<Longrightarrow>
     (case r of Inr n \<Rightarrow> n \<le> length (concat bufs) \<and> accepted w' = accepted w @ take n (concat bufs)
      | Inl _ \<Rightarrow> accepted w' = accepted w)"
proof (induction bufs w rule: write_vectored_uninterrupted.induct)
  case (1 bufs w)
  obtain a w1 where a: "os_write (concat bufs) w = (a, w1)" by fastforce
  then show ?case
    using 1 by (cases "a = Inl Interrupted")
      (auto simp: write_vectored_uninterrupted.simps [of bufs w] os_write_def min_def
        split: list.splits kernel_write.splits ErrorKind.splits sum.splits)
qed

interpretation tcp_sink: byte_sink tcp_socket_write_vectored accepted
proof
  fix bufs w n res w'
  assume w: "tcp_socket_write_vectored bufs w = ((n, res), w')"
  obtain r w1 where r: "write_vectored_uninterrupted bufs w = (r, w1)" by fastforce
  show "n \<le> length (concat bufs) \<and> accepted w' = accepted w @ take n (concat bufs)"
    using write_vectored_takes [OF r] w r
    by (auto simp: tcp_socket_write_vectored_def plain_socket_write_vectored_def split: sum.splits prod.splits)
qed

text \<open>
  C29: what a socket accepts or delivers is exact. A write hands the kernel precisely a prefix of the
  buffer, of the length it reports, and its result is the kernel's last answer: it stops early only
  at a zero-length write, a full socket, a close or a fault, and an interruption is never one of
  them. The iteration guard ends it only after that many answers. A read returns the next bytes of the
  stream, at most as many as asked, and reports a closed socket only when none are left.
\<close>

theorem tcp_socket_io_exact:
  assumes "plain_socket_write buf w = ((sz, res, fault), w')" and "tcp_socket_read n k = ((data, got), k')"
  shows "sz \<le> length buf \<and> accepted w' = accepted w @ take sz buf \<and> fault \<noteq> Some (Io Interrupted) \<and>
    (\<exists>used. answers w = used @ answers w' \<and> write_explained MAX_LOOP_ITERATIONS (length buf - sz) res used w') \<and>
    length data \<le> n \<and> kernel_pending k = data @ kernel_pending k' \<and> (got = SockClosed \<longrightarrow> kernel_pending k' = [])"
  using plain_socket_write_loop_exact [of 0 buf MAX_LOOP_ITERATIONS w] assms(1)
    tcp_source.delivers [OF assms(2)] tcp_source.closed [of n k data k'] assms(2)
  by (auto simp: plain_socket_write_def write_exact_def slice_def)

theorem tcp_socket_io_exact_witness:
  "tcp_socket_read 4 [ReadFault Interrupted, Arrived [1, 2, 3, 4, 5]] = (([1, 2, 3, 4], SockContinue), [Arrived [5]]) \<and>
   (\<exists>w'. plain_socket_write [1, 2, 3] \<lparr>accepted = [9], answers = [Room 1, WriteFault Interrupted, Room 5]\<rparr> = ((3, SockContinue, None), w') \<and>
     accepted w' = [9, 1, 2, 3])"
proof -
  let ?w = "\<lparr>accepted = [9], answers = [Room 1, WriteFault Interrupted, Room 5]\<rparr>"
  obtain c where m: "MAX_LOOP_ITERATIONS = Suc (Suc (Suc (Suc c)))"
    using that [of 99996] by (simp add: MAX_LOOP_ITERATIONS_def)
  have w: "plain_socket_write [1, 2, 3] ?w = ((3, SockContinue, None), \<lparr>accepted = [9, 1, 2, 3], answers = []\<rparr>)"
    unfolding plain_socket_write_def m by (simp add: os_write_def)
  have r: "tcp_socket_read 4 [ReadFault Interrupted, Arrived [1, 2, 3, 4, 5]] = (([1, 2, 3, 4], SockContinue), [Arrived [5]])"
    by (simp add: tcp_socket_read_def plain_socket_read_def read_uninterrupted.simps)
  show ?thesis using tcp_socket_io_exact [OF w r] w r by auto
qed

end
