(* ===== verification/H2_Shell.thy ===== *)
theory H2_Shell
  imports H2_Connection_Control Sozu_Socket
begin

text \<open>
  The socket side of an HTTP/2 connection, \<open>H2Shell\<close> of \<^verbatim>\<open>src/lib/src/protocol/mux/h2.rs\<close>: writing the
  output queue, flushing TLS records, the control part of a writable pass and the settlement of a
  disconnect. The trait \<open>SocketHandler\<close> of \<^verbatim>\<open>src/lib/src/socket.rs\<close> is a record of operations over the
  state of a socket, its contract a locale.
\<close>

record 'w SocketHandler =
  sk_write :: "bytes \<Rightarrow> 'w \<Rightarrow> (nat \<times> SocketResult) \<times> 'w"
  sk_wants_write :: "'w \<Rightarrow> bool"
  sk_close :: "'w \<Rightarrow> 'w"
  sk_write_then_close :: "bytes \<Rightarrow> 'w \<Rightarrow> (nat \<times> SocketResult) \<times> 'w"

definition default_write_then_close ::
  "(bytes \<Rightarrow> 'w \<Rightarrow> (nat \<times> SocketResult) \<times> 'w) \<Rightarrow> ('w \<Rightarrow> 'w) \<Rightarrow> bytes \<Rightarrow> 'w \<Rightarrow> (nat \<times> SocketResult) \<times> 'w" where
  "default_write_then_close write close buf w =
     (case write buf w of ((n, status), w) \<Rightarrow> ((n, status), if n = length buf then close w else w))"

definition tcp_handler :: "WriteSide SocketHandler" where
  "tcp_handler =
     \<lparr>sk_write = tcp_socket_write, sk_wants_write = (\<lambda>w. False), sk_close = (\<lambda>w. w),
      sk_write_then_close = default_write_then_close tcp_socket_write (\<lambda>w. w)\<rparr>"

record ('w, 'sl) H2Shell =
  sh_core :: "'sl ConnectionH2"
  sh_socket :: 'w
  sh_write_failed :: bool

definition record_write :: "SocketResult \<Rightarrow> ('w, 'sl) H2Shell \<Rightarrow> ('w, 'sl) H2Shell" where
  "record_write status sh =
     (if is_server (cn_position (sh_core sh)) \<and> (status = SockError \<or> status = SockClosed)
      then sh\<lparr>sh_write_failed := True\<rparr> else sh)"

definition tls_wants_write :: "'w SocketHandler \<Rightarrow> ('w, 'sl) H2Shell \<Rightarrow> bool" where
  "tls_wants_write H sh = sk_wants_write H (sh_socket sh)"

definition flush_tls_records :: "'w SocketHandler \<Rightarrow> ('w, 'sl) H2Shell \<Rightarrow> (nat \<times> SocketResult) \<times> ('w, 'sl) H2Shell" where
  "flush_tls_records H sh =
     (case sk_write H [] (sh_socket sh) of ((n, status), w) \<Rightarrow>
        ((n, status), record_write status (sh\<lparr>sh_socket := w, sh_core := note_write_status status (sh_core sh)\<rparr>)))"

text \<open>The write of \<open>flush_output_to_socket\<close>, and one round of its loop: whether it stalled.\<close>

definition write_pending :: "'w SocketHandler \<Rightarrow> ('w, 'sl) H2Shell \<Rightarrow> (nat \<times> SocketResult) \<times> ('w, 'sl) H2Shell" where
  "write_pending H sh =
     (let pending = output_pending (cn_output (sh_core sh)) in
      if output_flush_closes_connection (sh_core sh) then
        (case sk_write_then_close H pending (sh_socket sh) of ((n, status), w) \<Rightarrow>
           ((n, status), sh\<lparr>sh_socket := w,
              sh_core := (if n = length pending then (sh_core sh)\<lparr>cn_close_notify_sent := True\<rparr> else sh_core sh)\<rparr>))
      else (case sk_write H pending (sh_socket sh) of ((n, status), w) \<Rightarrow> ((n, status), sh\<lparr>sh_socket := w\<rparr>)))"

definition flush_round :: "'w SocketHandler \<Rightarrow> ('w, 'sl) H2Shell \<Rightarrow> bool \<times> ('w, 'sl) H2Shell" where
  "flush_round H sh =
     (case write_pending H sh of ((n, status), sh) \<Rightarrow>
      let sh = record_write status sh in
      case consume_output_flush n status (sh_core sh) of (stalled, c) \<Rightarrow> (stalled, sh\<lparr>sh_core := c\<rparr>))"

lemma output_len_compact: "output_len (output_compact q) = output_len q"
  by (simp add: output_compact_def output_len_def output_stored_def)

lemma output_len_consume:
  assumes "0 < n" and "\<not> output_is_empty q"
  shows "output_len (snd (output_consume n q)) < output_len q"
proof -
  define m where "m = min n (output_len q)"
  define q1 where "q1 = q\<lparr>out_head := out_head q + m, out_prepaid := out_prepaid q - min m (out_prepaid q)\<rparr>"
  have len: "output_len q1 = output_len q - m" by (simp add: q1_def output_len_def output_stored_def)
  have "snd (output_consume n q) = (if output_is_empty q1 then output_clear q1 else output_compact q1)"
    by (simp add: output_consume_def Let_def m_def [symmetric] q1_def [symmetric])
  moreover have "output_len (output_clear q1) = 0" by (simp add: output_clear_def output_len_def output_stored_def)
  ultimately have "output_len (snd (output_consume n q)) \<le> output_len q - m" by (simp add: output_len_compact len)
  moreover have "0 < output_len q" using assms(2) by (simp add: output_is_empty_def)
  ultimately show ?thesis using assms(1) by (simp add: m_def)
qed

lemma consume_output_output: "cn_output (consume_output n c) = snd (output_consume n (cn_output c))"
  by (simp add: consume_output_def Let_def interest_insert_def split: prod.split)

lemma write_pending_core:
  assumes "write_pending H sh = ((n, status), sh')"
  shows "\<exists>sent. sh_core sh' = (sh_core sh)\<lparr>cn_close_notify_sent := sent\<rparr>"
proof -
  have "sh_core sh = (sh_core sh)\<lparr>cn_close_notify_sent := cn_close_notify_sent (sh_core sh)\<rparr>" by simp
  then have "\<exists>sent. sh_core sh = (sh_core sh)\<lparr>cn_close_notify_sent := sent\<rparr>" by (rule exI)
  then show ?thesis using assms by (auto simp: write_pending_def Let_def split: if_splits prod.splits)
qed

lemma record_write_core [simp]: "sh_core (record_write status sh) = sh_core sh" "sh_socket (record_write status sh) = sh_socket sh"
  by (simp_all add: record_write_def)

lemma consume_output_flush_effect:
  assumes "consume_output_flush n status c = (stalled, c')"
  shows "cn_output c' = snd (output_consume n (cn_output c))" and "stalled \<longleftrightarrow> n = 0"
  using assms
  by (auto simp: consume_output_flush_def consume_output_output note_write_status_def update_readiness_after_write_def
      update_readiness_def Let_def split: if_splits)

lemma flush_round_effect:
  assumes "flush_round H sh = (stalled, sh')"
  obtains n status sh1 sent c where "write_pending H sh = ((n, status), sh1)" and "sh_core sh1 = (sh_core sh)\<lparr>cn_close_notify_sent := sent\<rparr>"
    and "consume_output_flush n status (sh_core sh1) = (stalled, c)" and "sh' = (record_write status sh1)\<lparr>sh_core := c\<rparr>"
proof -
  obtain n status sh1 where w: "write_pending H sh = ((n, status), sh1)" by (metis surj_pair)
  obtain st c where "consume_output_flush n status (sh_core sh1) = (st, c)" by fastforce
  with w write_pending_core [OF w] assms show thesis by (auto simp: flush_round_def Let_def intro: that)
qed

lemma flush_round_output:
  assumes "flush_round H sh = (stalled, sh')" and "\<not> output_is_empty (cn_output (sh_core sh))" and "\<not> stalled"
  shows "output_len (cn_output (sh_core sh')) < output_len (cn_output (sh_core sh))"
proof -
  obtain n status sh1 sent c where "sh_core sh1 = (sh_core sh)\<lparr>cn_close_notify_sent := sent\<rparr>"
    and c: "consume_output_flush n status (sh_core sh1) = (stalled, c)" and "sh' = (record_write status sh1)\<lparr>sh_core := c\<rparr>"
    using assms(1) by (rule flush_round_effect)
  then show ?thesis using consume_output_flush_effect [OF c] output_len_consume [of n "cn_output (sh_core sh)"] assms(2,3) by simp
qed

function flush_output_to_socket :: "'w SocketHandler \<Rightarrow> ('w, 'sl) H2Shell \<Rightarrow> bool \<times> ('w, 'sl) H2Shell" where
  "flush_output_to_socket H sh =
     (if output_is_empty (cn_output (sh_core sh)) then (False, sh)
      else case flush_round H sh of (stalled, sh) \<Rightarrow> if stalled then (True, sh) else flush_output_to_socket H sh)"
  by pat_completeness auto
termination
proof (relation "measure (\<lambda>(H, sh). output_len (cn_output (sh_core sh)))", goal_cases)
  case (2 H sh r)
  then show ?case using flush_round_output [of H sh] by (cases "flush_round H sh") auto
qed simp

declare flush_output_to_socket.simps [simp del]

subsection \<open>The control part of a writable pass\<close>

datatype ControlFlushOutcome = OutcomeProceed | OutcomeDone MuxResult | OutcomeStalled

text \<open>The loop of the source turns at most twice: \<open>handle_control_flush\<close> never asks for another flush.\<close>

definition drive_control_flush :: "('s, 'g) CookieFactory \<Rightarrow> 'w SocketHandler \<Rightarrow> ('w, 'sl) H2Shell \<Rightarrow> ControlFlushOutcome \<times> ('w, 'sl) H2Shell" where
  "drive_control_flush C H sh =
     (case flush_pending_control_frames C (sh_core sh) of (t, c) \<Rightarrow>
      let sh = sh\<lparr>sh_core := c\<rparr>;
          (t, sh) = (if t = FlushOutput
                     then (case flush_output_to_socket H sh of (stalled, sh) \<Rightarrow> (handle_control_flush stalled, sh)) else (t, sh))
      in (case t of FlushDone r \<Rightarrow> OutcomeDone r | FlushStalled \<Rightarrow> OutcomeStalled | _ \<Rightarrow> OutcomeProceed, sh))"

datatype PassOutcome = PassDone MuxResult | PassStreams

text \<open>
  \<open>writable_inner\<close> up to where \<open>write_streams\<close> takes over, on a connection that has no stale stream to
  prune, and the part of it behind the control flush; \<open>None\<close> is the panic of an unreachable arm.
\<close>

definition writable_dispatch ::
  "('s, 'g) CookieFactory \<Rightarrow> 'w SocketHandler \<Rightarrow> ('w, 'sl) H2Shell \<Rightarrow> (PassOutcome \<times> ('w, 'sl) H2Shell) option" where
  "writable_dispatch C H sh =
     (let sh = (if tls_wants_write H sh then snd (flush_tls_records H sh) else sh) in
      case dispatch_writable_state C (tls_wants_write H sh) (sh_core sh) of
        None \<Rightarrow> None
      | Some (WritableDone r, c) \<Rightarrow> Some (PassDone r, sh\<lparr>sh_core := c\<rparr>)
      | Some (WritableFlush, c) \<Rightarrow>
          (let sh = snd (flush_tls_records H (sh\<lparr>sh_core := c\<rparr>)) in
           case dispatch_writable_state_after_flush (tls_wants_write H sh) (sh_core sh) of
             None \<Rightarrow> None
           | Some (r, c) \<Rightarrow> Some (PassDone r, sh\<lparr>sh_core := c\<rparr>))
      | Some (WriteStreams, c) \<Rightarrow> Some (PassStreams, sh\<lparr>sh_core := c\<rparr>))"

definition writable_control ::
  "('s, 'g) CookieFactory \<Rightarrow> 'w SocketHandler \<Rightarrow> nat \<Rightarrow> ('w, 'sl) H2Shell \<Rightarrow> (PassOutcome \<times> ('w, 'sl) H2Shell) option" where
  "writable_control C H now sh =
     (let sh = sh\<lparr>sh_core := (sh_core sh)\<lparr>cn_now := now, cn_kernel_refused_write := False\<rparr>\<rparr> in
      case drive_control_flush C H sh of
        (OutcomeDone r, sh) \<Rightarrow> Some (PassDone r, sh)
      | (OutcomeStalled, sh) \<Rightarrow>
          Some (PassDone MuxContinue, sh\<lparr>sh_core := ensure_tls_flushed (tls_wants_write H sh) (sh_core sh)\<rparr>)
      | (OutcomeProceed, sh) \<Rightarrow> writable_dispatch C H sh)"

definition settled :: "'w SocketHandler \<Rightarrow> MuxResult \<Rightarrow> ('w, 'sl) H2Shell \<Rightarrow> MuxResult \<times> ('w, 'sl) H2Shell" where
  "settled H r sh =
     (case poll_force_disconnect (sh_core sh) of (t, c) \<Rightarrow>
      let sh = sh\<lparr>sh_core := c\<rparr> in
      case t of
        None \<Rightarrow> (r, sh)
      | Some t \<Rightarrow> (case force_disconnect_after_query t (tls_wants_write H sh) (sh_core sh) of (r, c) \<Rightarrow> (r, sh\<lparr>sh_core := c\<rparr>)))"

subsection \<open>The contract of a socket handler\<close>

text \<open>\<open>taken\<close> is what the handler accepted so far, the plaintext of a TLS one.\<close>

locale socket_handler =
  fixes H :: "'w SocketHandler" and taken :: "'w \<Rightarrow> bytes"
  assumes writes: "sk_write H buf w = ((n, status), w') \<Longrightarrow> n \<le> length buf \<and> taken w' = taken w @ take n buf"
    and writes_then_closes:
      "sk_write_then_close H buf w = ((n, status), w') \<Longrightarrow> n \<le> length buf \<and> taken w' = taken w @ take n buf"
begin

lemma write_pending_taken:
  assumes "write_pending H sh = ((n, status), sh')"
  shows "taken (sh_socket sh') = taken (sh_socket sh) @ take n (queued (sh_core sh))"
  using assms by (auto simp: write_pending_def queued_def Let_def split: if_splits prod.splits dest: writes writes_then_closes)

lemma flush_round_taken:
  assumes "flush_round H sh = (stalled, sh')" and "output_ok (cn_output (sh_core sh))"
  shows "output_ok (cn_output (sh_core sh'))"
    and "taken (sh_socket sh') @ queued (sh_core sh') = taken (sh_socket sh) @ queued (sh_core sh)"
    and "stalled \<Longrightarrow> queued (sh_core sh') = queued (sh_core sh)"
proof -
  obtain n status sh1 sent c where w: "write_pending H sh = ((n, status), sh1)"
    and sh1: "sh_core sh1 = (sh_core sh)\<lparr>cn_close_notify_sent := sent\<rparr>"
    and c: "consume_output_flush n status (sh_core sh1) = (stalled, c)" and sh': "sh' = (record_write status sh1)\<lparr>sh_core := c\<rparr>"
    using assms(1) by (rule flush_round_effect)
  obtain overhead q where q: "output_consume n (cn_output (sh_core sh)) = (overhead, q)" by fastforce
  have "cn_output (sh_core sh') = q" using consume_output_flush_effect(1) [OF c] sh1 sh' q by simp
  moreover have "queued (sh_core sh') = drop n (queued (sh_core sh))"
    using output_consume_ok(2) [OF assms(2) q] calculation by (simp add: queued_def)
  moreover have "taken (sh_socket sh') = taken (sh_socket sh) @ take n (queued (sh_core sh))"
    using write_pending_taken [OF w] sh' by simp
  ultimately show "output_ok (cn_output (sh_core sh'))"
    "taken (sh_socket sh') @ queued (sh_core sh') = taken (sh_socket sh) @ queued (sh_core sh)"
    "stalled \<Longrightarrow> queued (sh_core sh') = queued (sh_core sh)"
    using output_consume_ok(1) [OF assms(2) q] consume_output_flush_effect(2) [OF c] by auto
qed

lemma flush_output_taken:
  "output_ok (cn_output (sh_core sh)) \<Longrightarrow> flush_output_to_socket H sh = (stalled, sh') \<Longrightarrow>
     output_ok (cn_output (sh_core sh')) \<and>
     taken (sh_socket sh') @ queued (sh_core sh') = taken (sh_socket sh) @ queued (sh_core sh) \<and>
     (stalled \<longleftrightarrow> queued (sh_core sh') \<noteq> [])"
proof (induction "output_len (cn_output (sh_core sh))" arbitrary: sh rule: less_induct)
  case less
  show ?case
  proof (cases "output_is_empty (cn_output (sh_core sh))")
    case True
    then show ?thesis using less.prems output_is_empty_pending [OF less.prems(1)]
      by (simp add: flush_output_to_socket.simps [of H sh] queued_def)
  next
    case False
    obtain st sh1 where r: "flush_round H sh = (st, sh1)" by fastforce
    note round = flush_round_taken [OF r less.prems(1)]
    show ?thesis
    proof (cases st)
      case True
      then show ?thesis using less.prems False r round output_is_empty_pending [OF less.prems(1)]
        by (simp add: flush_output_to_socket.simps [of H sh] queued_def)
    next
      case st: False
      then have "flush_output_to_socket H sh1 = (stalled, sh')"
        using less.prems(2) False r by (simp add: flush_output_to_socket.simps [of H sh])
      then show ?thesis using less.hyps [OF flush_round_output [OF r False st] round(1)] round(2) by simp
    qed
  qed
qed

end

lemma tcp_socket_write_takes:
  assumes "tcp_socket_write buf w = ((n, status), w')"
  shows "n \<le> length buf \<and> accepted w' = accepted w @ take n buf"
  using assms plain_socket_write_loop_exact [of 0 buf MAX_LOOP_ITERATIONS w]
  by (auto simp: tcp_socket_write_def plain_socket_write_def write_exact_def slice_def split: prod.splits)

interpretation tcp_socket: socket_handler tcp_handler accepted
  by unfold_locales
    (auto simp: tcp_handler_def default_write_then_close_def dest!: tcp_socket_write_takes split: prod.splits)

subsection \<open>What a flush leaves alone\<close>

definition control_part where
  "control_part c = (cn_state c, cn_position c, cn_stream_table c, cn_flow_control c, cn_control_tx c, cn_drain c,
     cn_settings_sent_at c, cn_pending_force_disconnect c)"

lemma control_part_consume:
  "consume_output_flush n status c = (stalled, c') \<Longrightarrow> control_part c' = control_part c"
  by (auto simp: control_part_def consume_output_flush_def consume_output_def note_write_status_def interest_insert_def Let_def
      split: prod.splits if_splits)

lemma control_part_flush:
  "flush_output_to_socket H sh = (stalled, sh') \<Longrightarrow> control_part (sh_core sh') = control_part (sh_core sh)"
proof (induction H sh rule: flush_output_to_socket.induct)
  case (1 H sh)
  show ?case
  proof (cases "output_is_empty (cn_output (sh_core sh))")
    case True
    then show ?thesis using 1(2) by (simp add: flush_output_to_socket.simps [of H sh])
  next
    case False
    obtain st sh1 where r: "flush_round H sh = (st, sh1)" by fastforce
    then obtain n status sh2 sent c where "sh_core sh2 = (sh_core sh)\<lparr>cn_close_notify_sent := sent\<rparr>"
      and "consume_output_flush n status (sh_core sh2) = (st, c)" and "sh1 = (record_write status sh2)\<lparr>sh_core := c\<rparr>"
      by (rule flush_round_effect)
    then have "control_part (sh_core sh1) = control_part (sh_core sh)"
      using control_part_consume [of n status "sh_core sh2" st c] by (simp add: control_part_def)
    then show ?thesis using 1(1) [OF False r [symmetric]] 1(2) False r
      by (auto simp: flush_output_to_socket.simps [of H sh] split: if_splits)
  qed
qed

lemma conn_ok_flush:
  assumes "socket_handler H taken" and "conn_ok (sh_core sh)" and "flush_output_to_socket H sh = (stalled, sh')"
  shows "conn_ok (sh_core sh')"
  using assms(2) control_part_flush [OF assms(3)] socket_handler.flush_output_taken [OF assms(1) _ assms(3)]
  by (simp add: conn_ok_def control_part_def)

lemma drive_control_flush_taken:
  assumes "socket_handler H taken" and "cookie_documented wire C" and "conn_ok (sh_core sh)"
    and "drive_control_flush C H sh = (outcome, sh')" and "flush_pending_control_frames C (sh_core sh) = (t, c)"
  shows "conn_ok (sh_core sh')" and "taken (sh_socket sh') @ queued (sh_core sh') = taken (sh_socket sh) @ queued c"
    and "control_part (sh_core sh') = control_part c"
    and "outcome = (case t of FlushDone r \<Rightarrow> OutcomeDone r | FlushStalled \<Rightarrow> OutcomeStalled | FlushProceed \<Rightarrow> OutcomeProceed
           | FlushOutput \<Rightarrow> if queued (sh_core sh') = [] then OutcomeProceed else OutcomeStalled)"
    and "t \<noteq> FlushOutput \<Longrightarrow> sh' = sh\<lparr>sh_core := c\<rparr>"
    and "t = FlushOutput \<Longrightarrow> \<exists>stalled. flush_output_to_socket H (sh\<lparr>sh_core := c\<rparr>) = (stalled, sh')"
proof -
  have "conn_ok c"
    using flush_effect [OF assms(2) drop_if_hung_up_effect(1) [OF assms(3)] refl assms(5)] by blast
  then have ok: "conn_ok (sh_core (sh\<lparr>sh_core := c\<rparr>))" by simp
  obtain stalled sh1 where f: "flush_output_to_socket H (sh\<lparr>sh_core := c\<rparr>) = (stalled, sh1)" by fastforce
  have "output_ok (cn_output (sh_core (sh\<lparr>sh_core := c\<rparr>)))" using ok by (simp add: conn_ok_def)
  note taken = socket_handler.flush_output_taken [OF assms(1) this f] and same = control_part_flush [OF f]
    and ok1 = conn_ok_flush [OF assms(1) ok f]
  have d: "(outcome, sh') = (case (if t = FlushOutput then (handle_control_flush stalled, sh1) else (t, sh\<lparr>sh_core := c\<rparr>)) of
      (t, sh) \<Rightarrow> (case t of FlushDone r \<Rightarrow> OutcomeDone r | FlushStalled \<Rightarrow> OutcomeStalled | _ \<Rightarrow> OutcomeProceed, sh))"
    using assms(4) by (cases t) (simp_all add: drive_control_flush_def assms(5) f Let_def split: if_splits)
  show "conn_ok (sh_core sh')" "taken (sh_socket sh') @ queued (sh_core sh') = taken (sh_socket sh) @ queued c"
    "control_part (sh_core sh') = control_part c"
    "outcome = (case t of FlushDone r \<Rightarrow> OutcomeDone r | FlushStalled \<Rightarrow> OutcomeStalled | FlushProceed \<Rightarrow> OutcomeProceed
       | FlushOutput \<Rightarrow> if queued (sh_core sh') = [] then OutcomeProceed else OutcomeStalled)"
    "t \<noteq> FlushOutput \<Longrightarrow> sh' = sh\<lparr>sh_core := c\<rparr>"
    "t = FlushOutput \<Longrightarrow> \<exists>stalled. flush_output_to_socket H (sh\<lparr>sh_core := c\<rparr>) = (stalled, sh')"
    using f d ok ok1 taken same by (cases t; simp split: if_splits)+
qed

subsection \<open>What reaches the peer\<close>

lemma parse_rst_frames:
  assumes "nom_documented eof N" and "4 \<le> limit" and "list_all (\<lambda>e. fst e AND STREAM_ID_MASK \<noteq> 0) es"
  shows "parse_frames N (length es) (concat (map rst_frame es)) limit =
    Inr ([], map (\<lambda>(sid, e). RstStreamFrame (sid AND STREAM_ID_MASK) (h2_error_code e)) es)"
  using assms(3)
proof (induction es)
  case (Cons e es)
  obtain sid err where e: "e = (sid, err)" by (cases e)
  with Cons.prems have "parse_frame N (rst_frame e @ tail) limit =
      Inr (tail, RstStreamFrame (sid AND STREAM_ID_MASK) (h2_error_code err))" for tail
    using parse_rst_stream [OF assms(1,2), of sid "h2_error_code err" tail] by (simp add: rst_frame_def)
  with Cons show ?case by (simp add: e)
qed simp

lemma parse_control_frames:
  assumes "nom_documented eof N" and "4 \<le> limit" and "list_all (\<lambda>e. update_ok (snd e)) ws"
    and "list_all (\<lambda>e. fst e AND STREAM_ID_MASK \<noteq> 0) rs"
  shows "parse_frames N (length ws + length rs) (concat (map update_frame ws) @ concat (map rst_frame rs)) limit =
    Inr ([], map (\<lambda>(sid, v). WindowUpdateFrame (sid AND STREAM_ID_MASK) v) ws @
             map (\<lambda>(sid, e). RstStreamFrame (sid AND STREAM_ID_MASK) (h2_error_code e)) rs)"
  using assms(3)
proof (induction ws)
  case Nil
  then show ?case using parse_rst_frames [OF assms(1,2,4)] by simp
next
  case (Cons e ws)
  obtain sid v where e: "e = (sid, v)" by (cases e)
  with Cons.prems have "v AND STREAM_ID_MASK = v" by (simp add: update_ok_mask)
  then have "parse_frame N (update_frame e @ tail) limit =
      Inr (tail, WindowUpdateFrame (sid AND STREAM_ID_MASK) v)" for tail
    using parse_window_update [OF assms(1,2), of sid v tail] by (simp add: update_frame_def e)
  with Cons show ?case by (simp add: e)
qed


definition connection_example :: "unit ConnectionH2" where
  "connection_example =
     (connection_new PosServer 0 16384 flood_config_default connection_config_default None None (READABLE OR WRITABLE))
       \<lparr>cn_state := HeaderState,
        cn_flow_control := \<lparr>window = 65535, received_bytes_since_update = 0, pending_window_updates = [(3, 1000)]\<rparr>,
        cn_control_tx := (control_tx_new 100)\<lparr>pending_rst_streams := [(5, Cancel)], total_rst_streams_queued := 1\<rparr>\<rparr>"

definition shell_example :: "(WriteSide, unit) H2Shell" where
  "shell_example = \<lparr>sh_core = connection_example, sh_socket = \<lparr>accepted = [], answers = [Room 20]\<rparr>, sh_write_failed = False\<rparr>"

lemma conn_ok_example: "conn_ok connection_example"
  using output_default_ok(1) table_ok_new [of None]
  by (simp add: connection_example_def conn_ok_def connection_new_def Let_def tx_ok_def control_tx_new_def control_tx_with_cap_def
      pending_rst_bound_def MIN_PENDING_RST_STREAMS_def fc_ok_def is_i32_def i32_MIN_def i32_MAX_def btree_ok_def update_ok_def
      drain_check_invariants_def drain_new_def)


subsection \<open>Closing\<close>

definition may_close :: "'w SocketHandler \<Rightarrow> ('w, 'sl) H2Shell \<Rightarrow> bool" where
  "may_close H sh \<longleftrightarrow> queued (sh_core sh) = [] \<and> (\<not> tls_wants_write H sh \<or> frontend_hung_up_while_draining (sh_core sh))"

lemma settled_nothing:
  "cn_pending_force_disconnect (sh_core sh) = None \<Longrightarrow> settled H r sh = (r', sh') \<Longrightarrow> r' = r \<and> sh' = sh"
  by (cases sh) (auto simp: settled_def poll_force_disconnect_def Let_def)

lemma settled_force_disconnect:
  assumes "force_disconnect (sh_core sh) = (r, c)" and "queued (sh_core sh) = []"
    and "settled H r (sh\<lparr>sh_core := c\<rparr>) = (MuxCloseSession, sh')"
  shows "may_close H sh'"
proof (cases "cn_position (sh_core sh)")
  case (PosClient status)
  then show ?thesis using assms
    by (auto simp: force_disconnect_def settled_def poll_force_disconnect_def force_disconnect_after_query_def Let_def)
next
  case PosServer
  let ?c = "(sh_core sh)\<lparr>cn_state := ErrorState\<rparr>"
  have c: "c = ?c\<lparr>cn_pending_force_disconnect := Some (DisconnectServer (peer_gone_after_final_goaway ?c))\<rparr>"
    using PosServer assms(1) by (simp add: force_disconnect_def Let_def)
  let ?tls = "sk_wants_write H (sh_socket sh)"
  have "sh' = sh\<lparr>sh_core := ?c\<lparr>cn_pending_force_disconnect := None\<rparr>\<rparr> \<and> (peer_gone_after_final_goaway ?c \<or> \<not> ?tls)"
    using assms(3) unfolding c
    by (auto simp: settled_def poll_force_disconnect_def force_disconnect_after_query_def force_disconnect_action_def
        tls_wants_write_def Let_def split: if_splits)
  then show ?thesis using assms(2)
    by (auto simp: may_close_def queued_def tls_wants_write_def peer_gone_after_final_goaway_def frontend_hung_up_while_draining_def)
qed

lemma settled_client:
  assumes "force_disconnect c0 = (r, c)" and "\<not> is_server (cn_position c0)"
  shows "settled H r (sh\<lparr>sh_core := c\<rparr>) \<noteq> (MuxCloseSession, sh')"
  using assms
  by (cases "cn_position c0")
    (auto simp: force_disconnect_def settled_def poll_force_disconnect_def force_disconnect_after_query_def Let_def)

lemma dispatch_done:
  assumes "dispatch_writable_state C tls c0 = Some (WritableDone r, c)"
  shows "force_disconnect c0 = (r, c) \<or> (\<exists>c1. \<not> is_server (cn_position c1) \<and> force_disconnect c1 = (r, c)) \<or>
    r = MuxContinue \<and> cn_pending_force_disconnect c = cn_pending_force_disconnect c0 \<or>
    r = MuxCloseSession \<and> c = c0 \<and> (\<not> tls \<or> peer_gone_after_final_goaway c0)"
proof (cases "cn_state c0")
  case ClientPreface
  show ?thesis
  proof (cases "is_server (cn_position c0)")
    case True
    then show ?thesis using assms ClientPreface by (simp add: dispatch_writable_state_def)
  next
    case False
    let ?c = "c0\<lparr>cn_output := push H2_PRI (cn_output c0)\<rparr>"
    obtain answer q u where "push_frames SETTINGS_FRAME_SIZE (plain_writer (\<lambda>buf. gen_settings C buf (cn_local_settings ?c))) (cn_output ?c) () = (answer, q, u)"
      by (metis prod.exhaust)
    then show ?thesis using assms ClientPreface False
      by (cases answer) (auto simp: dispatch_writable_state_def writable_done_def conn_signal_pending_write_def Let_def
          intro: exI [of _ "?c\<lparr>cn_output := q\<rparr>"] split: prod.splits)
  qed
next
  case ErrorState
  then show ?thesis using assms
    by (auto simp: dispatch_writable_state_def error_close_action_def ensure_tls_flushed_def writable_done_def
        split: if_splits prod.splits)
next
  case GoAwayState
  then show ?thesis using assms
    by (auto simp: dispatch_writable_state_def writable_done_def split: if_splits prod.splits)
qed (use assms in \<open>auto simp: dispatch_writable_state_def writable_done_def interest_remove_def interest_insert_def expect_header_def Let_def
      split: if_splits prod.splits\<close>)

lemma settled_dispatch:
  assumes "dispatch_writable_state C (tls_wants_write H sh) (sh_core sh) = Some (WritableDone r, c)"
    and "queued (sh_core sh) = []" and "cn_pending_force_disconnect (sh_core sh) = None"
    and "settled H r (sh\<lparr>sh_core := c\<rparr>) = (MuxCloseSession, sh')"
  shows "may_close H sh'"
proof -
  consider (forced) "force_disconnect (sh_core sh) = (r, c)"
    | (client) c1 where "force_disconnect c1 = (r, c)" "\<not> is_server (cn_position c1)"
    | (go_on) "r = MuxContinue" "cn_pending_force_disconnect (sh_core (sh\<lparr>sh_core := c\<rparr>)) = None"
    | (close) "r = MuxCloseSession" "c = sh_core sh" "\<not> tls_wants_write H sh \<or> peer_gone_after_final_goaway (sh_core sh)"
    using dispatch_done [OF assms(1)] assms(3) by auto
  then show ?thesis
  proof cases
    case forced
    then show ?thesis using settled_force_disconnect assms(2,4) by blast
  next
    case client
    then show ?thesis using settled_client [of c1 r c H sh sh'] assms(4) by blast
  next
    case go_on
    then show ?thesis using settled_nothing [OF go_on(2) assms(4)] by simp
  next
    case close
    then have "sh' = sh" using settled_nothing [of "sh\<lparr>sh_core := c\<rparr>" H r MuxCloseSession sh'] assms(3,4) by simp
    with close(3) assms(2) show ?thesis by (auto simp: may_close_def peer_gone_after_final_goaway_def)
  qed
qed

lemma dispatch_never_panics:
  "dispatch_writable_state C tls c \<noteq> None" "dispatch_writable_state_after_flush tls c \<noteq> None"
  "finalize_write C tls socket_write n pending_back c \<noteq> None" "finalize_write_after_flush tls c \<noteq> None"
  by (auto simp: dispatch_writable_state_def dispatch_writable_state_after_flush_def finalize_write_def finalize_write_after_flush_def
      error_close_action_def writable_done_def Let_def split: H2State.split prod.split sum.split)

lemma flush_tls_core:
  "queued (sh_core (snd (flush_tls_records H sh))) = queued (sh_core sh)"
  "cn_pending_force_disconnect (sh_core (snd (flush_tls_records H sh))) = cn_pending_force_disconnect (sh_core sh)"
  by (simp_all add: flush_tls_records_def note_write_status_def queued_def Let_def split: prod.split)

text \<open>How a pass may end: with the streams, with an answer whose settlement does not close, or with a safe close.\<close>

definition ends_safely :: "'w SocketHandler \<Rightarrow> PassOutcome \<Rightarrow> ('w, 'sl) H2Shell \<Rightarrow> bool" where
  "ends_safely H p sh \<longleftrightarrow>
     (case p of PassStreams \<Rightarrow> queued (sh_core sh) = []
      | PassDone r \<Rightarrow> (case settled H r sh of (r', sh') \<Rightarrow> r' = MuxCloseSession \<longrightarrow> may_close H sh'))"

lemma ends_safely_continue: "cn_pending_force_disconnect (sh_core sh) = None \<Longrightarrow> ends_safely H (PassDone MuxContinue) sh"
  using settled_nothing [of sh H MuxContinue] by (auto simp: ends_safely_def)

lemma dispatch_flush_same:
  "dispatch_writable_state C tls c = Some (WritableFlush, c') \<Longrightarrow> c' = c"
  "dispatch_writable_state C tls c = Some (WriteStreams, c') \<Longrightarrow> c' = c"
  by (auto simp: dispatch_writable_state_def error_close_action_def writable_done_def Let_def split: H2State.splits if_splits prod.splits sum.splits)

lemma after_flush_safe:
  assumes "dispatch_writable_state_after_flush (tls_wants_write H sh) (sh_core sh) = Some (r, c)"
    and "queued (sh_core sh) = []" and "cn_pending_force_disconnect (sh_core sh) = None"
  shows "ends_safely H (PassDone r) (sh\<lparr>sh_core := c\<rparr>)"
proof (cases "tls_wants_write H sh")
  case True
  then have "r = MuxContinue" "cn_pending_force_disconnect (sh_core (sh\<lparr>sh_core := c\<rparr>)) = None"
    using assms(1,3) by (auto simp: dispatch_writable_state_after_flush_def ensure_tls_flushed_def)
  then show ?thesis using ends_safely_continue by metis
next
  case False
  then have f: "force_disconnect (sh_core sh) = (r, c)" using assms(1) by (simp add: dispatch_writable_state_after_flush_def)
  show ?thesis using settled_force_disconnect [OF f assms(2)] by (auto simp: ends_safely_def)
qed

lemma writable_dispatch_safe:
  assumes "queued (sh_core sh) = []" and "cn_pending_force_disconnect (sh_core sh) = None"
  shows "\<exists>p sh1. writable_dispatch C H sh = Some (p, sh1) \<and> ends_safely H p sh1"
proof -
  define sh2 where "sh2 = (if tls_wants_write H sh then snd (flush_tls_records H sh) else sh)"
  have sh2: "queued (sh_core sh2) = []" "cn_pending_force_disconnect (sh_core sh2) = None"
    using assms by (simp_all add: sh2_def flush_tls_core)
  obtain t c where d: "dispatch_writable_state C (tls_wants_write H sh2) (sh_core sh2) = Some (t, c)"
    using dispatch_never_panics(1) [of C "tls_wants_write H sh2" "sh_core sh2"] by auto
  show ?thesis
  proof (cases t)
    case (WritableDone r)
    then have "ends_safely H (PassDone r) (sh2\<lparr>sh_core := c\<rparr>)"
      using settled_dispatch [OF d [unfolded WritableDone] sh2] by (auto simp: ends_safely_def)
    then show ?thesis using d WritableDone by (simp add: writable_dispatch_def Let_def sh2_def [symmetric])
  next
    case WritableFlush
    define sh3 where "sh3 = snd (flush_tls_records H (sh2\<lparr>sh_core := c\<rparr>))"
    have "c = sh_core sh2" using d WritableFlush dispatch_flush_same(1) by blast
    then have sh3: "queued (sh_core sh3) = []" "cn_pending_force_disconnect (sh_core sh3) = None"
      using sh2 by (simp_all add: sh3_def flush_tls_core)
    obtain r c3 where a: "dispatch_writable_state_after_flush (tls_wants_write H sh3) (sh_core sh3) = Some (r, c3)"
      using dispatch_never_panics(2) [of "tls_wants_write H sh3" "sh_core sh3"] by auto
    show ?thesis using d WritableFlush a after_flush_safe [OF a sh3]
      by (simp add: writable_dispatch_def Let_def sh2_def [symmetric] sh3_def [symmetric])
  next
    case WriteStreams
    then have "c = sh_core sh2" using d dispatch_flush_same(2) by blast
    then show ?thesis using d WriteStreams sh2 by (simp add: writable_dispatch_def Let_def sh2_def [symmetric] ends_safely_def)
  qed
qed



subsection \<open>The close does happen\<close>

text \<open>A handler that takes all it is offered and buffers nothing afterwards.\<close>

definition unhindered :: "'w SocketHandler \<Rightarrow> bool" where
  "unhindered H \<longleftrightarrow>
     (\<forall>buf w. (case sk_write H buf w of ((n, status), w') \<Rightarrow> n = length buf \<and> \<not> sk_wants_write H w') \<and>
              (case sk_write_then_close H buf w of ((n, status), w') \<Rightarrow> n = length buf \<and> \<not> sk_wants_write H w'))"

lemma write_pending_unhindered:
  assumes "unhindered H" and "write_pending H sh = ((n, status), sh')"
  shows "n = length (output_pending (cn_output (sh_core sh))) \<and> \<not> tls_wants_write H sh'"
proof -
  have w: "sk_write H buf w = ((n, st), w') \<Longrightarrow> n = length buf \<and> \<not> sk_wants_write H w'"
    "sk_write_then_close H buf w = ((n, st), w') \<Longrightarrow> n = length buf \<and> \<not> sk_wants_write H w'" for buf w n st w'
    using assms(1) unfolding unhindered_def by (metis (mono_tags, lifting) case_prod_conv)+
  show ?thesis using assms(2)
    by (auto simp: write_pending_def tls_wants_write_def Let_def split: if_splits prod.splits dest: w)
qed

lemma flush_unhindered:
  assumes "unhindered H" and "output_ok (cn_output (sh_core sh))" and "queued (sh_core sh) \<noteq> []"
    and "flush_output_to_socket H sh = (stalled, sh')"
  shows "\<not> stalled \<and> \<not> tls_wants_write H sh'"
proof -
  have ne: "\<not> output_is_empty (cn_output (sh_core sh))" using output_is_empty_pending [OF assms(2)] assms(3) by (simp add: queued_def)
  obtain st sh2 where r: "flush_round H sh = (st, sh2)" by fastforce
  then obtain n status sh1 sent c where w: "write_pending H sh = ((n, status), sh1)"
    and sh1: "sh_core sh1 = (sh_core sh)\<lparr>cn_close_notify_sent := sent\<rparr>"
    and c: "consume_output_flush n status (sh_core sh1) = (st, c)" and sh2: "sh2 = (record_write status sh1)\<lparr>sh_core := c\<rparr>"
    by (rule flush_round_effect)
  have n: "n = length (queued (sh_core sh))" "\<not> tls_wants_write H sh1"
    using write_pending_unhindered [OF assms(1) w] by (simp_all add: queued_def)
  obtain overhead q where q: "output_consume n (cn_output (sh_core sh)) = (overhead, q)" by fastforce
  have out: "cn_output (sh_core sh2) = q" using consume_output_flush_effect(1) [OF c] sh1 sh2 q by simp
  have "output_is_empty (cn_output (sh_core sh2))"
    using output_is_empty_pending [OF output_consume_ok(1) [OF assms(2) q]] output_consume_ok(2) [OF assms(2) q] out n(1)
    by (simp add: queued_def)
  moreover have "\<not> st" using consume_output_flush_effect(2) [OF c] n(1) assms(3) by simp
  ultimately have "flush_output_to_socket H sh = (False, sh2)"
    using ne r by (simp add: flush_output_to_socket.simps [of H sh] flush_output_to_socket.simps [of H sh2])
  then show ?thesis using assms(4) n(2) sh2 by (auto simp: tls_wants_write_def)
qed

lemma flush_tls_taken:
  assumes "socket_handler H taken"
  shows "taken (sh_socket (snd (flush_tls_records H sh))) = taken (sh_socket sh)"
    and "unhindered H \<Longrightarrow> \<not> tls_wants_write H (snd (flush_tls_records H sh))"
    and "control_part (sh_core (snd (flush_tls_records H sh))) = control_part (sh_core sh)"
proof -
  obtain n status w where w: "sk_write H [] (sh_socket sh) = ((n, status), w)" by (metis surj_pair)
  then show "taken (sh_socket (snd (flush_tls_records H sh))) = taken (sh_socket sh)"
    using socket_handler.writes [OF assms w] by (simp add: flush_tls_records_def)
  show "unhindered H \<Longrightarrow> \<not> tls_wants_write H (snd (flush_tls_records H sh))"
    using w unfolding unhindered_def tls_wants_write_def flush_tls_records_def by (metis (mono_tags, lifting) case_prod_conv snd_conv
      record_write_core(2) H2Shell.select_convs(2) H2Shell.ext_inject H2Shell.surjective H2Shell.update_convs(1,2))
  show "control_part (sh_core (snd (flush_tls_records H sh))) = control_part (sh_core sh)"
    using w by (simp add: flush_tls_records_def control_part_def note_write_status_def Let_def)
qed

lemma goaway_dispatch_closes:
  assumes "cn_state (sh_core sh) = GoAwayState" and "is_server (cn_position (sh_core sh))"
    and "\<not> parked_on_stream (cn_stream_table (sh_core sh))" and "cn_pending_force_disconnect (sh_core sh) = None"
    and "\<not> tls_wants_write H sh"
  shows "\<exists>r c sh'. dispatch_writable_state C (tls_wants_write H sh) (sh_core sh) = Some (WritableDone r, c) \<and>
    settled H r (sh\<lparr>sh_core := c\<rparr>) = (MuxCloseSession, sh') \<and> sh_socket sh' = sh_socket sh"
proof (cases "peer_gone_after_final_goaway (sh_core sh)")
  case True
  then have d: "dispatch_writable_state C (tls_wants_write H sh) (sh_core sh) = Some (WritableDone MuxCloseSession, sh_core sh)"
    using assms(1,3) by (simp add: dispatch_writable_state_def)
  have "settled H MuxCloseSession sh = (MuxCloseSession, sh)"
    using settled_nothing [OF assms(4), of H MuxCloseSession] by (metis surj_pair)
  with d show ?thesis by auto
next
  case False
  have p: "cn_position (sh_core sh) = PosServer" using assms(2) by (cases "cn_position (sh_core sh)") auto
  obtain r c where f: "force_disconnect (sh_core sh) = (r, c)" by fastforce
  have d: "dispatch_writable_state C (tls_wants_write H sh) (sh_core sh) = Some (WritableDone r, c)"
    using assms(1,3,5) False f by (simp add: dispatch_writable_state_def writable_done_def)
  obtain b where "cn_pending_force_disconnect c = Some (DisconnectServer b)"
    using f p by (auto simp: force_disconnect_def Let_def)
  then have "settled H r (sh\<lparr>sh_core := c\<rparr>) = (MuxCloseSession, sh\<lparr>sh_core := c\<lparr>cn_pending_force_disconnect := None\<rparr>\<rparr>)"
    using assms(5) by (simp add: settled_def poll_force_disconnect_def force_disconnect_after_query_def force_disconnect_action_def
        tls_wants_write_def Let_def)
  with d show ?thesis by auto
qed


text \<open>A socket that takes everything.\<close>

definition open_socket :: "bytes SocketHandler" where
  "open_socket =
     \<lparr>sk_write = (\<lambda>buf w. ((length buf, SockContinue), w @ buf)), sk_wants_write = (\<lambda>w. False), sk_close = (\<lambda>w. w),
      sk_write_then_close = default_write_then_close (\<lambda>buf w. ((length buf, SockContinue), w @ buf)) (\<lambda>w. w)\<rparr>"

lemma open_socket_handler: "socket_handler open_socket (\<lambda>w. w)" "unhindered open_socket"
  by (unfold_locales, auto simp: open_socket_def default_write_then_close_def unhindered_def)


end
