(* ===== verification/H2_Connection_Reach.thy ===== *)
theory H2_Connection_Reach
  imports H2_Connection_Control
begin

text \<open>
  The states a connection reaches by its control path, and the invariant they keep: its parts are well
  formed, and whenever something waits to be sent the connection asks to be called when it can write.
\<close>

definition wakes :: "'sl ConnectionH2 \<Rightarrow> bool" where
  "wakes c \<longleftrightarrow> queued c = [] \<and> pending_window_updates (cn_flow_control c) = [] \<and> pending_rst_streams (cn_control_tx c) = [] \<or>
     is_writable (interest (cn_readiness c))"

definition conn_good :: "'sl ConnectionH2 \<Rightarrow> bool" where
  "conn_good c \<longleftrightarrow> conn_ok c \<and> wakes c"

text \<open>All the invariant looks at.\<close>

definition conn_key where
  "conn_key c = (cn_output c, cn_flow_control c, cn_control_tx c, cn_stream_table c, cn_drain c, interest (cn_readiness c))"

lemma good_key: "conn_key c' = conn_key c \<Longrightarrow> conn_good c \<Longrightarrow> conn_good c'"
  by (simp add: conn_key_def conn_good_def conn_ok_def wakes_def queued_def)

lemma writable_bits:
  "is_writable (ready_insert WRITABLE r)" "is_writable (ready_insert READABLE r) = is_writable r" "is_writable CLOSING_INTEREST"
  by (simp_all add: contains_bit ready_insert_def CLOSING_INTEREST_def ready_consts bit_simps)

lemma good_writable: "conn_ok c \<Longrightarrow> is_writable (interest (cn_readiness c)) \<Longrightarrow> conn_good c"
  by (simp add: conn_good_def wakes_def)

lemma good_arm: "conn_ok c \<Longrightarrow> conn_good (conn_arm_writable c)"
  by (rule good_writable) (simp_all add: conn_ok_def conn_arm_writable_def arm_writable_def signal_pending_write_def writable_bits)

lemma good_new: "conn_good (connection_new position now cap flood config deadline expected asked)"
  using output_default_ok table_ok_new [of expected] tx_ok_new [of "max_concurrent_streams config"]
  by (simp add: connection_new_def conn_good_def conn_ok_def wakes_def queued_def Let_def drain_check_invariants_def drain_new_def
      control_tx_new_def control_tx_with_cap_def flow_control_new_def fc_ok_def is_i32_def i32_MIN_def i32_MAX_def
      DEFAULT_INITIAL_WINDOW_SIZE_def btree_ok_def)

lemma good_force_disconnect: "conn_good c \<Longrightarrow> conn_good (snd (force_disconnect c))"
  by (erule good_key [rotated]) (simp add: force_disconnect_def conn_key_def Let_def split: Position.split)

lemma good_goaway:
  assumes "cookie_documented wire C" and "conn_ok c"
  shows "conn_good (snd (goaway_with_last_stream_id C e l c))"
proof -
  obtain r c' where g: "goaway_with_last_stream_id C e l c = (r, c')" by fastforce
  obtain q where "c' = c\<lparr>cn_drain := enter_final_goaway (cn_drain c),
      cn_graceful_goaway := e = NoError, cn_stream_table := set_expect_read None (cn_stream_table c), cn_settings_sent_at := None,
      cn_output := q, cn_state := GoAwayState,
      cn_readiness := signal_pending_write ((cn_readiness c)\<lparr>interest := CLOSING_INTEREST\<rparr>)\<rparr>"
    using goaway_exact [OF assms, of e l] g by auto
  then show ?thesis using conn_ok_goaway [OF assms g] g by (simp add: good_writable signal_pending_write_def writable_bits)
qed

lemma good_ok: "conn_good c \<Longrightarrow> conn_ok c"
  by (simp add: conn_good_def)

lemma good_goaway_highest: "cookie_documented wire C \<Longrightarrow> conn_good c \<Longrightarrow> conn_good (snd (goaway C e c))"
  unfolding goaway_def by (erule good_goaway) (rule good_ok)

lemma good_flood:
  assumes "cookie_documented wire C" and "conn_good c"
  shows "conn_good (snd (check_flood_or_return C c))"
proof -
  obtain v d where v: "check_flood (cn_now c) (cn_flood_detector c) = (v, d)" by fastforce
  have c: "conn_good (c\<lparr>cn_flood_detector := d\<rparr>)" by (rule good_key [OF _ assms(2)]) (simp add: conn_key_def)
  then have "conn_ok (c\<lparr>cn_flood_detector := d\<rparr>)" by (simp add: conn_good_def)
  from good_goaway [OF assms(1) this] show ?thesis
    using c v by (cases v) (simp_all add: check_flood_or_return_def handle_flood_violation_def goaway_def Let_def case_prod_unfold)
qed

lemma good_drain: "conn_good c \<Longrightarrow> drain_check_invariants d \<Longrightarrow> conn_good (c\<lparr>cn_drain := d\<rparr>)"
  by (simp add: conn_good_def conn_ok_def wakes_def queued_def)

lemma good_graceful:
  assumes "cookie_documented wire C" and "conn_good c"
  shows "conn_good (snd (graceful_goaway C now c))"
proof (cases "draining (cn_drain c)")
  case True
  then show ?thesis using good_goaway [OF assms(1), of "c"] assms(2)
    by (simp add: graceful_goaway_def begin_graceful_drain_def goaway_def conn_good_def)
next
  case False
  let ?c = "c\<lparr>cn_drain := (cn_drain c)\<lparr>draining := True, started_at := Some now\<rparr>\<rparr>"
  have c: "conn_good ?c" using assms(2) by (rule good_drain) (simp add: drain_check_invariants_def)
  obtain q where "push_frames GOAWAY_FRAME_SIZE (plain_writer (\<lambda>buf. gen_goaway C buf STREAM_ID_MAX NoError)) (cn_output ?c) () = (Inr 17, q, ())"
    and q: "output_ok q"
    using push_goaway [OF assms(1), of "cn_output ?c"] c unfolding conn_good_def conn_ok_def by metis
  then have "snd (graceful_goaway C now c) = conn_arm_writable (?c\<lparr>cn_output := q\<rparr>)"
    using False by (simp add: graceful_goaway_def begin_graceful_drain_def send_initial_goaway_def)
  moreover have "conn_ok (?c\<lparr>cn_output := q\<rparr>)" using c q by (simp add: conn_good_def conn_ok_def)
  ultimately show ?thesis by (simp add: good_arm)
qed

lemma good_queue_window_update: "conn_ok c \<Longrightarrow> conn_good (conn_queue_window_update sid increment c)"
  using fc_ok_queue [of "cn_flow_control c" sid increment "cn_max_pending_window_updates c"]
  by (simp add: conn_queue_window_update_def case_prod_unfold conn_ok_def good_arm)

lemma good_account:
  assumes "cookie_documented wire C" and "conn_good c"
  shows "conn_good (snd (account_emitted_rst C error origin c))"
proof -
  have d: "conn_good (c\<lparr>cn_flood_detector := d\<rparr>)" for d by (rule good_key [OF _ assms(2)]) (simp add: conn_key_def)
  then have "conn_ok (c\<lparr>cn_flood_detector := d\<rparr>)" for d by (simp add: conn_good_def)
  from good_goaway [OF assms(1) this] good_flood [OF assms(1) d] assms(2) show ?thesis
    by (simp add: account_emitted_rst_def handle_flood_violation_def goaway_def Let_def case_prod_unfold split: option.split)
qed

lemma good_enqueue_rst:
  assumes "cookie_documented wire C" and "conn_good c"
  shows "conn_good (snd (conn_enqueue_rst C sid error origin c))"
proof -
  let ?t = "cn_stream_table c"
  let ?sent = "if stream_table_get ?t sid \<noteq> None then Some (rst_sent ?t) else None"
  obtain outcome sent tx r where e: "enqueue_rst ?sent sid error (cn_control_tx c) (cn_readiness c) = (outcome, sent, tx, r)"
    by (metis prod_cases4)
  let ?t' = "case sent of Some s \<Rightarrow> ?t\<lparr>rst_sent := s\<rparr> | None \<Rightarrow> ?t"
  let ?c = "c\<lparr>cn_stream_table := ?t', cn_control_tx := tx, cn_readiness := r\<rparr>"
  have t: "table_ok ?t'"
  proof (cases "stream_table_get ?t sid")
    case None
    then show ?thesis using e assms(2)
      by (auto simp: enqueue_rst_def Let_def conn_good_def conn_ok_def split: if_splits)
  next
    case (Some g)
    then have "sent = Some (rst_sent ?t) \<or> sent = Some (snd (hashset_insert sid (rst_sent ?t)))"
      using e by (auto simp: enqueue_rst_def Let_def split: if_splits prod.splits)
    moreover have "table_ok (?t\<lparr>rst_sent := snd (hashset_insert sid (rst_sent ?t))\<rparr>)"
      using table_ok_rst [of ?t sid] Some assms(2)
      by (simp add: rst_sent_insert_def conn_good_def conn_ok_def case_prod_unfold)
    ultimately show ?thesis using assms(2) by (auto simp: conn_good_def conn_ok_def)
  qed
  have ok: "conn_ok ?c" using assms(2) t tx_ok_enqueue [OF _ e] by (simp add: conn_good_def conn_ok_def)
  have "conn_good ?c"
  proof (cases outcome)
    case Queued
    then have "r = arm_writable (cn_readiness c)"
      using e by (auto simp: enqueue_rst_def Let_def split: if_splits prod.splits option.splits)
    then show ?thesis by (intro good_writable [OF ok]) (simp add: arm_writable_def signal_pending_write_def writable_bits)
  qed (use e ok assms(2) in \<open>auto simp: enqueue_rst_def Let_def conn_good_def wakes_def queued_def split: if_splits prod.splits option.splits\<close>)
  with good_account [OF assms(1) this] show ?thesis
    unfolding conn_enqueue_rst_def Let_def e prod.case by (cases outcome) simp_all
qed

lemma good_flush:
  assumes "cookie_documented wire C" and "conn_good c" and "flush_pending_control_frames C c = (t, c')"
  shows "conn_good c'"
proof -
  have ok: "conn_ok c" "conn_ok (drop_if_hung_up c)"
    using assms(2) drop_if_hung_up_effect(1) by (auto simp: conn_good_def)
  have interest: "is_writable (interest (cn_readiness (drop_if_hung_up c))) = is_writable (interest (cn_readiness c))"
    by (simp add: drop_if_hung_up_def clear_output_def interest_insert_def Let_def writable_bits)
  have d: "conn_good (drop_if_hung_up c)"
    using assms(2) ok drop_if_hung_up_effect [OF ok(1)] interest by (auto simp: conn_good_def wakes_def)
  note flushed = flush_effect [OF assms(1) ok(2) refl assms(3)]
  show ?thesis
  proof (cases "is_writable (interest (cn_readiness c'))")
    case True
    then show ?thesis using flushed good_writable by blast
  next
    case False
    then show ?thesis using flushed d writable_bits(3) by (auto simp: conn_good_def wakes_def split: if_splits)
  qed
qed

lemma good_consume:
  assumes "conn_good c"
  shows "conn_good (snd (consume_output_flush n status c))"
proof -
  obtain overhead q where q: "output_consume n (cn_output c) = (overhead, q)" by fastforce
  have ok: "output_ok (cn_output c)" using assms by (simp add: conn_good_def conn_ok_def)
  note out = output_consume_ok [OF ok q]
  have "is_writable (interest (cn_readiness (snd (consume_output_flush n status c)))) = is_writable (interest (cn_readiness c))"
    "cn_output (snd (consume_output_flush n status c)) = q"
    "cn_flow_control (snd (consume_output_flush n status c)) = cn_flow_control c"
    "cn_control_tx (snd (consume_output_flush n status c)) = cn_control_tx c"
    "cn_stream_table (snd (consume_output_flush n status c)) = cn_stream_table c"
    "cn_drain (snd (consume_output_flush n status c)) = cn_drain c"
    by (simp_all add: consume_output_flush_def consume_output_def q note_write_status_def interest_insert_def Let_def writable_bits
        update_readiness_after_write_def update_readiness_def case_prod_unfold split: SocketResult.split)
  then show ?thesis using assms out(1,2) by (auto simp: conn_good_def conn_ok_def wakes_def queued_def)
qed

lemma good_quiet:
  assumes "conn_ok c" and "queued c = []" and "pending_window_updates (cn_flow_control c) = []" and "pending_rst_streams (cn_control_tx c) = []"
    and "cn_output c' = cn_output c" and "cn_flow_control c' = cn_flow_control c" and "cn_control_tx c' = cn_control_tx c"
    and "table_ok (cn_stream_table c')" and "cn_drain c' = cn_drain c"
  shows "conn_good c'"
  using assms by (simp add: conn_good_def conn_ok_def wakes_def queued_def)

lemma good_push:
  assumes "conn_ok c" and "is_writable (interest (cn_readiness c))" and "output_ok q"
  shows "conn_good (c\<lparr>cn_output := q\<rparr>)"
  using assms by (intro good_writable) (simp_all add: conn_ok_def)

lemma good_finalize:
  assumes "cookie_documented wire C" and "conn_good c"
    and "finalize_write C tls socket_write n pending_back c = Some (t, c')"
  shows "conn_good c'"
proof (cases "draining (cn_drain c) \<and> streams (cn_stream_table c) = []")
  case True
  then show ?thesis using assms(3) good_graceful [OF assms(1,2), of "cn_now c"] by (auto simp: finalize_write_def split: prod.splits)
next
  case False
  have "output_is_empty (cn_output c) \<longleftrightarrow> queued c = []"
    using assms(2) output_is_empty_pending by (simp add: conn_good_def conn_ok_def queued_def)
  then have "c' = c \<or> c' = conn_arm_writable c \<or> c' = interest_remove WRITABLE c \<and> queued c = [] \<and>
      pending_window_updates (cn_flow_control c) = [] \<and> pending_rst_streams (cn_control_tx c) = []"
    using assms(3) False by (auto simp: finalize_write_def has_pending_def split: if_splits)
  then show ?thesis using assms(2) good_arm [of c]
    by (auto simp: conn_good_def conn_ok_def wakes_def queued_def interest_remove_def)
qed

lemma good_ensure: "conn_good c \<Longrightarrow> conn_good (ensure_tls_flushed tls c)"
  by (erule good_key [rotated]) (simp add: ensure_tls_flushed_def conn_key_def signal_pending_write_def)

lemma good_finalize_after: "conn_good c \<Longrightarrow> finalize_write_after_flush tls c = Some (r, c') \<Longrightarrow> conn_good c'"
  using good_ensure [of c tls] by (auto simp: finalize_write_after_flush_def split: if_splits)

lemma good_after_flush: "conn_good c \<Longrightarrow> dispatch_writable_state_after_flush tls c = Some (r, c') \<Longrightarrow> conn_good c'"
  using good_ensure [of c tls] good_force_disconnect [of c] by (auto simp: dispatch_writable_state_after_flush_def split: if_splits)

lemma good_after_query:
  assumes "conn_good c"
  shows "conn_good (snd (force_disconnect_after_query t tls c))"
proof (cases t)
  case (DisconnectServer b)
  have "conn_good (c\<lparr>cn_readiness := (cn_readiness c)\<lparr>interest := CLOSING_INTEREST\<rparr>\<rparr>)"
    using assms by (intro good_writable) (simp_all add: conn_good_def conn_ok_def writable_bits)
  from good_ensure [OF this, of tls] show ?thesis using assms DisconnectServer by (simp add: force_disconnect_after_query_def)
qed (simp add: force_disconnect_after_query_def assms)

lemma good_attribute: "conn_good c \<Longrightarrow> conn_good (attribute_bytes_to_overhead c)"
  by (erule good_key [rotated]) (simp add: attribute_bytes_to_overhead_def conn_key_def)

lemma good_queue_output: "conn_ok c \<Longrightarrow> conn_good (queue_output c)"
  by (rule good_writable) (simp_all add: queue_output_def interest_insert_def conn_signal_pending_write_def signal_pending_write_def
      conn_ok_def writable_bits)

lemma good_ping:
  assumes "cookie_documented wire C" and "conn_good c" and "length payload = 8"
  shows "conn_good (snd (handle_ping_frame C payload ack c))"
proof (cases ack)
  case True
  then show ?thesis using good_attribute [OF assms(2)] by (simp add: handle_ping_frame_def)
next
  case False
  let ?c = "c\<lparr>cn_flood_detector := record_ping_frame (cn_flood_detector c)\<rparr>"
  have "conn_good ?c" by (rule good_key [OF _ assms(2)]) (simp add: conn_key_def)
  then have f: "conn_good (snd (check_flood_or_return C ?c))" by (rule good_flood [OF assms(1)])
  obtain v c1 where v: "check_flood_or_return C ?c = (v, c1)" by fastforce
  have c1: "conn_good (attribute_bytes_to_overhead c1)" using f v good_attribute by simp
  obtain q where "push_frames (length PING_ACKNOWLEDGEMENT_HEADER + 8)
      (plain_writer (\<lambda>buf. gen_ping_acknowledgement C buf payload)) (cn_output (attribute_bytes_to_overhead c1)) () = (Inr 17, q, ())"
    and q: "output_ok q"
    using push_ping [OF assms(1) _ assms(3)] c1 unfolding conn_good_def conn_ok_def by metis
  moreover have "conn_good (queue_output ((attribute_bytes_to_overhead c1)\<lparr>cn_output := q\<rparr>))"
    using c1 q by (intro good_queue_output) (simp add: conn_good_def conn_ok_def)
  ultimately show ?thesis using False v f by (cases v) (simp_all add: handle_ping_frame_def Let_def)
qed

lemmas setting_ids = SETTINGS_HEADER_TABLE_SIZE_def SETTINGS_ENABLE_PUSH_def SETTINGS_MAX_CONCURRENT_STREAMS_def
  SETTINGS_INITIAL_WINDOW_SIZE_def SETTINGS_MAX_FRAME_SIZE_def SETTINGS_MAX_HEADER_LIST_SIZE_def
  SETTINGS_ENABLE_CONNECT_PROTOCOL_def SETTINGS_NO_RFC7540_PRIORITIES_def

lemma good_setting:
  assumes "cookie_documented wire C" and "conn_good c" and "apply_setting C setting windows c = (r, windows', c')"
  shows "conn_good c'"
proof -
  have upd: "update_initial_window_size v windows c = (failed, windows1, c1) \<Longrightarrow> conn_good c1" for v failed windows1 c1
  proof -
    assume u: "update_initial_window_size v windows c = (failed, windows1, c1)"
    have arm: "conn_good (conn_arm_writable c)" using assms(2) good_arm by (auto simp: conn_good_def)
    have "conn_key c1 = conn_key c \<or> conn_key c1 = conn_key (conn_arm_writable c)"
      using u by (auto simp: update_initial_window_size_def conn_key_def conn_arm_writable_def Let_def
          split: if_splits option.splits prod.splits)
    then show ?thesis using good_key [OF _ assms(2)] good_key [OF _ arm] by blast
  qed
  have key: "conn_good c2" if "conn_key c2 = conn_key c" for c2 using good_key [OF that assms(2)] .
  show ?thesis
  proof (cases "set_identifier setting = SETTINGS_INITIAL_WINDOW_SIZE")
    case True
    obtain failed windows1 c1 where u: "update_initial_window_size (set_value setting) windows c = (failed, windows1, c1)"
      by (metis prod_cases3)
    then have c1: "conn_good c1" by (rule upd)
    note good_goaway_highest [OF assms(1) c1, of FlowControlError]
    then show ?thesis using assms(3) True u c1
      by (auto simp: apply_setting_def Let_def setting_ids split: if_splits prod.splits)
  next
    case False
    then have "conn_key c' = conn_key c"
      using assms(3) by (auto simp: apply_setting_def set_peer_settings_def conn_key_def Let_def split: if_splits)
    then show ?thesis by (rule key)
  qed
qed

lemma good_settings_list:
  assumes "cookie_documented wire C"
  shows "conn_good c \<Longrightarrow> apply_settings C settings windows c = (r, windows', c') \<Longrightarrow> conn_good c'"
proof (induction settings arbitrary: windows c)
  case (Cons setting settings)
  obtain res windows1 c1 where s: "apply_setting C setting windows c = (res, windows1, c1)" by (metis prod_cases3)
  then have c1: "conn_good c1" by (rule good_setting [OF assms Cons.prems(1)])
  note good_goaway_highest [OF assms c1, of ProtocolError]
  then show ?case using Cons.prems(2) Cons.IH [OF c1, of windows1] c1 s
    by (cases res) (auto split: bool.splits prod.splits)
qed simp

lemma good_push_ack:
  assumes "conn_good c"
  shows "conn_good (queue_output (c\<lparr>cn_output := push frame (cn_output c)\<rparr>))"
  using assms push_ok(1) [of "cn_output c" frame] by (intro good_queue_output) (simp add: conn_good_def conn_ok_def)

lemma good_settings:
  assumes "cookie_documented wire C" and "conn_good c" and "handle_settings_frame C settings ack windows c = (r, windows', c')"
  shows "conn_good c'"
proof (cases ack)
  case True
  let ?c = "c\<lparr>cn_settings_sent_at := None, cn_decoder := set_max_allowed_table_size (cn_decoder c)
    (unat (settings_header_table_size (cn_local_settings c)))\<rparr>"
  have "conn_good ?c" by (rule good_key [OF _ assms(2)]) (simp add: conn_key_def)
  from good_attribute [OF this] good_goaway_highest [OF assms(1,2), of FrameSizeError] show ?thesis
    using assms(3) True by (auto simp: handle_settings_frame_def split: if_splits prod.splits)
next
  case False
  let ?c = "c\<lparr>cn_flood_detector := record_settings_frame (cn_flood_detector c)\<rparr>"
  have "conn_good ?c" by (rule good_key [OF _ assms(2)]) (simp add: conn_key_def)
  then have f: "conn_good (snd (check_flood_or_return C ?c))" by (rule good_flood [OF assms(1)])
  obtain v c1 where v: "check_flood_or_return C ?c = (v, c1)" by fastforce
  obtain v2 windows2 c2 where l: "apply_settings C settings windows c1 = (v2, windows2, c2)" by (metis prod_cases3)
  have c1: "conn_good c1" using f v by simp
  have c2: "conn_good c2" by (rule good_settings_list [OF assms(1) c1 l])
  let ?e = "(attribute_bytes_to_overhead c2)\<lparr>cn_connection_window_enlarged := True\<rparr>"
  have a: "conn_good (attribute_bytes_to_overhead c2)" by (rule good_attribute [OF c2])
  have e: "conn_good ?e" by (rule good_key [OF _ a]) (simp add: conn_key_def)
  then have w: "conn_good (conn_queue_window_update 0 n ?e)" for n by (intro good_queue_window_update good_ok)
  note good_push_ack [OF a, of SETTINGS_ACKNOWLEDGEMENT] good_push_ack [OF e, of SETTINGS_ACKNOWLEDGEMENT]
    good_push_ack [OF w, where frame = SETTINGS_ACKNOWLEDGEMENT]
  then show ?thesis using assms(3) False v l c1 c2
    by (cases v; cases v2) (auto simp: handle_settings_frame_def Let_def split: if_splits)
qed

lemma good_discard_block: "conn_good c \<Longrightarrow> conn_good (snd (discard_field_block sid len discarded c))"
  using table_ok_set_expect(1) [of "cn_stream_table c"]
  by (auto simp: discard_field_block_def conn_good_def conn_ok_def wakes_def queued_def Let_def split: DiscardedFieldBlock.split)

lemma good_table: "conn_good c \<Longrightarrow> table_ok t \<Longrightarrow> conn_good (c\<lparr>cn_stream_table := t\<rparr>)"
  by (simp add: conn_good_def conn_ok_def wakes_def queued_def)

lemma good_backpressure: "conn_good c \<Longrightarrow> conn_good (record_refusal_for_backpressure c)"
  by (erule good_key [rotated]) (simp add: record_refusal_for_backpressure_def apply_mcs_backpressure_def conn_key_def Let_def)

lemma good_refuse:
  assumes "cookie_documented wire C" and "conn_good c"
  shows "conn_good (snd (refuse_stream_and_discard C sid error origin len discarded c))"
proof -
  obtain v c1 where v: "conn_enqueue_rst C sid error origin c = (v, c1)" by fastforce
  have c1: "conn_good c1" using good_enqueue_rst [OF assms, of sid error origin] v by simp
  have "conn_good (c1\<lparr>cn_stream_table := remember_refused sid (cn_stream_table c1)\<rparr>)"
    using c1 table_ok_refused [of "cn_stream_table c1" sid] by (intro good_table) (simp_all add: conn_good_def conn_ok_def)
  from good_backpressure [OF good_discard_block [OF this]] show ?thesis
    using v c1 by (cases v) (simp_all add: refuse_stream_and_discard_def case_prod_unfold)
qed

lemma good_skip:
  assumes "conn_good c"
  shows "conn_good (skip_orphaned_data_payload remaining len c)"
proof -
  obtain increment fc where a: "account_received_bytes (cn_flow_control c) len (initial_connection_window (cn_connection_config c) div 2) = (increment, fc)"
    by fastforce
  have fc: "fc_ok fc" "pending_window_updates fc = pending_window_updates (cn_flow_control c)"
    using a assms fc_ok_received by (auto simp: account_received_bytes_def Let_def conn_good_def conn_ok_def split: if_splits)
  let ?c = "c\<lparr>cn_flow_control := fc\<rparr>"
  have c: "conn_good ?c" using assms fc by (simp add: conn_good_def conn_ok_def wakes_def queued_def)
  define c1 where "c1 = (case increment of Some n \<Rightarrow> conn_arm_writable (conn_queue_window_update 0 n ?c) | None \<Rightarrow> ?c)"
  have "conn_good c1"
    using c good_arm [OF good_ok [OF good_queue_window_update [OF good_ok [OF c]]]] by (simp add: c1_def split: option.split)
  then have "conn_good (c1\<lparr>cn_state := Discard, cn_discarded_field_block := None,
      cn_stream_table := set_expect_read (Some (Zero, remaining)) (cn_stream_table c1)\<rparr>)"
    using table_ok_set_expect(1) [of "cn_stream_table c1"] by (simp add: conn_good_def conn_ok_def wakes_def queued_def)
  moreover have "skip_orphaned_data_payload remaining len c = interest_insert READABLE (c1\<lparr>cn_state := Discard,
      cn_discarded_field_block := None, cn_stream_table := set_expect_read (Some (Zero, remaining)) (cn_stream_table c1)\<rparr>)"
    by (simp add: skip_orphaned_data_payload_def a Let_def c1_def)
  ultimately show ?thesis
    by (simp add: conn_good_def conn_ok_def wakes_def queued_def interest_insert_def writable_bits)
qed

lemma good_discard_payload: "conn_good c \<Longrightarrow> conn_good (snd (discard_frame_payload header c))"
  by (simp add: discard_frame_payload_def good_discard_block good_skip)

lemma good_refund:
  assumes "cookie_documented wire C" and "conn_good c"
  shows "conn_good (snd (refund_parked_data C n c))"
proof -
  obtain r fc where f: "refund_send_window (cn_flow_control c) n = (r, fc)" by fastforce
  have "fc_ok fc" "pending_window_updates fc = pending_window_updates (cn_flow_control c)"
    using f assms(2) by (auto simp: refund_send_window_def i32_checked_add_def conn_good_def conn_ok_def fc_ok_def split: if_splits)
  then have c: "conn_good (c\<lparr>cn_flow_control := fc\<rparr>)" using assms(2) by (simp add: conn_good_def conn_ok_def wakes_def queued_def)
  from good_goaway_highest [OF assms(1) c, of FlowControlError] good_arm [OF good_ok [OF c]] c show ?thesis
    by (cases r) (simp_all add: refund_parked_data_def f case_prod_unfold)
qed

lemma good_remove_dead:
  assumes "cookie_documented wire C" and "conn_good c"
  shows "conn_good (remove_dead_stream C sid gid c)"
proof -
  define c1 where "c1 = (case expect_write (cn_stream_table c) of
      Some (Other _ g) \<Rightarrow>
        if g = gid then
          let parked_data = cn_parked_data c; c = c\<lparr>cn_parked_data := 0\<rparr> in
          if 0 < parked_data then snd (refund_parked_data C parked_data c) else c
        else c
    | _ \<Rightarrow> c)"
  have p: "conn_good (c\<lparr>cn_parked_data := 0\<rparr>)" by (rule good_key [OF _ assms(2)]) (simp add: conn_key_def)
  have c1: "conn_good c1"
    using assms(2) p good_refund [OF assms(1) p] by (auto simp: c1_def Let_def split: option.split H2StreamId.split)
  let ?c = "c1\<lparr>cn_stream_table := snd (stream_table_remove sid gid (cn_stream_table c1)), cn_scheduler := remove_stream sid (cn_scheduler c1)\<rparr>"
  have c: "conn_good ?c"
    using c1 table_ok_remove [of "cn_stream_table c1" sid gid] by (simp add: conn_good_def conn_ok_def wakes_def queued_def)
  obtain orphaned where "remove_dead_stream C sid gid c =
      (case orphaned of Some (remaining, len) \<Rightarrow> skip_orphaned_data_payload remaining len ?c | None \<Rightarrow> ?c)"
    unfolding remove_dead_stream_def Let_def c1_def [unfolded Let_def, symmetric] by blast
  then show ?thesis using c good_skip [OF c] by (auto split: option.split)
qed

lemma good_create:
  assumes "conn_good c"
  shows "conn_good (snd (create_stream sid slot c))"
proof -
  have t: "table_ok (observe_peer_stream_id sid (cn_stream_table c))"
    using assms by (simp add: conn_good_def conn_ok_def observe_peer_stream_id_def table_ok_defs)
  from good_table [OF assms t] good_table [OF assms table_ok_register [OF t]] show ?thesis
    using assms by (cases slot) (simp_all add: create_stream_def conn_good_def conn_ok_def wakes_def queued_def Let_def)
qed

lemma good_preface:
  assumes "cookie_documented wire C" and "conn_good c" and "is_writable (interest (cn_readiness c))"
    and "cn_state c = ClientPreface" and "dispatch_writable_state C tls c = Some (t, c')"
  shows "conn_good c'"
proof (cases "is_server (cn_position c)")
  case True
  then show ?thesis using assms by (simp add: dispatch_writable_state_def)
next
  case False
  let ?c = "c\<lparr>cn_output := push H2_PRI (cn_output c)\<rparr>"
  obtain q where q: "push_frames SETTINGS_FRAME_SIZE (plain_writer (\<lambda>buf. gen_settings C buf (cn_local_settings ?c))) (cn_output ?c) () = (Inr 57, q, ())"
    "output_ok q"
    using push_settings [OF assms(1) push_ok(1) [of "cn_output c" H2_PRI], of "cn_local_settings c"] assms(2)
    by (auto simp: conn_good_def conn_ok_def)
  then have "c' = conn_signal_pending_write (?c\<lparr>cn_output := q, cn_settings_sent_at := Some (cn_now c), cn_state := ClientSettings\<rparr>)"
    using assms(4,5) False by (simp add: dispatch_writable_state_def Let_def)
  then show ?thesis using assms(2,3) q(2)
    by (intro good_writable) (simp_all add: conn_good_def conn_ok_def conn_signal_pending_write_def signal_pending_write_def)
qed

lemma good_dispatch:
  assumes "cookie_documented wire C" and "conn_good c" and "is_writable (interest (cn_readiness c))" and "queued c = []"
    and "pending_window_updates (cn_flow_control c) = []" and "pending_rst_streams (cn_control_tx c) = []"
    and "dispatch_writable_state C tls c = Some (t, c')"
  shows "conn_good c'"
proof -
  note quiet = good_quiet [OF good_ok [OF assms(2)] assms(4-6)]
  have t: "table_ok (set_expect_read r (cn_stream_table c))" for r
    using assms(2) table_ok_set_expect(1) by (simp add: conn_good_def conn_ok_def)
  show ?thesis
  proof (cases "cn_state c")
    case ClientPreface
    then show ?thesis using good_preface [OF assms(1-3) _ assms(7)] by simp
  next
    case ErrorState
    then show ?thesis using assms(2,7) good_ensure [OF assms(2), of tls] good_force_disconnect [OF assms(2)]
      by (auto simp: dispatch_writable_state_def error_close_action_def writable_done_def split: if_splits prod.splits)
  next
    case GoAwayState
    then show ?thesis using assms(2,7) good_force_disconnect [OF assms(2)]
      by (auto simp: dispatch_writable_state_def writable_done_def split: if_splits prod.splits)
  next
    case ClientSettings
    then show ?thesis using assms(7) good_force_disconnect [OF assms(2)] t
      by (auto simp: dispatch_writable_state_def writable_done_def interest_remove_def interest_insert_def Let_def
          split: if_splits prod.splits intro!: quiet)
  next
    case ServerSettings
    then show ?thesis using assms(7) t good_ok [OF assms(2)]
      by (auto simp: dispatch_writable_state_def interest_remove_def expect_header_def conn_ok_def split: if_splits intro!: quiet)
  qed (use assms(2,7) in \<open>auto simp: dispatch_writable_state_def\<close>)
qed

subsection \<open>Reachable connections\<close>

text \<open>
  The steps of a connection. The writable state is dispatched only when the connection asked to write
  and the control flush left nothing queued; the kernel may raise and clear events at any time.
\<close>

inductive conn_reachable :: "('s, 'g) CookieFactory \<Rightarrow> 'sl ConnectionH2 \<Rightarrow> bool" for C where
  conn_new: "conn_reachable C (connection_new position now cap flood config deadline expected asked)"
| conn_clock: "conn_reachable C c \<Longrightarrow> conn_reachable C (c\<lparr>cn_now := now, cn_kernel_refused_write := refused\<rparr>)"
| conn_event: "conn_reachable C c \<Longrightarrow> conn_reachable C (c\<lparr>cn_readiness := (cn_readiness c)\<lparr>event := raised\<rparr>\<rparr>)"
| conn_create: "conn_reachable C c \<Longrightarrow> conn_reachable C (snd (create_stream sid slot c))"
| conn_goaway: "conn_reachable C c \<Longrightarrow> conn_reachable C (snd (goaway_with_last_stream_id C e l c))"
| conn_graceful: "conn_reachable C c \<Longrightarrow> conn_reachable C (snd (graceful_goaway C now c))"
| conn_window_update: "conn_reachable C c \<Longrightarrow> conn_reachable C (conn_queue_window_update sid increment c)"
| conn_reset: "conn_reachable C c \<Longrightarrow> conn_reachable C (snd (conn_enqueue_rst C sid e origin c))"
| conn_ping: "conn_reachable C c \<Longrightarrow> length payload = 8 \<Longrightarrow> conn_reachable C (snd (handle_ping_frame C payload ack c))"
| conn_settings: "conn_reachable C c \<Longrightarrow> conn_reachable C (snd (snd (handle_settings_frame C settings ack windows c)))"
| conn_refuse: "conn_reachable C c \<Longrightarrow> conn_reachable C (snd (refuse_stream_and_discard C sid e origin len discarded c))"
| conn_discard: "conn_reachable C c \<Longrightarrow> conn_reachable C (snd (discard_frame_payload header c))"
| conn_remove: "conn_reachable C c \<Longrightarrow> conn_reachable C (remove_dead_stream C sid gid c)"
| conn_flush: "conn_reachable C c \<Longrightarrow> conn_reachable C (snd (flush_pending_control_frames C c))"
| conn_written: "conn_reachable C c \<Longrightarrow> conn_reachable C (snd (consume_output_flush n status c))"
| conn_dispatch: "conn_reachable C c \<Longrightarrow> is_writable (interest (cn_readiness c)) \<Longrightarrow>
    flush_pending_control_frames C c0 = (FlushProceed, c) \<Longrightarrow> conn_reachable C c0 \<Longrightarrow>
    dispatch_writable_state C tls c = Some (t, c') \<Longrightarrow> conn_reachable C c'"
| conn_dispatched: "conn_reachable C c \<Longrightarrow> dispatch_writable_state_after_flush tls c = Some (r, c') \<Longrightarrow> conn_reachable C c'"
| conn_finalize: "conn_reachable C c \<Longrightarrow> finalize_write C tls socket_write n pending_back c = Some (f, c') \<Longrightarrow> conn_reachable C c'"
| conn_finalized: "conn_reachable C c \<Longrightarrow> finalize_write_after_flush tls c = Some (r, c') \<Longrightarrow> conn_reachable C c'"
| conn_settle: "conn_reachable C c \<Longrightarrow> conn_reachable C (snd (poll_force_disconnect c))"
| conn_settled: "conn_reachable C c \<Longrightarrow> conn_reachable C (snd (force_disconnect_after_query target tls c))"

lemma flush_proceeds:
  assumes "cookie_documented wire C" and "conn_good c0" and "flush_pending_control_frames C c0 = (FlushProceed, c)"
  shows "queued c = [] \<and> pending_window_updates (cn_flow_control c) = [] \<and> pending_rst_streams (cn_control_tx c) = []"
  using flush_effect [OF assms(1) drop_if_hung_up_effect(1) [OF good_ok [OF assms(2)]] refl assms(3)]
  by (auto split: if_splits)

lemma conn_reachable_good:
  assumes "cookie_documented wire C" and "conn_reachable C c"
  shows "conn_good c"
  using assms(2)
proof (induction rule: conn_reachable.induct)
  case (conn_clock c now refused)
  then show ?case by (elim good_key [rotated]) (simp add: conn_key_def)
next
  case (conn_event c raised)
  then show ?case by (elim good_key [rotated]) (simp add: conn_key_def)
next
  case (conn_flush c)
  then show ?case using good_flush [OF assms(1) _ surjective_pairing] by blast
next
  case (conn_settings c settings ack windows)
  then show ?case using good_settings [OF assms(1)] by (metis surjective_pairing)
next
  case (conn_dispatch c c0 tls t c')
  then show ?case using good_dispatch [OF assms(1)] flush_proceeds [OF assms(1)] by blast
next
  case (conn_settle c)
  then show ?case by (elim good_key [rotated]) (simp add: conn_key_def poll_force_disconnect_def)
qed (auto intro: good_new good_create good_goaway [OF assms(1)] good_ok good_graceful [OF assms(1)] good_queue_window_update
    good_enqueue_rst [OF assms(1)] good_ping [OF assms(1)] good_refuse [OF assms(1)] good_discard_payload good_remove_dead [OF assms(1)]
    good_consume good_after_flush good_finalize [OF assms(1)] good_finalize_after good_after_query)

text \<open>
  C8: every connection reached by its control path, whatever frames, refusals, resets, write results and
  hang-ups it sees, satisfies the checks of its parts, and never goes to sleep over something to send:
  when output, a WINDOW_UPDATE or a RST_STREAM is queued, it asks for the writable event.
\<close>

theorem connection_never_sleeps_on_output:
  assumes "cookie_documented wire C" and "conn_reachable C c"
  shows "st_check_invariants (cn_stream_table c) \<and> tx_check_invariants (cn_control_tx c) \<and>
    fc_check_invariants (cn_flow_control c) \<and> drain_check_invariants (cn_drain c) \<and>
    (output_pending (cn_output c) \<noteq> [] \<or> pending_window_updates (cn_flow_control c) \<noteq> [] \<or>
     pending_rst_streams (cn_control_tx c) \<noteq> [] \<longrightarrow> is_writable (interest (cn_readiness c)))"
  using conn_reachable_good [OF assms]
  by (auto simp: conn_good_def conn_ok_def wakes_def queued_def table_ok_check tx_ok_check fc_ok_check)

definition reached_example :: "unit ConnectionH2" where
  "reached_example = conn_queue_window_update 0 100
     (connection_new PosServer 0 16384 flood_config_default connection_config_default None None READABLE)"

theorem connection_never_sleeps_on_output_witness:
  "pending_window_updates (cn_flow_control reached_example) = [(0, 100)] \<and>
   drain_check_invariants (cn_drain reached_example) \<and> is_writable (interest (cn_readiness reached_example))"
proof -
  have "conn_reachable cookie_buffer reached_example"
    unfolding reached_example_def by (rule conn_window_update [OF conn_new])
  moreover have "pending_window_updates (cn_flow_control reached_example) = [(0, 100)]"
    by (simp add: reached_example_def conn_queue_window_update_def conn_arm_writable_def connection_new_def
        queue_window_update_def flow_control_new_def connection_config_default_def DEFAULT_MAX_CONCURRENT_STREAMS_def Let_def)
  ultimately show ?thesis using connection_never_sleeps_on_output [OF cookie_buffer_documented, of reached_example] by simp
qed

end
