(* ===== verification/H2_Flood_Limits.thy ===== *)
theory H2_Flood_Limits
  imports H2_Flood
begin

text \<open>
  What the flood detector guarantees: the invariant of its counters, the exact meaning of a
  verdict, the frame rates a connection can sustain without one, and the reset patterns that are
  cut off or left alone.
\<close>

subsection \<open>Runs\<close>

text \<open>What a connection records, and the check that follows.\<close>

datatype flood_op = OpStreamOpened | OpDataFramesSent nat | OpRstReceived bool bool | OpRstEmitted
  | OpRstWindow | OpPing | OpSettings | OpEmptyData | OpWindowUpdate0 | OpGlitch
  | OpContinuation nat | OpBeginBlock nat | OpResetContinuation

fun flood_record :: "flood_op \<Rightarrow> nat \<Rightarrow> H2FloodDetector \<Rightarrow> H2FloodViolation option \<times> H2FloodDetector" where
  "flood_record OpStreamOpened now d = (None, record_stream_opened d)"
| "flood_record (OpDataFramesSent n) now d = (None, record_data_frames_sent n d)"
| "flood_record (OpRstReceived started answered) now d = record_rst_received started answered now d"
| "flood_record OpRstEmitted now d = record_rst_emitted d"
| "flood_record OpRstWindow now d = (None, record_rst_stream_window d)"
| "flood_record OpPing now d = (None, record_ping_frame d)"
| "flood_record OpSettings now d = (None, record_settings_frame d)"
| "flood_record OpEmptyData now d = (None, record_empty_data_frame d)"
| "flood_record OpWindowUpdate0 now d = (None, record_window_update_stream0 d)"
| "flood_record OpGlitch now d = (None, record_glitch d)"
| "flood_record (OpContinuation n) now d = (None, record_continuation_frame n d)"
| "flood_record (OpBeginBlock n) now d = (None, begin_header_block_if_new n d)"
| "flood_record OpResetContinuation now d = (None, reset_continuation d)"

definition flood_step :: "flood_op \<Rightarrow> nat \<Rightarrow> H2FloodDetector \<Rightarrow> H2FloodViolation option \<times> H2FloodDetector" where
  "flood_step op now d =
     (case flood_record op now d of (Some v, d') \<Rightarrow> (Some v, d') | (None, d') \<Rightarrow> check_flood now d')"

text \<open>A run ends at the first violation, when the connection is closed.\<close>

fun flood_run :: "(flood_op \<times> nat) list \<Rightarrow> H2FloodDetector \<Rightarrow> H2FloodViolation option \<times> H2FloodDetector" where
  "flood_run [] d = (None, d)"
| "flood_run ((op, now) # ops) d =
     (case flood_step op now d of (Some v, d') \<Rightarrow> (Some v, d') | (None, d') \<Rightarrow> flood_run ops d')"

lemma maybe_reset_window_keeps [simp]:
  "flood_config (maybe_reset_window now d) = flood_config d"
  "total_rst_received_lifetime (maybe_reset_window now d) = total_rst_received_lifetime d"
  "total_abusive_rst_received_lifetime (maybe_reset_window now d) = total_abusive_rst_received_lifetime d"
  "total_rst_streams_emitted_lifetime (maybe_reset_window now d) = total_rst_streams_emitted_lifetime d"
  "streams_opened (maybe_reset_window now d) = streams_opened d"
  "total_ping_received_lifetime (maybe_reset_window now d) = total_ping_received_lifetime d"
  "total_settings_received_lifetime (maybe_reset_window now d) = total_settings_received_lifetime d"
  "continuation_count (maybe_reset_window now d) = continuation_count d"
  "accumulated_header_size (maybe_reset_window now d) = accumulated_header_size d"
  "last_pre_response_rst_at (maybe_reset_window now d) = last_pre_response_rst_at d"
  by (simp_all add: maybe_reset_window_def Let_def)

lemma snd_check_flood [simp]: "snd (check_flood now d) = maybe_reset_window now d"
  by (simp add: check_flood_def Let_def)

lemmas flood_record_defs = record_stream_opened_def record_data_frames_sent_def record_rst_received_def
  record_rst_lifetime_def record_rst_emitted_def record_rst_stream_window_def record_ping_frame_def
  record_settings_frame_def record_empty_data_frame_def record_window_update_stream0_def record_glitch_def
  record_continuation_frame_def begin_header_block_if_new_def reset_continuation_def

text \<open>The configuration never changes.\<close>

lemma flood_record_config: "flood_config (snd (flood_record op now d)) = flood_config d"
  by (cases op) (auto simp: flood_record_defs Let_def)

lemma flood_step_cases:
  assumes "flood_step op now d = (r, d')"
  obtains v where "flood_record op now d = (Some v, d')" "r = Some v"
  | d1 where "flood_record op now d = (None, d1)" "check_flood now d1 = (r, d')" "d' = maybe_reset_window now d1"
  using assms
  by (auto simp: flood_step_def split: prod.splits option.splits) (metis snd_check_flood snd_conv)

lemma flood_step_config: "flood_step op now d = (r, d') \<Longrightarrow> flood_config d' = flood_config d"
  by (erule flood_step_cases) (use flood_record_config [of op now d] in auto)

subsection \<open>Verdicts\<close>

lemma or_else_None [simp]: "or_else x y = None \<longleftrightarrow> x = None \<and> y = None"
  by (cases x) auto

lemma flag_None [simp]: "flag r k c t = None \<longleftrightarrow> c \<le> t"
  by (simp add: flag_def)

definition within_limits :: "H2FloodDetector \<Rightarrow> bool" where
  "within_limits d \<longleftrightarrow>
     rst_stream_count d \<le> max_rst_stream_per_window (flood_config d) \<and>
     ping_count d \<le> max_ping_per_window (flood_config d) \<and>
     total_ping_received_lifetime d \<le> DEFAULT_MAX_PING_LIFETIME \<and>
     settings_count d \<le> max_settings_per_window (flood_config d) \<and>
     total_settings_received_lifetime d \<le> DEFAULT_MAX_SETTINGS_LIFETIME \<and>
     empty_data_count d \<le> max_empty_data_per_window (flood_config d) \<and>
     continuation_count d \<le> max_continuation_frames (flood_config d) \<and>
     window_update_stream0_count d \<le> max_window_update_stream0_per_window (flood_config d) \<and>
     accumulated_header_size d \<le> max_header_list_size (flood_config d) \<and>
     glitch_count d \<le> max_glitch_count (flood_config d)"

lemma check_flood_None: "fst (check_flood now d) = None \<longleftrightarrow> within_limits (maybe_reset_window now d)"
  by (simp add: check_flood_def Let_def within_limits_def conj_assoc)

definition calm_violation :: "H2FloodViolation \<Rightarrow> bool" where
  "calm_violation v \<longleftrightarrow> fv_error v = EnhanceYourCalm \<and> fv_threshold v < fv_count v"

lemma flag_calm: "flag r k c t = Some v \<Longrightarrow> calm_violation v"
  by (auto simp: flag_def calm_violation_def split: if_splits)

lemma or_else_calm:
  "(\<And>v. x = Some v \<Longrightarrow> calm_violation v) \<Longrightarrow> (\<And>v. y = Some v \<Longrightarrow> calm_violation v) \<Longrightarrow>
    or_else x y = Some v \<Longrightarrow> calm_violation v"
  by (cases x) auto

lemma check_flood_calm: "fst (check_flood now d) = Some v \<Longrightarrow> calm_violation v"
  unfolding check_flood_def Let_def fst_conv
  by (elim or_else_calm [rotated 2]; (erule flag_calm)?)

subsection \<open>Sustained rates\<close>

definition rolls :: "nat \<Rightarrow> H2FloodDetector \<Rightarrow> bool" where
  "rolls now d \<longleftrightarrow> FLOOD_WINDOW_DURATION \<le> now - window_start d"

text \<open>
  What the rate counters have in common: one frame kind advances the counter by one, nothing else
  does, a window roll halves it, and a check without a verdict keeps it within its threshold. The
  bound on the number of frames follows once for all of them.
\<close>

definition frames_of :: "(flood_op \<Rightarrow> bool) \<Rightarrow> (flood_op \<times> nat) list \<Rightarrow> nat" where
  "frames_of hit ops = length (filter (\<lambda>(op, _). hit op) ops)"

lemma frames_of_simps [simp]:
  "frames_of hit [] = 0"
  "frames_of hit ((op, now) # ops) = (if hit op then 1 else 0) + frames_of hit ops"
  by (simp_all add: frames_of_def)

lemma flood_record_window_start: "window_start (snd (flood_record op now d)) = window_start d"
  by (cases op) (auto simp: flood_record_defs Let_def)

lemma maybe_reset_window_start:
  "window_start (maybe_reset_window now d) = (if rolls now d then now else window_start d)"
  by (simp add: maybe_reset_window_def rolls_def Let_def)

lemma rolls_advances: "rolls now d \<Longrightarrow> window_start d + FLOOD_WINDOW_DURATION \<le> now"
  by (auto simp: rolls_def FLOOD_WINDOW_DURATION_def)

lemma flood_step_quiet:
  assumes "flood_step op now d = (None, d')"
  obtains d1 where "flood_record op now d = (None, d1)" "d' = maybe_reset_window now d1" "within_limits d'"
  using assms by (rule flood_step_cases) (use check_flood_None in auto, metis fst_conv)

locale rate_counter =
  fixes cnt :: "H2FloodDetector \<Rightarrow> nat" and limit :: "H2FloodConfig \<Rightarrow> nat" and hit :: "flood_op \<Rightarrow> bool"
  assumes record_cnt: "cnt (snd (flood_record op now d)) = (if hit op then u32_inc (cnt d) else cnt d)"
    and roll_cnt: "cnt (maybe_reset_window now d) = (if rolls now d then cnt d div 2 else cnt d)"
    and limit_cnt: "within_limits d \<Longrightarrow> cnt d \<le> limit (flood_config d)"
begin

lemma step_bound:
  assumes "flood_step op now d = (None, d')" and "cnt d \<le> limit (flood_config d)"
    and "limit (flood_config d) < 2 ^ 32 - 1"
  shows "\<exists>k. (if hit op then 1 else 0) + cnt d \<le> cnt d' + k * ((limit (flood_config d) + 2) div 2) \<and>
    k * FLOOD_WINDOW_DURATION + window_start d \<le> window_start d' \<and> (k = 0 \<longrightarrow> window_start d' = window_start d) \<and>
    (0 < k \<longrightarrow> window_start d' = now) \<and> cnt d' \<le> limit (flood_config d)"
proof -
  obtain d1 where d1: "flood_record op now d = (None, d1)" "d' = maybe_reset_window now d1" "within_limits d'"
    using flood_step_quiet [OF assms(1)] by metis
  have c1: "cnt d1 = (if hit op then 1 else 0) + cnt d"
    using record_cnt [of op now d] assms(2,3) by (simp add: d1(1) u32_inc_def)
  have w1: "window_start d1 = window_start d" using flood_record_window_start [of op now d] by (simp add: d1(1))
  have cfg: "flood_config d' = flood_config d" by (rule flood_step_config [OF assms(1)])
  have lim: "cnt d' \<le> limit (flood_config d)" using limit_cnt [OF d1(3)] cfg by simp
  show ?thesis
  proof (cases "rolls now d1")
    case True
    have "cnt d1 \<le> cnt d1 div 2 + (limit (flood_config d) + 2) div 2" using c1 assms(2) by auto
    then show ?thesis
      using True c1 w1 lim rolls_advances [OF True]
      by (intro exI [of _ 1]) (simp add: d1(2) roll_cnt maybe_reset_window_start)
  next
    case False
    then show ?thesis
      using c1 w1 lim by (intro exI [of _ 0]) (simp add: d1(2) roll_cnt maybe_reset_window_start)
  qed
qed

lemma run_bound:
  assumes "flood_run ops d = (None, d')" and "cnt d \<le> limit (flood_config d)"
    and "limit (flood_config d) < 2 ^ 32 - 1"
  shows "\<exists>k. frames_of hit ops + cnt d \<le> cnt d' + k * ((limit (flood_config d) + 2) div 2) \<and>
    k * FLOOD_WINDOW_DURATION + window_start d \<le> window_start d' \<and> cnt d' \<le> limit (flood_config d) \<and>
    (window_start d' = window_start d \<or> window_start d' \<in> snd ` set ops)"
  using assms
proof (induction ops arbitrary: d)
  case Nil
  then show ?case by (intro exI [of _ 0]) simp
next
  case (Cons e ops)
  obtain op now where e: "e = (op, now)" by (cases e)
  obtain d1 where d1: "flood_step op now d = (None, d1)" "flood_run ops d1 = (None, d')"
    using Cons.prems(1) by (auto simp: e split: prod.splits option.splits)
  have cfg: "flood_config d1 = flood_config d" by (rule flood_step_config [OF d1(1)])
  obtain k where k: "(if hit op then 1 else 0) + cnt d \<le> cnt d1 + k * ((limit (flood_config d) + 2) div 2)"
    "k * FLOOD_WINDOW_DURATION + window_start d \<le> window_start d1" "k = 0 \<longrightarrow> window_start d1 = window_start d"
    "0 < k \<longrightarrow> window_start d1 = now" "cnt d1 \<le> limit (flood_config d)"
    using step_bound [OF d1(1) Cons.prems(2,3)] by (elim exE conjE) (rule that)
  obtain j where j: "frames_of hit ops + cnt d1 \<le> cnt d' + j * ((limit (flood_config d) + 2) div 2)"
    "j * FLOOD_WINDOW_DURATION + window_start d1 \<le> window_start d'" "cnt d' \<le> limit (flood_config d)"
    "window_start d' = window_start d1 \<or> window_start d' \<in> snd ` set ops"
    using Cons.IH [OF d1(2)] k(5) Cons.prems(3) by (auto simp: cfg)
  show ?case
    using k j by (intro exI [of _ "k + j"]) (auto simp: e add_mult_distrib)
qed

lemma sustained_rate:
  assumes "flood_run ops d = (None, d')" and "cnt d = 0" and "limit (flood_config d) < 2 ^ 32 - 1"
    and "\<forall>(op, now) \<in> set ops. now \<le> window_start d + elapsed"
  shows "frames_of hit ops \<le>
    limit (flood_config d) + elapsed div FLOOD_WINDOW_DURATION * ((limit (flood_config d) + 2) div 2)"
proof -
  obtain k where k: "frames_of hit ops \<le> cnt d' + k * ((limit (flood_config d) + 2) div 2)"
    "k * FLOOD_WINDOW_DURATION + window_start d \<le> window_start d'" "cnt d' \<le> limit (flood_config d)"
    "window_start d' = window_start d \<or> window_start d' \<in> snd ` set ops"
    using run_bound [OF assms(1) _ assms(3)] assms(2) by auto
  have "window_start d' \<le> window_start d + elapsed" using k(4) assms(4) by auto
  then have "k * FLOOD_WINDOW_DURATION \<le> elapsed" using k(2) by simp
  then have "k \<le> elapsed div FLOOD_WINDOW_DURATION"
    by (simp add: FLOOD_WINDOW_DURATION_def less_eq_div_iff_mult_less_eq)
  then have "k * ((limit (flood_config d) + 2) div 2) \<le>
      elapsed div FLOOD_WINDOW_DURATION * ((limit (flood_config d) + 2) div 2)" by (rule mult_le_mono1)
  with k(1,3) show ?thesis by linarith
qed

end

interpretation rst_rate: rate_counter rst_stream_count max_rst_stream_per_window "\<lambda>op. op = OpRstWindow"
proof
  show "rst_stream_count (snd (flood_record op now d)) =
      (if op = OpRstWindow then u32_inc (rst_stream_count d) else rst_stream_count d)" for op now d
    by (cases op) (simp_all add: flood_record_defs Let_def)
qed (simp_all add: maybe_reset_window_def rolls_def Let_def within_limits_def)

interpretation ping_rate: rate_counter ping_count max_ping_per_window "\<lambda>op. op = OpPing"
proof
  show "ping_count (snd (flood_record op now d)) = (if op = OpPing then u32_inc (ping_count d) else ping_count d)"
    for op now d
    by (cases op) (simp_all add: flood_record_defs Let_def)
qed (simp_all add: maybe_reset_window_def rolls_def Let_def within_limits_def)

interpretation settings_rate: rate_counter settings_count max_settings_per_window "\<lambda>op. op = OpSettings"
proof
  show "settings_count (snd (flood_record op now d)) =
      (if op = OpSettings then u32_inc (settings_count d) else settings_count d)" for op now d
    by (cases op) (simp_all add: flood_record_defs Let_def)
qed (simp_all add: maybe_reset_window_def rolls_def Let_def within_limits_def)

interpretation empty_data_rate: rate_counter empty_data_count max_empty_data_per_window "\<lambda>op. op = OpEmptyData"
proof
  show "empty_data_count (snd (flood_record op now d)) =
      (if op = OpEmptyData then u32_inc (empty_data_count d) else empty_data_count d)" for op now d
    by (cases op) (simp_all add: flood_record_defs Let_def)
qed (simp_all add: maybe_reset_window_def rolls_def Let_def within_limits_def)

interpretation glitch_rate: rate_counter glitch_count max_glitch_count "\<lambda>op. op = OpGlitch"
proof
  show "glitch_count (snd (flood_record op now d)) =
      (if op = OpGlitch then u32_inc (glitch_count d) else glitch_count d)" for op now d
    by (cases op) (simp_all add: flood_record_defs Let_def)
qed (simp_all add: maybe_reset_window_def rolls_def Let_def within_limits_def)

subsection \<open>Reset caps\<close>

text \<open>
  Resets of streams the connection still knows: one received after the response started is
  counted as answered, one received before is not.
\<close>

fun matched_op :: "flood_op \<Rightarrow> bool" where
  "matched_op (OpRstReceived started answered) \<longleftrightarrow> started = answered"
| "matched_op _ \<longleftrightarrow> True"

definition reset_ok :: "H2FloodDetector \<Rightarrow> bool" where
  "reset_ok d \<longleftrightarrow> flood_check_invariants d \<and> total_rst_received_lifetime d \<le> 2 ^ 64 - 1"

lemma reset_ok_record: "reset_ok d \<Longrightarrow> reset_ok (snd (flood_record op now d))"
  by (cases op)
    (auto simp: flood_record_defs Let_def reset_ok_def flood_check_invariants_def u64_sat_add_def)

lemma reset_ok_roll: "reset_ok d \<Longrightarrow> reset_ok (maybe_reset_window now d)"
  by (simp add: reset_ok_def flood_check_invariants_def)

lemma flood_step_keeps:
  assumes "flood_step op now d = (r, d')" and "P d"
    and "\<And>d. P d \<Longrightarrow> P (snd (flood_record op now d))" and "\<And>d. P d \<Longrightarrow> P (maybe_reset_window now d)"
  shows "P d'"
  using assms(1)
proof (cases rule: flood_step_cases)
  case (1 v)
  with assms(3) [OF assms(2)] show ?thesis by simp
next
  case (2 d1)
  then have "P d1" using assms(3) [OF assms(2)] by simp
  then show ?thesis using assms(4) 2(3) by simp
qed

lemma flood_run_keeps:
  assumes "flood_run ops d = (r, d')" and "P d" and "\<forall>(op, now) \<in> set ops. Q op"
    and "\<And>op now d. Q op \<Longrightarrow> P d \<Longrightarrow> P (snd (flood_record op now d))"
    and "\<And>now d. P d \<Longrightarrow> P (maybe_reset_window now d)"
  shows "P d'"
  using assms(1-3)
proof (induction ops arbitrary: d)
  case (Cons e ops)
  obtain op now r1 d1 where e: "e = (op, now)" "flood_step op now d = (r1, d1)" by (metis surj_pair)
  then have "P d1" using flood_step_keeps [where P = P, OF e(2) Cons.prems(2)] assms(4,5) Cons.prems(3) by auto
  then show ?case using Cons e by (auto split: option.splits)
qed simp

definition answered_ok :: "H2FloodDetector \<Rightarrow> bool" where
  "answered_ok d \<longleftrightarrow> reset_ok d \<and>
     total_rst_received_lifetime d - total_abusive_rst_received_lifetime d \<le> streams_opened d"

lemma answered_ok_record: "matched_op op \<Longrightarrow> answered_ok d \<Longrightarrow> answered_ok (snd (flood_record op now d))"
  by (cases op)
    (auto simp: flood_record_defs Let_def answered_ok_def reset_ok_def flood_check_invariants_def u64_sat_add_def)

lemma answered_ok_roll: "answered_ok d \<Longrightarrow> answered_ok (maybe_reset_window now d)"
  by (simp add: answered_ok_def reset_ok_roll)

lemma flood_new_config: "flood_config (flood_new cfg now) = cfg"
  by (simp add: flood_new_def)

lemma answered_ok_new: "answered_ok (flood_new cfg now)"
  by (simp add: answered_ok_def reset_ok_def flood_check_invariants_def flood_new_def)

text \<open>A verdict of the reset caps needs more resets before the response than answered streams.\<close>

lemma record_verdict:
  assumes "flood_record op now d = (Some v, d')" and "answered_ok d" and "matched_op op"
  shows "calm_violation v \<and> streams_opened d' < pre_response_resets d' \<and>
    (case op of OpRstReceived _ _ \<Rightarrow>
        max_rst_stream_abusive_lifetime (flood_config d) < total_abusive_rst_received_lifetime d'
      | _ \<Rightarrow> max_rst_stream_emitted_lifetime (flood_config d) < total_rst_streams_emitted_lifetime d')"
proof (cases op)
  case (OpRstReceived started answered)
  have ok: "answered_ok d'" using answered_ok_record [OF assms(3,2), of now] assms(1) by simp
  then have "\<not> streams_opened d' < total_rst_received_lifetime d' - total_abusive_rst_received_lifetime d'"
    by (simp add: answered_ok_def)
  then show ?thesis
    using assms(1) OpRstReceived
    by (auto simp: record_rst_received_def record_rst_lifetime_def record_stream_opened_def Let_def exceeds_floor_and_ratio_def
        calm_violation_def split: if_splits)
next
  case OpRstEmitted
  then show ?thesis
    using assms(1)
    by (auto simp: record_rst_emitted_def Let_def exceeds_floor_and_ratio_def calm_violation_def split: if_splits)
qed (use assms(1) in auto)

text \<open>The Rapid Reset client: every stream reset before its response.\<close>

fun rapid_reset :: "nat \<Rightarrow> nat \<Rightarrow> H2FloodDetector \<Rightarrow> H2FloodViolation option \<times> H2FloodDetector" where
  "rapid_reset 0 now d = (None, d)"
| "rapid_reset (Suc n) now d =
     (case rapid_reset n now d of
        (Some v, d') \<Rightarrow> (Some v, d')
      | (None, d') \<Rightarrow> record_rst_received False False now d')"

fun answered_streams :: "nat \<Rightarrow> H2FloodDetector \<Rightarrow> H2FloodDetector" where
  "answered_streams 0 d = d"
| "answered_streams (Suc n) d = record_stream_opened (answered_streams n d)"

lemma answered_streams_eq:
  "n + streams_opened d < 2 ^ 64 \<Longrightarrow> answered_streams n d = d\<lparr>streams_opened := n + streams_opened d\<rparr>"
  by (induction n) (simp_all add: record_stream_opened_def u64_sat_add_def)

lemma rapid_reset_state:
  assumes "total_rst_received_lifetime d = 0" "total_abusive_rst_received_lifetime d = 0"
    "total_rst_streams_emitted_lifetime d = 0" and "n < 2 ^ 64"
    and "n \<le> max (max_rst_stream_abusive_lifetime (flood_config d)) (streams_opened d)"
  shows "rapid_reset n now d = (None, d\<lparr>total_rst_received_lifetime := n, total_abusive_rst_received_lifetime := n,
    last_pre_response_rst_at := (if n = 0 then last_pre_response_rst_at d else Some now)\<rparr>)"
  using assms(4,5)
proof (induction n)
  case 0
  then show ?case using assms(1,2) by simp
next
  case (Suc n)
  then have "\<not> exceeds_floor_and_ratio (Suc n) (max_rst_stream_abusive_lifetime (flood_config d)) (Suc n) (streams_opened d)"
    by (auto simp: exceeds_floor_and_ratio_def)
  moreover have "\<not> exceeds_floor_and_ratio (Suc n) (max_rst_stream_lifetime (flood_config d)) 0 (streams_opened d)"
    by (simp add: exceeds_floor_and_ratio_def)
  ultimately show ?case
    using Suc assms(3)
    by (simp add: record_rst_received_def record_rst_lifetime_def Let_def u64_sat_add_def pre_response_resets_def)
qed

lemma rapid_reset_Some_mono: "fst (rapid_reset n now d) \<noteq> None \<Longrightarrow> n \<le> m \<Longrightarrow> fst (rapid_reset m now d) \<noteq> None"
  by (induction m) (auto simp: le_Suc_eq split: prod.splits option.splits)

lemma rapid_reset_trips:
  assumes "total_rst_received_lifetime d = 0" "total_abusive_rst_received_lifetime d = 0"
    "total_rst_streams_emitted_lifetime d = 0"
    and "n = max (max_rst_stream_abusive_lifetime (flood_config d)) (streams_opened d)" and "Suc n < 2 ^ 64"
  shows "fst (rapid_reset (Suc n) now d) \<noteq> None"
proof -
  have "exceeds_floor_and_ratio (Suc n) (max_rst_stream_abusive_lifetime (flood_config d)) (Suc n) (streams_opened d)"
    by (auto simp: assms(4) exceeds_floor_and_ratio_def)
  then show ?thesis
    using rapid_reset_state [OF assms(1-3), of n now] assms(3-5)
    by (simp add: record_rst_received_def record_rst_lifetime_def Let_def u64_sat_add_def pre_response_resets_def)
qed

subsection \<open>Refusing streams\<close>

lemma flood_run_quiet_keeps:
  assumes "flood_run ops d = (None, d')" and "P d" and "\<forall>(op, now) \<in> set ops. Q op"
    and "\<And>op now d d1. Q op \<Longrightarrow> P d \<Longrightarrow> flood_record op now d = (None, d1) \<Longrightarrow> P d1"
    and "\<And>now d. P d \<Longrightarrow> P (maybe_reset_window now d)"
  shows "P d'"
  using assms(1-3)
proof (induction ops arbitrary: d)
  case (Cons e ops)
  obtain op now where e: "e = (op, now)" by (cases e)
  obtain d1 where d1: "flood_step op now d = (None, d1)" "flood_run ops d1 = (None, d')"
    using Cons.prems(1) by (auto simp: e split: prod.splits option.splits)
  obtain d2 where "flood_record op now d = (None, d2)" "d1 = maybe_reset_window now d2"
    using flood_step_quiet [OF d1(1)] by metis
  then have "P d1" using assms(4,5) Cons.prems(2,3) e by auto
  then show ?case using Cons.IH [OF d1(2)] Cons.prems(3) by simp
qed simp

definition abusive_ok :: "H2FloodConfig \<Rightarrow> H2FloodDetector \<Rightarrow> bool" where
  "abusive_ok cfg d \<longleftrightarrow> flood_config d = cfg \<and> total_rst_streams_emitted_lifetime d = 0 \<and>
     total_abusive_rst_received_lifetime d \<le> 2 ^ 64 - 1 \<and>
     total_abusive_rst_received_lifetime d \<le> max (max_rst_stream_abusive_lifetime cfg) (streams_opened d)"

text \<open>Only the reset operations and \<open>record_stream_opened\<close> touch the counters of the reset caps.\<close>

lemma flood_record_other:
  assumes "\<And>s a. op \<noteq> OpRstReceived s a" and "op \<noteq> OpRstEmitted"
  shows "fst (flood_record op now d) = None"
    "total_abusive_rst_received_lifetime (snd (flood_record op now d)) = total_abusive_rst_received_lifetime d"
    "total_rst_streams_emitted_lifetime (snd (flood_record op now d)) = total_rst_streams_emitted_lifetime d"
    "streams_opened (snd (flood_record op now d)) =
      (if op = OpStreamOpened then u64_sat_add (streams_opened d) 1 else streams_opened d)"
  using assms by (cases op; simp add: flood_record_defs Let_def)+

lemma record_rst_received_state:
  "snd (record_rst_received started answered now d) =
    d\<lparr>streams_opened := (if answered then u64_sat_add (streams_opened d) 1 else streams_opened d),
      last_pre_response_rst_at := (if started then last_pre_response_rst_at d else Some now),
      total_rst_received_lifetime := u64_sat_add (total_rst_received_lifetime d) 1,
      total_abusive_rst_received_lifetime := (if started then total_abusive_rst_received_lifetime d
        else u64_sat_add (total_abusive_rst_received_lifetime d) 1)\<rparr>"
  by (simp add: record_rst_received_def record_rst_lifetime_def record_stream_opened_def Let_def)

lemma record_rst_received_quiet:
  assumes "fst (record_rst_received started answered now d) = None"
  shows "\<not> exceeds_floor_and_ratio
    (total_abusive_rst_received_lifetime (snd (record_rst_received started answered now d)))
    (max_rst_stream_abusive_lifetime (flood_config d))
    (pre_response_resets (snd (record_rst_received started answered now d)))
    (streams_opened (snd (record_rst_received started answered now d)))"
  using assms
  by (auto simp: record_rst_received_def record_rst_lifetime_def record_stream_opened_def Let_def split: if_splits)

lemma abusive_ok_record:
  assumes "op \<noteq> OpRstEmitted" and "abusive_ok cfg d" and "flood_record op now d = (None, d1)"
  shows "abusive_ok cfg d1"
proof -
  have d1: "d1 = snd (flood_record op now d)" by (simp add: assms(3))
  have cfg: "flood_config d1 = cfg" using flood_record_config [of op now d] assms(2) by (simp add: d1 abusive_ok_def)
  show ?thesis
  proof (cases "\<exists>s a. op = OpRstReceived s a")
    case True
    then obtain s a where op: "op = OpRstReceived s a" by blast
    have quiet: "fst (record_rst_received s a now d) = None" using assms(3) by (simp add: op)
    show ?thesis
      using record_rst_received_quiet [OF quiet] cfg assms(2)
      by (auto simp: d1 op record_rst_received_state abusive_ok_def exceeds_floor_and_ratio_def pre_response_resets_def
          u64_sat_add_def split: if_splits)
  next
    case False
    then show ?thesis
      using flood_record_other [of op now d] cfg assms(1,2)
      by (auto simp: d1 abusive_ok_def u64_sat_add_def)
  qed
qed

lemma abusive_ok_run:
  assumes "flood_run ops (flood_new cfg t) = (None, d)" and "\<forall>(op, now) \<in> set ops. op \<noteq> OpRstEmitted"
  shows "abusive_ok cfg d"
proof (rule flood_run_quiet_keeps [where P = "abusive_ok cfg" and Q = "\<lambda>op. op \<noteq> OpRstEmitted", OF assms(1) _ assms(2)])
  show "abusive_ok cfg (flood_new cfg t)" by (simp add: abusive_ok_def flood_new_def)
  show "abusive_ok cfg (maybe_reset_window now d)" if "abusive_ok cfg d" for now d
    using that by (simp add: abusive_ok_def)
qed (rule abusive_ok_record)

subsection \<open>Credit for window updates\<close>

text \<open>DATA frames sent and stream-0 WINDOW_UPDATE frames received, within one window.\<close>

datatype credit_event = Sent nat | Updated

fun credit_apply :: "credit_event \<Rightarrow> H2FloodDetector \<Rightarrow> H2FloodDetector" where
  "credit_apply (Sent n) d = record_data_frames_sent n d"
| "credit_apply Updated d = record_window_update_stream0 d"

fun frames_sent :: "credit_event list \<Rightarrow> nat" where
  "frames_sent [] = 0"
| "frames_sent (Sent n # es) = n + frames_sent es"
| "frames_sent (Updated # es) = frames_sent es"

definition updates_received :: "credit_event list \<Rightarrow> nat" where
  "updates_received es = length (filter (\<lambda>e. e = Updated) es)"

lemma frames_sent_append: "frames_sent (es @ es') = frames_sent es + frames_sent es'"
  by (induction es rule: frames_sent.induct) auto

lemma credit_balance:
  assumes "frames_sent es < 2 ^ 62" and "max_window_update_stream0_per_window cfg < 2 ^ 32"
    and "\<forall>k \<le> length es. updates_received (take k es) \<le> 2 * frames_sent (take k es)"
  shows "window_update_stream0_count (fold credit_apply es (flood_new cfg t)) = 0 \<and>
    window_update_stream0_credit (fold credit_apply es (flood_new cfg t)) = 2 * frames_sent es - updates_received es \<and>
    data_frames_recent (fold credit_apply es (flood_new cfg t)) = frames_sent es \<and>
    flood_config (fold credit_apply es (flood_new cfg t)) = cfg"
  using assms(1,3)
proof (induction es rule: rev_induct)
  case Nil
  then show ?case by (simp add: flood_new_def updates_received_def)
next
  case (snoc e es)
  let ?d = "fold credit_apply es (flood_new cfg t)"
  have pre: "\<forall>k \<le> length es. updates_received (take k es) \<le> 2 * frames_sent (take k es)"
  proof (intro allI impI)
    fix k assume "k \<le> length es"
    then show "updates_received (take k es) \<le> 2 * frames_sent (take k es)"
      using snoc.prems(2) [rule_format, of k] by simp
  qed
  have IH: "window_update_stream0_count ?d = 0"
    "window_update_stream0_credit ?d = 2 * frames_sent es - updates_received es"
    "data_frames_recent ?d = frames_sent es" "flood_config ?d = cfg"
    using snoc.IH [OF _ pre] snoc.prems(1) by (auto simp: frames_sent_append)
  have now: "updates_received es \<le> 2 * frames_sent es"
    "updates_received (es @ [e]) \<le> 2 * frames_sent (es @ [e])"
    using pre [rule_format, of "length es"] snoc.prems(2) [rule_format, of "length (es @ [e])"] by simp_all
  show ?case
  proof (cases e)
    case (Sent n)
    have "frames_sent es + n < 2 ^ 62" using snoc.prems(1) by (simp add: frames_sent_append Sent)
    with now show ?thesis
      using IH assms(2)
      by (simp add: Sent record_data_frames_sent_def Let_def window_update_stream0_credit_cap_def u64_sat_add_def
          u64_sat_mul_def WINDOW_UPDATE_STREAM0_CREDIT_PER_DATA_FRAME_def frames_sent_append updates_received_def)
  next
    case Updated
    with now have "0 < 2 * frames_sent es - updates_received es"
      by (simp add: frames_sent_append updates_received_def)
    then show ?thesis
      using IH by (simp add: Updated record_window_update_stream0_def frames_sent_append updates_received_def)
  qed
qed

subsection \<open>Lifetime caps\<close>

text \<open>The counts that never decay, for the two frame kinds that have one.\<close>

locale lifetime_counter =
  fixes total :: "H2FloodDetector \<Rightarrow> nat" and cap :: nat and hit :: "flood_op \<Rightarrow> bool"
  assumes record_total:
      "total (snd (flood_record op now d)) = (if hit op then u32_sat_add (total d) 1 else total d)"
    and roll_total: "total (maybe_reset_window now d) = total d"
    and limit_total: "within_limits d \<Longrightarrow> total d \<le> cap"
    and cap_fits: "cap < 2 ^ 32 - 1"
begin

lemma lifetime_bound:
  assumes "flood_run ops d = (None, d')" and "total d \<le> cap"
  shows "frames_of hit ops + total d \<le> cap"
  using assms
proof (induction ops arbitrary: d)
  case (Cons e ops)
  obtain op now where e: "e = (op, now)" by (cases e)
  obtain d1 where d1: "flood_step op now d = (None, d1)" "flood_run ops d1 = (None, d')"
    using Cons.prems(1) by (auto simp: e split: prod.splits option.splits)
  obtain d2 where d2: "flood_record op now d = (None, d2)" "d1 = maybe_reset_window now d2" "within_limits d1"
    using flood_step_quiet [OF d1(1)] by metis
  have "total d1 = (if hit op then 1 else 0) + total d"
    using record_total [of op now d] roll_total Cons.prems(2) cap_fits by (simp add: d2 u32_sat_add_def)
  then show ?case
    using Cons.IH [OF d1(2) limit_total [OF d2(3)]] by (simp add: e)
qed simp

end

interpretation ping_lifetime: lifetime_counter total_ping_received_lifetime DEFAULT_MAX_PING_LIFETIME "\<lambda>op. op = OpPing"
proof
  show "total_ping_received_lifetime (snd (flood_record op now d)) =
      (if op = OpPing then u32_sat_add (total_ping_received_lifetime d) 1 else total_ping_received_lifetime d)"
    for op now d
    by (cases op) (simp_all add: flood_record_defs Let_def)
qed (simp_all add: within_limits_def DEFAULT_MAX_PING_LIFETIME_def)

interpretation settings_lifetime:
  lifetime_counter total_settings_received_lifetime DEFAULT_MAX_SETTINGS_LIFETIME "\<lambda>op. op = OpSettings"
proof
  show "total_settings_received_lifetime (snd (flood_record op now d)) =
      (if op = OpSettings then u32_sat_add (total_settings_received_lifetime d) 1 else total_settings_received_lifetime d)"
    for op now d
    by (cases op) (simp_all add: flood_record_defs Let_def)
qed (simp_all add: within_limits_def DEFAULT_MAX_SETTINGS_LIFETIME_def)

subsection \<open>Properties\<close>



text \<open>
  a check ends the connection exactly when, after the decay due at that instant, some counter is
  above its threshold, and the verdict is then ENHANCE_YOUR_CALM with a count strictly above the
  threshold it names.
\<close>

theorem check_flood_exact:
  "(fst (check_flood now d) = None \<longleftrightarrow> within_limits (maybe_reset_window now d)) \<and>
    pred_option calm_violation (fst (check_flood now d))"
  using check_flood_calm [of now d] by (simp add: check_flood_None option.pred_set)



text \<open>
  the Rapid Reset attack is stopped at the configured point and not before. With \<open>s\<close> answered
  streams on record, a client that resets every further stream before its response is cut off by
  exactly the reset whose number exceeds both the configured floor and \<open>s\<close>.
\<close>

theorem rapid_reset_cut_exactly:
  assumes "s < 2 ^ 64" and "max (max_rst_stream_abusive_lifetime cfg) s < 2 ^ 64 - 1" and "n < 2 ^ 64"
  shows "fst (rapid_reset n now (answered_streams s (flood_new cfg t))) = None \<longleftrightarrow>
    n \<le> max (max_rst_stream_abusive_lifetime cfg) s"
proof -
  let ?d = "answered_streams s (flood_new cfg t)" and ?m = "max (max_rst_stream_abusive_lifetime cfg) s"
  have d: "?d = (flood_new cfg t)\<lparr>streams_opened := s\<rparr>"
    using answered_streams_eq [of s "flood_new cfg t"] assms(1) by (simp add: flood_new_def)
  have z: "total_rst_received_lifetime ?d = 0" "total_abusive_rst_received_lifetime ?d = 0"
    "total_rst_streams_emitted_lifetime ?d = 0" "streams_opened ?d = s" "flood_config ?d = cfg"
    unfolding d by (simp_all add: flood_new_def)
  show ?thesis
  proof (cases "n \<le> ?m")
    case True
    then show ?thesis using rapid_reset_state [OF z(1-3) assms(3), of now] z(4,5) by simp
  next
    case False
    then have "fst (rapid_reset n now ?d) \<noteq> None"
      using rapid_reset_Some_mono [OF rapid_reset_trips [OF z(1-3), of ?m now], of n] assms(2) z(4,5) by simp
    with False show ?thesis by simp
  qed
qed

theorem rapid_reset_cut_exactly_witness:
  "fst (rapid_reset 1000 7 (answered_streams 10 (flood_new flood_config_default 0))) = None \<and>
    fst (rapid_reset 1001 7 (answered_streams 10 (flood_new flood_config_default 0))) \<noteq> None"
  using rapid_reset_cut_exactly [of 10 flood_config_default 1000 7 0]
    rapid_reset_cut_exactly [of 10 flood_config_default 1001 7 0]
  by (simp add: flood_config_default_def flood_consts)

text \<open>
  new streams are refused only in the band below the limit. On a connection where sozu was
  provoked into no reset, a refusal means that the resets before the response are above the
  configured share of the floor and outnumber the answered streams but have not passed the floor
  itself, and that the last of them is less than a second old; a share of 100 percent or more
  therefore never refuses.
\<close>

theorem soft_refusal_band:
  assumes "flood_run ops (flood_new cfg t) = (None, d)" and "\<forall>(op, now) \<in> set ops. op \<noteq> OpRstEmitted"
    and "refuses_new_streams d now"
  shows "max_rst_stream_abusive_lifetime cfg * stream_refusal_percent cfg < total_abusive_rst_received_lifetime d * 100 \<and>
    total_abusive_rst_received_lifetime d \<le> max_rst_stream_abusive_lifetime cfg \<and>
    streams_opened d < total_abusive_rst_received_lifetime d \<and>
    (\<exists>at. last_pre_response_rst_at d = Some at \<and> now < at + FLOOD_WINDOW_DURATION) \<and>
    stream_refusal_percent cfg < 100"
proof -
  have ok: "abusive_ok cfg d" by (rule abusive_ok_run [OF assms(1,2)])
  let ?a = "total_abusive_rst_received_lifetime d" and ?f = "max_rst_stream_abusive_lifetime cfg"
  have r: "?f * stream_refusal_percent cfg < ?a * 100" "streams_opened d < ?a"
    "\<exists>at. last_pre_response_rst_at d = Some at \<and> now < at + FLOOD_WINDOW_DURATION"
    using assms(3) ok
    by (auto simp: refuses_new_streams_def Let_def abusive_ok_def pre_response_resets_def u64_sat_add_def
        FLOOD_WINDOW_DURATION_def split: if_splits option.splits)
  then have f: "?a \<le> ?f" using ok by (auto simp: abusive_ok_def)
  have "stream_refusal_percent cfg < 100"
  proof (rule ccontr)
    assume "\<not> stream_refusal_percent cfg < 100"
    then have "?f * 100 \<le> ?f * stream_refusal_percent cfg" by simp
    with r(1) f show False by linarith
  qed
  with r f show ?thesis by blast
qed

theorem soft_refusal_band_witness:
  "\<exists>d. flood_run [(OpRstReceived False False, 5), (OpRstReceived False False, 6)]
      (flood_new (flood_config_default\<lparr>max_rst_stream_abusive_lifetime := 3\<rparr>) 0) = (None, d) \<and>
    refuses_new_streams d 7 \<and> total_abusive_rst_received_lifetime d \<le> 3"
proof -
  let ?cfg = "flood_config_default\<lparr>max_rst_stream_abusive_lifetime := 3\<rparr>"
  obtain d where d: "flood_run [(OpRstReceived False False, 5), (OpRstReceived False False, 6)] (flood_new ?cfg 0) = (None, d)"
    "refuses_new_streams d 7"
    by (simp add: flood_step_def flood_new_def record_rst_received_def record_rst_lifetime_def exceeds_floor_and_ratio_def
        check_flood_def maybe_reset_window_def Let_def flood_config_default_def flood_consts u64_sat_add_def flag_def
        pre_response_resets_def refuses_new_streams_def)
  with soft_refusal_band [OF d(1) _ d(2)] show ?thesis by auto
qed

text \<open>
  One reset sozu was provoked into between two checks of the cap makes a share of 100 percent
  refuse streams on a connection without any verdict: both counts enter the ratio, and only a
  received reset checks the cap on received resets.
\<close>

lemma soft_refusal_at_full_percent:
  "\<exists>d. flood_run [(OpStreamOpened, 1), (OpStreamOpened, 2), (OpRstReceived False False, 3), (OpRstReceived False False, 4),
        (OpRstEmitted, 5)]
      (flood_new (flood_config_default\<lparr>max_rst_stream_abusive_lifetime := 1, stream_refusal_percent := 100\<rparr>) 0) = (None, d) \<and>
    refuses_new_streams d 6"
  by (simp add: flood_step_def flood_new_def record_rst_received_def record_rst_lifetime_def record_rst_emitted_def
      record_stream_opened_def exceeds_floor_and_ratio_def
      check_flood_def maybe_reset_window_def Let_def flood_config_default_def flood_consts u64_sat_add_def flag_def
      pre_response_resets_def refuses_new_streams_def)

text \<open>
  a peer that answers DATA with at most two connection-level WINDOW_UPDATE frames per frame it
  was sent is never counted as flooding within a window, however many it sends, and the credit left
  is exactly what the frames sent have earned less what was spent.
\<close>

theorem window_update_credit_exact:
  assumes "frames_sent es < 2 ^ 62" and "max_window_update_stream0_per_window cfg < 2 ^ 32"
    and "\<forall>k \<le> length es. updates_received (take k es) \<le> 2 * frames_sent (take k es)"
  shows "window_update_stream0_count (fold credit_apply es (flood_new cfg t)) = 0 \<and>
    window_update_stream0_credit (fold credit_apply es (flood_new cfg t)) = 2 * frames_sent es - updates_received es"
  using credit_balance [OF assms] by simp

theorem window_update_credit_exact_witness:
  "window_update_stream0_credit (fold credit_apply [Sent 3, Updated, Updated] (flood_new flood_config_default 0)) = 4"
proof -
  have "\<forall>k \<le> length [Sent 3, Updated, Updated].
      updates_received (take k [Sent 3, Updated, Updated]) \<le> 2 * frames_sent (take k [Sent 3, Updated, Updated])"
    by (auto simp: updates_received_def le_Suc_eq)
  from window_update_credit_exact [OF _ _ this, of flood_config_default 0] show ?thesis
    by (simp add: flood_config_default_def flood_consts updates_received_def)
qed

text \<open>
  the listener's overrides can only produce usable thresholds: every one is at least 1, an
  override of at least 1 is taken as it is, an absent one is the default, and the refusal share is
  not touched.
\<close>

theorem flood_config_thresholds:
  "let c = flood_config_from_optional a1 a2 a3 a4 a5 a6 a7 a8 a9 a10 a11 a12 a13 a14 in
    list_all (\<lambda>(get, given). 1 \<le> get c \<and> get c = max (unwrap_or given (get flood_config_default)) 1)
      [(max_rst_stream_per_window, a1), (max_ping_per_window, a2), (max_settings_per_window, a3),
       (max_empty_data_per_window, a4), (max_window_update_stream0_per_window, a5), (max_continuation_frames, a6),
       (max_glitch_count, a7), (max_rst_stream_lifetime, a8), (max_rst_stream_abusive_lifetime, a9),
       (max_rst_stream_emitted_lifetime, a10), (max_header_list_size, a11), (max_header_table_size, a12),
       (max_header_fields, a13)] \<and>
    stream_refusal_percent c = unwrap_or a14 50 \<and>
    flood_config_from_optional None None None None None None None None None None None None None None =
      flood_config_default"
  by (cases a14)
    (simp_all add: flood_config_from_optional_def flood_config_new_def flood_config_default_def flood_consts Let_def
      unwrap_or_def)

end
