(* ===== verification/Hpack_Huffman_Tree.thy ===== *)
theory Hpack_Huffman_Tree
  imports Hpack_Huffman "HOL-Library.Sublist" "HOL-Library.Multiset"
begin

text \<open>
  The decoding tree behind \<open>build_machine\<close>. \<open>htree\<close> is a binary trie whose inner nodes carry
  the array index the builder gives them; \<open>tins\<close> inserts one code into it. Two groups of
  lemmas: a prefix-free list of codes always inserts, and its Kraft sum decides whether the
  tree is full; and the array \<open>children\<close> of the builder represents the trie step by step, so
  every \<open>assert!\<close> of the builder holds on a complete prefix code.
\<close>

datatype htree = HEmpty | HLeaf nat | HNode nat htree htree

definition child :: "bool \<Rightarrow> htree \<Rightarrow> htree \<Rightarrow> htree" where
  "child b l r = (if b then r else l)"

definition put :: "bool \<Rightarrow> nat \<Rightarrow> htree \<Rightarrow> htree \<Rightarrow> htree \<Rightarrow> htree" where
  "put b n l r t = (if b then HNode n l t else HNode n t r)"

fun tins :: "bool list \<Rightarrow> nat \<Rightarrow> htree \<Rightarrow> nat \<Rightarrow> (htree \<times> nat) option" where
  "tins [b] s (HNode n l r) i =
     (if child b l r = HEmpty then Some (put b n l r (HLeaf s), i) else None)"
| "tins (b # b' # bs) s (HNode n l r) i =
     (case child b l r of
        HEmpty \<Rightarrow>
          (case tins (b' # bs) s (HNode i HEmpty HEmpty) (Suc i) of
             None \<Rightarrow> None | Some (t, i') \<Rightarrow> Some (put b n l r t, i'))
      | HNode m l' r' \<Rightarrow>
          (case tins (b' # bs) s (HNode m l' r') i of
             None \<Rightarrow> None | Some (t, i') \<Rightarrow> Some (put b n l r t, i'))
      | HLeaf _ \<Rightarrow> None)"
| "tins _ _ _ _ = None"

fun tbuild :: "bool list list \<Rightarrow> nat \<Rightarrow> htree \<Rightarrow> nat \<Rightarrow> (htree \<times> nat) option" where
  "tbuild [] s t i = Some (t, i)"
| "tbuild (bs # codes) s t i =
     (case tins bs s t i of None \<Rightarrow> None | Some (t', i') \<Rightarrow> tbuild codes (Suc s) t' i')"

fun leaves :: "htree \<Rightarrow> (bool list \<times> nat) list" where
  "leaves HEmpty = []"
| "leaves (HLeaf s) = [([], s)]"
| "leaves (HNode n l r) =
     map (\<lambda>(p, s). (False # p, s)) (leaves l) @ map (\<lambda>(p, s). (True # p, s)) (leaves r)"

fun ids :: "htree \<Rightarrow> nat list" where
  "ids (HNode n l r) = n # ids l @ ids r"
| "ids _ = []"

fun full :: "htree \<Rightarrow> bool" where
  "full HEmpty = False"
| "full (HLeaf s) = True"
| "full (HNode n l r) = (full l \<and> full r)"

text \<open>Every inner node leads to a leaf.\<close>

fun grounded :: "htree \<Rightarrow> bool" where
  "grounded HEmpty = False"
| "grounded (HLeaf s) = True"
| "grounded (HNode n l r) =
     ((l = HEmpty \<or> grounded l) \<and> (r = HEmpty \<or> grounded r) \<and> (l \<noteq> HEmpty \<or> r \<noteq> HEmpty))"

fun is_root :: "htree \<Rightarrow> bool" where
  "is_root (HNode n l r) = ((l = HEmpty \<or> grounded l) \<and> (r = HEmpty \<or> grounded r))"
| "is_root _ = False"

definition fits :: "bool list \<Rightarrow> htree \<Rightarrow> bool" where
  "fits bs t \<longleftrightarrow> (\<forall>p \<in> fst ` set (leaves t). \<not> prefix p bs \<and> \<not> prefix bs p)"

subsection \<open>Prefix-free codes insert\<close>

lemma grounded_leaf: "grounded t \<Longrightarrow> leaves t \<noteq> []"
  by (induction t) auto

lemma grounded_is_root: "grounded (HNode n l r) \<Longrightarrow> is_root (HNode n l r)"
  by simp

lemma paths_HNode:
  "fst ` set (leaves (HNode n l r)) =
     (#) False ` fst ` set (leaves l) \<union> (#) True ` fst ` set (leaves r)"
  by (simp add: image_Un image_image case_prod_unfold)

lemma fits_child: "fits (b # bs) (HNode n l r) \<longleftrightarrow> fits bs (child b l r)"
  by (cases b) (simp_all add: fits_def child_def paths_HNode ball_Un del: leaves.simps)

lemma put_step:
  assumes "child b l r = c" and "is_root (HNode n l r)" and "grounded t"
    and "mset (leaves t) = add_mset (bs, s) (mset (leaves c))"
    and "i' + length (ids c) = i + length (ids t)"
  shows "grounded (put b n l r t) \<and>
     mset (leaves (put b n l r t)) = add_mset (b # bs, s) (mset (leaves (HNode n l r))) \<and>
     i' + length (ids (HNode n l r)) = i + length (ids (put b n l r t))"
proof (intro conjI)
  show "grounded (put b n l r t)"
    using assms(2,3) by (cases b; cases t) (simp_all add: put_def)
  show "mset (leaves (put b n l r t)) = add_mset (b # bs, s) (mset (leaves (HNode n l r)))"
    using assms(1,4) by (cases b) (simp_all add: put_def child_def)
  show "i' + length (ids (HNode n l r)) = i + length (ids (put b n l r t))"
    using assms(1,5) by (cases b) (simp_all add: put_def child_def)
qed

lemma tins_succeeds:
  "bs \<noteq> [] \<Longrightarrow> is_root t \<Longrightarrow> fits bs t \<Longrightarrow>
   \<exists>t' i'. tins bs s t i = Some (t', i') \<and> grounded t' \<and>
     mset (leaves t') = add_mset (bs, s) (mset (leaves t)) \<and>
     i' + length (ids t) = i + length (ids t')"
proof (induction bs s t i rule: tins.induct)
  case (1 b s n l r i)
  have e: "child b l r = HEmpty"
  proof (rule ccontr)
    assume ne: "child b l r \<noteq> HEmpty"
    with "1.prems" have "grounded (child b l r)" by (simp add: child_def split: if_splits)
    then have "leaves (child b l r) \<noteq> []" by (rule grounded_leaf)
    moreover have "fits [] (child b l r)" using "1.prems" by (simp add: fits_child)
    ultimately show False by (simp add: fits_def)
  qed
  have "grounded (put b n l r (HLeaf s)) \<and>
     mset (leaves (put b n l r (HLeaf s))) = add_mset ([b], s) (mset (leaves (HNode n l r))) \<and>
     i + length (ids (HNode n l r)) = i + length (ids (put b n l r (HLeaf s)))"
    using e "1.prems"(2) by (rule put_step) simp_all
  with e show ?case by simp
next
  case (2 b b' bs s n l r i)
  note root = "2.prems"(2)
  have fit: "fits (b' # bs) (child b l r)" using "2.prems" by (simp add: fits_child)
  show ?case
  proof (cases "child b l r")
    case HEmpty
    have "is_root (HNode i HEmpty HEmpty)" "fits (b' # bs) (HNode i HEmpty HEmpty)"
      by (simp_all add: fits_def)
    with "2.IH"(1) [OF HEmpty] obtain t i' where
      t: "tins (b' # bs) s (HNode i HEmpty HEmpty) (Suc i) = Some (t, i')" "grounded t"
        "mset (leaves t) = add_mset (b' # bs, s) (mset (leaves HEmpty))"
        "i' + length (ids HEmpty) = i + length (ids t)"
      by auto
    from put_step [OF HEmpty root t(2-4)] t(1) HEmpty show ?thesis by simp
  next
    case (HLeaf s')
    with fit show ?thesis by (simp add: fits_def)
  next
    case (HNode m l' r')
    with root have "is_root (HNode m l' r')"
      by (simp add: child_def split: if_splits)
    with "2.IH"(2) [OF HNode] fit HNode obtain t i' where
      t: "tins (b' # bs) s (HNode m l' r') i = Some (t, i')" "grounded t"
        "mset (leaves t) = add_mset (b' # bs, s) (mset (leaves (HNode m l' r')))"
        "i' + length (ids (HNode m l' r')) = i + length (ids t)"
      by (metis list.distinct(1))
    from put_step [OF HNode root t(2-4)] t(1) HNode show ?thesis by simp
  qed
qed simp_all

fun prefix_free :: "bool list list \<Rightarrow> bool" where
  "prefix_free [] = True"
| "prefix_free (c # cs) =
     (c \<noteq> [] \<and> (\<forall>d \<in> set cs. \<not> prefix c d \<and> \<not> prefix d c) \<and> prefix_free cs)"

lemma fits_insert:
  assumes "mset (leaves t') = add_mset (bs, s) (mset (leaves t))"
  shows "fits d t' \<longleftrightarrow> fits d t \<and> \<not> prefix bs d \<and> \<not> prefix d bs"
proof -
  have "set (leaves t') = insert (bs, s) (set (leaves t))"
    using assms by (metis set_mset_add_mset_insert set_mset_mset)
  then show ?thesis by (auto simp: fits_def)
qed

lemma grounded_root: "grounded t \<Longrightarrow> t = HNode n l r \<Longrightarrow> is_root t"
  by simp

lemma tins_HNode: "tins bs s t i = Some (t', i') \<Longrightarrow> \<exists>n l r. t' = HNode n l r"
  by (cases "(bs, s, t, i)" rule: tins.cases)
    (auto simp: put_def split: if_splits htree.splits option.splits)

lemma tbuild_succeeds:
  assumes "prefix_free codes" and "is_root t" and "\<And>d. d \<in> set codes \<Longrightarrow> fits d t"
  shows "\<exists>t' i'. tbuild codes s t i = Some (t', i') \<and> is_root t' \<and>
     mset (leaves t') = mset (leaves t) + mset (zip codes [s..<s + length codes]) \<and>
     i' + length (ids t) = i + length (ids t')"
  using assms
proof (induction codes arbitrary: s t i)
  case Nil
  then show ?case by simp
next
  case (Cons c codes)
  then obtain t1 i1 where t1: "tins c s t i = Some (t1, i1)" "grounded t1"
      "mset (leaves t1) = add_mset (c, s) (mset (leaves t))"
      "i1 + length (ids t) = i + length (ids t1)"
    using tins_succeeds [of c t s i] by auto
  have root: "is_root t1" using t1(1,2) tins_HNode grounded_root by blast
  have fit: "fits d t1" if "d \<in> set codes" for d
    using that Cons.prems fits_insert [OF t1(3), of d] by auto
  from Cons.IH [OF _ root fit, of "Suc s" i1] Cons.prems(1) obtain t' i' where
    "tbuild codes (Suc s) t1 i1 = Some (t', i')" "is_root t'"
    "mset (leaves t') = mset (leaves t1) + mset (zip codes [Suc s..<Suc s + length codes])"
    "i' + length (ids t1) = i1 + length (ids t')" by auto
  with t1 show ?case by (simp add: upt_conv_Cons del: upt_Suc)
qed

subsection \<open>Kraft's equality decides fullness\<close>

definition kraft :: "nat \<Rightarrow> (bool list \<times> nat) list \<Rightarrow> nat" where
  "kraft d ls = sum_list (map (\<lambda>(p, s). 2 ^ (d - length p)) ls)"

lemma kraft_HNode:
  "kraft (Suc d) (leaves (HNode n l r)) = kraft d (leaves l) + kraft d (leaves r)"
  by (simp add: kraft_def case_prod_unfold o_def)

lemma kraft_full:
  "\<forall>p \<in> fst ` set (leaves t). length p \<le> d \<Longrightarrow>
   kraft d (leaves t) \<le> 2 ^ d \<and> (kraft d (leaves t) = 2 ^ d \<longrightarrow> full t)"
proof (induction t arbitrary: d)
  case HEmpty
  then show ?case by (simp add: kraft_def)
next
  case (HLeaf s)
  then show ?case by (simp add: kraft_def)
next
  case (HNode n l r)
  show ?case
  proof (cases d)
    case 0
    with HNode.prems have "leaves l = []" "leaves r = []"
      by (simp_all only: paths_HNode ball_Un) simp_all
    then show ?thesis by (simp add: kraft_def)
  next
    case (Suc e)
    with HNode.prems have "\<forall>p \<in> fst ` set (leaves l). length p \<le> e"
      "\<forall>p \<in> fst ` set (leaves r). length p \<le> e"
      by (simp_all only: paths_HNode ball_Un) simp_all
    with HNode.IH have "kraft e (leaves l) \<le> 2 ^ e" "kraft e (leaves r) \<le> 2 ^ e"
      "kraft e (leaves l) = 2 ^ e \<longrightarrow> full l" "kraft e (leaves r) = 2 ^ e \<longrightarrow> full r"
      by blast+
    with Suc show ?thesis by (auto simp: kraft_HNode simp del: leaves.simps)
  qed
qed

lemma full_count: "full t \<Longrightarrow> length (leaves t) = Suc (length (ids t))"
  by (induction t) auto

subsection \<open>The array represents the trie\<close>

fun ref :: "htree \<Rightarrow> nat" where
  "ref HEmpty = NONE"
| "ref (HLeaf s) = LEAF + s"
| "ref (HNode n l r) = n"

fun repr :: "children \<Rightarrow> htree \<Rightarrow> bool" where
  "repr ch (HNode n l r) = (n < 256 \<and> ch ! n = [ref l, ref r] \<and> repr ch l \<and> repr ch r)"
| "repr ch t = True"

definition small_leaves :: "htree \<Rightarrow> bool" where
  "small_leaves t \<longleftrightarrow> (\<forall>s \<in> snd ` set (leaves t). s < 257)"

definition arr_inv :: "children \<Rightarrow> nat \<Rightarrow> htree \<Rightarrow> bool" where
  "arr_inv ch i t \<longleftrightarrow> repr ch t \<and> distinct (ids t) \<and> (\<forall>m \<in> set (ids t). m < i) \<and>
     length ch = 256 \<and> (\<forall>m. i \<le> m \<and> m < 256 \<longrightarrow> ch ! m = [NONE, NONE]) \<and> small_leaves t"

fun ains :: "bool list \<Rightarrow> nat \<Rightarrow> children \<Rightarrow> nat \<Rightarrow> nat \<Rightarrow> (children \<times> nat) option" where
  "ains [b] v ch i n =
     (if ch ! n ! of_bool b = NONE then Some (set_child ch n (of_bool b) v, i) else None)"
| "ains (b # b' # bs) v ch i n =
     (if ch ! n ! of_bool b = NONE then
        (if i < 256 then ains (b' # bs) v (set_child ch n (of_bool b) i) (i + 1) i else None)
      else if ch ! n ! of_bool b < LEAF then ains (b' # bs) v ch i (ch ! n ! of_bool b)
      else None)"
| "ains [] v ch i n = None"

lemma branch_bit: "drop_bit k code AND 1 = (of_bool (bit code k) :: nat)"
  by (simp add: and_one_eq mod_2_eq_odd bit_iff_odd_drop_bit)

lemma last_branch: "code AND 1 = (of_bool (bit code 0) :: nat)"
  using branch_bit [of 0 code] by simp

lemma build_walk_step:
  "build_walk (Suc (Suc b)) code ch i node =
     (if ch ! node ! of_bool (bit code (Suc b)) = NONE then
        (if i < 256
         then build_walk (Suc b) code (set_child ch node (of_bool (bit code (Suc b))) i) (i + 1) i
         else None)
      else if ch ! node ! of_bool (bit code (Suc b)) < LEAF
      then build_walk (Suc b) code ch i (ch ! node ! of_bool (bit code (Suc b)))
      else None)"
  by (simp only: build_walk.simps branch_bit Let_def)

lemma build_walk_ains:
  "(case build_walk (Suc len) code ch i node of
      None \<Rightarrow> None
    | Some (ch, i, node) \<Rightarrow>
        let branch = code AND 1 in
        if ch ! node ! branch = NONE then Some (set_child ch node branch v, i) else None) =
   ains (bits_be (Suc len) code) v ch i node"
proof (induction len arbitrary: ch i node)
  case 0
  then show ?case by (simp only: last_branch) simp
next
  case (Suc len)
  then show ?case
    by (simp only: build_walk_step bits_be.simps ains.simps split: if_split option.split) simp
qed

lemma repr_frame:
  "repr ch t \<Longrightarrow> (\<And>m. m \<in> set (ids t) \<Longrightarrow> ch' ! m = ch ! m) \<Longrightarrow> repr ch' t"
  by (induction t) auto

lemma tins_mono: "tins bs s t i = Some (t', i') \<Longrightarrow> i \<le> i'"
proof (induction bs s t i arbitrary: t' i' rule: tins.induct)
  case (2 b b' bs s n l r i)
  then show ?case
    by (auto simp: put_def split: htree.splits option.splits)
qed (auto split: if_splits)

lemma small_leaves_HNode:
  "small_leaves (HNode n l r) \<longleftrightarrow> small_leaves l \<and> small_leaves r"
  by (simp add: small_leaves_def ball_Un case_prod_unfold)

lemma small_leaves_simps [simp]: "small_leaves HEmpty" "small_leaves (HLeaf s) \<longleftrightarrow> s < 257"
  by (simp_all add: small_leaves_def)

lemma slot_child: "arr_inv ch i (HNode n l r) \<Longrightarrow> ch ! n ! of_bool b = ref (child b l r)"
  by (cases b) (simp_all add: arr_inv_def child_def)

lemma ref_cases:
  assumes "small_leaves t" and "repr ch t"
  shows "ref t = NONE \<longleftrightarrow> t = HEmpty" and "ref t < LEAF \<longleftrightarrow> (\<exists>n l r. t = HNode n l r)"
  using assms by (cases t; simp add: NONE_def LEAF_def)+

lemma arr_inv_child:
  assumes "arr_inv ch i (HNode n l r)"
  shows "arr_inv ch i (child b l r)"
  using assms by (simp add: arr_inv_def child_def small_leaves_HNode)

lemma set_child_nth:
  assumes "n < length ch"
  shows "set_child ch n k v ! m = (if m = n then (ch ! n)[k := v] else ch ! m)"
  using assms by (simp add: set_child_def)

lemma length_set_child [simp]: "length (set_child ch n k v) = length ch"
  by (simp add: set_child_def)

text \<open>
  Replacing one child of a represented node: the sibling and the node's other slot keep
  their cells, the new child brings its own.
\<close>

lemma arr_inv_put:
  assumes inv: "arr_inv ch i (HNode n l r)" and "arr_inv ch' i' t"
    and sub: "set (ids t) \<subseteq> set (ids (child b l r)) \<union> {i..<i'}" and "i \<le> i'" "i' \<le> 256"
    and cell: "ch' ! n = (ch ! n)[of_bool b := ref t]"
    and frame: "\<And>m. m \<notin> set (ids (child b l r)) \<Longrightarrow> m < i \<Longrightarrow> m \<noteq> n \<Longrightarrow> ch' ! m = ch ! m"
  shows "arr_inv ch' i' (put b n l r t)"
proof -
  let ?o = "child (\<not> b) l r"
  have dis: "set (ids ?o) \<inter> set (ids (child b l r)) = {}" "n \<notin> set (ids ?o)"
      "n \<notin> set (ids (child b l r))"
    using inv by (cases b; auto simp: arr_inv_def child_def)+
  have lt: "m < i" if "m \<in> insert n (set (ids ?o))" for m
    using inv that by (cases b) (auto simp: arr_inv_def child_def)
  have o: "repr ch' ?o" "distinct (ids ?o)" "small_leaves ?o"
  proof -
    have "repr ch ?o" using inv by (cases b) (auto simp: arr_inv_def child_def)
    then show "repr ch' ?o"
    proof (rule repr_frame)
      fix m assume m: "m \<in> set (ids ?o)"
      with dis have "m \<notin> set (ids (child b l r))" "m \<noteq> n" by blast+
      with frame lt m show "ch' ! m = ch ! m" by blast
    qed
    show "distinct (ids ?o)" "small_leaves ?o"
      using inv by (cases b; auto simp: arr_inv_def child_def small_leaves_HNode)+
  qed
  have t: "repr ch' t" "distinct (ids t)" "\<forall>m \<in> set (ids t). m < i'" "small_leaves t"
    "length ch' = 256" "\<forall>m. i' \<le> m \<and> m < 256 \<longrightarrow> ch' ! m = [NONE, NONE]"
    using assms(2) by (auto simp: arr_inv_def)
  have fresh: "set (ids t) \<inter> insert n (set (ids ?o)) = {}"
  proof (rule ccontr)
    assume "set (ids t) \<inter> insert n (set (ids ?o)) \<noteq> {}"
    then obtain m where m: "m \<in> set (ids t)" "m \<in> insert n (set (ids ?o))" by blast
    with sub lt have "m \<in> set (ids (child b l r))" by fastforce
    with m(2) dis show False by blast
  qed
  have n: "n < 256" "ch ! n = [ref l, ref r]" using inv by (auto simp: arr_inv_def)
  have lt': "\<forall>m \<in> insert n (set (ids ?o)). m < i'" using lt \<open>i \<le> i'\<close> by fastforce
  show ?thesis
    using o t fresh n cell lt' dis(2)
    by (cases b) (auto simp: arr_inv_def put_def child_def small_leaves_HNode)
qed

lemma ref_put [simp]: "ref (put b n l r t) = n"
  by (simp add: put_def)

lemma ids_put: "set (ids (put b n l r t)) \<subseteq> insert n (set (ids (HNode n l r)) \<union> set (ids t))"
  by (cases b) (auto simp: put_def)

lemma ids_child: "set (ids (child b l r)) \<subseteq> set (ids (HNode n l r))"
  by (auto simp: child_def)

text \<open>One insertion: the builder's array update simulates the insertion into the trie.\<close>

lemma ains_sim:
  assumes "tins bs s t i = Some (t', i')" and "arr_inv ch i t" and "i' \<le> 256" and "s < 257"
  shows "\<exists>ch'. ains bs (LEAF + s) ch i (ref t) = Some (ch', i') \<and> arr_inv ch' i' t' \<and>
     ref t' = ref t \<and> set (ids t') \<subseteq> set (ids t) \<union> {i..<i'} \<and>
     (\<forall>m. m \<notin> set (ids t) \<and> m < i \<longrightarrow> ch' ! m = ch ! m)"
  using assms
proof (induction bs s t i arbitrary: t' i' ch rule: tins.induct)
  case (1 b s n l r i)
  then have e: "child b l r = HEmpty" and t': "t' = put b n l r (HLeaf s)" and i': "i' = i"
    by (auto split: if_splits)
  have n: "n < 256" "length ch = 256" "n < i" using "1.prems"(2) by (auto simp: arr_inv_def)
  have slot: "ch ! n ! of_bool b = NONE"
    using slot_child [OF "1.prems"(2), of b] e by simp
  let ?ch = "set_child ch n (of_bool b) (LEAF + s)"
  have "arr_inv ?ch i (HLeaf s)"
    using "1.prems"(2,4) n by (auto simp: arr_inv_def set_child_nth)
  from arr_inv_put [OF "1.prems"(2) this, of b] "1.prems"(3) n e i'
  have "arr_inv ?ch i t'" by (simp add: t' set_child_nth)
  then show ?case using slot n ids_put [of b n l r "HLeaf s"]
    by (auto simp: i' t' set_child_nth)
next
  case (2 b b' bs s n l r i)
  note inv = "2.prems"(2)
  have n: "n < 256" "length ch = 256" "n < i" using inv by (auto simp: arr_inv_def)
  note slot = slot_child [OF inv, of b]
  show ?case
  proof (cases "child b l r")
    case HEmpty
    with "2.prems"(1) obtain t where
      t: "tins (b' # bs) s (HNode i HEmpty HEmpty) (Suc i) = Some (t, i')" "t' = put b n l r t"
      by (auto split: option.splits)
    from tins_mono [OF t(1)] "2.prems"(3) have i: "i < 256" "i < i'" by auto
    let ?ch = "set_child ch n (of_bool b) i"
    have "arr_inv ?ch (Suc i) (HNode i HEmpty HEmpty)"
      using inv n i by (auto simp: arr_inv_def set_child_nth small_leaves_HNode)
    from "2.IH"(1) [OF HEmpty t(1) this "2.prems"(3,4)] obtain ch' where
      ch': "ains (b' # bs) (LEAF + s) ?ch (Suc i) i = Some (ch', i')" "arr_inv ch' i' t" "ref t = i"
        "set (ids t) \<subseteq> {i} \<union> {Suc i..<i'}" "\<forall>m. m \<noteq> i \<and> m < Suc i \<longrightarrow> ch' ! m = ?ch ! m"
      by auto
    have "arr_inv ch' i' t'"
      unfolding t(2) using inv ch'(2)
    proof (rule arr_inv_put)
      show "set (ids t) \<subseteq> set (ids (child b l r)) \<union> {i..<i'}" using ch'(4) i by auto
    qed (use ch' n i "2.prems"(3) in \<open>auto simp: set_child_nth\<close>)
    moreover have "set (ids t') \<subseteq> set (ids (HNode n l r)) \<union> {i..<i'}"
      using ids_put [of b n l r t] ch'(4) i t(2) by auto
    moreover have "ains (b # b' # bs) (LEAF + s) ch i n = Some (ch', i')"
      using slot HEmpty ch'(1) i by simp
    moreover have "\<forall>m. m \<notin> set (ids (HNode n l r)) \<and> m < i \<longrightarrow> ch' ! m = ch ! m"
      using ch'(5) n by (auto simp: set_child_nth)
    ultimately show ?thesis by (auto simp: t(2))
  next
    case (HLeaf s')
    with "2.prems" show ?thesis by simp
  next
    case (HNode m l' r')
    with "2.prems"(1) obtain t where
      t: "tins (b' # bs) s (HNode m l' r') i = Some (t, i')" "t' = put b n l r t"
      by (auto split: option.splits)
    have inv': "arr_inv ch i (HNode m l' r')" using arr_inv_child [OF inv, of b] HNode by simp
    from "2.IH"(2) [OF HNode t(1) inv' "2.prems"(3,4)] obtain ch' where
      ch': "ains (b' # bs) (LEAF + s) ch i m = Some (ch', i')" "arr_inv ch' i' t" "ref t = m"
        "set (ids t) \<subseteq> set (ids (child b l r)) \<union> {i..<i'}"
        "\<forall>k. k \<notin> set (ids (child b l r)) \<and> k < i \<longrightarrow> ch' ! k = ch ! k"
      using HNode by auto
    have nin: "n \<notin> set (ids (child b l r))"
      using inv by (cases b) (auto simp: arr_inv_def child_def)
    have "arr_inv ch' i' t'"
      unfolding t(2) using inv ch'(2,4)
    proof (rule arr_inv_put)
      show "ch' ! n = (ch ! n)[of_bool b := ref t]"
        using ch'(3,5) nin n inv HNode by (cases b) (auto simp: arr_inv_def child_def)
    qed (use ch' n tins_mono [OF t(1)] "2.prems"(3) in auto)
    moreover have "set (ids t') \<subseteq> set (ids (HNode n l r)) \<union> {i..<i'}"
      using ids_put [of b n l r t] ch'(4) t(2) ids_child [of b l r n] by auto
    moreover have "ains (b # b' # bs) (LEAF + s) ch i n = Some (ch', i')"
      using slot HNode ch'(1) inv' by (simp add: arr_inv_def NONE_def LEAF_def)
    moreover have "\<forall>m. m \<notin> set (ids (HNode n l r)) \<and> m < i \<longrightarrow> ch' ! m = ch ! m"
      using ch'(5) ids_child [of b l r n] by blast
    ultimately show ?thesis by (auto simp: t(2))
  qed
qed simp_all

end
