(* ===== verification/Hpack_Huffman_Code.thy ===== *)
theory Hpack_Huffman_Code
  imports Hpack_Huffman_Tree
begin

text \<open>
  The transcribed table \<open>CODES\<close> is a complete prefix code, so the compile-time builder
  succeeds on it and leaves the array form of one full tree, \<open>HTREE\<close>. Prefix-freeness is
  checked on the table as disjointness of the intervals the left-aligned codes cover.
\<close>

definition code_bits :: "nat \<times> nat \<Rightarrow> bool list" where
  "code_bits cl = bits_be (snd cl) (fst cl)"

definition interval :: "nat \<times> nat \<Rightarrow> nat \<times> nat" where
  "interval cl = (case cl of (c, l) \<Rightarrow> (c * 2 ^ (30 - l), (c + 1) * 2 ^ (30 - l)))"

fun apart_from :: "nat \<times> nat \<Rightarrow> (nat \<times> nat) list \<Rightarrow> bool" where
  "apart_from x [] = True"
| "apart_from x (y # ys) = ((snd x \<le> fst y \<or> snd y \<le> fst x) \<and> apart_from x ys)"

fun all_apart :: "(nat \<times> nat) list \<Rightarrow> bool" where
  "all_apart [] = True"
| "all_apart (x # xs) = (apart_from x xs \<and> all_apart xs)"

definition well_coded :: "nat \<times> nat \<Rightarrow> bool" where
  "well_coded cl = (case cl of (c, l) \<Rightarrow> c < 2 ^ l \<and> 5 \<le> l \<and> l \<le> 30)"

subsection \<open>What the table evaluates to\<close>

lemma length_CODES [simp]: "length CODES = 257"
  by (simp add: CODES_def)

lemma CODES_well_coded: "list_all well_coded CODES"
  by (simp add: CODES_def well_coded_def)

lemma CODES_kraft: "sum_list (map (\<lambda>(c, l). 2 ^ (30 - l)) CODES) = (2::nat) ^ 30"
  by (simp add: CODES_def)

lemma CODES_apart: "all_apart (map interval CODES)"
  by (simp add: CODES_def interval_def)

lemma CODES_EOS: "CODES ! EOS = (0x3fffffff, 30)"
  by (simp add: CODES_def EOS_def)

lemma EOS_bits: "code_bits (CODES ! EOS) = replicate 30 True"
proof -
  have "(0x3fffffff :: nat) = mask 30" by (simp add: mask_eq_exp_minus_1)
  moreover have "n \<le> 30 \<Longrightarrow> bits_be n (mask 30) = replicate n True" for n
    by (induction n) (auto simp: bit_mask_iff)
  ultimately show ?thesis by (simp add: code_bits_def CODES_EOS)
qed

subsection \<open>Disjoint intervals are prefix-free codes\<close>

lemma prefix_bits_be:
  assumes "prefix (bits_be m x) (bits_be n y)"
  shows "m \<le> n \<and> take_bit m x = take_bit m (drop_bit (n - m) y)"
proof -
  have mn: "m \<le> n" using prefix_length_le [OF assms] by simp
  then have "bits_be n y = bits_be m (drop_bit (n - m) y) @ bits_be (n - m) y"
    using bits_be_add [of m "n - m" y] by simp
  with assms have "bits_be m x = bits_be m (drop_bit (n - m) y)"
    by (auto simp: prefix_def)
  with mn show ?thesis by (simp add: bits_be_inject)
qed

lemma prefix_interval:
  assumes "well_coded cl" "well_coded dl" and "prefix (code_bits cl) (code_bits dl)"
  shows "fst (interval cl) \<le> fst (interval dl) \<and> fst (interval dl) < snd (interval cl)"
proof -
  obtain c l where cl: "cl = (c, l)" by fastforce
  obtain d k where dl: "dl = (d, k)" by fastforce
  have p: "prefix (bits_be l c) (bits_be k d)" using assms(3) by (simp add: cl dl code_bits_def)
  have wc: "c < 2 ^ l" "l \<le> 30" "d < 2 ^ k" "k \<le> 30"
    using assms(1,2) by (auto simp: cl dl well_coded_def)
  have lk: "l \<le> k" and eq: "take_bit l c = take_bit l (drop_bit (k - l) d)"
    using prefix_bits_be [OF p] by auto
  have "d div 2 ^ (k - l) < 2 ^ l"
    using wc lk by (simp add: div_less_iff_less_mult flip: power_add)
  with eq wc have "c = d div 2 ^ (k - l)"
    by (simp add: take_bit_nat_eq_self drop_bit_eq_div)
  then have "d = c * 2 ^ (k - l) + d mod 2 ^ (k - l)" by (simp only: div_mult_mod_eq)
  moreover have "d mod 2 ^ (k - l) < 2 ^ (k - l)" by simp
  ultimately have b: "c * 2 ^ (k - l) \<le> d" "d < (c + 1) * 2 ^ (k - l)"
    by (linarith, simp only: add_mult_distrib mult_1)
  have pw: "(2::nat) ^ (30 - l) = 2 ^ (k - l) * 2 ^ (30 - k)"
    using lk wc by (simp flip: power_add)
  have "c * 2 ^ (30 - l) \<le> d * 2 ^ (30 - k)"
    unfolding pw using mult_le_mono1 [OF b(1), of "2 ^ (30 - k)"] by (simp only: mult.assoc)
  moreover have "d * 2 ^ (30 - k) < (c + 1) * 2 ^ (30 - l)"
    unfolding pw using mult_less_mono1 [OF b(2), of "2 ^ (30 - k)"] by (simp only: mult.assoc) simp
  ultimately show ?thesis by (simp add: cl dl interval_def)
qed

lemma interval_nonempty: "fst (interval cl) < snd (interval cl)"
  by (simp add: interval_def split: prod.split)

lemma apart_from_nth: "apart_from x ys \<Longrightarrow> y \<in> set ys \<Longrightarrow> snd x \<le> fst y \<or> snd y \<le> fst x"
  by (induction ys) auto

lemma apart_prefix_free:
  "all_apart (map interval cs) \<Longrightarrow> list_all well_coded cs \<Longrightarrow> prefix_free (map code_bits cs)"
proof (induction cs)
  case (Cons c cs)
  have "\<not> prefix (code_bits c) (code_bits d) \<and> \<not> prefix (code_bits d) (code_bits c)"
    if d: "d \<in> set cs" for d
  proof -
    have wd: "well_coded c" "well_coded d" using Cons.prems(2) d by (auto simp: list_all_iff)
    have "snd (interval c) \<le> fst (interval d) \<or> snd (interval d) \<le> fst (interval c)"
      using Cons.prems(1) d apart_from_nth [of "interval c" "map interval cs" "interval d"] by auto
    with prefix_interval [OF wd] prefix_interval [OF wd(2,1)]
      interval_nonempty [of c] interval_nonempty [of d] show ?thesis by linarith
  qed
  moreover have "code_bits c \<noteq> []"
  proof -
    have "length (code_bits c) \<ge> 5"
      using Cons.prems(2) by (auto simp: code_bits_def well_coded_def split: prod.splits)
    then show ?thesis by auto
  qed
  ultimately show ?case using Cons by simp
qed simp

lemma CODES_prefix_free: "prefix_free (map code_bits CODES)"
  by (rule apart_prefix_free [OF CODES_apart CODES_well_coded])

subsection \<open>The tree the builder makes\<close>

definition HTREE :: htree where
  "HTREE = fst (the (tbuild (map code_bits CODES) 0 (HNode 0 HEmpty HEmpty) 1))"

definition CHILDREN :: children where
  "CHILDREN = fst (the (build_symbols CODES 0 (replicate 256 [NONE, NONE]) 1))"

lemma tbuild_mono: "tbuild codes s t i = Some (t', i') \<Longrightarrow> i \<le> i'"
proof (induction codes arbitrary: s t i)
  case (Cons c codes)
  then show ?case by (fastforce split: option.splits dest: tins_mono)
qed simp

lemma build_symbols_sim:
  assumes "tbuild (map code_bits codes) s t i = Some (t', i')" and "arr_inv ch i t"
    and "ref t = 0" and "i' \<le> 256" and "s + length codes \<le> 257" and "list_all well_coded codes"
  shows "\<exists>ch'. build_symbols codes s ch i = Some (ch', i') \<and> arr_inv ch' i' t' \<and> ref t' = 0"
  using assms
proof (induction codes arbitrary: s t i ch)
  case Nil
  then show ?case by simp
next
  case (Cons cl codes)
  obtain c l where cl: "cl = (c, Suc l)"
    using Cons.prems(6) by (cases cl; cases "snd cl") (auto simp: well_coded_def)
  from Cons.prems(1) obtain t1 i1 where
    t1: "tins (code_bits cl) s t i = Some (t1, i1)"
      "tbuild (map code_bits codes) (Suc s) t1 i1 = Some (t', i')"
    by (auto split: option.splits)
  have "i1 \<le> 256" using tbuild_mono [OF t1(2)] Cons.prems(4) by simp
  with ains_sim [OF t1(1) Cons.prems(2)] Cons.prems(3,5) obtain ch1 where
    ch1: "ains (code_bits cl) (LEAF + s) ch i 0 = Some (ch1, i1)" "arr_inv ch1 i1 t1" "ref t1 = 0"
    by auto
  from Cons.IH [OF t1(2) ch1(2,3) Cons.prems(4)] Cons.prems(5,6) obtain ch' where
    ch': "build_symbols codes (Suc s) ch1 i1 = Some (ch', i')" "arr_inv ch' i' t'" "ref t' = 0"
    by auto
  have "build_symbols (cl # codes) s ch i =
      (case ains (code_bits cl) (LEAF + s) ch i 0 of None \<Rightarrow> None
       | Some (ch, i) \<Rightarrow> build_symbols codes (s + 1) ch i)"
    unfolding cl code_bits_def fst_conv snd_conv build_walk_ains [symmetric]
    by (simp add: Let_def split: option.splits)
  with ch1(1) ch' show ?case by simp
qed

lemma HTREE_built:
  "tbuild (map code_bits CODES) 0 (HNode 0 HEmpty HEmpty) 1 = Some (HTREE, 256)"
  "is_root HTREE"
  "mset (leaves HTREE) = mset (zip (map code_bits CODES) [0..<257])"
  "full HTREE"
proof -
  obtain t i where t: "tbuild (map code_bits CODES) 0 (HNode 0 HEmpty HEmpty) 1 = Some (t, i)"
      "is_root t" "mset (leaves t) = mset (zip (map code_bits CODES) [0..<257])"
      "i + 1 = 1 + length (ids t)"
    using tbuild_succeeds [OF CODES_prefix_free, of "HNode 0 HEmpty HEmpty" 0 1]
    by (auto simp: fits_def)
  have set: "set (leaves t) = set (zip (map code_bits CODES) [0..<257])"
    using t(3) by (metis set_mset_mset)
  have "kraft 30 (leaves t) = sum_mset (image_mset (\<lambda>(p, s). 2 ^ (30 - length p)) (mset (leaves t)))"
    by (simp only: kraft_def mset_map [symmetric] sum_mset_sum_list)
  also have "\<dots> = sum_list (map (\<lambda>(p, s). 2 ^ (30 - length p)) (zip (map code_bits CODES) [0..<257]))"
    by (simp only: t(3) mset_map [symmetric] sum_mset_sum_list)
  also have "\<dots> = sum_list (map (\<lambda>p. 2 ^ (30 - length p)) (map fst (zip (map code_bits CODES) [0..<257])))"
    by (simp only: map_map case_prod_unfold o_def)
  also have "\<dots> = sum_list (map (\<lambda>(c, l). 2 ^ (30 - l)) CODES)"
    by (simp add: o_def code_bits_def case_prod_unfold)
  finally have k: "kraft 30 (leaves t) = 2 ^ 30" by (simp only: CODES_kraft)
  have "\<forall>p \<in> fst ` set (leaves t). length p \<le> 30"
  proof
    fix p assume "p \<in> fst ` set (leaves t)"
    then obtain s where "(p, s) \<in> set (zip (map code_bits CODES) [0..<257])"
      unfolding set by force
    then have "p \<in> set (map code_bits CODES)" by (rule set_zip_leftD)
    then obtain cl where "cl \<in> set CODES" "p = code_bits cl" by auto
    then show "length p \<le> 30"
      using CODES_well_coded by (auto simp: list_all_iff well_coded_def code_bits_def)
  qed
  with kraft_full k have f: "full t" by blast
  have "size (mset (leaves t)) = 257" unfolding t(3) by simp
  with full_count [OF f] t(4) have "i = 256" by simp
  with t f show "tbuild (map code_bits CODES) 0 (HNode 0 HEmpty HEmpty) 1 = Some (HTREE, 256)"
    "is_root HTREE" "mset (leaves HTREE) = mset (zip (map code_bits CODES) [0..<257])" "full HTREE"
    by (simp_all add: HTREE_def)
qed

lemma CHILDREN_built:
  "build_symbols CODES 0 (replicate 256 [NONE, NONE]) 1 = Some (CHILDREN, 256)"
  "arr_inv CHILDREN 256 HTREE"
  "ref HTREE = 0"
proof -
  have "arr_inv (replicate 256 [NONE, NONE]) 1 (HNode 0 HEmpty HEmpty)"
    by (simp add: arr_inv_def small_leaves_HNode)
  from build_symbols_sim [OF HTREE_built(1) this] CODES_well_coded
  obtain ch where "build_symbols CODES 0 (replicate 256 [NONE, NONE]) 1 = Some (ch, 256)"
    "arr_inv ch 256 HTREE" "ref HTREE = 0" by auto
  then show "build_symbols CODES 0 (replicate 256 [NONE, NONE]) 1 = Some (CHILDREN, 256)"
    "arr_inv CHILDREN 256 HTREE" "ref HTREE = 0"
    by (simp_all add: CHILDREN_def)
qed

end
