(* ===== verification/Hpack_Huffman_Codec.thy ===== *)
theory Hpack_Huffman_Codec
  imports Hpack_Huffman_Code
begin

text \<open>
  Correctness of the Huffman codec. The nibble machine is the tree walked four bits at a
  time; the encoder emits the codes of the octets followed by ones up to the next octet
  boundary; a string is accepted exactly when it is the encoding of the octets returned.
\<close>

subsection \<open>Paths of the tree\<close>

fun descend :: "htree \<Rightarrow> bool list \<Rightarrow> htree" where
  "descend t [] = t"
| "descend (HNode n l r) (b # bs) = descend (child b l r) bs"
| "descend _ (b # bs) = HEmpty"

lemma descend_HEmpty [simp]: "descend HEmpty p = HEmpty"
  by (cases p) auto

lemma descend_append: "descend t (p @ q) = descend (descend t p) q"
  by (induction t p rule: descend.induct) auto

lemma descend_leaf: "descend t p = HLeaf s \<longleftrightarrow> (p, s) \<in> set (leaves t)"
proof (induction t p rule: descend.induct)
  case (1 t)
  then show ?case by (cases t) auto
next
  case (2 n l r b bs)
  then show ?case by (cases b) (auto simp: child_def)
qed auto

lemma descend_repr: "repr ch t \<Longrightarrow> repr ch (descend t p)"
  by (induction t p rule: descend.induct) (auto simp: child_def)

lemma descend_full: "full t \<Longrightarrow> descend t p = HNode n l r \<Longrightarrow> full l \<and> full r"
  by (induction t p rule: descend.induct) (auto simp: child_def split: if_splits)

lemma ids_descend: "n \<in> set (ids t) \<Longrightarrow> \<exists>p l r. descend t p = HNode n l r"
proof (induction t)
  case (HNode m l r)
  then consider "n = m" | "n \<in> set (ids l)" | "n \<in> set (ids r)" by auto
  then show ?case
  proof cases
    case 1
    then have "descend (HNode m l r) [] = HNode n l r" by simp
    then show ?thesis by blast
  next
    case 2
    with HNode.IH(1) obtain p l' r' where "descend l p = HNode n l' r'" by blast
    then have "descend (HNode m l r) (False # p) = HNode n l' r'" by (simp add: child_def)
    then show ?thesis by blast
  next
    case 3
    with HNode.IH(2) obtain p l' r' where "descend r p = HNode n l' r'" by blast
    then have "descend (HNode m l r) (True # p) = HNode n l' r'" by (simp add: child_def)
    then show ?thesis by blast
  qed
qed auto

lemma descend_ids: "descend t p = HNode n l r \<Longrightarrow> n \<in> set (ids t)"
  by (induction t p rule: descend.induct) (auto simp: child_def split: if_splits)

lemma descend_inj:
  "distinct (ids t) \<Longrightarrow> descend t p = HNode n l r \<Longrightarrow> descend t q = HNode n l' r' \<Longrightarrow> p = q"
proof (induction t arbitrary: p q)
  case (HNode m a c)
  then show ?case
  proof (cases "p = [] \<or> q = []")
    case True
    with HNode.prems show ?thesis
      by (cases p; cases q) (auto simp: child_def dest!: descend_ids split: if_splits)
  next
    case False
    then obtain b p' b' q' where pq: "p = b # p'" "q = b' # q'" by (meson list.exhaust)
    with HNode.prems have "descend (child b a c) p' = HNode n l r"
      "descend (child b' a c) q' = HNode n l' r'" by simp_all
    moreover from this have "b = b'"
      using HNode.prems(1) by (cases b; cases b') (auto simp: child_def dest!: descend_ids)
    ultimately show ?thesis using HNode.IH HNode.prems(1) pq
      by (cases b) (auto simp: child_def)
  qed
next
  case HEmpty
  then show ?case by simp
next
  case (HLeaf s)
  then show ?case by (cases p) simp_all
qed

definition sym_bits :: "octet \<Rightarrow> bool list" where
  "sym_bits byte = code_bits (CODES ! unat byte)"

lemma HTREE_leaf: "descend HTREE p = HLeaf s \<longleftrightarrow> s < 257 \<and> p = code_bits (CODES ! s)"
proof -
  have "set (leaves HTREE) = set (zip (map code_bits CODES) [0..<257])"
    using HTREE_built(3) by (metis set_mset_mset)
  then show ?thesis
    by (auto simp: descend_leaf in_set_zip intro!: exI [of _ s])
qed

lemma code_length: "s < 257 \<Longrightarrow> 5 \<le> length (code_bits (CODES ! s)) \<and> length (code_bits (CODES ! s)) \<le> 30"
  using CODES_well_coded by (auto simp: list_all_length well_coded_def code_bits_def case_prod_unfold)

lemma HTREE_repr: "repr CHILDREN (descend HTREE p)"
  using CHILDREN_built(2) by (intro descend_repr) (simp add: arr_inv_def)

lemma HTREE_distinct: "distinct (ids HTREE)" "set (ids HTREE) = {0..<256}"
proof -
  show d: "distinct (ids HTREE)" using CHILDREN_built(2) by (simp add: arr_inv_def)
  have "size (mset (leaves HTREE)) = 257" unfolding HTREE_built(3) by simp
  then have "card (set (ids HTREE)) = 256"
    using full_count [OF HTREE_built(4)] d by (simp add: distinct_card)
  moreover have "set (ids HTREE) \<subseteq> {0..<256}" using CHILDREN_built(2) by (auto simp: arr_inv_def)
  ultimately show "set (ids HTREE) = {0..<256}" by (intro card_subset_eq) auto
qed

text \<open>A position of the tree is an inner node, or the end of a code.\<close>

lemma HTREE_child:
  assumes "descend HTREE p = HNode n l r"
  obtains (leaf) s where "child b l r = HLeaf s" "s < 257" "p @ [b] = code_bits (CODES ! s)"
  | (node) m l' r' where "child b l r = HNode m l' r'" "descend HTREE (p @ [b]) = HNode m l' r'"
proof (cases "child b l r")
  case HEmpty
  have "full (child b l r)"
    using descend_full [OF HTREE_built(4) assms] by (simp add: child_def)
  with HEmpty show ?thesis by simp
next
  case (HLeaf s)
  then have "descend HTREE (p @ [b]) = HLeaf s" using assms by (simp add: descend_append)
  with HLeaf leaf show ?thesis by (simp add: HTREE_leaf)
next
  case (HNode m l' r')
  with node assms show ?thesis by (simp add: descend_append)
qed

lemma HTREE_node_slot:
  assumes "descend HTREE p = HNode n l r"
  shows "n < 256" and "CHILDREN ! n ! of_bool b = ref (child b l r)"
proof -
  have "repr CHILDREN (HNode n l r)" using HTREE_repr [of p] assms by simp
  then show "n < 256" "CHILDREN ! n ! of_bool b = ref (child b l r)"
    by (auto simp: child_def)
qed

lemma HTREE_root: obtains l r where "HTREE = HNode 0 l r"
  using HTREE_built(2) CHILDREN_built(3) by (metis is_root.elims(2) ref.simps(3))

subsection \<open>Running the tree over bits\<close>

fun hrun :: "htree \<Rightarrow> bool list \<Rightarrow> bytes \<Rightarrow> (bytes \<times> htree) option" where
  "hrun t [] out = Some (out, t)"
| "hrun (HNode n l r) (b # bs) out =
     (case child b l r of
        HLeaf s \<Rightarrow> if s = EOS then None else hrun HTREE bs (out @ [of_nat s])
      | t \<Rightarrow> hrun t bs out)"
| "hrun _ (b # bs) out = None"

lemma hrun_append:
  "hrun t (as @ bs) out =
     (case hrun t as out of None \<Rightarrow> None | Some (out', t') \<Rightarrow> hrun t' bs out')"
proof (induction t as out rule: hrun.induct)
  case (2 n l r b as out)
  then show ?case by (cases "child b l r") auto
qed auto

lemma hrun_out:
  "hrun t bs (pre @ out) = map_option (\<lambda>(o', t'). (pre @ o', t')) (hrun t bs out)"
proof (induction t bs out rule: hrun.induct)
  case (2 n l r b bs out)
  then show ?case by (cases "child b l r") auto
qed auto

lemma hrun_nil_out: "hrun t bs out = map_option (\<lambda>(o', t'). (out @ o', t')) (hrun t bs [])"
  using hrun_out [of t bs out "[]"] by simp

text \<open>Reading one whole code from the root emits its symbol.\<close>

lemma hrun_code:
  assumes "descend t p = HLeaf s" and "p \<noteq> []"
  shows "hrun t (p @ bs) out =
    (if s = EOS then None else hrun HTREE bs (out @ [of_nat s]))"
  using assms
proof (induction t p rule: descend.induct)
  case (2 n l r b p)
  show ?case
  proof (cases p)
    case Nil
    with "2.prems" show ?thesis by simp
  next
    case (Cons b' p')
    with "2.prems"(1) obtain m l' r' where "child b l r = HNode m l' r'"
      by (cases "child b l r") auto
    with "2.IH" "2.prems"(1) Cons show ?thesis by simp
  qed
qed auto

lemma hrun_symbol:
  "hrun HTREE (sym_bits c @ bs) out = hrun HTREE bs (out @ [c])"
proof -
  have lt: "unat c < 257" "unat c \<noteq> EOS" using unat_octet [of c] by (simp_all add: EOS_def)
  then have "descend HTREE (sym_bits c) = HLeaf (unat c)" by (simp add: HTREE_leaf sym_bits_def)
  moreover have "sym_bits c \<noteq> []" using code_length [OF lt(1)] by (auto simp: sym_bits_def)
  ultimately show ?thesis using hrun_code lt(2) by simp
qed

lemma hrun_symbols:
  "hrun HTREE (concat (map sym_bits cs) @ bs) out = hrun HTREE bs (out @ cs)"
  by (induction cs arbitrary: out) (simp_all add: hrun_symbol)

text \<open>Reading a proper prefix of a code stays inside the tree.\<close>

lemma hrun_descend:
  assumes "descend t p = HNode n l r"
  shows "hrun t p out = Some (out, HNode n l r)"
  using assms
proof (induction t p rule: descend.induct)
  case (2 m a c b bs)
  then show ?case by (cases "child b a c"; cases bs) auto
qed auto

text \<open>Conversely, what a run emits is the symbols whose codes it read.\<close>

lemma hrun_inv:
  assumes "hrun t bs out = Some (out', t')" and "descend HTREE p = t" and "\<exists>n l r. t = HNode n l r"
  shows "\<exists>cs q. out' = out @ cs \<and> p @ bs = concat (map sym_bits cs) @ q \<and>
    descend HTREE q = t' \<and> (\<exists>n l r. t' = HNode n l r)"
  using assms
proof (induction t bs out arbitrary: p rule: hrun.induct)
  case (1 t out)
  then show ?case by (intro exI [of _ "[]"] exI [of _ p]) auto
next
  case (2 n l r b bs out)
  from "2.prems"(2) show ?case
  proof (cases rule: HTREE_child [where b = b])
    case (leaf s)
    with "2.prems"(1) have s: "s \<noteq> EOS" "hrun HTREE bs (out @ [of_nat s]) = Some (out', t')"
      by (auto split: if_splits)
    have "s < 256" using leaf(2) s(1) by (simp add: EOS_def)
    then have sym: "sym_bits (of_nat s) = p @ [b]"
      by (simp add: sym_bits_def unat_of_nat leaf(3))
    have root: "\<exists>n l r. HTREE = HNode n l r" using HTREE_root by metis
    from "2.IH"(2) [OF leaf(1) s(1,2), of "[]"] root obtain cs q where
      "out' = out @ of_nat s # cs" "bs = concat (map sym_bits cs) @ q" "descend HTREE q = t'"
      "\<exists>n l r. t' = HNode n l r" by auto
    then show ?thesis using sym by (intro exI [of _ "of_nat s # cs"] exI [of _ q]) simp
  next
    case (node m l' r')
    with "2.prems"(1) have "hrun (HNode m l' r') bs out = Some (out', t')" by simp
    from "2.IH"(3) [OF node(1) this node(2)] show ?thesis by simp
  qed
qed auto

subsection \<open>The nibble transitions\<close>

text \<open>After a symbol, the at most three bits left in the nibble reach no leaf.\<close>

lemma nibble_walk_emitted:
  assumes "descend HTREE p = HNode n l r" and "length p + k \<le> 4"
  shows "\<exists>m l' r'. nibble_walk CHILDREN k x n EMIT e = Some (m, EMIT, e) \<and>
    hrun (HNode n l r) (bits_be k x) [] = Some ([], HNode m l' r') \<and>
    descend HTREE (p @ bits_be k x) = HNode m l' r'"
  using assms
proof (induction k arbitrary: p n l r)
  case 0
  then show ?case by simp
next
  case (Suc k)
  from Suc.prems(1) show ?case
  proof (cases rule: HTREE_child [where b = "bit x k"])
    case (leaf s)
    with code_length [OF leaf(2)] Suc.prems(2) show ?thesis
      by (auto dest!: arg_cong [where f = length])
  next
    case (node m l' r')
    from Suc.IH [OF node(2)] Suc.prems(2) obtain m' a c where
      "nibble_walk CHILDREN k x m EMIT e = Some (m', EMIT, e)"
      "hrun (HNode m l' r') (bits_be k x) [] = Some ([], HNode m' a c)"
      "descend HTREE ((p @ [bit x k]) @ bits_be k x) = HNode m' a c" by auto
    moreover have "CHILDREN ! n ! (drop_bit k x AND 1) = m"
      by (simp only: branch_bit HTREE_node_slot(2) [OF Suc.prems(1)] node(1) ref.simps)
    moreover have "m < 256" using HTREE_node_slot(1) [OF node(2)] .
    ultimately show ?thesis using node(1) by (simp add: Let_def LEAF_def del: and_one_eq)
  qed
qed

lemma nibble_walk_run:
  assumes "descend HTREE p = HNode n l r" and "k \<le> 4"
  shows "case hrun (HNode n l r) (bits_be k x) [] of
      None \<Rightarrow> nibble_walk CHILDREN k x n 0 e = Some (0, FAIL, e)
    | Some (out, t) \<Rightarrow> (\<exists>q m l' r'. t = HNode m l' r' \<and> descend HTREE q = t \<and>
        ((out = [] \<and> nibble_walk CHILDREN k x n 0 e = Some (m, 0, e)) \<or>
         (\<exists>c. out = [c] \<and> nibble_walk CHILDREN k x n 0 e = Some (m, EMIT, c))))"
  using assms
proof (induction k arbitrary: p n l r)
  case 0
  then show ?case by auto
next
  case (Suc k)
  have slot: "CHILDREN ! n ! (drop_bit k x AND 1) = ref (child (bit x k) l r)"
    by (simp only: branch_bit HTREE_node_slot(2) [OF Suc.prems(1)])
  from Suc.prems(1) show ?case
  proof (cases rule: HTREE_child [where b = "bit x k"])
    case (leaf s)
    show ?thesis
    proof (cases "s = EOS")
      case True
      with leaf slot show ?thesis by (simp add: Let_def LEAF_def del: and_one_eq)
    next
      case False
      obtain a c where root: "HTREE = HNode 0 a c" by (rule HTREE_root)
      then have "descend HTREE [] = HNode 0 a c" by simp
      from nibble_walk_emitted [OF this, of k x "of_nat s"] Suc.prems(2) obtain m l' r' where
        w: "nibble_walk CHILDREN k x 0 EMIT (of_nat s) = Some (m, EMIT, of_nat s)"
        "hrun (HNode 0 a c) (bits_be k x) [] = Some ([], HNode m l' r')"
        "descend HTREE (bits_be k x) = HNode m l' r'" by auto
      have "hrun HTREE (bits_be k x) [of_nat s] = Some ([of_nat s], HNode m l' r')"
        using hrun_nil_out [of HTREE "bits_be k x" "[of_nat s]"] w(2) root by simp
      with w leaf slot False show ?thesis
        by (auto simp add: Let_def LEAF_def EMIT_def simp del: and_one_eq)
    qed
  next
    case (node m l' r')
    have "m < 256" using HTREE_node_slot(1) [OF node(2)] .
    then have step: "nibble_walk CHILDREN (Suc k) x n 0 e = nibble_walk CHILDREN k x m 0 e"
      by (simp only: nibble_walk.simps slot node(1) ref.simps Let_def) (simp add: LEAF_def)
    from Suc.IH [OF node(2)] Suc.prems(2) node(1) show ?thesis
      unfolding step by simp
  qed
qed

lemma state_node:
  assumes "n < 256"
  obtains p l r where "descend HTREE p = HNode n l r"
  using assms HTREE_distinct(2) ids_descend by (metis atLeastLessThan_iff le0)

lemma build_transition_run:
  assumes "descend HTREE p = HNode n l r"
  shows "\<exists>tr. build_transition CHILDREN n x = Some tr \<and>
    (case hrun (HNode n l r) (bits_be 4 x) [] of
       None \<Rightarrow> tr_flags tr AND FAIL \<noteq> 0
     | Some (out, t) \<Rightarrow> tr_flags tr AND FAIL = 0 \<and> unat (tr_next tr) = ref t \<and>
         out = (if tr_flags tr AND EMIT \<noteq> 0 then [tr_symbol tr] else []) \<and>
         (\<exists>q m l' r'. t = HNode m l' r' \<and> descend HTREE q = t))"
proof (cases "hrun (HNode n l r) (bits_be 4 x) []")
  case None
  with nibble_walk_run [OF assms, of 4 x 0] show ?thesis
    by (simp add: build_transition_def FAIL_def)
next
  case (Some a)
  obtain out t where a: "a = (out, t)" by fastforce
  with nibble_walk_run [OF assms, of 4 x 0] Some obtain q m l' r' where
    t: "t = HNode m l' r'" "descend HTREE q = t" and
    w: "(out = [] \<and> nibble_walk CHILDREN 4 x n 0 0 = Some (m, 0, 0)) \<or>
        (\<exists>c. out = [c] \<and> nibble_walk CHILDREN 4 x n 0 0 = Some (m, EMIT, c))" by auto
  have "m < 256" using HTREE_node_slot(1) [of q m l' r'] t by simp
  then have "unat (of_nat m :: octet) = m" by (simp add: unat_of_nat)
  with w t Some a show ?thesis
    by (auto simp: build_transition_def FAIL_def EMIT_def)
qed

lemma build_transitions_succeeds: "\<exists>trs. build_transitions CHILDREN = Some trs"
  unfolding build_transitions_def
proof (rule those_map_ex)
  fix n :: nat assume "n \<in> set [0..<256]"
  then have "n < 256" by simp
  then obtain p l r where "descend HTREE p = HNode n l r" by (rule state_node)
  from build_transition_run [OF this]
  show "\<exists>row. those (map (build_transition CHILDREN n) [0..<16]) = Some row"
    by (intro those_map_ex) blast
qed

lemma build_transitions_nth:
  assumes "build_transitions CHILDREN = Some trs" and "n < 256" and "x < 16"
  shows "build_transition CHILDREN n x = Some (trs ! n ! x)"
proof -
  have "those (map (build_transition CHILDREN ([0..<256] ! n)) [0..<16]) = Some (trs ! n)"
    using assms(1,2) unfolding build_transitions_def by (intro those_map_Some_nth) simp_all
  then have row: "those (map (build_transition CHILDREN n) [0..<16]) = Some (trs ! n)"
    using assms(2) by (simp only: nth_upt add_0)
  have "build_transition CHILDREN n ([0..<16] ! x) = Some (trs ! n ! x)"
    using those_map_Some_nth [OF row] assms(3) by simp
  then show ?thesis using assms(3) by (simp only: nth_upt add_0)
qed

subsection \<open>The padding table\<close>

definition ones_node :: "nat \<Rightarrow> nat" where
  "ones_node k = ref (descend HTREE (replicate k True))"

lemma ones_path:
  assumes "k \<le> 29"
  shows "\<exists>l r. descend HTREE (replicate k True) = HNode (ones_node k) l r"
proof (cases "descend HTREE (replicate k True)")
  case (HNode n l r)
  then show ?thesis by (simp add: ones_node_def)
next
  case HEmpty
  have "descend HTREE (replicate k True @ replicate (30 - k) True) = HLeaf EOS"
    using assms EOS_bits by (simp add: HTREE_leaf EOS_def flip: replicate_add)
  with HEmpty show ?thesis by (simp add: descend_append)
next
  case (HLeaf s)
  have "descend HTREE (replicate k True @ replicate (30 - k) True) = HLeaf EOS"
    using assms EOS_bits by (simp add: HTREE_leaf EOS_def flip: replicate_add)
  moreover have "replicate (30 - k) True = True # replicate (29 - k) True"
    using assms by (simp add: Suc_diff_le flip: replicate_Suc)
  ultimately show ?thesis using HLeaf by (simp add: descend_append)
qed

lemma ones_next:
  assumes "k < 29"
  shows "CHILDREN ! ones_node k ! 1 = ones_node (Suc k)" "ones_node (Suc k) < LEAF"
proof -
  obtain l r where k: "descend HTREE (replicate k True) = HNode (ones_node k) l r"
    using ones_path [of k] assms by auto
  have "child True l r = descend HTREE (replicate k True @ [True])"
    by (simp add: descend_append k)
  then show "CHILDREN ! ones_node k ! 1 = ones_node (Suc k)"
    using HTREE_node_slot(2) [OF k, of True]
    by (simp add: ones_node_def replicate_append_same)
  obtain l' r' where "descend HTREE (replicate (Suc k) True) = HNode (ones_node (Suc k)) l' r'"
    using ones_path [of "Suc k"] assms by auto
  from HTREE_node_slot(1) [OF this] show "ones_node (Suc k) < LEAF" by (simp add: LEAF_def)
qed

lemma ones_last: "CHILDREN ! ones_node 29 ! 1 = LEAF + EOS"
proof -
  obtain l r where k: "descend HTREE (replicate 29 True) = HNode (ones_node 29) l r"
    using ones_path [of 29] by auto
  have "child True l r = descend HTREE (replicate 29 True @ [True])"
    by (simp add: descend_append k)
  also have "replicate 29 True @ [True] = replicate 30 True"
    by (simp add: replicate_append_same flip: replicate_Suc)
  also have "descend HTREE (replicate 30 True) = HLeaf EOS"
    using EOS_bits by (simp add: HTREE_leaf EOS_def)
  finally show ?thesis using HTREE_node_slot(2) [OF k, of True] by simp
qed

lemma ones_node_inj:
  assumes "ones_node j = ones_node k" and "j \<le> 29" and "k \<le> 29"
  shows "j = k"
proof -
  obtain l r l' r' where "descend HTREE (replicate j True) = HNode (ones_node j) l r"
    "descend HTREE (replicate k True) = HNode (ones_node j) l' r'"
    using ones_path [of j] ones_path [of k] assms by auto
  from descend_inj [OF HTREE_distinct(1) this] show ?thesis
    by (metis length_replicate)
qed

lemma ones_node_lt: "k \<le> 29 \<Longrightarrow> ones_node k < 256"
  using ones_path [of k] HTREE_node_slot(1) by blast

lemma padding_walk_ones:
  assumes "k \<le> 29" and "length pad = 256"
  shows "\<exists>pad'. padding_walk CHILDREN (ones_node k) k pad = Some (ones_node 29, pad') \<and>
    length pad' = 256 \<and>
    (\<forall>j. k < j \<and> j \<le> 29 \<longrightarrow> pad' ! ones_node j = of_nat j) \<and>
    (\<forall>m < 256. (\<forall>j. k < j \<and> j \<le> 29 \<longrightarrow> m \<noteq> ones_node j) \<longrightarrow> pad' ! m = pad ! m)"
  using assms
proof (induction "29 - k" arbitrary: k pad)
  case 0
  then have k: "k = 29" by simp
  have "padding_walk CHILDREN (ones_node 29) 29 pad = Some (ones_node 29, pad)"
    by (subst padding_walk.simps) (simp add: ones_last [unfolded One_nat_def])
  with k 0 show ?case by auto
next
  case (Suc d)
  then have k: "k < 29" by simp
  let ?pad = "pad[ones_node (Suc k) := of_nat (Suc k)]"
  have step: "padding_walk CHILDREN (ones_node k) k pad =
      padding_walk CHILDREN (ones_node (Suc k)) (Suc k) ?pad"
    using k ones_next [OF k] by (subst padding_walk.simps) (simp add: Let_def)
  have d: "d = 29 - Suc k" and "Suc k \<le> 29" and "length ?pad = 256"
    using Suc.hyps(2) Suc.prems by simp_all
  from Suc.hyps(1) [OF this] obtain pad' where
    p: "padding_walk CHILDREN (ones_node (Suc k)) (Suc k) ?pad = Some (ones_node 29, pad')"
      "length pad' = 256" "\<forall>j. Suc k < j \<and> j \<le> 29 \<longrightarrow> pad' ! ones_node j = of_nat j"
      "\<forall>m < 256. (\<forall>j. Suc k < j \<and> j \<le> 29 \<longrightarrow> m \<noteq> ones_node j) \<longrightarrow> pad' ! m = ?pad ! m"
    by blast
  have "pad' ! ones_node (Suc k) = of_nat (Suc k)"
    using p(4) ones_node_lt [of "Suc k"] ones_node_inj [of "Suc k"] k Suc.prems(2) by fastforce
  then have "\<forall>j. k < j \<and> j \<le> 29 \<longrightarrow> pad' ! ones_node j = of_nat j"
    using p(3) by (metis Suc_lessI)
  moreover have "\<forall>m < 256. (\<forall>j. k < j \<and> j \<le> 29 \<longrightarrow> m \<noteq> ones_node j) \<longrightarrow> pad' ! m = pad ! m"
    using p(4) k by (metis Suc_leI Suc_lessD lessI nth_list_update_neq)
  ultimately show ?case using step p(1,2) by simp
qed

subsection \<open>The machine the build produces\<close>

definition PADDING :: "octet list" where
  "PADDING = snd (the (padding_walk CHILDREN 0 0 ((replicate 256 NOT_PADDING)[0 := 0])))"

lemma ones_node_0: "ones_node 0 = 0"
  by (simp add: ones_node_def CHILDREN_built(3))

lemma padding_built:
  "padding_walk CHILDREN 0 0 ((replicate 256 NOT_PADDING)[0 := 0]) = Some (ones_node 29, PADDING)"
  "k \<le> 29 \<Longrightarrow> PADDING ! ones_node k = of_nat k"
  "m < 256 \<Longrightarrow> (\<And>k. k \<le> 29 \<Longrightarrow> m \<noteq> ones_node k) \<Longrightarrow> PADDING ! m = NOT_PADDING"
proof -
  let ?init = "(replicate 256 NOT_PADDING)[0 := 0]"
  obtain pad where p: "padding_walk CHILDREN 0 0 ?init = Some (ones_node 29, pad)"
    "\<forall>j. 0 < j \<and> j \<le> 29 \<longrightarrow> pad ! ones_node j = of_nat j"
    "\<forall>m < 256. (\<forall>j. 0 < j \<and> j \<le> 29 \<longrightarrow> m \<noteq> ones_node j) \<longrightarrow> pad ! m = ?init ! m"
    using padding_walk_ones [of 0 ?init] by (auto simp: ones_node_0)
  from p(1) show built: "padding_walk CHILDREN 0 0 ?init = Some (ones_node 29, PADDING)"
    by (simp add: PADDING_def)
  with p(1) have eq: "PADDING = pad" by simp
  have "pad ! 0 = 0"
  proof -
    have "\<forall>j. 0 < j \<and> j \<le> 29 \<longrightarrow> 0 \<noteq> ones_node j"
      using ones_node_inj [of 0] ones_node_0 by (metis le0 less_irrefl)
    with p(3) show ?thesis by simp
  qed
  then show "k \<le> 29 \<Longrightarrow> PADDING ! ones_node k = of_nat k"
    using p(2) eq ones_node_0 by (cases "k = 0") auto
  show "PADDING ! m = NOT_PADDING" if "m < 256" "\<And>k. k \<le> 29 \<Longrightarrow> m \<noteq> ones_node k"
    using p(3) eq that(1) that(2) that(2) [of 0] ones_node_0 by auto
qed

lemma padding_of_path:
  assumes "descend HTREE p = HNode n l r"
  shows "PADDING ! n = (if p = replicate (length p) True then of_nat (length p) else NOT_PADDING)"
    and "p = replicate (length p) True \<Longrightarrow> length p \<le> 29"
proof -
  show le: "length p \<le> 29" if eq: "p = replicate (length p) True"
  proof (rule ccontr)
    assume "\<not> length p \<le> 29"
    then have "replicate (length p) True = replicate 30 True @ replicate (length p - 30) True"
      by (simp flip: replicate_add)
    moreover have "descend HTREE (replicate 30 True) = HLeaf EOS"
      using EOS_bits by (simp add: HTREE_leaf EOS_def)
    ultimately have "descend HTREE p = descend (HLeaf EOS) (replicate (length p - 30) True)"
      using eq by (metis descend_append)
    with assms show False by (cases "length p - 30") auto
  qed
  show "PADDING ! n = (if p = replicate (length p) True then of_nat (length p) else NOT_PADDING)"
  proof (cases "p = replicate (length p) True")
    case True
    then have "n = ones_node (length p)" using assms by (simp add: ones_node_def)
    with True le padding_built(2) show ?thesis by simp
  next
    case False
    have "n \<noteq> ones_node k" if k: "k \<le> 29" for k
    proof
      assume "n = ones_node k"
      with ones_path [OF k] obtain l' r' where "descend HTREE (replicate k True) = HNode n l' r'"
        by auto
      from descend_inj [OF HTREE_distinct(1) assms this] False show False by simp
    qed
    with False padding_built(3) HTREE_node_slot(1) [OF assms] show ?thesis by simp
  qed
qed

lemma build_machine_eq:
  "\<exists>trs. build_machine = Some \<lparr>m_transitions = trs, m_padding = PADDING\<rparr> \<and>
     build_transitions CHILDREN = Some trs"
proof -
  obtain trs where "build_transitions CHILDREN = Some trs"
    using build_transitions_succeeds by blast
  with CHILDREN_built(1) padding_built(1) ones_last show ?thesis
    by (simp add: build_machine_def)
qed

lemma MACHINE_padding: "m_padding MACHINE = PADDING"
proof -
  obtain trs where m: "build_machine = Some \<lparr>m_transitions = trs, m_padding = PADDING\<rparr>"
    using build_machine_eq by blast
  show ?thesis unfolding MACHINE_def m by simp
qed

lemma MACHINE_transition:
  assumes "n < 256" and "x < 16"
  shows "build_transition CHILDREN n x = Some (m_transitions MACHINE ! n ! x)"
proof -
  obtain trs where m: "build_machine = Some \<lparr>m_transitions = trs, m_padding = PADDING\<rparr>"
    "build_transitions CHILDREN = Some trs"
    using build_machine_eq by blast
  show ?thesis unfolding MACHINE_def m(1) using build_transitions_nth [OF m(2) assms] by simp
qed

subsection \<open>Decoding follows the tree\<close>

lemma decode_nibbles_run:
  assumes "descend HTREE p = HNode n l r" and "\<forall>x \<in> set xs. x < 16"
  shows "case hrun (HNode n l r) (concat (map (bits_be 4) xs)) out of
      None \<Rightarrow> fst (huffman_decode_nibbles xs n out) = Inl Eos
    | Some (out', t) \<Rightarrow> huffman_decode_nibbles xs n out = (Inr (ref t), out')"
  using assms
proof (induction xs arbitrary: p n l r out)
  case Nil
  then show ?case by simp
next
  case (Cons x xs)
  have lt: "n < 256" "x < 16" using HTREE_node_slot(1) [OF Cons.prems(1)] Cons.prems(2) by auto
  let ?tr = "m_transitions MACHINE ! n ! x"
  from build_transition_run [OF Cons.prems(1), of x] MACHINE_transition [OF lt]
  have tr: "case hrun (HNode n l r) (bits_be 4 x) [] of
       None \<Rightarrow> tr_flags ?tr AND FAIL \<noteq> 0
     | Some (out, t) \<Rightarrow> tr_flags ?tr AND FAIL = 0 \<and> unat (tr_next ?tr) = ref t \<and>
         out = (if tr_flags ?tr AND EMIT \<noteq> 0 then [tr_symbol ?tr] else []) \<and>
         (\<exists>q m l' r'. t = HNode m l' r' \<and> descend HTREE q = t)" by auto
  show ?case
  proof (cases "hrun (HNode n l r) (bits_be 4 x) []")
    case None
    then have "hrun (HNode n l r) (bits_be 4 x) out = None"
      using hrun_nil_out [of "HNode n l r" "bits_be 4 x" out] by simp
    with None tr show ?thesis by (simp add: hrun_append Let_def)
  next
    case (Some a)
    then obtain o1 q m l' r' where a: "a = (o1, HNode m l' r')" and
      q: "descend HTREE q = HNode m l' r'"
      and fl: "tr_flags ?tr AND FAIL = 0" "unat (tr_next ?tr) = m"
        "o1 = (if tr_flags ?tr AND EMIT \<noteq> 0 then [tr_symbol ?tr] else [])"
      using tr by (cases a) auto
    have "hrun (HNode n l r) (bits_be 4 x) out = Some (out @ o1, HNode m l' r')"
      using hrun_nil_out [of "HNode n l r" "bits_be 4 x" out] Some a by simp
    moreover have step: "huffman_decode_nibbles (x # xs) n out = huffman_decode_nibbles xs m (out @ o1)"
      using fl by (simp add: Let_def)
    ultimately show ?thesis
      unfolding step using Cons.IH [OF q, of "out @ o1"] Cons.prems(2) by (simp add: hrun_append)
  qed
qed

lemma nibble_bits:
  "bits_be 4 (unat (drop_bit 4 byte)) @ bits_be 4 (unat (byte AND 0x0f)) = byte_bits (byte :: octet)"
  "unat (drop_bit 4 byte) < 16" "unat (byte AND 0x0f) < 16"
proof -
  have hi: "unat (drop_bit 4 byte) = drop_bit 4 (unat byte)" by (simp add: unsigned_drop_bit_eq take_bit_octet)
  have "byte AND 0x0f = take_bit 4 byte" by (simp add: take_bit_eq_mask mask_eq_exp_minus_1)
  then have lo: "unat (byte AND 0x0f) = take_bit 4 (unat byte)" by (simp only: unsigned_take_bit_eq)
  show "bits_be 4 (unat (drop_bit 4 byte)) @ bits_be 4 (unat (byte AND 0x0f)) = byte_bits byte"
    unfolding hi lo byte_bits_def using bits_be_add [of 4 4 "unat byte"] by simp
  show "unat (drop_bit 4 byte) < 16" "unat (byte AND 0x0f) < 16"
    unfolding hi lo using unat_octet [of byte] by (simp_all add: drop_bit_eq_div take_bit_eq_mod)
qed

lemma huffman_decode_run:
  "case hrun HTREE (bytes_bits src) out of
     None \<Rightarrow> fst (huffman_decode src out) = Inl Eos
   | Some (out', t) \<Rightarrow> huffman_decode src out =
       (if PADDING ! ref t = NOT_PADDING then Inl InvalidPadding
        else if 7 < PADDING ! ref t then Inl PaddingTooLong else Inr (), out')"
proof -
  let ?xs = "concat (map (\<lambda>byte. [unat (drop_bit 4 byte), unat (byte AND 0x0f)]) src)"
  have bits: "concat (map (bits_be 4) ?xs) = bytes_bits src"
    by (induction src) (simp_all add: nibble_bits flip: append_assoc)
  have lt: "\<forall>x \<in> set ?xs. x < 16" using nibble_bits(2,3) by auto
  obtain a c where root: "HTREE = HNode 0 a c" by (rule HTREE_root)
  then have "descend HTREE [] = HNode 0 a c" by simp
  note run = decode_nibbles_run [OF this lt, of out, unfolded bits root [symmetric]]
  show ?thesis
  proof (cases "hrun HTREE (bytes_bits src) out")
    case None
    with run show ?thesis
      by (cases "huffman_decode_nibbles ?xs 0 out") (simp add: huffman_decode_def)
  next
    case (Some a)
    with run show ?thesis
      by (cases a) (simp add: huffman_decode_def MACHINE_padding Let_def)
  qed
qed

end
