(* ===== verification/Hpack_Huffman_Roundtrip.thy ===== *)
theory Hpack_Huffman_Roundtrip
  imports Hpack_Huffman_Codec
begin

text \<open>
  The Huffman encoder and the round trip with the decoder: the properties of
  \<^verbatim>\<open>src/lib/src/protocol/mux/hpack/huffman.rs\<close> the string literals of HPACK rest on.
\<close>

subsection \<open>The encoder emits codes and pads with ones\<close>

lemma flush_octets_bits:
  "\<exists>out'. flush_octets pending bits out = (bits mod 8, out') \<and>
     bytes_bits out' @ bits_be (bits mod 8) pending = bytes_bits out @ bits_be bits pending"
proof (induction pending bits out rule: flush_octets.induct)
  case (1 pending bits out)
  show ?case
  proof (cases "8 \<le> bits")
    case True
    let ?out = "out @ [of_nat (drop_bit (bits - 8) pending)]"
    from "1.IH" [OF True] obtain out' where
      o: "flush_octets pending (bits - 8) ?out = ((bits - 8) mod 8, out')"
        "bytes_bits out' @ bits_be ((bits - 8) mod 8) pending =
         bytes_bits ?out @ bits_be (bits - 8) pending" by blast
    have m: "(bits - 8) mod 8 = bits mod 8" using True by (simp add: le_mod_geq)
    have "bits_be bits pending =
        bits_be 8 (drop_bit (bits - 8) pending) @ bits_be (bits - 8) pending"
      using bits_be_add [of 8 "bits - 8" pending] True by simp
    then show ?thesis
      using o True by (simp add: m flush_octets.simps [of pending bits] byte_bits_of_nat)
  next
    case False
    then show ?thesis by (simp add: flush_octets.simps)
  qed
qed

lemma CODES_octet:
  fixes byte :: octet
  obtains code len where "CODES ! unat byte = (code, len)" "take_bit len code = code"
    "5 \<le> len" "len \<le> 30" "sym_bits byte = bits_be len code"
proof -
  obtain code len where cl: "CODES ! unat byte = (code, len)" by fastforce
  have "well_coded (CODES ! unat byte)"
    using CODES_well_coded unat_octet [of byte] by (simp add: list_all_length)
  then have "code < 2 ^ len" "5 \<le> len" "len \<le> 30" by (auto simp: cl well_coded_def)
  then show ?thesis using cl by (intro that) (auto simp: sym_bits_def code_bits_def take_bit_nat_eq_self)
qed

lemma pending_mask: "pending AND (2 ^ bits - Suc 0) = take_bit bits (pending :: nat)"
  by (simp add: take_bit_eq_mask mask_eq_exp_minus_1)

lemma encode_loop_bits:
  assumes "bits < 8" and "pending < 2 ^ bits"
  shows "\<exists>pending' bits' out'. huffman_encode_loop src pending bits out = (pending', bits', out') \<and>
    bits' < 8 \<and> bytes_bits out' @ bits_be bits' pending' =
      bytes_bits out @ bits_be bits pending @ concat (map sym_bits src)"
  using assms
proof (induction src arbitrary: pending bits out)
  case Nil
  then show ?case by simp
next
  case (Cons byte src)
  obtain code len where cl: "CODES ! unat byte = (code, len)" "take_bit len code = code"
    "len \<le> 30" "sym_bits byte = bits_be len code" by (rule CODES_octet)
  let ?p = "take_bit 64 (push_bit len pending) OR code"
  have "push_bit len pending = take_bit 64 (push_bit len pending)"
  proof -
    have "pending * 2 ^ len < 2 ^ bits * 2 ^ len" using Cons.prems(2) by simp
    also have "\<dots> \<le> 2 ^ 64" using Cons.prems(1) cl(3)
      by (simp only: power_add [symmetric]) (intro power_increasing, simp_all)
    finally show ?thesis by (simp add: push_bit_eq_mult take_bit_nat_eq_self)
  qed
  then have bits: "bits_be (bits + len) ?p = bits_be bits pending @ sym_bits byte"
    using bits_be_push_or [OF cl(2), of bits pending] cl(4) by simp
  obtain out1 where f: "flush_octets ?p (bits + len) out = ((bits + len) mod 8, out1)"
    "bytes_bits out1 @ bits_be ((bits + len) mod 8) ?p = bytes_bits out @ bits_be (bits + len) ?p"
    using flush_octets_bits by blast
  let ?b = "(bits + len) mod 8" and ?q = "take_bit ((bits + len) mod 8) ?p"
  have "?b < 8" "?q < 2 ^ ?b" by (simp, rule take_bit_nat_less_exp)
  from Cons.IH [OF this, of out1] obtain pending' bits' out' where
    r: "huffman_encode_loop src ?q ?b out1 = (pending', bits', out')" "bits' < 8"
      "bytes_bits out' @ bits_be bits' pending' =
       bytes_bits out1 @ bits_be ?b ?q @ concat (map sym_bits src)" by blast
  have "bytes_bits out1 @ bits_be ?b ?q @ concat (map sym_bits src) =
      bytes_bits out @ bits_be bits pending @ concat (map sym_bits (byte # src))"
    using f(2) bits by (simp add: bits_be_take_bit del: take_bit_or flip: append_assoc)
  with r cl(1) f(1) show ?case
    by (simp add: Let_def pending_mask del: take_bit_or)
qed

lemma final_octet_bits:
  assumes "0 < bits" and "bits < 8"
  shows "byte_bits (of_nat (push_bit (8 - bits) pending) OR drop_bit bits 0xff) =
    bits_be bits pending @ replicate (8 - bits) True"
proof -
  have ff: "drop_bit bits (0xff :: octet) = of_nat (mask (8 - bits))"
  proof -
    have "bits \<in> {1, 2, 3, 4, 5, 6, 7}" using assms by auto
    then show ?thesis by (auto simp: mask_eq_exp_minus_1 drop_bit_eq_div)
  qed
  have ones: "bits_be n (mask n) = replicate n True" for n
  proof -
    have "m \<le> n \<Longrightarrow> bits_be m (mask n) = replicate m True" for m
      by (induction m) (auto simp: bit_mask_iff)
    then show ?thesis by simp
  qed
  have "of_nat (push_bit (8 - bits) pending) OR drop_bit bits (0xff :: octet) =
      of_nat (push_bit (8 - bits) pending OR mask (8 - bits))"
    unfolding ff by (rule of_nat_or_eq [symmetric])
  then have "byte_bits (of_nat (push_bit (8 - bits) pending) OR drop_bit bits 0xff) =
      bits_be 8 (push_bit (8 - bits) pending OR mask (8 - bits))"
    by (simp only: byte_bits_of_nat)
  also have "\<dots> = bits_be bits pending @ bits_be (8 - bits) (mask (8 - bits))"
    using bits_be_push_or [of "8 - bits" "mask (8 - bits)" bits pending] assms by simp
  finally show ?thesis by (simp only: ones)
qed

lemma huffman_encode_bits:
  "\<exists>k < 8. bytes_bits (huffman_encode src out) =
     bytes_bits out @ concat (map sym_bits src) @ replicate k True"
proof -
  obtain pending bits out' where l: "huffman_encode_loop src 0 0 out = (pending, bits, out')"
    "bits < 8" "bytes_bits out' @ bits_be bits pending = bytes_bits out @ concat (map sym_bits src)"
    using encode_loop_bits [of 0 0 src out] by auto
  show ?thesis
  proof (cases "bits = 0")
    case True
    with l show ?thesis by (intro exI [of _ 0]) (simp add: huffman_encode_def)
  next
    case False
    with l final_octet_bits [of bits pending] show ?thesis
      by (intro exI [of _ "8 - bits"]) (simp add: huffman_encode_def flip: append_assoc)
  qed
qed


subsection \<open>Acceptance and lengths\<close>

lemma bytes_bits_length: "length (bytes_bits bs) = 8 * length bs"
  by (induction bs) (simp_all add: bytes_bits_simps)

lemma NOT_PADDING_gt: "7 < NOT_PADDING"
  by (simp add: NOT_PADDING_def)

text \<open>
  Acceptance, read off the bits: a string is accepted exactly when its bits are whole codes
  followed by fewer than eight ones.
\<close>

lemma huffman_decode_accepts:
  "huffman_decode src pre = (Inr (), out) \<longleftrightarrow>
     (\<exists>cs k. out = pre @ cs \<and> k < 8 \<and> bytes_bits src = concat (map sym_bits cs) @ replicate k True)"
    (is "_ = ?R")
proof
  assume acc: "huffman_decode src pre = (Inr (), out)"
  then obtain t where run: "hrun HTREE (bytes_bits src) pre = Some (out, t)"
    and pad: "PADDING ! ref t \<le> 7"
    using huffman_decode_run [of src pre] NOT_PADDING_gt
    by (auto split: option.splits if_splits prod.splits)
  obtain l r where root: "HTREE = HNode 0 l r" by (rule HTREE_root)
  have "\<exists>cs q. out = pre @ cs \<and> [] @ bytes_bits src = concat (map sym_bits cs) @ q \<and>
      descend HTREE q = t \<and> (\<exists>n l r. t = HNode n l r)"
    by (rule hrun_inv [OF run]) (simp_all add: root)
  then obtain cs q n l r where q: "out = pre @ cs" "bytes_bits src = concat (map sym_bits cs) @ q"
    "descend HTREE q = HNode n l r" "t = HNode n l r" by auto
  have "q = replicate (length q) True" "length q < 8"
    using pad q(4) padding_of_path [OF q(3)]
    by (auto split: if_splits simp: NOT_PADDING_def word_le_nat_alt unat_of_nat)
  with q(1,2) show ?R by metis
next
  assume ?R
  then obtain cs k where k: "out = pre @ cs" "k < 8"
    "bytes_bits src = concat (map sym_bits cs) @ replicate k True" by blast
  obtain l r where p: "descend HTREE (replicate k True) = HNode (ones_node k) l r"
    using ones_path [of k] k(2) by auto
  have "hrun HTREE (bytes_bits src) pre = Some (out, HNode (ones_node k) l r)"
    using hrun_descend [OF p] by (simp add: k hrun_symbols)
  moreover have "of_nat k \<noteq> NOT_PADDING" "\<not> 7 < (of_nat k :: octet)"
    using k(2) by (auto simp: NOT_PADDING_def word_less_nat_alt unat_of_nat dest: arg_cong [of _ _ unat])
  ultimately show "huffman_decode src pre = (Inr (), out)"
    using huffman_decode_run [of src pre] padding_built(2) [of k] k(2) by simp
qed

lemma sym_bits_length: "5 * length cs \<le> length (concat (map sym_bits cs))"
proof (induction cs)
  case (Cons c cs)
  obtain code len where "5 \<le> len" "sym_bits c = bits_be len code" by (rule CODES_octet)
  with Cons show ?case by simp
qed simp

text \<open>What was pushed before an error is what a successful run over a prefix pushes.\<close>

lemma decode_nibbles_prefix:
  "\<exists>ys zs st. xs = ys @ zs \<and>
     huffman_decode_nibbles ys n out = (Inr st, snd (huffman_decode_nibbles xs n out))"
proof (induction xs n out rule: huffman_decode_nibbles.induct)
  case (2 nibble nibbles state out)
  let ?tr = "m_transitions MACHINE ! state ! nibble"
  show ?case
  proof (cases "tr_flags ?tr AND FAIL = 0")
    case True
    with "2.IH" [OF refl] obtain ys zs st where "nibbles = ys @ zs"
      "huffman_decode_nibbles ys (unat (tr_next ?tr))
         (if tr_flags ?tr AND EMIT \<noteq> 0 then out @ [tr_symbol ?tr] else out) =
       (Inr st, snd (huffman_decode_nibbles (nibble # nibbles) state out))"
      by (auto simp: Let_def)
    with True show ?thesis by (intro exI [of _ "nibble # ys"] exI [of _ zs]) (auto simp: Let_def)
  next
    case False
    then show ?thesis by (intro exI [of _ "[]"] exI [of _ "nibble # nibbles"]) (auto simp: Let_def)
  qed
qed simp

lemma decode_nibbles_length:
  assumes "\<forall>x \<in> set xs. x < 16"
  shows "5 * length (snd (huffman_decode_nibbles xs 0 out)) \<le> 5 * length out + 4 * length xs"
proof -
  obtain l r where root: "HTREE = HNode 0 l r" by (rule HTREE_root)
  obtain ys zs st where ys: "xs = ys @ zs"
    "huffman_decode_nibbles ys 0 out = (Inr st, snd (huffman_decode_nibbles xs 0 out))"
    using decode_nibbles_prefix by blast
  let ?bits = "concat (map (bits_be 4) ys)"
  have d: "descend HTREE [] = HNode 0 l r" by (simp add: root)
  obtain t where run: "hrun HTREE ?bits out = Some (snd (huffman_decode_nibbles xs 0 out), t)"
    using decode_nibbles_run [OF d, of ys out] ys assms by (auto simp: root split: option.splits)
  have "\<exists>cs q. snd (huffman_decode_nibbles xs 0 out) = out @ cs \<and>
      [] @ ?bits = concat (map sym_bits cs) @ q \<and>
      descend HTREE q = t \<and> (\<exists>n l r. t = HNode n l r)"
    by (rule hrun_inv [OF run]) (simp_all add: root)
  then obtain cs q where cs: "snd (huffman_decode_nibbles xs 0 out) = out @ cs"
    "?bits = concat (map sym_bits cs) @ q" by auto
  have "length ?bits = 4 * length ys" by (induction ys) auto
  then have "5 * length cs \<le> 4 * length ys"
    using sym_bits_length [of cs] arg_cong [OF cs(2), of length] by simp
  with cs(1) ys(1) show ?thesis by simp
qed

lemma sum_code_lengths:
  "sum_list (map (\<lambda>byte. snd (CODES ! unat byte)) src) = length (concat (map sym_bits src))"
proof (induction src)
  case (Cons byte src)
  obtain code len where "CODES ! unat byte = (code, len)" "sym_bits byte = bits_be len code"
    by (rule CODES_octet)
  with Cons show ?case by simp
qed simp

lemma huffman_canonical:
  "huffman_decode src pre = (Inr (), out) \<longleftrightarrow> (\<exists>cs. out = pre @ cs \<and> src = huffman_encode cs [])"
proof -
  have "(\<exists>k < 8. bytes_bits src = concat (map sym_bits cs) @ replicate k True) \<longleftrightarrow>
      src = huffman_encode cs []" (is "?L = ?R") for cs
  proof -
    obtain j where j: "j < 8"
      "bytes_bits (huffman_encode cs []) = concat (map sym_bits cs) @ replicate j True"
      using huffman_encode_bits [of cs "[]"] by (auto simp: bytes_bits_simps)
    have "?R" if k: "k < 8" "bytes_bits src = concat (map sym_bits cs) @ replicate k True" for k
    proof -
      have "length src = length (huffman_encode cs [])"
        using arg_cong [OF j(2), of length] arg_cong [OF k(2), of length] j(1) k(1)
        by (simp add: bytes_bits_length)
      moreover from this have "k = j"
        using arg_cong [OF j(2), of length] arg_cong [OF k(2), of length]
        by (simp add: bytes_bits_length)
      ultimately show ?thesis using j(2) k(2) bytes_bits_inject by metis
    qed
    with j show ?thesis by blast
  qed
  then show ?thesis by (auto simp: huffman_decode_accepts)
qed

lemma huffman_encoded_length:
  "length (huffman_encode src out) = length out + huffman_encoded_len src"
proof -
  obtain k where k: "k < 8" "bytes_bits (huffman_encode src out) =
      bytes_bits out @ concat (map sym_bits src) @ replicate k True"
    using huffman_encode_bits by blast
  show ?thesis
    using arg_cong [OF k(2), of length] k(1)
    by (simp add: bytes_bits_length huffman_encoded_len_def sum_code_lengths)
qed

lemma huffman_encode_append: "huffman_encode src out = out @ huffman_encode src []"
proof -
  obtain k where k: "k < 8" "bytes_bits (huffman_encode src out) =
      bytes_bits out @ concat (map sym_bits src) @ replicate k True"
    using huffman_encode_bits by blast
  obtain j where j: "j < 8" "bytes_bits (huffman_encode src []) =
      concat (map sym_bits src) @ replicate j True"
    using huffman_encode_bits [of src "[]"] by (auto simp: bytes_bits_simps)
  have len: "length (huffman_encode src out) = length (out @ huffman_encode src [])"
    by (simp add: huffman_encoded_length)
  have "k = j"
    using arg_cong [OF j(2), of length] arg_cong [OF k(2), of length] len
    by (simp add: bytes_bits_length)
  then have "bytes_bits (huffman_encode src out) = bytes_bits (out @ huffman_encode src [])"
    using j(2) k(2) by (simp add: bytes_bits_simps)
  with len bytes_bits_inject show ?thesis by metis
qed

subsection \<open>Properties\<close>

text \<open>
  every assertion of the compile-time builder holds on the code table of RFC 7541: the
  codes form a full prefix-free binary tree with 256 internal nodes, the all-ones path ends in
  EOS, no nibble emits two symbols, so \<open>build_machine\<close> returns a machine.
\<close>

theorem build_machine_succeeds: "build_machine = Some MACHINE"
proof -
  obtain trs where m: "build_machine = Some \<lparr>m_transitions = trs, m_padding = PADDING\<rparr>"
    using build_machine_eq by blast
  show ?thesis unfolding MACHINE_def m by simp
qed

text \<open>
  C10: the decoder accepts exactly the canonical encodings. Decoding \<open>src\<close> after \<open>pre\<close> succeeds
  with \<open>out\<close> precisely when \<open>out\<close> extends \<open>pre\<close> by the octets whose encoding is \<open>src\<close>: the
  encoder's output is decoded to the same octets, and no other octet string is accepted.
\<close>

theorem huffman_decode_iff_encode:
  "huffman_decode src pre = (Inr (), out) \<longleftrightarrow> (\<exists>cs. out = pre @ cs \<and> src = huffman_encode cs [])"
  by (rule huffman_canonical)

text \<open>
  \<open>encoded_len\<close>, which the encoder compares with the plain length and writes as the length
  prefix, is the number of octets \<open>encode\<close> appends.
\<close>

theorem huffman_encode_length:
  "length (huffman_encode src out) = length out + huffman_encoded_len src"
  by (rule huffman_encoded_length)

text \<open>
  the capacity the decoder reserves is enough: whatever the outcome, decoding \<open>n\<close> octets
  appends at most \<open>max_decoded_len n\<close> octets.
\<close>

theorem huffman_decode_length:
  "length (snd (huffman_decode src out)) \<le> length out + max_decoded_len (length src)"
proof -
  let ?xs = "concat (map (\<lambda>byte :: octet. [unat (drop_bit 4 byte), unat (byte AND 0x0f)]) src)"
  have "snd (huffman_decode src out) = snd (huffman_decode_nibbles ?xs 0 out)"
    by (auto simp: huffman_decode_def Let_def split: prod.split sum.split)
  moreover have "length ?xs = 2 * length src" by (induction src) auto
  moreover have "\<forall>x \<in> set ?xs. x < 16" using nibble_bits(2,3) by auto
  ultimately show ?thesis
    using decode_nibbles_length [of ?xs out] by (simp add: max_decoded_len_def)
qed

end
