(* ===== verification/Hpack_Roundtrip.thy ===== *)
theory Hpack_Roundtrip
  imports Hpack_Huffman_Roundtrip Hpack_Encoder Hpack_Decoder
begin

text \<open>
  The encoder and the decoder of one direction together: a block the encoder of
  \<^verbatim>\<open>hpack/encoder.rs\<close> writes is read by the decoder of \<^verbatim>\<open>hpack/decoder.rs\<close> as the same fields, and
  the two dynamic tables stay in step, through size changes, size updates and resets.
\<close>

subsection \<open>First octets\<close>

lemma encode_integer_first:
  fixes flags b :: octet
  assumes "1 \<le> p" and "p \<le> 8" and "prefix_mask p AND b = 0"
  obtains first rest where "encode_integer v p flags [] = first # rest"
    and "first AND b = flags AND b"
proof -
  have low: "of_nat v AND prefix_mask p = (of_nat v :: octet)" if "v < unat (prefix_mask p)"
  proof -
    have "v < 2 ^ p" using that assms(1,2) by (simp add: unat_prefix_mask)
    then have "take_bit p (of_nat v :: octet) = of_nat v"
      by (simp add: take_bit_of_nat take_bit_nat_eq_self)
    then show ?thesis by (simp add: prefix_mask_eq [OF assms(1,2)] take_bit_eq_mask)
  qed
  have absorb: "(flags OR x) AND b = flags AND b" if "x AND prefix_mask p = x" for x :: octet
  proof -
    have "x AND b = x AND (prefix_mask p AND b)" using that by (metis and.assoc)
    then show ?thesis using assms(3) by (simp add: bit.conj_disj_distrib2)
  qed
  show ?thesis
  proof (cases "v < unat (prefix_mask p)")
    case True
    with absorb [OF low [OF True]] show ?thesis
      by (intro that [of "flags OR of_nat v" "[]"]) (simp_all add: encode_integer_Cons)
  next
    case False
    with absorb [of "prefix_mask p"] show ?thesis
      by (intro that [of "flags OR prefix_mask p"]) (simp_all add: encode_integer_Cons)
  qed
qed

lemmas prefix_masks =
  prefix_mask_def [of 4] prefix_mask_def [of 5] prefix_mask_def [of 6] prefix_mask_def [of 7]

text \<open>An integer read at its position in a block.\<close>

lemma decode_integer_at:
  assumes "1 \<le> p" and "p \<le> 8" and "flags AND prefix_mask p = 0"
    and "v < 2 ^ 28 + unat (prefix_mask p)"
  shows "decode_integer (drop (length pre) (pre @ encode_integer v p flags [] @ rest)) p =
    Inr (v, length (encode_integer v p flags []))"
  using decode_encode_integer [OF assms(1-3), of v rest] assms(4) by simp

subsection \<open>Strings\<close>

text \<open>The octets a string literal takes on the wire, which the five-octet length prefix must hold.\<close>

definition wire_len :: "bool \<Rightarrow> bytes \<Rightarrow> nat" where
  "wire_len huffman s = (if huffman then huffman_encoded_len s else length s)"

definition sendable :: "bool \<Rightarrow> bytes \<Rightarrow> bool" where
  "sendable huffman s \<longleftrightarrow> wire_len huffman s < 2 ^ 28 + 127"

lemma encode_string_append: "encode_string s h out = out @ encode_string s h []"
  using huffman_encode_append [of s "encode_integer (huffman_encoded_len s) 7 0x80 out"]
    huffman_encode_append [of s "encode_integer (huffman_encoded_len s) 7 0x80 []"]
    encode_integer_append [of "huffman_encoded_len s" 7 "0x80" out]
    encode_integer_append [of "length s" 7 "0x00" out]
  by (simp add: encode_string_def)

lemma encode_string_form:
  "encode_string s h [] =
     encode_integer (wire_len h s) 7 (if h then 0x80 else 0) [] @ (if h then huffman_encode s [] else s)"
  using huffman_encode_append [of s "encode_integer (huffman_encoded_len s) 7 0x80 []"]
  by (simp add: encode_string_def wire_len_def)

lemma decode_encode_string:
  assumes "sendable h s"
  defines "enc \<equiv> encode_string s h []"
  shows "\<exists>source. decode_string (pre @ enc @ rest) (length pre) scratch =
      (Inr (source, length pre + length enc), scratch @ (if h then s else [])) \<and>
    (\<forall>more. resolve source (pre @ enc @ rest) (scratch @ (if h then s else []) @ more) = s)"
proof -
  let ?flags = "if h then 0x80 else (0 :: octet)"
  let ?int = "encode_integer (wire_len h s) 7 ?flags []"
  let ?body = "if h then huffman_encode s [] else s"
  let ?block = "pre @ enc @ rest"
  have enc: "enc = ?int @ ?body" by (simp add: enc_def encode_string_form)
  have body: "length ?body = wire_len h s"
    by (simp add: wire_len_def huffman_encoded_length)
  obtain first more where f: "?int = first # more" "first AND 0x80 = ?flags AND 0x80"
    by (rule encode_integer_first [of 7 "0x80" "wire_len h s" ?flags]) (simp_all add: prefix_masks)
  have int: "decode_integer (drop (length pre) ?block) 7 = Inr (wire_len h s, length ?int)"
    using decode_integer_at [of 7 ?flags "wire_len h s" pre "?body @ rest"] assms(1)
    by (simp add: enc sendable_def prefix_masks)
  have first: "drop (length pre) ?block = first # more @ ?body @ rest" by (simp add: enc f)
  have bits: "(first AND 0x80 = 0) = (\<not> h)" by (simp add: f(2))
  have sl: "slice ?block (length pre + length ?int) (length pre + length ?int + wire_len h s) = ?body"
    using slice_middle [of "pre @ ?int" ?body rest] by (simp add: enc body)
  have len: "\<not> length (drop (length pre) ?block) - length ?int < wire_len h s"
    using body by (simp add: enc)
  have huff: "huffman_decode (huffman_encode s []) scratch = (Inr (), scratch @ s)"
    using huffman_canonical by blast
  have string: "decode_string ?block (length pre) scratch =
     (if h then (Inr (Scratch (length scratch) (length (scratch @ s)), length pre + length enc), scratch @ s)
      else (Inr (Input (length pre + length ?int) (length pre + length enc), length pre + length enc), scratch))"
  proof -
    have "length pre + length ?int + wire_len h s = length pre + length enc"
      using body by (simp add: enc)
    then show ?thesis
      using first int len bits sl huff
      by (cases h) (simp_all add: decode_string_def Let_def)
  qed
  have "resolve (Scratch (length scratch) (length (scratch @ s))) ?block (scratch @ s @ more) = s" for more
    using slice_middle [of scratch s more] by simp
  moreover have "\<not> h \<Longrightarrow> resolve (Input (length pre + length ?int) (length pre + length enc)) ?block more = s"
    for more using sl body by (simp add: enc add.assoc)
  ultimately show ?thesis using string by (cases h) auto
qed

subsection \<open>Fields\<close>

definition address_space :: "DynamicTable \<Rightarrow> field list" where
  "address_space t = STATIC_TABLE @ contents t"

text \<open>The index \<open>i\<close> of a literal: 0 for a new name, or an entry holding \<open>name\<close>.\<close>

definition names :: "DynamicTable \<Rightarrow> nat \<Rightarrow> bytes \<Rightarrow> bool" where
  "names t i name \<longleftrightarrow> i = 0 \<or> (i \<le> length (address_space t) \<and> fst (address_space t ! (i - 1)) = name)"

lemma lookup_address:
  assumes "0 < i" and "i \<le> length (address_space (d_table d))"
  shows "lookup d i = Inr (address_space (d_table d) ! (i - 1))"
  using assms
  by (auto simp: lookup_def address_space_def DYNAMIC_TABLE_START_def table_get_contents nth_append)

lemma literal_name_decodes:
  assumes "names (d_table d) i name" and "sendable h name" and "d_scratch d = []"
  defines "enc \<equiv> if i = 0 then encode_string name h [] else []"
  shows "\<exists>nm d1. literal_name d (pre @ enc @ rest) (length pre) i indexing =
      (Inr (nm, length pre + length enc), d1) \<and> d_table d1 = d_table d \<and>
      d_max_allowed_size d1 = d_max_allowed_size d \<and>
      (case nm of
         SourceName source \<Rightarrow> \<forall>more. resolve source (pre @ enc @ rest) (d_scratch d1 @ more) = name
       | Dynamic k \<Rightarrow> \<not> indexing \<and> (\<exists>w. table_get (d_table d) k = Some (name, w)))"
proof -
  consider "i = 0" | "0 < i" "i < DYNAMIC_TABLE_START" | "DYNAMIC_TABLE_START \<le> i" by linarith
  then show ?thesis
  proof cases
    case 1
    with decode_encode_string [OF assms(2), of pre rest "[]"] assms(3) show ?thesis
      by (auto simp: literal_name_def enc_def)
  next
    case 2
    with assms(1) have "fst (STATIC_TABLE ! (i - 1)) = name"
      by (auto simp: names_def address_space_def DYNAMIC_TABLE_START_def nth_append)
    with 2 show ?thesis by (simp add: literal_name_def enc_def)
  next
    case 3
    then have "0 < i" by (simp add: DYNAMIC_TABLE_START_def)
    with 3 assms(1) obtain w where "table_get (d_table d) (i - DYNAMIC_TABLE_START) = Some (name, w)"
      using lookup_address [of i d]
      by (auto simp: names_def lookup_def prod_eq_iff split: option.splits)
    with 3 \<open>0 < i\<close> assms(3) show ?thesis
      by (simp add: literal_name_def enc_def Let_def slice_def)
  qed
qed

lemma literal_decodes:
  assumes "names (d_table d) i name" and "sendable h name" and "sendable h v"
    and "1 \<le> p" and "p \<le> 8" and "flags AND prefix_mask p = 0" and "i < 2 ^ 28 + unat (prefix_mask p)"
  defines "enc \<equiv> encode_integer i p flags [] @ (if i = 0 then encode_string name h [] else []) @
    encode_string v h []"
  shows "\<exists>d'. literal d (pre @ enc @ rest) (length pre) p indexing out =
      (Inr (length pre + length enc), d', out @ [(name, v)]) \<and>
    d_table d' = (if indexing then table_insert (d_table d) name v else d_table d) \<and>
    d_max_allowed_size d' = d_max_allowed_size d"
proof -
  let ?int = "encode_integer i p flags []"
  let ?nm = "if i = 0 then encode_string name h [] else []"
  let ?block = "pre @ enc @ rest"
  have int: "decode_integer (drop (length pre) ?block) p = Inr (i, length ?int)"
    using decode_integer_at [OF assms(4-7), of pre] by (simp add: enc_def)
  let ?d = "d\<lparr>d_scratch := []\<rparr>"
  have d: "names (d_table ?d) i name" "d_scratch ?d = []" using assms(1) by simp_all
  have blk: "(pre @ ?int) @ ?nm @ (encode_string v h [] @ rest) = ?block" by (simp add: enc_def)
  obtain nm d1 where n: "literal_name ?d ?block (length (pre @ ?int)) i indexing =
      (Inr (nm, length (pre @ ?int) + length ?nm), d1)"
    "d_table d1 = d_table ?d" "d_max_allowed_size d1 = d_max_allowed_size ?d"
    "case nm of SourceName source \<Rightarrow> \<forall>more. resolve source ?block (d_scratch d1 @ more) = name
     | Dynamic k \<Rightarrow> \<not> indexing \<and> (\<exists>w. table_get (d_table ?d) k = Some (name, w))"
    using literal_name_decodes [OF d(1) assms(2) d(2), of "pre @ ?int" "encode_string v h [] @ rest" indexing,
        unfolded blk]
    by (elim exE conjE) (rule that)
  from decode_encode_string [OF assms(3), of "pre @ ?int @ ?nm" rest "d_scratch d1"]
  obtain source scratch where v: "decode_string ?block (length pre + length ?int + length ?nm) (d_scratch d1) =
      (Inr (source, length pre + length enc), d_scratch d1 @ scratch)"
    "\<forall>more. resolve source ?block (d_scratch d1 @ scratch @ more) = v"
    by (auto simp: enc_def add.assoc)
  have r: "resolve source ?block (d_scratch d1 @ scratch) = v" using v(2) [rule_format, of "[]"] by simp
  show ?thesis
    using int n v(1) r by (cases nm) (auto simp: literal_def Let_def)
qed

text \<open>The two shapes a field takes: an index, or a literal naming its name by index or in full.\<close>

definition indexed_form :: "Encoder \<Rightarrow> bytes \<Rightarrow> bytes \<Rightarrow> Encoder \<Rightarrow> bytes \<Rightarrow> bool" where
  "indexed_form e name v e' enc \<longleftrightarrow> e' = e \<and> (\<exists>i. enc = encode_integer i 7 0x80 [] \<and> 0 < i \<and>
     i \<le> length (address_space (e_table e)) \<and> address_space (e_table e) ! (i - 1) = (name, v))"

definition literal_enc :: "bytes \<Rightarrow> bytes \<Rightarrow> bool \<Rightarrow> nat \<Rightarrow> nat \<Rightarrow> octet \<Rightarrow> bytes" where
  "literal_enc name v h i p flags =
     encode_integer i p flags [] @ (if i = 0 then encode_string name h [] else []) @ encode_string v h []"

definition literal_form :: "Encoder \<Rightarrow> bytes \<Rightarrow> bytes \<Rightarrow> bool \<Rightarrow> Encoder \<Rightarrow> bytes \<Rightarrow> bool" where
  "literal_form e name v h e' enc \<longleftrightarrow> (\<exists>i p flags. (p, flags) \<in> {(6, 0x40), (4, 0), (4, 0x10)} \<and>
     names (e_table e) i name \<and> enc = literal_enc name v h i p flags \<and>
     e' = (if p = 6 then e\<lparr>e_table := table_insert (e_table e) name v\<rparr> else e))"

lemma encode_zero: "encode_integer 0 4 flags [] = [flags]" "encode_integer 0 6 flags [] = [flags]"
  by (simp_all add: encode_integer_Cons prefix_masks)

lemma found_names:
  "find e name v = FoundName i j \<Longrightarrow> names (e_table e) i name \<and> names (e_table e) j name \<and> 0 < i \<and> 0 < j"
  "find e name v = Field i \<Longrightarrow> names (e_table e) i name \<and> 0 < i \<and>
     i \<le> length (address_space (e_table e)) \<and> address_space (e_table e) ! (i - 1) = (name, v)"
  using find_ok [of e name v] by (auto simp: names_def address_space_def)

lemma literal_form_plain:
  assumes "names (e_table e) i name" and "flags = 0 \<or> flags = 0x10"
  shows "literal_form e name v h e (literal_enc name v h i 4 flags)"
  unfolding literal_form_def using assms by (intro exI [of _ i] exI [of _ 4] exI [of _ flags]) auto

lemma literal_form_indexing:
  assumes "names (e_table e) i name"
  shows "literal_form e name v h (e\<lparr>e_table := table_insert (e_table e) name v\<rparr>)
    (literal_enc name v h i 6 0x40)"
  unfolding literal_form_def using assms by (intro exI [of _ i] exI [of _ 6] exI [of _ "0x40"]) auto

lemma literal_enc_named:
  "0 < i \<Longrightarrow> encode_string v h (encode_integer i p flags out) = out @ literal_enc name v h i p flags"
  using encode_string_append [of v h "encode_integer i p flags out"] encode_integer_append [of i p flags out]
  by (simp add: literal_enc_def)

lemma literal_enc_new:
  "p = 4 \<or> p = 6 \<Longrightarrow> encode_string v h (encode_string name h (out @ [flags])) =
     out @ literal_enc name v h 0 p flags"
  using encode_string_append [of v h "encode_string name h (out @ [flags])"]
    encode_string_append [of name h "out @ [flags]"]
  by (auto simp: encode_zero literal_enc_def)

text \<open>The representations, by what the search found.\<close>

lemma encode_field_found:
  assumes "find e name v = Field i"
  shows "encode_field e name v rep h out =
    (if rep = Proxy \<or> rep = IncrementalIndexing then (e, out @ encode_integer i 7 0x80 [])
     else (e, out @ literal_enc name v h i 4 (if rep = NeverIndexed then 0x10 else 0x00)))"
  using assms found_names(2) [OF assms] encode_integer_append [of i 7 "0x80" out]
    literal_enc_named [of i v h 4 _ out name]
  by (cases rep) (simp_all add: encode_field_def)

lemma encode_field_name:
  assumes "find e name v = FoundName i j"
  shows "encode_field e name v rep h out =
    (case rep of Proxy \<Rightarrow> (e, out @ literal_enc name v h j 4 0x00)
     | IncrementalIndexing \<Rightarrow> (e\<lparr>e_table := table_insert (e_table e) name v\<rparr>,
         out @ literal_enc name v h i 6 0x40)
     | _ \<Rightarrow> (e, out @ literal_enc name v h i 4 (if rep = NeverIndexed then 0x10 else 0x00)))"
  using assms found_names(1) [OF assms] literal_enc_named [of j v h 4 _ out name]
    literal_enc_named [of i v h 4 _ out name] literal_enc_named [of i v h 6 _ out name]
  by (cases rep) (simp_all add: encode_field_def)

lemma encode_field_nothing:
  assumes "find e name v = Nothing"
  shows "encode_field e name v rep h out =
    (if rep = Proxy \<or> rep = IncrementalIndexing
     then (e\<lparr>e_table := table_insert (e_table e) name v\<rparr>, out @ literal_enc name v h 0 6 0x40)
     else (e, out @ literal_enc name v h 0 4 (if rep = NeverIndexed then 0x10 else 0x00)))"
  using assms literal_enc_new [of 4 v h name out] literal_enc_new [of 6 v h name out]
  by (cases rep) (simp_all add: encode_field_def)

lemma encode_field_form:
  "\<exists>enc e'. (\<forall>out. encode_field e name v rep h out = (e', out @ enc)) \<and>
     (indexed_form e name v e' enc \<or> literal_form e name v h e' enc)"
proof (cases "find e name v")
  case (Field i)
  have "indexed_form e name v e (encode_integer i 7 0x80 [])"
    using found_names(2) [OF Field] by (auto simp: indexed_form_def)
  with found_names(2) [OF Field] show ?thesis
    unfolding encode_field_found [OF Field]
    by (cases rep) (auto intro!: literal_form_plain)
next
  case (FoundName i j)
  from found_names(1) [OF FoundName] show ?thesis
    unfolding encode_field_name [OF FoundName]
    by (cases rep) (auto intro!: literal_form_plain literal_form_indexing)
next
  case Nothing
  have "names (e_table e) 0 name" by (simp add: names_def)
  then show ?thesis
    unfolding encode_field_nothing [OF Nothing]
    by (cases rep) (auto intro!: literal_form_plain literal_form_indexing)
qed

subsection \<open>One field of a block\<close>

text \<open>
  The two ends of a direction are in step when their tables hold the same fields under the same
  maximum size. Sizes are those of a \<open>SETTINGS_HEADER_TABLE_SIZE\<close>, a \<open>u32\<close>.
\<close>

definition in_step :: "Encoder \<Rightarrow> Decoder \<Rightarrow> bool" where
  "in_step e d \<longleftrightarrow> check_invariants (e_table e) \<and> check_invariants (d_table d) \<and>
     contents (e_table e) = contents (d_table d) \<and>
     t_max_size (e_table e) = t_max_size (d_table d) \<and> t_max_size (e_table e) < 2 ^ 32"

lemma index_small:
  assumes "check_invariants t" and "t_max_size t < 2 ^ 32" and "i \<le> length (address_space t)"
  shows "i < 2 ^ 28"
proof -
  have "length (contents t) \<le> t_max_size t div 32"
    using dyn.count_bound [OF assms(1)] by (simp add: ENTRY_OVERHEAD_def)
  also have "\<dots> < 2 ^ 27" using assms(2) by (simp add: less_mult_imp_div_less)
  finally show ?thesis using assms(3) by (simp add: address_space_def STATIC_TABLE_def)
qed

lemma in_step_insert:
  assumes "in_step e d" and "d_table d' = table_insert (d_table d) name v"
  shows "in_step (e\<lparr>e_table := table_insert (e_table e) name v\<rparr>) d'"
  using assms dyn.insert_in_step [of "e_table e" "d_table d" name v]
  by (simp add: in_step_def table_insert_ok)

lemma in_step_cong: "in_step e d \<Longrightarrow> d_table d' = d_table d \<Longrightarrow> in_step e d'"
  by (simp add: in_step_def)

text \<open>The loop on the two shapes.\<close>

lemma decode_loop_indexed:
  assumes "in_step e d" and "indexed_form e name v e' enc"
  shows "decode_loop d (pre @ enc @ rest) (length pre) n u l out =
    decode_loop d (pre @ enc @ rest) (length pre + length enc) (n + 1) u False (out @ [(name, v)])"
proof -
  from assms(2) obtain i where i: "enc = encode_integer i 7 0x80 []" "0 < i"
    "i \<le> length (address_space (e_table e))" "address_space (e_table e) ! (i - 1) = (name, v)"
    by (auto simp: indexed_form_def)
  have t: "address_space (e_table e) = address_space (d_table d)"
    using assms(1) by (simp add: in_step_def address_space_def)
  have "i < 2 ^ 28" using assms(1) i(3) by (intro index_small [of "e_table e"]) (simp_all add: in_step_def)
  then have int: "decode_integer (drop (length pre) (pre @ enc @ rest)) 7 = Inr (i, length enc)"
    using decode_integer_at [of 7 "0x80" i pre rest] by (simp add: i(1) prefix_masks)
  obtain first more where f: "enc = first # more" "first AND 0x80 = 0x80 AND 0x80"
    unfolding i(1) by (rule encode_integer_first [of 7 "0x80" i "0x80"]) (simp_all add: prefix_masks)
  have "lookup d i = Inr (name, v)" using lookup_address [of i d] i t by simp
  with int f show ?thesis by (simp add: decode_loop.simps [of d _ "length pre"] Let_def nth_append)
qed

lemma decode_loop_literal:
  assumes "in_step e d" and "literal_form e name v h e' enc" and "sendable h name" and "sendable h v"
  shows "\<exists>d'. decode_loop d (pre @ enc @ rest) (length pre) n u l out =
      decode_loop d' (pre @ enc @ rest) (length pre + length enc) (n + 1) u False (out @ [(name, v)]) \<and>
    in_step e' d' \<and> d_max_allowed_size d' = d_max_allowed_size d"
proof -
  from assms(2) obtain i p flags where i: "(p, flags) \<in> {(6, 0x40), (4, 0), (4, 0x10)}"
    "names (e_table e) i name"
    "enc = literal_enc name v h i p flags"
    "e' = (if p = 6 then e\<lparr>e_table := table_insert (e_table e) name v\<rparr> else e)"
    unfolding literal_form_def by blast
  have nm: "names (d_table d) i name"
    using i(2) assms(1) by (simp add: names_def in_step_def address_space_def)
  have "i < 2 ^ 28"
    using i(2) assms(1) index_small [of "e_table e" i] by (auto simp: names_def in_step_def)
  then have "\<exists>d'. literal d (pre @ enc @ rest) (length pre) p (p = 6) out =
      (Inr (length pre + length enc), d', out @ [(name, v)]) \<and>
    d_table d' = (if p = 6 then table_insert (d_table d) name v else d_table d) \<and>
    d_max_allowed_size d' = d_max_allowed_size d"
    unfolding i(3) literal_enc_def using i(1)
    by (intro literal_decodes [OF nm assms(3,4)]) (auto simp: prefix_masks)
  then obtain d' where l: "literal d (pre @ enc @ rest) (length pre) p (p = 6) out =
      (Inr (length pre + length enc), d', out @ [(name, v)])"
    "d_table d' = (if p = 6 then table_insert (d_table d) name v else d_table d)"
    "d_max_allowed_size d' = d_max_allowed_size d" by blast
  have step: "in_step e' d'"
    using assms(1) l(2) i(4) in_step_insert [of e d d' name v] in_step_cong [of e d d'] by auto
  have p: "1 \<le> p" "p \<le> 8" using i(1) by auto
  have flag: "(pre @ enc @ rest) ! length pre AND b = flags AND b"
    if m: "prefix_mask p AND b = 0" for b
  proof -
    obtain first more where "encode_integer i p flags [] = first # more" "first AND b = flags AND b"
      by (rule encode_integer_first [OF p m])
    then show ?thesis by (simp add: i(3) literal_enc_def nth_append)
  qed
  have len: "length pre < length (pre @ enc @ rest)"
  proof -
    have "encode_integer i p flags [] \<noteq> []" by (simp add: encode_integer_Cons)
    then show ?thesis by (simp add: i(3) literal_enc_def)
  qed
  let ?first = "(pre @ enc @ rest) ! length pre"
  consider "p = 6" "flags = 0x40" | "p = 4" "flags = 0 \<or> flags = 0x10" using i(1) by auto
  then show ?thesis
  proof cases
    case 1
    have "?first AND 0x80 = 0" "?first AND 0x40 \<noteq> 0"
      using flag [of "0x80"] flag [of "0x40"] by (simp_all add: 1 prefix_masks)
    with l(1,3) step len 1 show ?thesis
      by (intro exI [of _ d']) (simp add: decode_loop.simps [of d _ "length pre"] del: length_append)
  next
    case 2
    have "?first AND 0x80 = 0" "?first AND 0x40 = 0" "?first AND 0x20 = 0"
      using flag [of "0x80"] flag [of "0x40"] flag [of "0x20"] 2(2) by (auto simp: 2(1) prefix_masks)
    with l(1,3) step len 2 show ?thesis
      by (intro exI [of _ d']) (simp add: decode_loop.simps [of d _ "length pre"] del: length_append)
  qed
qed

subsection \<open>The fields of a block\<close>

text \<open>A block's fields in any mix of representations; \<open>encode_into\<close> is the case of the proxy.\<close>

fun encode_fields :: "Encoder \<Rightarrow> (field \<times> Representation \<times> bool) list \<Rightarrow> bytes \<Rightarrow> Encoder \<times> bytes" where
  "encode_fields e [] out = (e, out)"
| "encode_fields e ((f, rep, h) # reqs) out =
     (let (e, out) = encode_field e (fst f) (snd f) rep h out in encode_fields e reqs out)"

lemma encode_into_fields: "encode_into e fs out = encode_fields e (map (\<lambda>f. (f, Proxy, False)) fs) out"
  by (induction fs arbitrary: e out) (auto simp: encode_header_into_def split: prod.splits)

definition all_sendable :: "(field \<times> Representation \<times> bool) list \<Rightarrow> bool" where
  "all_sendable reqs \<longleftrightarrow> (\<forall>(f, rep, h) \<in> set reqs. sendable h (fst f) \<and> sendable h (snd f))"

lemma decode_loop_field:
  assumes "in_step e d" and "sendable h name" and "sendable h v"
  shows "\<exists>enc e' d'. (\<forall>out. encode_field e name v rep h out = (e', out @ enc)) \<and>
    decode_loop d (pre @ enc @ rest) (length pre) n u l out =
      decode_loop d' (pre @ enc @ rest) (length pre + length enc) (n + 1) u False (out @ [(name, v)]) \<and>
    in_step e' d' \<and> d_max_allowed_size d' = d_max_allowed_size d"
proof -
  obtain enc e' where enc: "\<forall>out. encode_field e name v rep h out = (e', out @ enc)"
    "indexed_form e name v e' enc \<or> literal_form e name v h e' enc"
    using encode_field_form by blast
  from enc(2) show ?thesis
  proof
    assume form: "indexed_form e name v e' enc"
    then have "e' = e" by (simp add: indexed_form_def)
    with enc(1) decode_loop_indexed [OF assms(1) form, of pre rest n u l out] assms(1) show ?thesis
      by blast
  next
    assume form: "literal_form e name v h e' enc"
    from decode_loop_literal [OF assms(1) form assms(2,3), of pre rest n u l out] enc(1) show ?thesis
      by blast
  qed
qed

lemma encode_fields_append: "\<exists>e' enc. \<forall>out. encode_fields e reqs out = (e', out @ enc)"
proof (induction reqs arbitrary: e)
  case (Cons r reqs)
  obtain f rep h where r: "r = (f, rep, h)" by (metis prod_cases3)
  obtain enc1 e1 where 1: "\<And>out. encode_field e (fst f) (snd f) rep h out = (e1, out @ enc1)"
    using encode_field_form by blast
  obtain e2 enc2 where 2: "\<And>out. encode_fields e1 reqs out = (e2, out @ enc2)" using Cons by blast
  have "encode_fields e (r # reqs) out = (e2, out @ enc1 @ enc2)" for out by (simp add: r 1 2)
  then show ?case by blast
qed (rule exI, rule exI [of _ "[]"], simp)

lemma decode_loop_fields:
  assumes "in_step e d" and "all_sendable reqs" and "encode_fields e reqs pre = (e', pre @ enc)"
  shows "\<exists>d'. decode_loop d (pre @ enc) (length pre) n u l out =
      (if reqs = [] \<and> l then Inl SizeUpdateAtEnd else Inr (), d', out @ map fst reqs) \<and>
    in_step e' d' \<and> d_max_allowed_size d' = d_max_allowed_size d"
  using assms
proof (induction reqs arbitrary: e d pre enc n l out)
  case Nil
  then show ?case by (auto simp: decode_loop.simps)
next
  case (Cons r reqs)
  obtain f rep h where r: "r = (f, rep, h)" by (metis prod_cases3)
  obtain name v where f: "f = (name, v)" by fastforce
  have send: "sendable h name" "sendable h v" "all_sendable reqs"
    using Cons.prems(2) by (auto simp: all_sendable_def r f)
  obtain enc1 e1 where enc1: "\<And>out. encode_field e name v rep h out = (e1, out @ enc1)"
    using encode_field_form by blast
  obtain e2 enc2 where "\<And>out. encode_fields e1 reqs out = (e2, out @ enc2)"
    using encode_fields_append by blast
  with Cons.prems(3) have enc2: "encode_fields e1 reqs (pre @ enc1) = (e', (pre @ enc1) @ enc2)"
    "enc = enc1 @ enc2" by (auto simp: r f enc1)
  from decode_loop_field [OF Cons.prems(1) send(1,2), of rep pre enc2 n u l out] enc1
  obtain d1 where d1: "decode_loop d (pre @ enc) (length pre) n u l out =
      decode_loop d1 (pre @ enc) (length (pre @ enc1)) (n + 1) u False (out @ [(name, v)])"
    "in_step e1 d1" "d_max_allowed_size d1 = d_max_allowed_size d"
    by (auto simp: enc2(2))
  from Cons.IH [OF d1(2) send(3) enc2(1), of "n + 1" False "out @ [(name, v)]"] d1 show ?case
    by (auto simp: r f enc2(2))
qed

subsection \<open>Size updates\<close>

text \<open>A table size whose size update the peer can read; the settings are capped far below it.\<close>

definition announceable :: "nat \<Rightarrow> bool" where
  "announceable m \<longleftrightarrow> m < 2 ^ 28 + 31"

lemma decode_loop_update:
  assumes "announceable m" and "m \<le> d_max_allowed_size d" and "u < 2"
  defines "enc \<equiv> encode_integer m 5 0x20 []"
  shows "decode_loop d (pre @ enc @ rest) (length pre) 0 u l out =
    decode_loop (d\<lparr>d_table := set_max_size (d_table d) m\<rparr>) (pre @ enc @ rest)
      (length (pre @ enc)) 0 (u + 1) True out"
proof -
  have int: "decode_integer (drop (length pre) (pre @ enc @ rest)) 5 = Inr (m, length enc)"
    using decode_integer_at [of 5 "0x20" m pre rest] assms(1)
    by (simp add: enc_def announceable_def prefix_masks)
  have flag: "\<exists>first more. enc = first # more \<and> first AND b = 0x20 AND b" if "prefix_mask 5 AND b = 0" for b
    unfolding enc_def
    by (rule encode_integer_first [of 5 b m "0x20"]) (use that in auto)
  then obtain first more where f: "enc = first # more" "first AND 0x80 = 0" "first AND 0x40 = 0" "first AND 0x20 \<noteq> 0"
    using flag [of "0x80"] flag [of "0x40"] flag [of "0x20"] by (auto simp: prefix_masks)
  with int assms(2,3) show ?thesis
    by (simp add: decode_loop.simps [of d _ "length pre"] Let_def nth_append MAX_LEADING_SIZE_UPDATES_def)
qed

text \<open>
  The two ends between blocks. While a size change is pending, the encoder holds what the
  decoder will hold once it has read the updates that open the next block.
\<close>

definition linked :: "Encoder \<Rightarrow> Decoder \<Rightarrow> bool" where
  "linked e d \<longleftrightarrow>
     (case pending_size_update e of
        None \<Rightarrow> in_step e d
      | Some p \<Rightarrow> check_invariants (e_table e) \<and> check_invariants (d_table d) \<and>
          p_smallest p \<le> p_last p \<and> t_max_size (e_table e) = p_last p \<and> announceable (p_last p) \<and>
          contents (e_table e) = fit (p_smallest p) (contents (d_table d)))"

lemma linked_change:
  assumes "linked e d" and "announceable m"
  shows "linked (change_max_table_size e m) d"
proof (cases "pending_size_update e")
  case None
  with assms show ?thesis
    by (simp add: linked_def in_step_def change_max_table_size_def Let_def set_max_size_ok)
next
  case (Some p)
  with assms show ?thesis
    by (auto simp: linked_def in_step_def change_max_table_size_def Let_def set_max_size_ok fit_fit
        min.commute)
qed

lemma linked_reset:
  assumes "check_invariants (e_table e)" and "check_invariants (d_table d)"
    and "announceable (t_max_size (e_table e))"
  shows "linked (snd (reset_table e)) d"
  using assms
  by (auto simp: linked_def reset_table_def change_max_table_size_def Let_def set_max_size_ok
      split: option.splits)

text \<open>A whole block: the pending size updates, when there are any, then the fields.\<close>

definition encode_block :: "Encoder \<Rightarrow> (field \<times> Representation \<times> bool) list \<Rightarrow> Encoder \<times> bytes" where
  "encode_block e reqs =
     (case pending_size_update e of
        None \<Rightarrow> encode_fields e reqs []
      | Some p \<Rightarrow> (case encode_size_updates_into e (p_last p) [] of
          (_, e, out) \<Rightarrow> encode_fields e reqs out))"

lemma encode_size_updates_block:
  assumes "pending_size_update e = Some p"
  shows "encode_size_updates_into e (p_last p) [] =
    (if p_smallest p < p_last p
     then (2, e\<lparr>pending_size_update := None\<rparr>,
           encode_integer (p_smallest p) 5 0x20 [] @ encode_integer (p_last p) 5 0x20 [])
     else (1, e\<lparr>pending_size_update := None\<rparr>, encode_integer (p_last p) 5 0x20 []))"
  using assms encode_integer_append [of "p_last p" 5 "0x20" "encode_integer (p_smallest p) 5 0x20 []"]
  by (simp add: encode_size_updates_into_def)

text \<open>Reading the updates brings the decoder in step.\<close>

lemma decode_loop_updates:
  assumes "linked e d" and "pending_size_update e = Some p" and "p_last p \<le> d_max_allowed_size d"
    and "encode_size_updates_into e (p_last p) [] = (n, e1, upd)"
  shows "\<exists>d1 u l. decode_loop d (upd @ rest) 0 0 0 False [] = decode_loop d1 (upd @ rest) (length upd) 0 u l [] \<and>
    in_step e1 d1 \<and> d_max_allowed_size d1 = d_max_allowed_size d"
proof -
  let ?s = "encode_integer (p_smallest p) 5 0x20 []" and ?l = "encode_integer (p_last p) 5 0x20 []"
  have inv: "check_invariants (e_table e)" "check_invariants (d_table d)" "p_smallest p \<le> p_last p"
    "t_max_size (e_table e) = p_last p" "announceable (p_last p)"
    "contents (e_table e) = fit (p_smallest p) (contents (d_table d))"
    using assms(1,2) by (auto simp: linked_def)
  then have small: "announceable (p_smallest p)" "p_smallest p \<le> d_max_allowed_size d" "p_last p < 2 ^ 32"
    using assms(3) by (auto simp: announceable_def)
  have e1: "e1 = e\<lparr>pending_size_update := None\<rparr>"
    "upd = (if p_smallest p < p_last p then ?s @ ?l else ?l)"
    using assms(4) encode_size_updates_block [OF assms(2)] by (auto split: if_splits)
  let ?d1 = "d\<lparr>d_table := set_max_size (d_table d) (p_smallest p)\<rparr>"
  let ?d2 = "?d1\<lparr>d_table := set_max_size (d_table ?d1) (p_last p)\<rparr>"
  let ?d3 = "d\<lparr>d_table := set_max_size (d_table d) (p_last p)\<rparr>"
  show ?thesis
  proof (cases "p_smallest p < p_last p")
    case True
    have "decode_loop d (upd @ rest) 0 0 0 False [] = decode_loop ?d2 (upd @ rest) (length upd) 0 2 True []"
      using decode_loop_update [OF small(1,2), of 0 "[]" "?l @ rest" False "[]"]
        decode_loop_update [OF inv(5), of ?d1 1 ?s rest True "[]"] assms(3) True
      by (simp add: e1(2) numeral_2_eq_2)
    moreover have "in_step e1 ?d2"
      using inv small(3) dyn.resize_twice [OF inv(2,3)] by (simp add: in_step_def e1(1) set_max_size_ok)
    ultimately show ?thesis by (intro exI [of _ ?d2] exI [of _ 2] exI [of _ True]) simp
  next
    case False
    then have eq: "p_smallest p = p_last p" using inv(3) by simp
    have "decode_loop d (upd @ rest) 0 0 0 False [] = decode_loop ?d3 (upd @ rest) (length upd) 0 1 True []"
      using decode_loop_update [OF inv(5) assms(3), of 0 "[]" rest False "[]"] False by (simp add: e1(2))
    moreover have "in_step e1 ?d3"
      using inv small(3) by (simp add: in_step_def e1(1) set_max_size_ok eq)
    ultimately show ?thesis by (intro exI [of _ ?d3] exI [of _ 1] exI [of _ True]) simp
  qed
qed

lemma encode_fields_pending: "pending_size_update (fst (encode_fields e reqs out)) = pending_size_update e"
proof (induction e reqs out rule: encode_fields.induct)
  case (2 e f rep h reqs out)
  have "pending_size_update (fst (encode_field e (fst f) (snd f) rep h out)) = pending_size_update e"
    by (auto simp: encode_field_def Let_def split: Representation.split Found.split)
  with 2 show ?case by (auto split: prod.splits)
qed simp

lemma block_roundtrip:
  assumes "linked e d" and "all_sendable reqs" and "reqs \<noteq> []"
    and "case pending_size_update e of None \<Rightarrow> True | Some p \<Rightarrow> p_last p \<le> d_max_allowed_size d"
    and "encode_block e reqs = (e', block)"
  shows "\<exists>d'. decode_with_cb d block = (Inr (), d', map fst reqs) \<and> linked e' d' \<and>
    pending_size_update e' = None \<and> d_max_allowed_size d' = d_max_allowed_size d"
proof (cases "pending_size_update e")
  case None
  have enc: "encode_fields e reqs [] = (e', [] @ block)" using assms(5) None by (simp add: encode_block_def)
  have "in_step e d" using assms(1) None by (simp add: linked_def)
  from decode_loop_fields [OF this assms(2) enc, of 0 0 False "[]"] assms(3)
    encode_fields_pending [of e reqs "[]"] None enc show ?thesis
    by (auto simp: decode_with_cb_def linked_def)
next
  case (Some p)
  obtain n e1 upd where u: "encode_size_updates_into e (p_last p) [] = (n, e1, upd)" by (metis prod_cases3)
  have "p_last p \<le> d_max_allowed_size d" using assms(4) Some by simp
  obtain rest where enc: "encode_fields e1 reqs upd = (e', upd @ rest)" "block = upd @ rest"
    using assms(5) Some u encode_fields_append [of e1 reqs] by (auto simp: encode_block_def)
  have none: "pending_size_update e1 = None" using u Some by (auto simp: encode_size_updates_into_def split: if_splits)
  from decode_loop_updates [OF assms(1) Some \<open>p_last p \<le> _\<close> u, of rest]
  obtain d1 w l where d1: "decode_loop d block 0 0 0 False [] = decode_loop d1 block (length upd) 0 w l []"
    "in_step e1 d1" "d_max_allowed_size d1 = d_max_allowed_size d" by (auto simp: enc(2))
  from decode_loop_fields [OF d1(2) assms(2) enc(1), of 0 w l "[]"] assms(3) d1 none
    encode_fields_pending [of e1 reqs upd] enc show ?thesis
    by (auto simp: decode_with_cb_def linked_def)
qed

lemma linked_new: "linked encoder_new (set_max_allowed_table_size decoder_new m)"
  by (simp add: linked_def encoder_new_def in_step_def set_max_allowed_table_size_def decoder_new_def
      table_new_ok) (simp add: table_new_def DEFAULT_MAX_SIZE_def)

lemma sendable_short: "length s < 100 \<Longrightarrow> sendable False s"
  by (simp add: sendable_def wire_len_def)

subsection \<open>Properties\<close>

text \<open>
  C1: a block reads back as what was written. When the two ends are linked, a non-empty block in
  any mix of representations, with or without Huffman coding, opened by the size updates that
  are due, is accepted by the decoder, which delivers exactly the encoded fields in order; the
  two ends are linked again afterwards, with no size change pending. The strings fit the
  five-octet length prefix and the announced size is one the decoder advertised.
\<close>

theorem hpack_block_roundtrip:
  assumes "linked e d" and "all_sendable reqs" and "reqs \<noteq> []"
    and "case pending_size_update e of None \<Rightarrow> True | Some p \<Rightarrow> p_last p \<le> d_max_allowed_size d"
    and "encode_block e reqs = (e', block)"
  shows "\<exists>d'. decode_with_cb d block = (Inr (), d', map fst reqs) \<and> linked e' d' \<and>
    pending_size_update e' = None \<and> d_max_allowed_size d' = d_max_allowed_size d"
  using block_roundtrip [OF assms] .

theorem hpack_block_roundtrip_witness:
  "\<exists>d'. decode_with_cb (set_max_allowed_table_size decoder_new 4096)
     (snd (encode_block (change_max_table_size encoder_new 100) [(([0x78], [0x79]), IncrementalIndexing, False)])) =
     (Inr (), d', [([0x78], [0x79])])"
proof -
  let ?e = "change_max_table_size encoder_new 100"
  let ?reqs = "[(([0x78], [0x79]), IncrementalIndexing, False)]"
  have "linked ?e (set_max_allowed_table_size decoder_new 4096)"
    by (intro linked_change linked_new) (simp add: announceable_def)
  moreover have "all_sendable ?reqs" by (simp add: all_sendable_def sendable_short)
  moreover have "case pending_size_update ?e of None \<Rightarrow> True
      | Some p \<Rightarrow> p_last p \<le> d_max_allowed_size (set_max_allowed_table_size decoder_new 4096)"
    by (simp add: change_max_table_size_def set_max_allowed_table_size_def Let_def)
  ultimately show ?thesis
    using hpack_block_roundtrip [of ?e "set_max_allowed_table_size decoder_new 4096" ?reqs
        "fst (encode_block ?e ?reqs)" "snd (encode_block ?e ?reqs)"] by auto
qed

text \<open>
  changing the maximum size any number of times between two blocks keeps the two ends linked:
  the smallest and the last size are all the encoder has to announce.
\<close>

theorem hpack_size_changes_linked:
  assumes "linked e d" and "list_all announceable sizes"
  shows "linked (foldl change_max_table_size e sizes) d"
  using assms by (induction sizes arbitrary: e) (auto intro: linked_change)

theorem hpack_size_changes_linked_witness:
  "linked (foldl change_max_table_size encoder_new [100, 0, 4096]) (set_max_allowed_table_size decoder_new 4096)"
  using hpack_size_changes_linked [OF linked_new, of "[100, 0, 4096]" 4096]
  by (simp add: announceable_def)

text \<open>
  C32: \<open>reset_table\<close> repairs a direction after dropped blocks. Whatever blocks the encoder wrote
  that the decoder never saw, that is for any two tables, after a reset the next block is read
  as what was written and the two ends are linked again.
\<close>

theorem hpack_reset_resynchronises:
  assumes "check_invariants (e_table e)" and "check_invariants (d_table d)"
    and "announceable (t_max_size (e_table e))" and "t_max_size (e_table e) \<le> d_max_allowed_size d"
    and "all_sendable reqs" and "reqs \<noteq> []" and "encode_block (snd (reset_table e)) reqs = (e', block)"
  shows "\<exists>d'. decode_with_cb d block = (Inr (), d', map fst reqs) \<and> linked e' d'"
proof -
  have "case pending_size_update (snd (reset_table e)) of None \<Rightarrow> True
      | Some p \<Rightarrow> p_last p \<le> d_max_allowed_size d"
    using assms(4) by (simp add: reset_table_def change_max_table_size_def Let_def)
  with block_roundtrip [OF linked_reset [OF assms(1-3)] assms(5,6) _ assms(7)] show ?thesis by blast
qed

theorem hpack_reset_resynchronises_witness:
  "\<exists>d'. decode_with_cb (set_max_allowed_table_size decoder_new 4096)
     (snd (encode_block (snd (reset_table (fst (encode_header_into encoder_new ([0x78], [0x79]) []))))
       [(([0x78], [0x7a]), Proxy, False)])) = (Inr (), d', [([0x78], [0x7a])])"
proof -
  let ?e = "fst (encode_header_into encoder_new ([0x78], [0x79]) [])"
  let ?d = "set_max_allowed_table_size decoder_new 4096"
  let ?reqs = "[(([0x78], [0x7a]), Proxy, False)]"
  have "linked encoder_new ?d" by (rule linked_new)
  then have new: "check_invariants (e_table encoder_new)" "check_invariants (d_table ?d)"
    by (auto simp: linked_def in_step_def encoder_new_def)
  then have "check_invariants (e_table ?e) \<and> t_max_size (e_table ?e) = 4096"
    by (auto simp: encode_header_into_def encode_field_def Let_def table_insert_ok split: Found.split)
      (simp_all add: encoder_new_def table_new_def DEFAULT_MAX_SIZE_def)
  moreover have "all_sendable ?reqs" by (simp add: all_sendable_def sendable_short)
  ultimately show ?thesis
    using new hpack_reset_resynchronises [of ?e ?d ?reqs
        "fst (encode_block (snd (reset_table ?e)) ?reqs)" "snd (encode_block (snd (reset_table ?e)) ?reqs)"]
    by (auto simp: announceable_def set_max_allowed_table_size_def)
qed

end
