(* ===== verification/H2_Connection_Settings.thy ===== *)
theory H2_Connection_Settings
  imports H2_Connection_Reach H2_Flood_Limits Hpack_Roundtrip
begin

text \<open>
  What a SETTINGS frame of the peer does beyond the queues: it moves the send windows of every open
  stream at once or fails as a whole, and it resizes the table of the header encoder without losing
  step with the peer's decoder.
\<close>

subsection \<open>The send windows of the streams\<close>

lemma shift_windows_exact:
  assumes "distinct gids" and "list_all (\<lambda>g. g < length windows) gids"
  shows "shift_windows delta gids open_window windows =
    (open_window \<or> list_ex (\<lambda>g. windows ! g \<le> 0 \<and> 0 < windows ! g + delta) gids,
     map (\<lambda>i. if i \<in> set gids then windows ! i + delta else windows ! i) [0..<length windows])"
  using assms
proof (induction gids arbitrary: open_window windows)
  case Nil
  then show ?case by (simp add: map_nth)
next
  case (Cons g gids)
  let ?ws = "windows[g := windows ! g + delta]"
  have "list_all (\<lambda>g. g < length ?ws) gids" using Cons.prems by simp
  moreover have "list_ex (\<lambda>g. ?ws ! g \<le> 0 \<and> 0 < ?ws ! g + delta) gids = list_ex (\<lambda>g. windows ! g \<le> 0 \<and> 0 < windows ! g + delta) gids"
    using Cons.prems(1) by (simp add: list_ex_iff) (metis nth_list_update_neq)
  moreover have "map (\<lambda>i. if i \<in> set gids then ?ws ! i + delta else ?ws ! i) [0..<length ?ws] =
      map (\<lambda>i. if i \<in> set (g # gids) then windows ! i + delta else windows ! i) [0..<length windows]"
    using Cons.prems by (auto simp: nth_list_update)
  ultimately show ?case using Cons.IH [of ?ws] Cons.prems(1) by (auto simp: Let_def)
qed

lemma is_i32_diff: "0 \<le> a \<Longrightarrow> a \<le> 2147483647 \<Longrightarrow> 0 \<le> b \<Longrightarrow> b \<le> 2147483647 \<Longrightarrow> is_i32 (a - b)"
  by (simp add: is_i32_def i32_MIN_def i32_MAX_def)

definition slots_ok :: "int list \<Rightarrow> 'sl ConnectionH2 \<Rightarrow> bool" where
  "slots_ok windows c \<longleftrightarrow> distinct (map snd (streams (cn_stream_table c))) \<and>
     list_all (\<lambda>e. snd e < length windows \<and> is_i32 (windows ! snd e)) (streams (cn_stream_table c)) \<and>
     settings_initial_window_size (cn_peer_settings c) \<le> FLOW_CONTROL_MAX_WINDOW"

text \<open>
  C24: a new initial window size applies to every open stream or to none. When it exceeds 2^31-1 or would
  take one window out of the range of its type, nothing changes and the caller ends the connection;
  otherwise each open stream gains exactly the difference and stays in range, every other slot keeps its
  window, and the connection is woken when a stream that could not send now can.
\<close>

theorem initial_window_change_atomic:
  assumes "slots_ok windows c" and "update_initial_window_size v windows c = (failed, windows', c')"
    and "delta = uint v - uint (settings_initial_window_size (cn_peer_settings c))"
  shows "(failed \<longleftrightarrow> FLOW_CONTROL_MAX_WINDOW < v \<or>
        list_ex (\<lambda>e. \<not> is_i32 (windows ! snd e + delta)) (streams (cn_stream_table c))) \<and>
    (if failed then windows' = windows \<and> c' = c
     else settings_initial_window_size (cn_peer_settings c') = v \<and>
       windows' = map (\<lambda>i. if i \<in> snd ` set (streams (cn_stream_table c)) then windows ! i + delta else windows ! i)
         [0..<length windows] \<and>
       slots_ok windows' c' \<and>
       (list_ex (\<lambda>e. windows ! snd e \<le> 0 \<and> 0 < windows' ! snd e) (streams (cn_stream_table c)) \<longrightarrow>
          is_writable (filter_interest (cn_readiness c'))))"
proof (cases "FLOW_CONTROL_MAX_WINDOW < v \<or>
    list_ex (\<lambda>e. \<not> is_i32 (windows ! snd e + delta)) (streams (cn_stream_table c))")
  case True
  then show ?thesis using assms(2,3)
    by (auto simp: update_initial_window_size_def i32_try_from_def i32_checked_add_def list_ex_iff Let_def split: if_splits option.splits)
next
  case False
  let ?gids = "map snd (streams (cn_stream_table c))"
  let ?ws = "map (\<lambda>i. if i \<in> set ?gids then windows ! i + delta else windows ! i) [0..<length windows]"
  have small: "v \<le> FLOW_CONTROL_MAX_WINDOW" "settings_initial_window_size (cn_peer_settings c) \<le> FLOW_CONTROL_MAX_WINDOW"
    and slots: "distinct ?gids" "list_all (\<lambda>g. g < length windows) ?gids"
    using False assms(1) by (auto simp: slots_ok_def list_all_iff)
  have "uint v \<le> 2147483647" "uint (settings_initial_window_size (cn_peer_settings c)) \<le> 2147483647"
    using small by (simp_all add: FLOW_CONTROL_MAX_WINDOW_def word_le_def)
  then have "is_i32 delta" unfolding assms(3) by (intro is_i32_diff uint_ge_0)
  moreover have "\<not> list_ex (\<lambda>gid. i32_checked_add (windows ! gid) delta = None) ?gids"
    using False by (auto simp: i32_checked_add_def list_ex_iff)
  ultimately have r: "failed = False" "windows' = ?ws"
    "c' = (let c = (if list_ex (\<lambda>g. windows ! g \<le> 0 \<and> 0 < windows ! g + delta) ?gids then conn_arm_writable c else c)
           in c\<lparr>cn_peer_settings := (cn_peer_settings c)\<lparr>settings_initial_window_size := v\<rparr>\<rparr>)"
    using assms(2) small(1) unfolding update_initial_window_size_def assms(3) [symmetric] i32_try_from_def Let_def
      shift_windows_exact [OF slots, of delta False]
    by (simp_all add: shift_windows_exact [OF slots, of delta False] not_less [symmetric])
  have table: "cn_stream_table c' = cn_stream_table c" "settings_initial_window_size (cn_peer_settings c') = v"
    by (simp_all add: r(3) Let_def conn_arm_writable_def)
  have moved: "windows' ! snd e = windows ! snd e + delta" if "e \<in> set (streams (cn_stream_table c))" for e
    using that slots(2) by (auto simp: r(2) list_all_iff)
  have "slots_ok windows' c'" using assms(1) False moved small(1)
    by (auto simp: slots_ok_def table list_all_iff list_ex_iff r(2))
  moreover have "list_ex (\<lambda>e. windows ! snd e \<le> 0 \<and> 0 < windows' ! snd e) (streams (cn_stream_table c)) \<Longrightarrow>
      is_writable (filter_interest (cn_readiness c'))"
    using moved by (auto simp: list_ex_iff r(3) Let_def conn_arm_writable_def arm_writable_def signal_pending_write_def
        filter_interest_def contains_bit ready_insert_def ready_consts bit_simps)
  ultimately show ?thesis using False r(1,2) table(2) by simp
qed

definition slots_example :: "nat ConnectionH2" where
  "slots_example = (let c = connection_new PosServer 0 1000 flood_config_default connection_config_default None None 0
     in c\<lparr>cn_stream_table := (cn_stream_table c)\<lparr>streams := [(1, 0), (3, 2)]\<rparr>\<rparr>)"

theorem initial_window_change_atomic_witness:
  "fst (update_initial_window_size 65635 [0, 7, 500] slots_example) = False \<and>
   fst (snd (update_initial_window_size 65635 [0, 7, 500] slots_example)) = [100, 7, 600]"
proof -
  obtain failed windows' c' where u: "update_initial_window_size 65635 [0, 7, 500] slots_example = (failed, windows', c')"
    by (metis prod_cases3)
  have ok: "slots_ok [0, 7, 500] slots_example" and s: "streams (cn_stream_table slots_example) = [(1, 0), (3, 2)]"
    and d: "(100 :: int) = uint (65635 :: u32) - uint (settings_initial_window_size (cn_peer_settings slots_example))"
    by (simp_all add: slots_ok_def slots_example_def connection_new_def settings_default_def Let_def is_i32_def i32_MIN_def
        i32_MAX_def FLOW_CONTROL_MAX_WINDOW_def DEFAULT_INITIAL_WINDOW_SIZE_def)
  have "\<not> FLOW_CONTROL_MAX_WINDOW < 65635" by (simp add: FLOW_CONTROL_MAX_WINDOW_def)
  then show ?thesis using initial_window_change_atomic [OF ok u d] u
    by (simp add: s is_i32_def i32_MIN_def i32_MAX_def upt_rec)
qed

subsection \<open>The header encoder and the peer's decoder\<close>

lemma goaway_keeps_encoder: "goaway C error c = (r, c') \<Longrightarrow> cn_encoder c' = cn_encoder c"
  by (auto simp: goaway_def goaway_with_last_stream_id_def force_disconnect_def Let_def split: prod.splits sum.splits Position.splits)

definition table_cap :: "'sl ConnectionH2 \<Rightarrow> nat" where
  "table_cap c = max_header_table_size (flood_config (cn_flood_detector c))"

text \<open>
  The encoder of the connection and the decoder of its peer are in step, up to a table size update the
  next block announces, and the decoder allows what that update will say.
\<close>

definition peer_linked :: "Decoder \<Rightarrow> 'sl ConnectionH2 \<Rightarrow> bool" where
  "peer_linked d c \<longleftrightarrow> linked (cn_encoder c) d \<and>
     (case pending_size_update (cn_encoder c) of None \<Rightarrow> True | Some p \<Rightarrow> p_last p \<le> d_max_allowed_size d)"

definition allows :: "Decoder \<Rightarrow> Setting \<Rightarrow> bool" where
  "allows d setting \<longleftrightarrow> set_identifier setting = SETTINGS_HEADER_TABLE_SIZE \<longrightarrow> unat (set_value setting) \<le> d_max_allowed_size d"

lemma peer_linked_encoder: "cn_encoder c' = cn_encoder c \<Longrightarrow> peer_linked d c' = peer_linked d c"
  by (simp add: peer_linked_def)

lemma peer_linked_resize:
  assumes "peer_linked d c" and "announceable m" and "m \<le> d_max_allowed_size d"
    and "cn_encoder c' = change_max_table_size (cn_encoder c) m"
  shows "peer_linked d c'"
  using assms linked_change [of "cn_encoder c" d m]
  by (simp add: peer_linked_def change_max_table_size_def Let_def)

lemma peer_linked_setting:
  assumes "peer_linked d c" and "announceable (table_cap c)" and "allows d setting"
    and "apply_setting C setting windows c = (r, windows', c')"
  shows "peer_linked d c' \<and> (isl r \<or> table_cap c' = table_cap c)"
proof (cases "set_identifier setting = SETTINGS_HEADER_TABLE_SIZE")
  case True
  let ?m = "min (set_value setting) (of_nat (table_cap c))"
  have cap: "unat ?m \<le> table_cap c" "unat ?m \<le> unat (set_value setting)"
    by (auto simp: min_def word_le_nat_alt unat_of_nat intro: order_trans [OF mod_less_eq_dividend])
  have e: "cn_encoder c' = change_max_table_size (cn_encoder c) (unat ?m)" "table_cap c' = table_cap c"
    using assms(4) True by (auto simp: apply_setting_def set_peer_settings_def table_cap_def Let_def)
  show ?thesis using peer_linked_resize [OF assms(1) _ _ e(1)] cap assms(2,3) True e(2)
    by (simp add: allows_def announceable_def)
next
  case False
  have upd: "update_initial_window_size v windows c = (f, w, c1) \<Longrightarrow> cn_encoder c1 = cn_encoder c \<and> table_cap c1 = table_cap c" for v f w c1
    by (auto simp: update_initial_window_size_def table_cap_def conn_arm_writable_def Let_def split: if_splits option.splits prod.splits)
  have "cn_encoder c' = cn_encoder c \<and> (isl r \<or> table_cap c' = table_cap c)"
    using assms(4) False
    by (auto simp: apply_setting_def set_peer_settings_def table_cap_def record_glitch_def Let_def
        dest!: upd goaway_keeps_encoder split: if_splits prod.splits)
  then show ?thesis using assms(1) peer_linked_encoder by blast
qed

lemma peer_linked_settings:
  assumes "peer_linked d c" and "announceable (table_cap c)" and "list_all (allows d) settings"
    and "apply_settings C settings windows c = (r, windows', c')"
  shows "peer_linked d c'"
  using assms
proof (induction settings arbitrary: windows c)
  case (Cons setting settings)
  obtain res windows1 c1 where s: "apply_setting C setting windows c = (res, windows1, c1)" by (metis prod_cases3)
  have c1: "peer_linked d c1" "isl res \<or> table_cap c1 = table_cap c"
    using peer_linked_setting [OF Cons.prems(1,2) _ s] Cons.prems(3) by simp_all
  show ?case
  proof (cases "res = Inr False")
    case True
    then show ?thesis using Cons.IH [OF c1(1), of windows1] Cons.prems c1(2) s by simp
  next
    case False
    then have "cn_encoder c' = cn_encoder c1" using Cons.prems(4) s
      by (cases res) (auto dest: goaway_keeps_encoder split: prod.splits bool.splits)
    then show ?thesis using c1(1) peer_linked_encoder by blast
  qed
qed simp

lemma check_flood_keeps_encoder:
  assumes "check_flood_or_return C c = (r, c')"
  shows "cn_encoder c' = cn_encoder c \<and> (r = None \<longrightarrow> table_cap c' = table_cap c)"
proof -
  obtain v fd where f: "check_flood (cn_now c) (cn_flood_detector c) = (v, fd)" by (metis surj_pair)
  have "fd = maybe_reset_window (cn_now c) (cn_flood_detector c)" using snd_check_flood [of "cn_now c" "cn_flood_detector c"] f by simp
  then have "flood_config fd = flood_config (cn_flood_detector c)" by (simp add: maybe_reset_window_def Let_def)
  then show ?thesis using assms f
    by (auto simp: check_flood_or_return_def handle_flood_violation_def table_cap_def Let_def
        dest: goaway_keeps_encoder split: option.splits prod.splits)
qed

lemma peer_linked_settings_frame:
  assumes "peer_linked d c" and "announceable (table_cap c)" and "list_all (allows d) settings"
    and "handle_settings_frame C settings ack windows c = (r, windows', c')"
  shows "peer_linked d c'"
proof (cases ack)
  case True
  then have "cn_encoder c' = cn_encoder c" using assms(4)
    by (auto simp: handle_settings_frame_def attribute_bytes_to_overhead_def dest: goaway_keeps_encoder split: if_splits prod.splits)
  then show ?thesis using assms(1) peer_linked_encoder by blast
next
  case False
  let ?c = "c\<lparr>cn_flood_detector := record_settings_frame (cn_flood_detector c)\<rparr>"
  obtain v c1 where v: "check_flood_or_return C ?c = (v, c1)" by (metis surj_pair)
  have "table_cap ?c = table_cap c" by (simp add: table_cap_def record_settings_frame_def)
  then have c1: "peer_linked d c1" "v = None \<Longrightarrow> table_cap c1 = table_cap c"
    using check_flood_keeps_encoder [OF v] assms(1) by (simp_all add: peer_linked_def)
  obtain r2 w2 c2 where l: "apply_settings C settings windows c1 = (r2, w2, c2)" by (metis prod_cases3)
  have c2: "v = None \<Longrightarrow> peer_linked d c2" using peer_linked_settings [OF c1(1) _ assms(3) l] c1(2) assms(2) by simp
  have "cn_encoder c' = cn_encoder (if v = None then c2 else c1)" using assms(4) False v l
    by (cases v; cases r2) (auto simp: handle_settings_frame_def Let_def attribute_bytes_to_overhead_def queue_output_def
        conn_queue_window_update_def conn_arm_writable_def conn_signal_pending_write_def interest_insert_def split: if_splits prod.splits)
  then show ?thesis using c1(1) c2 peer_linked_encoder by (cases v) auto
qed



end
