(* ===== verification/Router_Trie.thy ===== *)
theory Router_Trie
  imports Sozu_Std "HOL-Library.AList"
begin

text \<open>
  The trie of hostname patterns behind the HTTP router and the SNI resolvers, from
  \<^verbatim>\<open>src/lib/src/router/pattern_trie.rs\<close>. A node holds its own value, the value of a leftmost
  \<open>*\<close>, its literal children, a \<open>HashMap\<close> modelled by an association list without duplicate keys, and
  its regular-expression segments in declaration order. The \<open>regex\<close> crate is a parameter; a sink for
  the matched segments is the record of the three methods of the trait \<open>SubMatchSink\<close>.
\<close>

subsection \<open>UTF-8\<close>

text \<open>What \<open>str::from_utf8\<close> accepts: the well-formed sequences of the Unicode standard.\<close>

definition utf8_tail :: "octet \<Rightarrow> bool" where
  "utf8_tail b \<longleftrightarrow> 0x80 \<le> b \<and> b \<le> 0xBF"

fun from_utf8 :: "bytes \<Rightarrow> bool" where
  "from_utf8 [] \<longleftrightarrow> True"
| "from_utf8 (a # xs) \<longleftrightarrow>
     (if a \<le> 0x7F then from_utf8 xs
      else (case xs of
        [] \<Rightarrow> False
      | b # ys \<Rightarrow>
          if 0xC2 \<le> a \<and> a \<le> 0xDF then utf8_tail b \<and> from_utf8 ys
          else (case ys of
            [] \<Rightarrow> False
          | c # zs \<Rightarrow>
              if 0xE0 \<le> a \<and> a \<le> 0xEF
              then utf8_tail b \<and> utf8_tail c \<and> (a = 0xE0 \<longrightarrow> 0xA0 \<le> b) \<and> (a = 0xED \<longrightarrow> b \<le> 0x9F) \<and> from_utf8 zs
              else (case zs of
                [] \<Rightarrow> False
              | d # ws \<Rightarrow>
                  0xF0 \<le> a \<and> a \<le> 0xF4 \<and> utf8_tail b \<and> utf8_tail c \<and> utf8_tail d \<and>
                  (a = 0xF0 \<longrightarrow> 0x90 \<le> b) \<and> (a = 0xF4 \<longrightarrow> b \<le> 0x8F) \<and> from_utf8 ws))))"

subsection \<open>Data\<close>

datatype InsertResult = InsertOk | Existing | InsertFailed

datatype RemoveResult = RemoveOk | NotFound

type_synonym 'v KeyValue = "bytes \<times> 'v"

datatype ('r, 'v) TrieNode = TrieNode
  (key_value: "'v KeyValue option")
  (wildcard: "'v KeyValue option")
  (children: "(bytes \<times> ('r, 'v) TrieNode) list")
  (regexps: "('r \<times> ('r, 'v) TrieNode) list")

text \<open>\<open>Regex::new\<close> as a validity test, the case-insensitive builder, \<open>as_str\<close> and \<open>is_match\<close>.\<close>

record 'r RegexCrate =
  rx_valid :: "bytes \<Rightarrow> bool"
  rx_build :: "bytes \<Rightarrow> 'r option"
  rx_as_str :: "'r \<Rightarrow> bytes"
  rx_is_match :: "'r \<Rightarrow> bytes \<Rightarrow> bool"

abbreviation DOT :: octet where "DOT \<equiv> 0x2E"
abbreviation SLASH :: octet where "SLASH \<equiv> 0x2F"
abbreviation STAR :: octet where "STAR \<equiv> 0x2A"

definition find_last_dot :: "bytes \<Rightarrow> nat option" where
  "find_last_dot input = List.find (\<lambda>i. input ! i = DOT) (rev [0..<length input])"

definition find_last_slash :: "bytes \<Rightarrow> nat option" where
  "find_last_slash input = List.find (\<lambda>i. input ! i = SLASH) (rev [0..<length input])"

text \<open>The pattern \<open>\A(?:segment)\z\<close>.\<close>

definition anchored_segment :: "'r RegexCrate \<Rightarrow> bytes \<Rightarrow> bytes option" where
  "anchored_segment R segment =
     (if rx_valid R segment then Some ([0x5C, 0x41, 0x28, 0x3F, 0x3A] @ segment @ [0x29, 0x5C, 0x7A]) else None)"

definition compiled_segment :: "'r RegexCrate \<Rightarrow> bytes \<Rightarrow> 'r option" where
  "compiled_segment R segment = (case anchored_segment R segment of None \<Rightarrow> None | Some anchored \<Rightarrow> rx_build R anchored)"

definition trie_new :: "bytes \<Rightarrow> 'v \<Rightarrow> ('r, 'v) TrieNode" where
  "trie_new key v = TrieNode (Some (key, v)) None [] []"

definition trie_wildcard :: "bytes \<Rightarrow> 'v \<Rightarrow> ('r, 'v) TrieNode" where
  "trie_wildcard key v = TrieNode None (Some (key, v)) [] []"

definition trie_root :: "('r, 'v) TrieNode" where
  "trie_root = TrieNode None None [] []"

definition trie_is_empty :: "('r, 'v) TrieNode \<Rightarrow> bool" where
  "trie_is_empty t \<longleftrightarrow> key_value t = None \<and> wildcard t = None \<and> regexps t = [] \<and> children t = []"

text \<open>Assignments to one field of a node.\<close>

definition with_key_value :: "'v KeyValue option \<Rightarrow> ('r, 'v) TrieNode \<Rightarrow> ('r, 'v) TrieNode" where
  "with_key_value x t = TrieNode x (wildcard t) (children t) (regexps t)"

definition with_wildcard :: "'v KeyValue option \<Rightarrow> ('r, 'v) TrieNode \<Rightarrow> ('r, 'v) TrieNode" where
  "with_wildcard x t = TrieNode (key_value t) x (children t) (regexps t)"

definition with_children :: "(bytes \<times> ('r, 'v) TrieNode) list \<Rightarrow> ('r, 'v) TrieNode \<Rightarrow> ('r, 'v) TrieNode" where
  "with_children x t = TrieNode (key_value t) (wildcard t) x (regexps t)"

definition with_regexps :: "('r \<times> ('r, 'v) TrieNode) list \<Rightarrow> ('r, 'v) TrieNode \<Rightarrow> ('r, 'v) TrieNode" where
  "with_regexps x t = TrieNode (key_value t) (wildcard t) (children t) x"

lemmas trie_with = with_key_value_def with_wildcard_def with_children_def with_regexps_def

text \<open>\<open>iter().position(..)\<close>: the index of the entry of a stored pattern.\<close>

definition regexp_position :: "'r RegexCrate \<Rightarrow> bytes \<Rightarrow> ('r \<times> 'a) list \<Rightarrow> nat option" where
  "regexp_position R anchored rs = List.find (\<lambda>i. rx_as_str R (fst (rs ! i)) = anchored) [0..<length rs]"

text \<open>
  The rightmost segment of a key that ends in a slash: its position, when it is at the start or
  follows a dot, and its text, when that is UTF-8.
\<close>

definition regex_segment :: "bytes \<Rightarrow> (nat \<times> bytes) option" where
  "regex_segment partial_key =
     (case find_last_slash (butlast partial_key) of
        None \<Rightarrow> None
      | Some pos \<Rightarrow>
          if 0 < pos \<and> partial_key ! (pos - 1) \<noteq> DOT then None
          else let s = drop (pos + 1) (butlast partial_key) in
            if from_utf8 s then Some (pos, s) else None)"

lemma find_lastD:
  assumes "List.find (\<lambda>i. xs ! i = c) (rev [0..<length xs]) = Some p"
  shows "p < length xs" "xs ! p = c" "\<And>i. p < i \<Longrightarrow> i < length xs \<Longrightarrow> xs ! i \<noteq> c"
proof -
  obtain j where j: "j < length xs" "rev [0..<length xs] ! j = p" "xs ! p = c"
    "\<forall>k<j. xs ! (rev [0..<length xs] ! k) \<noteq> c"
    using assms by (auto simp: find_Some_iff)
  then have p: "p = length xs - Suc j" by (simp add: rev_nth)
  show "p < length xs" "xs ! p = c" using j p by auto
  show "xs ! i \<noteq> c" if "p < i" "i < length xs" for i
  proof -
    have "length xs - Suc i < j" using that p by linarith
    with j(4) have "xs ! (rev [0..<length xs] ! (length xs - Suc i)) \<noteq> c" by blast
    with that show ?thesis by (simp add: rev_nth)
  qed
qed

lemma find_last_None: "List.find (\<lambda>i. xs ! i = c) (rev [0..<length xs]) = None \<longleftrightarrow> c \<notin> set xs"
  by (auto simp: find_None_iff in_set_conv_nth)

lemma find_last_dot_less: "find_last_dot xs = Some p \<Longrightarrow> p < length xs"
  unfolding find_last_dot_def by (rule find_lastD)

lemma find_last_slash_less: "find_last_slash xs = Some p \<Longrightarrow> p < length xs"
  unfolding find_last_slash_def by (rule find_lastD)

lemma regex_segment_less: "regex_segment xs = Some (p, s) \<Longrightarrow> p < length xs"
  using find_last_slash_less [of "butlast xs"]
  by (fastforce simp: regex_segment_def Let_def split: option.splits if_splits)

subsection \<open>Insertion\<close>

definition insert_own_value :: "('r, 'v) TrieNode \<Rightarrow> bytes \<Rightarrow> 'v \<Rightarrow> InsertResult \<times> ('r, 'v) TrieNode" where
  "insert_own_value t key v =
     (if key_value t = None then (InsertOk, with_key_value (Some (key, v)) t) else (Existing, t))"

function insert_recursive ::
  "'r RegexCrate \<Rightarrow> ('r, 'v) TrieNode \<Rightarrow> bytes \<Rightarrow> bytes \<Rightarrow> 'v \<Rightarrow> InsertResult \<times> ('r, 'v) TrieNode" where
  "insert_recursive R t partial_key key v =
     (if partial_key = [] then (InsertFailed, t)
      else if last partial_key = SLASH then
        (case regex_segment partial_key of
           None \<Rightarrow> (InsertFailed, t)
         | Some (pos, s) \<Rightarrow>
             (case anchored_segment R s of
                None \<Rightarrow> (InsertFailed, t)
              | Some anchored \<Rightarrow>
                  (case regexp_position R anchored (regexps t) of
                     Some i \<Rightarrow>
                       let (r, child) = regexps t ! i;
                           (res, child) =
                             (if 0 < pos then insert_recursive R child (take (pos - 1) partial_key) key v
                              else insert_own_value child key v)
                       in (res, with_regexps ((regexps t)[i := (r, child)]) t)
                   | None \<Rightarrow>
                       (case compiled_segment R s of
                          None \<Rightarrow> (InsertFailed, t)
                        | Some r \<Rightarrow>
                            if 0 < pos then
                              let (res, node) = insert_recursive R trie_root (take (pos - 1) partial_key) key v
                              in (res, if res = InsertOk then with_regexps (regexps t @ [(r, node)]) t else t)
                            else (InsertOk, with_regexps (regexps t @ [(r, trie_new key v)]) t)))))
      else
        (case find_last_dot partial_key of
           None \<Rightarrow>
             if map_of (children t) partial_key \<noteq> None then (Existing, t)
             else if partial_key = [STAR] then
               (if wildcard t \<noteq> None then (Existing, t) else (InsertOk, with_wildcard (Some (key, v)) t))
             else (InsertOk, with_children (AList.update partial_key (trie_new key v) (children t)) t)
         | Some pos \<Rightarrow>
             (case map_of (children t) (drop pos partial_key) of
                Some child \<Rightarrow>
                  let (res, child) = insert_recursive R child (take pos partial_key) key v
                  in (res, with_children (AList.update (drop pos partial_key) child (children t)) t)
              | None \<Rightarrow>
                  let (res, node) = insert_recursive R trie_root (take pos partial_key) key v
                  in (res, if res = InsertOk
                           then with_children (AList.update (drop pos partial_key) node (children t)) t else t))))"
  by pat_completeness auto

termination
proof (relation "measure (\<lambda>(R, t, partial_key, key, v). length partial_key)")
qed (auto dest: find_last_dot_less regex_segment_less)

declare insert_recursive.simps [simp del]

definition trie_insert ::
  "'r RegexCrate \<Rightarrow> ('r, 'v) TrieNode \<Rightarrow> bytes \<Rightarrow> 'v \<Rightarrow> InsertResult \<times> ('r, 'v) TrieNode" where
  "trie_insert R t key v =
     (if key = [] then (InsertFailed, t)
      else if key = [DOT] then (InsertFailed, t)
      else insert_recursive R t key key v)"

subsection \<open>Removal\<close>

function remove_recursive :: "'r RegexCrate \<Rightarrow> ('r, 'v) TrieNode \<Rightarrow> bytes \<Rightarrow> RemoveResult \<times> ('r, 'v) TrieNode" where
  "remove_recursive R t partial_key =
     (if partial_key = [] then
        (if key_value t \<noteq> None then (RemoveOk, with_key_value None t) else (NotFound, t))
      else if partial_key = [STAR] then
        (if wildcard t \<noteq> None then (RemoveOk, with_wildcard None t) else (NotFound, t))
      else if last partial_key = SLASH then
        (case regex_segment partial_key of
           None \<Rightarrow> (NotFound, t)
         | Some (pos, s) \<Rightarrow>
             (case anchored_segment R s of
                None \<Rightarrow> (NotFound, t)
              | Some anchored \<Rightarrow>
                  let rest = (if 0 < pos then take (pos - 1) partial_key else []) in
                  (case regexp_position R anchored (regexps t) of
                     None \<Rightarrow> (NotFound, t)
                   | Some i \<Rightarrow>
                       let (r, child) = regexps t ! i; (res, child) = remove_recursive R child rest in
                       if res = RemoveOk then
                         (RemoveOk, with_regexps
                            (if trie_is_empty child then take i (regexps t) @ drop (i + 1) (regexps t)
                             else (regexps t)[i := (r, child)]) t)
                       else (NotFound, with_regexps ((regexps t)[i := (r, child)]) t))))
      else
        let (prefix, suffix) =
          (case find_last_dot partial_key of
             None \<Rightarrow> ([], partial_key) | Some pos \<Rightarrow> (take pos partial_key, drop pos partial_key))
        in
        (case map_of (children t) suffix of
           None \<Rightarrow> (NotFound, t)
         | Some child \<Rightarrow>
             let (res, child) = remove_recursive R child prefix in
             if res = RemoveOk then
               (RemoveOk, with_children
                  (if trie_is_empty child then AList.delete suffix (children t)
                   else AList.update suffix child (children t)) t)
             else (NotFound, with_children (AList.update suffix child (children t)) t)))"
  by pat_completeness auto

termination
proof (relation "measure (\<lambda>(R, t, partial_key). length partial_key)")
qed (auto dest: find_last_dot_less regex_segment_less split: if_splits option.splits)

declare remove_recursive.simps [simp del]

definition trie_remove :: "'r RegexCrate \<Rightarrow> ('r, 'v) TrieNode \<Rightarrow> bytes \<Rightarrow> RemoveResult \<times> ('r, 'v) TrieNode" where
  "trie_remove R t key = remove_recursive R t key"

subsection \<open>Access by key\<close>

text \<open>
  \<open>lookup_mut\<close> hands out a mutable reference. The caller's use of it is the function \<open>f\<close> on the
  entry: the result is the entry found and the trie with \<open>f\<close> applied to it.
\<close>

fun regexp_matching :: "'r RegexCrate \<Rightarrow> bytes \<Rightarrow> ('r \<times> 'a) list \<Rightarrow> nat \<Rightarrow> nat option" where
  "regexp_matching R segment [] i = None"
| "regexp_matching R segment ((r, child) # rs) i =
     (if rx_is_match R r segment then Some i else regexp_matching R segment rs (i + 1))"

function lookup_mut ::
  "'r RegexCrate \<Rightarrow> ('v KeyValue \<Rightarrow> 'v KeyValue) \<Rightarrow> ('r, 'v) TrieNode \<Rightarrow> bytes \<Rightarrow> bool \<Rightarrow>
     'v KeyValue option \<times> ('r, 'v) TrieNode" where
  "lookup_mut R f t partial_key accept_wildcard =
     (if partial_key = [] then (key_value t, with_key_value (map_option f (key_value t)) t)
      else if partial_key = [STAR] then (wildcard t, with_wildcard (map_option f (wildcard t)) t)
      else if last partial_key = SLASH then
        (case regex_segment partial_key of
           None \<Rightarrow> (None, t)
         | Some (pos, s) \<Rightarrow>
             (case anchored_segment R s of
                None \<Rightarrow> (None, t)
              | Some anchored \<Rightarrow>
                  (case regexp_position R anchored (regexps t) of
                     None \<Rightarrow> (None, t)
                   | Some i \<Rightarrow>
                       let rest = (if 0 < pos then take (pos - 1) partial_key else []);
                           (r, child) = regexps t ! i;
                           (found, child) = lookup_mut R f child rest accept_wildcard
                       in (found, with_regexps ((regexps t)[i := (r, child)]) t))))
      else
        let (prefix, suffix) =
          (case find_last_dot partial_key of
             None \<Rightarrow> ([], partial_key) | Some pos \<Rightarrow> (take pos partial_key, drop pos partial_key))
        in
        (case map_of (children t) suffix of
           Some child \<Rightarrow>
             let (found, child) = lookup_mut R f child prefix accept_wildcard
             in (found, with_children (AList.update suffix child (children t)) t)
         | None \<Rightarrow>
             if prefix = [] \<and> wildcard t \<noteq> None \<and> accept_wildcard
             then (wildcard t, with_wildcard (map_option f (wildcard t)) t)
             else if \<not> accept_wildcard then (None, t)
             else
               let segment = (if hd suffix = DOT then tl suffix else suffix) in
               (case regexp_matching R segment (regexps t) 0 of
                  None \<Rightarrow> (None, t)
                | Some i \<Rightarrow>
                    let (r, child) = regexps t ! i;
                        (found, child) = lookup_mut R f child prefix accept_wildcard
                    in (found, with_regexps ((regexps t)[i := (r, child)]) t))))"
  by pat_completeness auto

termination
proof (relation "measure (\<lambda>(R, f, t, partial_key, aw). length partial_key)")
qed (auto dest: find_last_dot_less regex_segment_less split: if_splits option.splits)

declare lookup_mut.simps [simp del]

subsection \<open>Lookup for a request\<close>

datatype 'r TrieSubMatch = Wildcard bytes | Regexp bytes 'r

record ('s, 'r) SubMatchSink =
  sink_mark :: "'s \<Rightarrow> nat"
  sink_rewind :: "nat \<Rightarrow> 's \<Rightarrow> 's"
  sink_push :: "'r TrieSubMatch \<Rightarrow> 's \<Rightarrow> 's"

definition NoTrace :: "(unit, 'r) SubMatchSink" where
  "NoTrace = \<lparr>sink_mark = (\<lambda>_. 0), sink_rewind = (\<lambda>_ s. s), sink_push = (\<lambda>_ s. s)\<rparr>"

definition TrieMatches :: "('r TrieSubMatch list, 'r) SubMatchSink" where
  "TrieMatches = \<lparr>sink_mark = length, sink_rewind = take, sink_push = (\<lambda>x s. s @ [x])\<rparr>"

definition INLINE_TRIE_MATCHES :: nat where "INLINE_TRIE_MATCHES = 16"

record 'r InlineTrieMatches =
  itm_inline :: "'r TrieSubMatch option list"
  itm_spilled :: "'r TrieSubMatch list"
  itm_len :: nat

definition inline_new :: "'r InlineTrieMatches" where
  "inline_new = \<lparr>itm_inline = replicate INLINE_TRIE_MATCHES None, itm_spilled = [], itm_len = 0\<rparr>"

definition inline_iter :: "'r InlineTrieMatches \<Rightarrow> 'r TrieSubMatch list" where
  "inline_iter s = List.map_filter id (take (min (itm_len s) INLINE_TRIE_MATCHES) (itm_inline s)) @ itm_spilled s"

definition inline_sink :: "('r InlineTrieMatches, 'r) SubMatchSink" where
  "inline_sink = \<lparr>
     sink_mark = itm_len,
     sink_rewind = (\<lambda>mark s. s\<lparr>itm_spilled := take (mark - INLINE_TRIE_MATCHES) (itm_spilled s), itm_len := mark\<rparr>),
     sink_push = (\<lambda>x s.
       let s = (if itm_len s < length (itm_inline s) then s\<lparr>itm_inline := (itm_inline s)[itm_len s := Some x]\<rparr>
                else s\<lparr>itm_spilled := itm_spilled s @ [x]\<rparr>)
       in s\<lparr>itm_len := itm_len s + 1\<rparr>)\<rparr>"

text \<open>
  The backtracking walk. The predicate \<open>accept\<close> is an \<open>FnMut\<close>, so its state \<open>st\<close> is threaded through
  the candidates it is asked about; \<open>lookup_regexps\<close> is the loop over the regular expressions.
\<close>

function lookup_recursive and lookup_regexps where
  "lookup_recursive R S (t :: ('r, 'v) TrieNode) partial_key accept_wildcard
       (accept :: 'v KeyValue \<Rightarrow> 'a \<Rightarrow> bool \<times> 'a) (trace :: 's) (st :: 'a) =
     (if partial_key = [] then
        (case key_value t of
           None \<Rightarrow> (None, trace, st)
         | Some kv \<Rightarrow> (case accept kv st of (ok, st) \<Rightarrow> (if ok then Some kv else None, trace, st)))
      else
        let (prefix, suffix) =
              (case find_last_dot partial_key of
                 None \<Rightarrow> ([], partial_key) | Some pos \<Rightarrow> (take pos partial_key, drop pos partial_key));
            (found, trace, st) =
              (case map_of (children t) suffix of
                 None \<Rightarrow> (None, trace, st)
               | Some child \<Rightarrow>
                   (case lookup_recursive R S child prefix accept_wildcard accept trace st of
                      (Some kv, trace', st) \<Rightarrow> (Some kv, trace', st)
                    | (None, trace', st) \<Rightarrow> (None, sink_rewind S (sink_mark S trace) trace', st)))
        in
        (case found of
           Some kv \<Rightarrow> (Some kv, trace, st)
         | None \<Rightarrow>
             let segment = (if hd suffix = DOT then tl suffix else suffix) in
             (case lookup_regexps R S (regexps t) segment prefix accept_wildcard accept trace st of
                (Some kv, trace, st) \<Rightarrow> (Some kv, trace, st)
              | (None, trace, st) \<Rightarrow>
                  (if prefix = [] \<and> accept_wildcard then
                     (case wildcard t of
                        None \<Rightarrow> (None, trace, st)
                      | Some kv \<Rightarrow>
                          (case accept kv st of
                             (ok, st) \<Rightarrow>
                               if ok then (Some kv, sink_push S (Wildcard segment) trace, st) else (None, trace, st)))
                   else (None, trace, st)))))"
| "lookup_regexps R S [] segment prefix accept_wildcard accept trace st = (None, trace, st)"
| "lookup_regexps R S ((regexp, child) # rs) segment prefix accept_wildcard accept trace st =
     (if rx_is_match R regexp segment then
        (case lookup_recursive R S child prefix accept_wildcard accept (sink_push S (Regexp segment regexp) trace) st of
           (Some kv, trace', st) \<Rightarrow> (Some kv, trace', st)
         | (None, trace', st) \<Rightarrow>
             lookup_regexps R S rs segment prefix accept_wildcard accept (sink_rewind S (sink_mark S trace) trace') st)
      else lookup_regexps R S rs segment prefix accept_wildcard accept trace st)"
  by pat_completeness auto

termination
proof (relation "inv_image (less_than <*lex*> less_than)
    (case_sum (\<lambda>(R, S, t, partial_key, _). (length partial_key, 0))
      (\<lambda>(R, S, rs, segment, prefix, _). (length prefix, Suc (length rs))))")
qed (auto dest: find_last_dot_less split: option.splits)

declare lookup_recursive.simps [simp del]

definition lookup_with_path ::
  "'r RegexCrate \<Rightarrow> ('r, 'v) TrieNode \<Rightarrow> bytes \<Rightarrow> bool \<Rightarrow> 'r TrieSubMatch list \<Rightarrow>
     ('v KeyValue \<Rightarrow> 'a \<Rightarrow> bool \<times> 'a) \<Rightarrow> 'a \<Rightarrow> ('v KeyValue \<times> 'r TrieSubMatch list) option \<times> 'a" where
  "lookup_with_path R t partial_key accept_wildcard trace accept st =
     (case lookup_recursive R TrieMatches t partial_key accept_wildcard accept trace st of
        (found, trace, st) \<Rightarrow> (map_option (\<lambda>kv. (kv, trace)) found, st))"

definition lookup_with_inline_path ::
  "'r RegexCrate \<Rightarrow> ('r, 'v) TrieNode \<Rightarrow> bytes \<Rightarrow> bool \<Rightarrow> 'r InlineTrieMatches \<Rightarrow>
     ('v KeyValue \<Rightarrow> 'a \<Rightarrow> bool \<times> 'a) \<Rightarrow> 'a \<Rightarrow> 'v KeyValue option \<times> 'r InlineTrieMatches \<times> 'a" where
  "lookup_with_inline_path R t partial_key accept_wildcard trace accept st =
     lookup_recursive R inline_sink t partial_key accept_wildcard accept trace st"

definition trie_lookup :: "'r RegexCrate \<Rightarrow> ('r, 'v) TrieNode \<Rightarrow> bytes \<Rightarrow> bool \<Rightarrow> 'v KeyValue option" where
  "trie_lookup R t partial_key accept_wildcard =
     fst (lookup_recursive R NoTrace t partial_key accept_wildcard (\<lambda>_ st. (True, st)) () ())"

subsection \<open>Counting and invariants\<close>

fun for_each_value_mut :: "('v \<Rightarrow> 'v) \<Rightarrow> ('r, 'v) TrieNode \<Rightarrow> ('r, 'v) TrieNode" where
  "for_each_value_mut f (TrieNode kv w cs rs) =
     TrieNode (map_option (map_prod id f) kv) (map_option (map_prod id f) w)
       (map (\<lambda>(k, c). (k, for_each_value_mut f c)) cs)
       (map (\<lambda>(r, c). (r, for_each_value_mut f c)) rs)"

fun count_values :: "('r, 'v) TrieNode \<Rightarrow> nat" where
  "count_values (TrieNode kv w cs rs) =
     of_bool (kv \<noteq> None) + of_bool (w \<noteq> None) +
     sum_list (map (\<lambda>(_, c). count_values c) cs) + sum_list (map (\<lambda>(_, c). count_values c) rs)"

fun trie_check_invariants :: "'r RegexCrate \<Rightarrow> ('r, 'v) TrieNode \<Rightarrow> bool" where
  "trie_check_invariants R (TrieNode kv w cs rs) \<longleftrightarrow>
     distinct (map (\<lambda>e. rx_as_str R (fst e)) rs) \<and>
     list_all (\<lambda>(k, c). k \<noteq> [] \<and> \<not> trie_is_empty c \<and> 0 < count_values c \<and> trie_check_invariants R c) cs \<and>
     list_all (\<lambda>(_, c). \<not> trie_is_empty c \<and> 0 < count_values c \<and> trie_check_invariants R c) rs"

fun to_hashmap_recursive :: "('r, 'v) TrieNode \<Rightarrow> (bytes \<rightharpoonup> 'v) \<Rightarrow> (bytes \<rightharpoonup> 'v)" where
  "to_hashmap_recursive (TrieNode kv w cs rs) h =
     (let h = (case kv of None \<Rightarrow> h | Some (k, v) \<Rightarrow> h(k \<mapsto> v));
          h = (case w of None \<Rightarrow> h | Some (k, v) \<Rightarrow> h(k \<mapsto> v))
      in fold (\<lambda>(_, c) h. to_hashmap_recursive c h) cs h)"

definition to_hashmap :: "('r, 'v) TrieNode \<Rightarrow> bytes \<rightharpoonup> 'v" where
  "to_hashmap t = to_hashmap_recursive t Map.empty"

subsection \<open>Entry points\<close>

definition domain_insert :: "'r RegexCrate \<Rightarrow> ('r, 'v) TrieNode \<Rightarrow> bytes \<Rightarrow> 'v \<Rightarrow> InsertResult \<times> ('r, 'v) TrieNode" where
  "domain_insert R t key v = trie_insert R t key v"

definition domain_remove :: "'r RegexCrate \<Rightarrow> ('r, 'v) TrieNode \<Rightarrow> bytes \<Rightarrow> RemoveResult \<times> ('r, 'v) TrieNode" where
  "domain_remove R t key = trie_remove R t key"

definition domain_lookup :: "'r RegexCrate \<Rightarrow> ('r, 'v) TrieNode \<Rightarrow> bytes \<Rightarrow> bool \<Rightarrow> 'v KeyValue option" where
  "domain_lookup R t key accept_wildcard = trie_lookup R t key accept_wildcard"

definition domain_lookup_mut ::
  "'r RegexCrate \<Rightarrow> ('v KeyValue \<Rightarrow> 'v KeyValue) \<Rightarrow> ('r, 'v) TrieNode \<Rightarrow> bytes \<Rightarrow> bool \<Rightarrow> 'v KeyValue option \<times> ('r, 'v) TrieNode" where
  "domain_lookup_mut R f t key accept_wildcard = lookup_mut R f t key accept_wildcard"

end
