(* ===== verification/Router_Trie_Map.thy ===== *)
theory Router_Trie_Map
  imports Router_Trie
begin

text \<open>
  The trie as a finite map from hostname patterns to values: insertion, removal and access by key
  implement the operations of a map on the keys the trie accepts, and every operation keeps the
  structural invariants.
\<close>

subsection \<open>How a key is taken apart\<close>

datatype key_step = Own | Star | Rgx nat bytes bytes | Lit bytes bytes | Bad

definition key_step :: "bytes \<Rightarrow> key_step" where
  "key_step pk =
     (if pk = [] then Own
      else if pk = [STAR] then Star
      else if last pk = SLASH then
        (case regex_segment pk of
           None \<Rightarrow> Bad
         | Some (pos, s) \<Rightarrow> Rgx pos s (if 0 < pos then take (pos - 1) pk else []))
      else (case find_last_dot pk of
              None \<Rightarrow> Lit pk []
            | Some pos \<Rightarrow> Lit (drop pos pk) (take pos pk)))"

lemma regex_segmentD:
  assumes "regex_segment pk = Some (pos, s)" and "last pk = SLASH" and "pk \<noteq> []"
  shows "pk = take pos pk @ [SLASH] @ s @ [SLASH]" and "0 < pos \<Longrightarrow> take pos pk = take (pos - 1) pk @ [DOT]"
    and "pos < length pk" and "SLASH \<notin> set s"
proof -
  let ?b = "butlast pk"
  have f: "find_last_slash ?b = Some pos" "0 < pos \<longrightarrow> pk ! (pos - 1) = DOT" "s = drop (pos + 1) ?b"
    using assms(1) by (auto simp: regex_segment_def Let_def split: option.splits if_splits)
  note p = find_lastD [OF f(1) [unfolded find_last_slash_def]]
  have b: "pk = ?b @ [SLASH]" using assms(2,3) append_butlast_last_id by metis
  have "?b = take pos ?b @ ?b ! pos # drop (Suc pos) ?b" by (rule id_take_nth_drop [OF p(1)])
  moreover have "take pos pk = take pos ?b" using p(1) by (subst b) simp
  ultimately have "?b = take pos pk @ [SLASH] @ s" using p(2) f(3) by simp
  then show "pk = take pos pk @ [SLASH] @ s @ [SLASH]" using b by (metis append_assoc)
  show "pos < length pk" using p(1) by simp
  then show "take pos pk = take (pos - 1) pk @ [DOT]" if "0 < pos"
    using f(2) that take_Suc_conv_app_nth [of "pos - 1" pk] by simp
  show "SLASH \<notin> set s"
    using p(3) by (auto simp: f(3) in_set_conv_nth)
qed

lemma find_last_dotD:
  assumes "find_last_dot pk = Some pos"
  shows "hd (drop pos pk) = DOT" "DOT \<in> set (drop pos pk)" "drop pos pk \<noteq> []"
proof -
  note p = find_lastD [OF assms [unfolded find_last_dot_def]]
  have "drop pos pk = DOT # drop (Suc pos) pk" using p(1,2) Cons_nth_drop_Suc by metis
  then show "hd (drop pos pk) = DOT" "DOT \<in> set (drop pos pk)" "drop pos pk \<noteq> []" by simp_all
qed

lemma find_last_dot_None: "find_last_dot pk = None \<longleftrightarrow> DOT \<notin> set pk"
  unfolding find_last_dot_def by (rule find_last_None)

lemma key_step_less:
  "key_step pk = Rgx pos s rest \<Longrightarrow> length rest < length pk"
  "key_step pk = Lit suffix prefix \<Longrightarrow> length prefix < length pk"
  using find_last_dot_less [of pk] regex_segment_less [of pk]
  by (auto simp: key_step_def split: if_splits option.splits)

text \<open>The keys the trie stores: no empty label, and segments that compile.\<close>

function wf_key :: "'r RegexCrate \<Rightarrow> bytes \<Rightarrow> bool" where
  "wf_key R pk \<longleftrightarrow>
     (case key_step pk of
        Own \<Rightarrow> False
      | Star \<Rightarrow> True
      | Rgx pos s rest \<Rightarrow> compiled_segment R s \<noteq> None \<and> (0 < pos \<longrightarrow> wf_key R rest)
      | Lit suffix prefix \<Rightarrow> DOT \<in> set suffix \<longrightarrow> wf_key R prefix
      | Bad \<Rightarrow> False)"
  by pat_completeness auto

termination
  by (relation "measure (\<lambda>(R, pk). length pk)") (auto dest: key_step_less)

declare wf_key.simps [simp del]

definition rx_child :: "'r RegexCrate \<Rightarrow> bytes \<Rightarrow> ('r, 'v) TrieNode \<Rightarrow> ('r, 'v) TrieNode option" where
  "rx_child R s t =
     (case anchored_segment R s of
        None \<Rightarrow> None
      | Some a \<Rightarrow> map_option (\<lambda>i. snd (regexps t ! i)) (regexp_position R a (regexps t)))"

text \<open>The entry a key owns.\<close>

function slot :: "'r RegexCrate \<Rightarrow> ('r, 'v) TrieNode \<Rightarrow> bytes \<Rightarrow> 'v KeyValue option" where
  "slot R t pk =
     (case key_step pk of
        Own \<Rightarrow> key_value t
      | Star \<Rightarrow> wildcard t
      | Rgx pos s rest \<Rightarrow> (case rx_child R s t of None \<Rightarrow> None | Some c \<Rightarrow> slot R c rest)
      | Lit suffix prefix \<Rightarrow> (case map_of (children t) suffix of None \<Rightarrow> None | Some c \<Rightarrow> slot R c prefix)
      | Bad \<Rightarrow> None)"
  by pat_completeness auto

termination
  by (relation "measure (\<lambda>(R, t, pk). length pk)") (auto dest: key_step_less)

declare slot.simps [simp del]

text \<open>Two accepted keys that take the same step and agree on the rest are equal.\<close>

lemma key_step_Rgx:
  assumes "key_step pk = Rgx pos s rest"
  shows "last pk = SLASH" "pk \<noteq> []" "regex_segment pk = Some (pos, s)" "SLASH \<notin> set s"
    and "pk = (if 0 < pos then rest @ [DOT] else []) @ [SLASH] @ s @ [SLASH]" "pos = 0 \<Longrightarrow> rest = []" "from_utf8 s"
proof -
  show last: "last pk = SLASH" "pk \<noteq> []" and seg: "regex_segment pk = Some (pos, s)"
    and rest: "pos = 0 \<Longrightarrow> rest = []"
    using assms by (auto simp: key_step_def split: if_splits option.splits)
  have r: "0 < pos \<Longrightarrow> rest = take (pos - 1) pk" using assms by (auto simp: key_step_def split: if_splits option.splits)
  show "SLASH \<notin> set s" by (rule regex_segmentD(4) [OF seg last])
  show "from_utf8 s" using seg by (auto simp: regex_segment_def Let_def split: option.splits if_splits)
  show "pk = (if 0 < pos then rest @ [DOT] else []) @ [SLASH] @ s @ [SLASH]"
    using regex_segmentD(1) [OF seg last] regex_segmentD(2) [OF seg last] r by (cases "0 < pos") auto
qed

lemma key_step_Lit:
  assumes "key_step pk = Lit suffix prefix"
  shows "pk = prefix @ suffix" "suffix \<noteq> []" "DOT \<notin> set suffix \<Longrightarrow> prefix = []" "DOT \<in> set suffix \<Longrightarrow> hd suffix = DOT"
proof -
  have ne: "pk \<noteq> []" using assms by (auto simp: key_step_def)
  consider "find_last_dot pk = None" "suffix = pk" "prefix = []"
    | pos where "find_last_dot pk = Some pos" "suffix = drop pos pk" "prefix = take pos pk"
    using assms by (auto simp: key_step_def split: if_splits option.splits)
  then show "pk = prefix @ suffix" "suffix \<noteq> []" "DOT \<notin> set suffix \<Longrightarrow> prefix = []"
    "DOT \<in> set suffix \<Longrightarrow> hd suffix = DOT"
    using ne find_last_dotD find_last_dot_None by (cases; force)+
qed

lemma key_step_others: "key_step pk = Own \<longleftrightarrow> pk = []" "key_step pk = Star \<longleftrightarrow> pk = [STAR]"
  by (auto simp: key_step_def split: if_splits option.splits)

lemma not_wf_key_Nil [simp]: "\<not> wf_key R []"
  by (subst wf_key.simps) (simp add: key_step_def)

lemma wf_key_Rgx:
  "key_step pk = Rgx pos s rest \<Longrightarrow> wf_key R pk \<longleftrightarrow> compiled_segment R s \<noteq> None \<and> (0 < pos \<longrightarrow> wf_key R rest)"
  by (subst wf_key.simps) simp

lemma wf_key_Lit:
  "key_step pk = Lit suffix prefix \<Longrightarrow> wf_key R pk \<longleftrightarrow> (DOT \<in> set suffix \<longrightarrow> wf_key R prefix)"
  by (subst wf_key.simps) simp

lemma wf_key_Rgx_rest: "wf_key R pk \<Longrightarrow> key_step pk = Rgx pos s rest \<Longrightarrow> rest = [] \<longleftrightarrow> pos = 0"
  using key_step_Rgx(6) [of pk pos s rest] wf_key_Rgx [of pk pos s rest R] by auto

lemma same_Rgx:
  assumes "wf_key R pk" "wf_key R pk'" "key_step pk = Rgx pos s rest" "key_step pk' = Rgx pos' s rest"
  shows "pk = pk'"
proof -
  have "(0 < pos) = (0 < pos')" using wf_key_Rgx_rest [OF assms(1,3)] wf_key_Rgx_rest [OF assms(2,4)] by auto
  then have "(if 0 < pos then rest @ [DOT] else []) @ [SLASH] @ s @ [SLASH] =
      (if 0 < pos' then rest @ [DOT] else []) @ [SLASH] @ s @ [SLASH]" by (simp only:)
  then show ?thesis unfolding key_step_Rgx(5) [OF assms(3), symmetric] key_step_Rgx(5) [OF assms(4), symmetric] .
qed

lemma same_Lit: "key_step pk = Lit suffix prefix \<Longrightarrow> key_step pk' = Lit suffix prefix \<Longrightarrow> pk = pk'"
  using key_step_Lit(1) by blast

subsection \<open>The structural invariant\<close>

definition regex_documented :: "'r RegexCrate \<Rightarrow> bool" where
  "regex_documented R \<longleftrightarrow> (\<forall>p r. rx_build R p = Some r \<longrightarrow> rx_as_str R r = p)"

text \<open>
  A literal child is keyed by a whole label: one without a dot is a leaf with a value, one with the
  separating dot holds no value itself. A stored pattern is the anchored form of a segment.
\<close>

definition label_key :: "bytes \<Rightarrow> bool" where
  "label_key k \<longleftrightarrow> k \<noteq> [] \<and> k \<noteq> [STAR] \<and> last k \<noteq> SLASH \<and> DOT \<notin> set (tl k)"

definition leaf_key :: "bytes \<Rightarrow> ('r, 'v) TrieNode \<Rightarrow> bool" where
  "leaf_key k c \<longleftrightarrow> (if DOT \<in> set k then key_value c = None else \<exists>kv. c = TrieNode (Some kv) None [] [])"

definition pattern_ok :: "'r RegexCrate \<Rightarrow> 'r \<Rightarrow> bool" where
  "pattern_ok R r \<longleftrightarrow> rx_build R (rx_as_str R r) = Some r \<and>
     (\<exists>s. anchored_segment R s = Some (rx_as_str R r) \<and> from_utf8 s \<and> SLASH \<notin> set s)"

fun trie_ok :: "'r RegexCrate \<Rightarrow> ('r, 'v) TrieNode \<Rightarrow> bool" where
  "trie_ok R (TrieNode kv w cs rs) \<longleftrightarrow>
     distinct (map fst cs) \<and> distinct (map (\<lambda>e. rx_as_str R (fst e)) rs) \<and>
     list_all (\<lambda>(k, c). label_key k \<and> 0 < count_values c \<and> trie_ok R c \<and> leaf_key k c) cs \<and>
     list_all (\<lambda>(r, c). pattern_ok R r \<and> 0 < count_values c \<and> trie_ok R c) rs"

lemma trie_ok_fields:
  "trie_ok R t \<longleftrightarrow> distinct (map fst (children t)) \<and> distinct (map (\<lambda>e. rx_as_str R (fst e)) (regexps t)) \<and>
     (\<forall>(k, c) \<in> set (children t). label_key k \<and> 0 < count_values c \<and> trie_ok R c \<and> leaf_key k c) \<and>
     (\<forall>(r, c) \<in> set (regexps t). pattern_ok R r \<and> 0 < count_values c \<and> trie_ok R c)"
  by (cases t) (auto simp: list_all_iff)

lemma count_values_fields:
  "count_values t = of_bool (key_value t \<noteq> None) + of_bool (wildcard t \<noteq> None) +
     sum_list (map (\<lambda>(_, c). count_values c) (children t)) + sum_list (map (\<lambda>(_, c). count_values c) (regexps t))"
  by (cases t) simp

lemma trie_empty_count: "trie_ok R t \<Longrightarrow> trie_is_empty t \<longleftrightarrow> count_values t = 0"
proof -
  assume "trie_ok R t"
  then have pos: "\<forall>(k, c) \<in> set (children t). 0 < count_values c" "\<forall>(r, c) \<in> set (regexps t). 0 < count_values c"
    by (auto simp: trie_ok_fields [of R t])
  have nil: "sum_list (map (\<lambda>(_, c). count_values c) xs) = 0 \<longleftrightarrow> xs = []"
    if "\<forall>(k, c) \<in> set xs. 0 < count_values c" for xs :: "('k \<times> ('a, 'b) TrieNode) list"
    using that by (cases xs) auto
  show ?thesis
    using nil [OF pos(1)] nil [OF pos(2)]
    by (cases "key_value t"; cases "wildcard t") (auto simp: trie_is_empty_def count_values_fields [of t])
qed

lemma trie_ok_checks: "trie_ok R t \<Longrightarrow> trie_check_invariants R t"
proof (induction t)
  case (TrieNode kv w cs rs)
  have "trie_check_invariants R c \<and> \<not> trie_is_empty c" if "(k, c) \<in> set cs" for k c
    using TrieNode.IH(1) [OF that, of c] TrieNode.prems that trie_empty_count [of R c] by (auto simp: list_all_iff)
  moreover have "trie_check_invariants R c \<and> \<not> trie_is_empty c" if "(r, c) \<in> set rs" for r c
    using TrieNode.IH(2) [OF that, of c] TrieNode.prems that trie_empty_count [of R c] by (auto simp: list_all_iff)
  ultimately show ?case
    using TrieNode.prems unfolding trie_check_invariants.simps trie_ok.simps list_all_iff label_key_def by blast
qed

lemma trie_root_ok [simp]: "trie_ok R trie_root" "count_values trie_root = 0" "slot R trie_root pk = None"
  by (simp_all add: trie_root_def) (subst slot.simps, auto simp: rx_child_def regexp_position_def split: key_step.split option.split)

subsection \<open>One node\<close>

lemma with_simps [simp]:
  "key_value (with_key_value x t) = x" "wildcard (with_key_value x t) = wildcard t"
  "children (with_key_value x t) = children t" "regexps (with_key_value x t) = regexps t"
  "key_value (with_wildcard y t) = key_value t" "wildcard (with_wildcard y t) = y"
  "children (with_wildcard y t) = children t" "regexps (with_wildcard y t) = regexps t"
  "key_value (with_children cs t) = key_value t" "wildcard (with_children cs t) = wildcard t"
  "children (with_children cs t) = cs" "regexps (with_children cs t) = regexps t"
  "key_value (with_regexps rs t) = key_value t" "wildcard (with_regexps rs t) = wildcard t"
  "children (with_regexps rs t) = children t" "regexps (with_regexps rs t) = rs"
  by (simp_all add: trie_with)

lemma alist_update_same: "map_of m k = Some v \<Longrightarrow> AList.update k v m = m"
  by (induction m) auto

lemma with_same [simp]:
  "with_children (children t) t = t" "with_regexps (regexps t) t = t"
  "with_key_value (key_value t) t = t" "with_wildcard (wildcard t) t = t"
  by (simp_all add: trie_with)

lemma anchored_inject: "anchored_segment R s = Some a \<Longrightarrow> anchored_segment R s' = Some a \<Longrightarrow> s = s'"
  by (auto simp: anchored_segment_def split: if_splits)

lemma compiled_anchored: "compiled_segment R s = Some r \<Longrightarrow> \<exists>a. anchored_segment R s = Some a \<and> rx_build R a = Some r"
  by (auto simp: compiled_segment_def split: option.splits)

text \<open>The regular expressions of a node as an association list from patterns.\<close>

abbreviation pattern_map :: "'r RegexCrate \<Rightarrow> ('r \<times> 'a) list \<Rightarrow> (bytes \<times> 'a) list" where
  "pattern_map R rs \<equiv> map (\<lambda>(r, c). (rx_as_str R r, c)) rs"

lemma find_map_Suc: "List.find P (map Suc xs) = map_option Suc (List.find (\<lambda>i. P (Suc i)) xs)"
  by (induction xs) auto

lemma regexp_position_Cons:
  "regexp_position R a [] = None"
  "regexp_position R a (x # xs) =
    (if rx_as_str R (fst x) = a then Some 0 else map_option Suc (regexp_position R a xs))"
proof -
  show "regexp_position R a [] = None" by (simp add: regexp_position_def)
  have "[0..<Suc (length xs)] = 0 # map Suc [0..<length xs]" by (simp add: upt_conv_Cons map_Suc_upt del: upt_Suc)
  then show "regexp_position R a (x # xs) =
      (if rx_as_str R (fst x) = a then Some 0 else map_option Suc (regexp_position R a xs))"
    by (simp add: regexp_position_def find_map_Suc del: upt_Suc)
qed

lemma regexp_position_map_of:
  "map_option (\<lambda>i. snd (rs ! i)) (regexp_position R a rs) = map_of (pattern_map R rs) a"
  by (induction rs) (auto simp: regexp_position_Cons option.map_comp comp_def)

lemma regexp_position_Some:
  assumes "regexp_position R a rs = Some i"
  shows "i < length rs" "rx_as_str R (fst (rs ! i)) = a" "map_of (pattern_map R rs) a = Some (snd (rs ! i))"
proof -
  show "i < length rs" "rx_as_str R (fst (rs ! i)) = a" using assms by (auto simp: regexp_position_def find_Some_iff)
  show "map_of (pattern_map R rs) a = Some (snd (rs ! i))" using regexp_position_map_of [of rs R a] assms by simp
qed

lemma regexp_position_None: "regexp_position R a rs = None \<longleftrightarrow> map_of (pattern_map R rs) a = None"
  unfolding regexp_position_map_of [symmetric] by simp

lemma rx_child_map: "rx_child R s t = (case anchored_segment R s of None \<Rightarrow> None | Some a \<Rightarrow> map_of (pattern_map R (regexps t)) a)"
  by (simp add: rx_child_def regexp_position_map_of split: option.split)

lemma map_of_list_update:
  "distinct (map fst xs) \<Longrightarrow> i < length xs \<Longrightarrow> fst (xs ! i) = k \<Longrightarrow> map_of (xs[i := (k, v)]) = (map_of xs)(k \<mapsto> v)"
proof (induction xs arbitrary: i)
  case (Cons x xs)
  show ?case
  proof (cases i)
    case 0
    then show ?thesis using Cons.prems by (cases x) (auto simp: fun_eq_iff)
  next
    case (Suc j)
    then have "fst x \<noteq> k" using Cons.prems by auto
    then show ?thesis using Cons Suc by (cases x) (auto simp: fun_eq_iff)
  qed
qed simp

lemma map_of_delete_nth:
  "distinct (map fst xs) \<Longrightarrow> i < length xs \<Longrightarrow> fst (xs ! i) = k \<Longrightarrow>
    map_of (take i xs @ drop (Suc i) xs) = (map_of xs)(k := None)"
proof (induction xs arbitrary: i)
  case (Cons x xs)
  show ?case
  proof (cases i)
    case 0
    have "map_of xs (fst x) = None" using Cons.prems by (simp add: map_of_eq_None_iff)
    then show ?thesis using 0 Cons.prems by (cases x) (auto simp: fun_eq_iff)
  next
    case (Suc j)
    then have "fst x \<noteq> k" using Cons.prems by auto
    then show ?thesis using Cons Suc by (cases x) (auto simp: fun_eq_iff)
  qed
qed simp

lemma pattern_map_distinct:
  "distinct (map (\<lambda>e. rx_as_str R (fst e)) rs) \<Longrightarrow> distinct (map fst (pattern_map R rs))"
  by (simp add: comp_def case_prod_beta)

text \<open>The three ways a regular-expression entry changes.\<close>

lemma pattern_replace:
  assumes "distinct (map (\<lambda>e. rx_as_str R (fst e)) rs)" and "regexp_position R a rs = Some i"
  shows "map_of (pattern_map R (rs[i := (fst (rs ! i), c)])) = (map_of (pattern_map R rs))(a \<mapsto> c)"
proof -
  have "pattern_map R (rs[i := (fst (rs ! i), c)]) = (pattern_map R rs)[i := (a, c)]"
    using regexp_position_Some(2) [OF assms(2)] by (simp add: map_update)
  moreover have "fst (pattern_map R rs ! i) = a"
    using regexp_position_Some(1,2) [OF assms(2)] by (simp add: case_prod_beta)
  ultimately show ?thesis
    using map_of_list_update [OF pattern_map_distinct [OF assms(1)], of i a c] regexp_position_Some(1) [OF assms(2)]
    by simp
qed

lemma pattern_push:
  assumes "regexp_position R a rs = None" and "rx_as_str R r = a"
  shows "map_of (pattern_map R (rs @ [(r, c)])) = (map_of (pattern_map R rs))(a \<mapsto> c)"
  using assms by (auto simp: regexp_position_None map_add_def fun_eq_iff split: option.split)

lemma pattern_drop:
  assumes "distinct (map (\<lambda>e. rx_as_str R (fst e)) rs)" and "regexp_position R a rs = Some i"
  shows "map_of (pattern_map R (take i rs @ drop (i + 1) rs)) = (map_of (pattern_map R rs))(a := None)"
  using map_of_delete_nth [OF pattern_map_distinct [OF assms(1)], of i a] regexp_position_Some(1,2) [OF assms(2)]
  by (simp add: case_prod_beta take_map drop_map)

lemma slot_cases:
  "key_step pk = Own \<Longrightarrow> slot R t pk = key_value t"
  "key_step pk = Star \<Longrightarrow> slot R t pk = wildcard t"
  "key_step pk = Rgx pos s rest \<Longrightarrow> slot R t pk = (case rx_child R s t of None \<Rightarrow> None | Some c \<Rightarrow> slot R c rest)"
  "key_step pk = Lit suffix prefix \<Longrightarrow>
    slot R t pk = (case map_of (children t) suffix of None \<Rightarrow> None | Some c \<Rightarrow> slot R c prefix)"
  "key_step pk = Bad \<Longrightarrow> slot R t pk = None"
  by (subst slot.simps; simp)+

lemma rx_child_with [simp]:
  "rx_child R s (with_children cs t) = rx_child R s t" "rx_child R s (with_key_value x t) = rx_child R s t"
  "rx_child R s (with_wildcard x t) = rx_child R s t"
  by (cases "anchored_segment R s"; simp add: rx_child_map)+

text \<open>The value slots of a node, then its children, then its regular expressions.\<close>

lemma slot_with_children:
  "slot R (with_children (AList.update s c (children t)) t) pk =
    (case key_step pk of Lit s' p \<Rightarrow> if s' = s then slot R c p else slot R t pk | _ \<Rightarrow> slot R t pk)"
  by (cases "key_step pk") (simp_all add: slot_cases update_conv')

lemma slot_delete_child:
  assumes "distinct (map fst (children t))"
  shows "slot R (with_children (AList.delete s (children t)) t) pk =
    (case key_step pk of Lit s' p \<Rightarrow> if s' = s then None else slot R t pk | _ \<Rightarrow> slot R t pk)"
  by (cases "key_step pk") (simp_all add: slot_cases delete_conv')

lemma slot_with_regexps:
  assumes "anchored_segment R s = Some a"
    and "map_of (pattern_map R rs) = (map_of (pattern_map R (regexps t)))(a := x)"
  shows "slot R (with_regexps rs t) pk =
    (case key_step pk of
       Rgx pos s' rest \<Rightarrow> if s' = s then (case x of None \<Rightarrow> None | Some c \<Rightarrow> slot R c rest) else slot R t pk
     | _ \<Rightarrow> slot R t pk)"
proof (cases "key_step pk")
  case (Rgx pos s' rest)
  have "rx_child R s' (with_regexps rs t) = (if s' = s then x else rx_child R s' t)"
  proof (cases "anchored_segment R s'")
    case (Some b)
    have "b = a \<longleftrightarrow> s' = s" using anchored_inject [OF assms(1), of s'] Some assms(1) by fastforce
    then show ?thesis using Some assms by (simp add: rx_child_map)
  next
    case None
    then have "s' \<noteq> s" using assms(1) by auto
    then show ?thesis using None by (simp add: rx_child_map)
  qed
  then show ?thesis using Rgx by (simp add: slot_cases)
qed (simp_all add: slot_cases)

lemma slot_with_key_value: "slot R (with_key_value x t) pk = (if pk = [] then x else slot R t pk)"
  by (cases "key_step pk") (auto simp: slot_cases key_step_others(1) [symmetric])

lemma slot_with_wildcard: "slot R (with_wildcard x t) pk = (if pk = [STAR] then x else slot R t pk)"
  by (cases "key_step pk") (auto simp: slot_cases key_step_others(2) [symmetric])

lemma set_alist_update:
  "distinct (map fst m) \<Longrightarrow> set (AList.update k v m) = insert (k, v) {e \<in> set m. fst e \<noteq> k}"
proof (induction m)
  case (Cons e m)
  then show ?case by (cases e; cases "fst e = k") auto
qed simp

lemma sum_alist_update:
  fixes f :: "'k \<times> 'v \<Rightarrow> nat"
  shows "map_of m k = None \<Longrightarrow> sum_list (map f (AList.update k v m)) = sum_list (map f m) + f (k, v)"
    and "map_of m k = Some v0 \<Longrightarrow> sum_list (map f (AList.update k v m)) + f (k, v0) = sum_list (map f m) + f (k, v)"
proof -
  show "map_of m k = None \<Longrightarrow> sum_list (map f (AList.update k v m)) = sum_list (map f m) + f (k, v)"
    by (induction m) (simp_all split: if_splits)
  show "map_of m k = Some v0 \<Longrightarrow> sum_list (map f (AList.update k v m)) + f (k, v0) = sum_list (map f m) + f (k, v)"
  proof (induction m)
    case (Cons e m)
    then show ?case by (cases e) (simp split: if_splits)
  qed simp
qed

lemma sum_alist_delete:
  fixes f :: "'k \<times> 'v \<Rightarrow> nat"
  shows "distinct (map fst m) \<Longrightarrow> map_of m k = Some v0 \<Longrightarrow>
    sum_list (map f (AList.delete k m)) + f (k, v0) = sum_list (map f m)"
proof (induction m)
  case (Cons e m)
  have "AList.delete k m = m" if "fst e = k" using Cons.prems(1) that by (auto simp: delete_id)
  with Cons show ?case by (cases e) (auto split: if_splits)
qed simp

lemma sum_list_update:
  fixes f :: "'a \<Rightarrow> nat"
  shows "i < length xs \<Longrightarrow> sum_list (map f (xs[i := y])) + f (xs ! i) = sum_list (map f xs) + f y"
proof (induction xs arbitrary: i)
  case (Cons x xs)
  then show ?case by (cases i) (simp_all add: add.assoc)
qed simp

lemma sum_list_delete_nth:
  fixes f :: "'a \<Rightarrow> nat"
  shows "i < length xs \<Longrightarrow> sum_list (map f (take i xs @ drop (Suc i) xs)) + f (xs ! i) = sum_list (map f xs)"
proof (induction xs arbitrary: i)
  case (Cons x xs)
  then show ?case by (cases i) (simp_all add: add.assoc)
qed simp

subsection \<open>The invariant of one node\<close>

lemma trie_ok_child:
  assumes "trie_ok R t" and "map_of (children t) k = Some c"
  shows "trie_ok R c" "0 < count_values c" "leaf_key k c" "label_key k"
  using assms(1) map_of_SomeD [OF assms(2)] by (auto simp: trie_ok_fields [of R t])

lemma trie_ok_regexp:
  assumes "trie_ok R t" and "regexp_position R a (regexps t) = Some i"
  shows "trie_ok R (snd (regexps t ! i))" "0 < count_values (snd (regexps t ! i))"
    "pattern_ok R (fst (regexps t ! i))"
  using assms(1) nth_mem [OF regexp_position_Some(1) [OF assms(2)]] by (auto simp: trie_ok_fields [of R t])

lemma trie_ok_update_child:
  assumes "trie_ok R t" and "label_key s" and "trie_ok R c" "0 < count_values c" "leaf_key s c"
  shows "trie_ok R (with_children (AList.update s c (children t)) t)"
  using assms
  by (auto simp: trie_ok_fields [of R t] trie_ok_fields [of R "with_children x t" for x] set_alist_update distinct_update)

lemma trie_ok_delete_child:
  assumes "trie_ok R t"
  shows "trie_ok R (with_children (AList.delete s (children t)) t)"
proof -
  have "set (AList.delete s (children t)) \<subseteq> set (children t)" by (auto simp: AList.delete_eq)
  then show ?thesis
    using assms distinct_delete [of "children t" s]
    by (auto simp: trie_ok_fields [of R t] trie_ok_fields [of R "with_children x t" for x])
qed

lemma trie_ok_replace_regexp:
  assumes "trie_ok R t" and "regexp_position R a (regexps t) = Some i" and "trie_ok R c" "0 < count_values c"
  shows "trie_ok R (with_regexps ((regexps t)[i := (fst (regexps t ! i), c)]) t)"
proof -
  have "map (\<lambda>e. rx_as_str R (fst e)) ((regexps t)[i := (fst (regexps t ! i), c)]) = map (\<lambda>e. rx_as_str R (fst e)) (regexps t)"
    by (intro nth_equalityI) (auto simp: nth_list_update regexp_position_Some(1) [OF assms(2)])
  moreover have "set ((regexps t)[i := (fst (regexps t ! i), c)]) \<subseteq> insert (fst (regexps t ! i), c) (set (regexps t))"
    by (rule set_update_subset_insert)
  ultimately show ?thesis
    using assms(1,3,4) trie_ok_regexp(3) [OF assms(1,2)]
    by (auto simp: trie_ok_fields [of R t] trie_ok_fields [of R "with_regexps x t" for x])
qed

lemma trie_ok_push_regexp:
  assumes "trie_ok R t" and "regexp_position R a (regexps t) = None" and "pattern_ok R r" "rx_as_str R r = a"
    and "trie_ok R c" "0 < count_values c"
  shows "trie_ok R (with_regexps (regexps t @ [(r, c)]) t)"
proof -
  have "a \<notin> set (map (\<lambda>e. rx_as_str R (fst e)) (regexps t))"
    using assms(2) by (auto simp: regexp_position_None map_of_eq_None_iff image_iff)
  then show ?thesis
    using assms by (auto simp: trie_ok_fields [of R t] trie_ok_fields [of R "with_regexps x t" for x])
qed

lemma trie_ok_drop_regexp:
  assumes "trie_ok R t"
  shows "trie_ok R (with_regexps (take i (regexps t) @ drop (i + 1) (regexps t)) t)"
proof -
  have "map (\<lambda>e. rx_as_str R (fst e)) (take i (regexps t) @ drop (i + 1) (regexps t)) =
      take i (map (\<lambda>e. rx_as_str R (fst e)) (regexps t)) @ drop (i + 1) (map (\<lambda>e. rx_as_str R (fst e)) (regexps t))"
    by (simp add: take_map drop_map)
  moreover have "distinct (take i xs @ drop (i + 1) xs)" if "distinct xs" for xs :: "bytes list"
    using that set_take_disj_set_drop_if_distinct [of xs i "i + 1"] by simp
  moreover have "set (take i (regexps t) @ drop (i + 1) (regexps t)) \<subseteq> set (regexps t)"
    using set_take_subset set_drop_subset by fastforce
  ultimately show ?thesis
    using assms by (auto simp: trie_ok_fields [of R t] trie_ok_fields [of R "with_regexps x t" for x])
qed

lemma trie_ok_values:
  "trie_ok R (with_key_value x t) = trie_ok R t" "trie_ok R (with_wildcard x t) = trie_ok R t"
  by (simp_all add: trie_ok_fields [of R t] trie_ok_fields [of R "with_key_value x t"] trie_ok_fields [of R "with_wildcard x t"])

lemma count_update_child:
  "map_of (children t) s = None \<Longrightarrow>
    count_values (with_children (AList.update s c (children t)) t) = count_values t + count_values c"
  "map_of (children t) s = Some c0 \<Longrightarrow>
    count_values (with_children (AList.update s c (children t)) t) + count_values c0 = count_values t + count_values c"
  using sum_alist_update(1) [of "children t" s "\<lambda>(_, c). count_values c" c]
    sum_alist_update(2) [of "children t" s c0 "\<lambda>(_, c). count_values c" c]
  by (auto simp: count_values_fields [of t] count_values_fields [of "with_children x t" for x])

lemma count_delete_child:
  "trie_ok R t \<Longrightarrow> map_of (children t) s = Some c0 \<Longrightarrow>
    count_values (with_children (AList.delete s (children t)) t) + count_values c0 = count_values t"
  using sum_alist_delete [of "children t" s c0 "\<lambda>(_, c). count_values c"]
  by (auto simp: trie_ok_fields [of R t] count_values_fields [of t] count_values_fields [of "with_children x t" for x])

lemma count_regexps:
  assumes "regexp_position R a (regexps t) = Some i"
  shows "count_values (with_regexps ((regexps t)[i := (r, c)]) t) + count_values (snd (regexps t ! i)) =
      count_values t + count_values c"
    and "count_values (with_regexps (take i (regexps t) @ drop (i + 1) (regexps t)) t) + count_values (snd (regexps t ! i)) =
      count_values t"
  using regexp_position_Some(1) [OF assms]
    sum_list_update [of i "regexps t" "\<lambda>(_, c). count_values c" "(r, c)"]
    sum_list_delete_nth [of i "regexps t" "\<lambda>(_, c). count_values c"]
  by (auto simp: count_values_fields [of t] count_values_fields [of "with_regexps x t" for x] case_prod_beta)

lemma count_push_regexp:
  "count_values (with_regexps (regexps t @ [(r, c)]) t) = count_values t + count_values c"
  by (simp add: count_values_fields [of t] count_values_fields [of "with_regexps x t" for x])

subsection \<open>Insertion\<close>

lemma key_step_Rgx_rest: "key_step pk = Rgx pos s rest \<Longrightarrow> rest = (if 0 < pos then take (pos - 1) pk else [])"
  by (auto simp: key_step_def split: if_splits option.splits)

lemma insert_step_Rgx:
  assumes "key_step pk = Rgx pos s rest"
  shows "insert_recursive R t pk key v =
    (case anchored_segment R s of
       None \<Rightarrow> (InsertFailed, t)
     | Some a \<Rightarrow>
         (case regexp_position R a (regexps t) of
            Some i \<Rightarrow>
              (case (if 0 < pos then insert_recursive R (snd (regexps t ! i)) rest key v
                     else insert_own_value (snd (regexps t ! i)) key v) of
                 (res, c) \<Rightarrow> (res, with_regexps ((regexps t)[i := (fst (regexps t ! i), c)]) t))
          | None \<Rightarrow>
              (case compiled_segment R s of
                 None \<Rightarrow> (InsertFailed, t)
               | Some r \<Rightarrow>
                   if 0 < pos then
                     (case insert_recursive R trie_root rest key v of
                        (res, node) \<Rightarrow> (res, if res = InsertOk then with_regexps (regexps t @ [(r, node)]) t else t))
                   else (InsertOk, with_regexps (regexps t @ [(r, trie_new key v)]) t))))"
  using key_step_Rgx(1-3) [OF assms] key_step_Rgx_rest [OF assms]
  by (subst insert_recursive.simps) (simp add: Let_def case_prod_beta split: option.split)

lemma key_step_LitD:
  assumes "key_step pk = Lit suffix prefix"
  shows "pk \<noteq> []" "pk \<noteq> [STAR]" "last pk \<noteq> SLASH"
    "find_last_dot pk = (if DOT \<in> set suffix then Some (length prefix) else None)"
    "DOT \<in> set suffix \<Longrightarrow> suffix = drop (length prefix) pk \<and> prefix = take (length prefix) pk"
    "DOT \<notin> set suffix \<Longrightarrow> suffix = pk"
  using assms find_last_dot_less [of pk] find_last_dotD(2) [of pk] find_last_dot_None [of pk]
  by (auto simp: key_step_def split: if_splits option.splits)

lemma key_step_label: "key_step pk = Lit suffix prefix \<Longrightarrow> label_key suffix"
proof -
  assume step: "key_step pk = Lit suffix prefix"
  note l = key_step_LitD [OF step] key_step_Lit [OF step]
  show "label_key suffix"
  proof (cases "DOT \<in> set suffix")
    case True
    then have f: "find_last_dot pk = Some (length prefix)" "suffix = drop (length prefix) pk" using l by auto
    note d = find_lastD [OF f(1) [unfolded find_last_dot_def]]
    have "tl suffix = drop (Suc (length prefix)) pk" using f(2) by (simp add: drop_Suc tl_drop)
    then have "DOT \<notin> set (tl suffix)" using d(3) by (auto simp: in_set_conv_nth)
    moreover have "last suffix = last pk" using l(7,8) by (metis last_appendR)
    moreover have "suffix \<noteq> [STAR]" using True by auto
    ultimately show ?thesis using l(3,8) by (simp add: label_key_def)
  next
    case False
    then have "suffix = pk" using l(6) by simp
    then show ?thesis using False l(1,2,3) by (auto simp: label_key_def dest: list.set_sel(2))
  qed
qed

lemma slot_Nil: "slot R t [] = key_value t"
  by (simp add: slot_cases key_step_others)

lemma insert_step_Lit:
  assumes "key_step pk = Lit suffix prefix"
  shows "insert_recursive R t pk key v =
    (case map_of (children t) suffix of
       Some c \<Rightarrow>
         if DOT \<in> set suffix then
           (case insert_recursive R c prefix key v of
              (res, c) \<Rightarrow> (res, with_children (AList.update suffix c (children t)) t))
         else (Existing, t)
     | None \<Rightarrow>
         if DOT \<in> set suffix then
           (case insert_recursive R trie_root prefix key v of
              (res, node) \<Rightarrow>
                (res, if res = InsertOk then with_children (AList.update suffix node (children t)) t else t))
         else (InsertOk, with_children (AList.update suffix (trie_new key v) (children t)) t))"
  using key_step_LitD [OF assms]
  by (subst insert_recursive.simps) (auto simp: Let_def case_prod_beta split: option.split)

lemma insert_step_others:
  "key_step pk = Own \<Longrightarrow> insert_recursive R t pk key v = (InsertFailed, t)"
  "key_step pk = Bad \<Longrightarrow> insert_recursive R t pk key v = (InsertFailed, t)"
  "key_step pk = Star \<Longrightarrow> trie_ok R t \<Longrightarrow> insert_recursive R t pk key v =
     (if wildcard t \<noteq> None then (Existing, t) else (InsertOk, with_wildcard (Some (key, v)) t))"
proof -
  show "key_step pk = Own \<Longrightarrow> insert_recursive R t pk key v = (InsertFailed, t)"
    by (subst insert_recursive.simps) (simp add: key_step_others)
  show "key_step pk = Bad \<Longrightarrow> insert_recursive R t pk key v = (InsertFailed, t)"
    by (subst insert_recursive.simps) (auto simp: key_step_def split: if_splits option.splits)
  assume "key_step pk = Star" and ok: "trie_ok R t"
  then have pk: "pk = [STAR]" by (simp add: key_step_others)
  have "map_of (children t) [STAR] = None"
    using ok by (auto simp: trie_ok_fields [of R t] map_of_eq_None_iff label_key_def)
  then show "insert_recursive R t pk key v =
      (if wildcard t \<noteq> None then (Existing, t) else (InsertOk, with_wildcard (Some (key, v)) t))"
    unfolding pk by (subst insert_recursive.simps) (simp add: find_last_dot_def)
qed

text \<open>What insertion promises of a key, and of all others.\<close>

definition inserted ::
  "'r RegexCrate \<Rightarrow> ('r, 'v) TrieNode \<Rightarrow> bytes \<Rightarrow> 'v KeyValue \<Rightarrow> InsertResult \<times> ('r, 'v) TrieNode \<Rightarrow> bool" where
  "inserted R t pk kv result \<longleftrightarrow>
     (if \<not> wf_key R pk then result = (InsertFailed, t)
      else if slot R t pk \<noteq> None then result = (Existing, t)
      else (\<exists>t'. result = (InsertOk, t') \<and> trie_ok R t' \<and> count_values t' = count_values t + 1 \<and>
        (\<forall>pk'. wf_key R pk' \<longrightarrow> slot R t' pk' = (if pk' = pk then Some kv else slot R t pk')) \<and>
        (pk \<noteq> [] \<longrightarrow> slot R t' [] = slot R t [])))"

lemma trie_new_with: "trie_new key v = with_key_value (Some (key, v)) trie_root"
  by (simp add: trie_new_def trie_root_def trie_with)

lemma trie_new_facts [simp]:
  "trie_ok R (trie_new key v)" "count_values (trie_new key v) = 1"
  "slot R (trie_new key v) pk = (if pk = [] then Some (key, v) else None)"
  by (simp_all add: trie_new_with slot_with_key_value trie_ok_values)
    (simp add: trie_root_def trie_with)

text \<open>
  An edge of a node: the keys that go through it and what is left of them. A change of the subtree
  behind one edge is a change of one key.
\<close>

definition rx_edge :: "bytes \<Rightarrow> bytes \<Rightarrow> bytes option" where
  "rx_edge s pk = (case key_step pk of Rgx pos s' rest \<Rightarrow> if s' = s then Some rest else None | _ \<Rightarrow> None)"

definition lit_edge :: "bytes \<Rightarrow> bytes \<Rightarrow> bytes option" where
  "lit_edge s pk = (case key_step pk of Lit s' rest \<Rightarrow> if s' = s then Some rest else None | _ \<Rightarrow> None)"

definition edge_ok :: "'r RegexCrate \<Rightarrow> (bytes \<Rightarrow> bytes option) \<Rightarrow> bool" where
  "edge_ok R edge \<longleftrightarrow> edge [] = None \<and>
     (\<forall>pk rest. wf_key R pk \<longrightarrow> edge pk = Some rest \<longrightarrow> rest = [] \<or> wf_key R rest) \<and>
     (\<forall>pk pk' rest. wf_key R pk \<longrightarrow> wf_key R pk' \<longrightarrow> edge pk = Some rest \<longrightarrow> edge pk' = Some rest \<longrightarrow> pk = pk')"

lemma rx_edge_ok: "edge_ok R (rx_edge s)"
proof -
  have "rest = [] \<or> wf_key R rest" if "wf_key R pk" "key_step pk = Rgx pos s rest" for pk pos rest
    using that wf_key_Rgx [OF that(2), of R] key_step_Rgx(6) [OF that(2)] by auto
  moreover have "key_step [] = Own" by (simp add: key_step_others)
  ultimately show ?thesis
    using same_Rgx [of R] by (auto simp: edge_ok_def rx_edge_def split: key_step.splits if_splits)
qed

lemma lit_edge_ok: "edge_ok R (lit_edge s)"
proof -
  have "rest = [] \<or> wf_key R rest" if "wf_key R pk" "key_step pk = Lit s rest" for pk rest
    using that wf_key_Lit [OF that(2), of R] key_step_Lit(3) [OF that(2)] by auto
  moreover have "key_step [] = Own" by (simp add: key_step_others)
  ultimately show ?thesis
    using same_Lit by (auto simp: edge_ok_def lit_edge_def split: key_step.splits if_splits)
qed

lemma edge_change:
  assumes "edge_ok R edge" and "wf_key R pk" and "edge pk = Some rest"
    and "\<And>k. slot R t' k = (case edge k of Some r \<Rightarrow> slot R c' r | None \<Rightarrow> slot R t k)"
    and "\<And>k r. edge k = Some r \<Longrightarrow> slot R t k = slot R c r"
    and "\<And>r. r = [] \<or> wf_key R r \<Longrightarrow> slot R c' r = (if r = rest then x else slot R c r)"
  shows "\<forall>k. wf_key R k \<longrightarrow> slot R t' k = (if k = pk then x else slot R t k)" and "slot R t' [] = slot R t []"
proof -
  show "\<forall>k. wf_key R k \<longrightarrow> slot R t' k = (if k = pk then x else slot R t k)"
  proof (intro allI impI)
    fix k assume k: "wf_key R k"
    show "slot R t' k = (if k = pk then x else slot R t k)"
    proof (cases "edge k")
      case None
      then show ?thesis using assms(3,4) by auto
    next
      case (Some r)
      then have "r = [] \<or> wf_key R r" and same: "r = rest \<longleftrightarrow> k = pk"
        using assms(1-3) k unfolding edge_ok_def by auto
      then show ?thesis using assms(4) [of k] assms(5) [OF Some] assms(6) [of r] Some by auto
    qed
  qed
  show "slot R t' [] = slot R t []" using assms(1,4) by (simp add: edge_ok_def)
qed

lemma rx_edge_slot:
  assumes "anchored_segment R s = Some a" and "rx_edge s k = Some r"
  shows "slot R t k = (case map_of (pattern_map R (regexps t)) a of None \<Rightarrow> None | Some c \<Rightarrow> slot R c r)"
  using assms by (auto simp: rx_edge_def slot_cases rx_child_map split: key_step.splits if_splits)

lemma lit_edge_slot:
  "lit_edge s k = Some r \<Longrightarrow> slot R t k = (case map_of (children t) s of None \<Rightarrow> None | Some c \<Rightarrow> slot R c r)"
  by (auto simp: lit_edge_def slot_cases split: key_step.splits if_splits)

lemma rx_edge_changed:
  assumes "anchored_segment R s = Some a"
    and "map_of (pattern_map R rs) = (map_of (pattern_map R (regexps t)))(a := x)"
  shows "slot R (with_regexps rs t) k =
    (case rx_edge s k of Some r \<Rightarrow> (case x of None \<Rightarrow> None | Some c \<Rightarrow> slot R c r) | None \<Rightarrow> slot R t k)"
  unfolding slot_with_regexps [OF assms] by (simp add: rx_edge_def split: key_step.split)

lemma lit_edge_changed:
  "slot R (with_children (AList.update s c (children t)) t) k =
    (case lit_edge s k of Some r \<Rightarrow> slot R c r | None \<Rightarrow> slot R t k)"
  unfolding slot_with_children by (simp add: lit_edge_def split: key_step.split)

text \<open>What the subtree behind the edge has to satisfy, and the two ways insertion reaches it.\<close>

definition own_inserted :: "'r RegexCrate \<Rightarrow> ('r, 'v) TrieNode \<Rightarrow> bytes \<Rightarrow> 'v KeyValue \<Rightarrow> ('r, 'v) TrieNode \<Rightarrow> bool" where
  "own_inserted R c rest kv c' \<longleftrightarrow> trie_ok R c' \<and> count_values c' = count_values c + 1 \<and>
     (\<forall>r. r = [] \<or> wf_key R r \<longrightarrow> slot R c' r = (if r = rest then Some kv else slot R c r))"

lemma inserted_own: "inserted R c rest kv (InsertOk, c') \<Longrightarrow> own_inserted R c rest kv c'"
  by (auto simp: inserted_def own_inserted_def split: if_splits)

lemma insert_own_value_ok:
  assumes "trie_ok R c"
  shows "key_value c = None \<Longrightarrow> own_inserted R c [] (key, v) (snd (insert_own_value c key v))"
  using assms
  by (simp add: insert_own_value_def own_inserted_def trie_ok_values slot_with_key_value count_values_fields [of c]
      count_values_fields [of "with_key_value x c" for x])

lemma insertedI:
  assumes "wf_key R pk" and "slot R t pk = None" and "trie_ok R t'" and "count_values t' = count_values t + 1"
    and "\<forall>k. wf_key R k \<longrightarrow> slot R t' k = (if k = pk then Some kv else slot R t k)" and "slot R t' [] = slot R t []"
  shows "inserted R t pk kv (InsertOk, t')"
  using assms by (simp add: inserted_def)

lemma own_inserted_slot:
  assumes "own_inserted R c rest kv c'" and "r = [] \<or> wf_key R r"
  shows "slot R c' r = (if r = rest then Some kv else slot R c r)"
  using assms unfolding own_inserted_def by blast

lemma inserted_bad: "\<not> wf_key R pk \<Longrightarrow> inserted R t pk kv (InsertFailed, t)"
  by (simp add: inserted_def)

lemma inserted_old: "wf_key R pk \<Longrightarrow> slot R t pk \<noteq> None \<Longrightarrow> inserted R t pk kv (Existing, t)"
  by (simp add: inserted_def)

lemma inserted_cases:
  assumes "inserted R t pk kv (res, t')"
  obtains (bad) "\<not> wf_key R pk" "res = InsertFailed" "t' = t"
  | (old) "wf_key R pk" "slot R t pk \<noteq> None" "res = Existing" "t' = t"
  | (new) "wf_key R pk" "slot R t pk = None" "res = InsertOk" "own_inserted R t pk kv t'"
proof (cases "wf_key R pk")
  case True
  show ?thesis
  proof (cases "slot R t pk = None")
    case None: True
    then have "res = InsertOk" using assms True by (simp add: inserted_def)
    with None True assms inserted_own [of R t pk kv t'] show ?thesis by (intro new) auto
  next
    case False
    with True assms show ?thesis by (intro old) (simp_all add: inserted_def)
  qed
next
  case False
  with assms show ?thesis by (intro bad) (simp_all add: inserted_def)
qed

lemma inserted_behind_regexp:
  assumes "trie_ok R t" and "wf_key R pk" and "rx_edge s pk = Some rest" and "slot R t pk = None"
    and "anchored_segment R s = Some a" and "regexp_position R a (regexps t) = Some i"
    and "own_inserted R (snd (regexps t ! i)) rest kv c"
  shows "inserted R t pk kv (InsertOk, with_regexps ((regexps t)[i := (fst (regexps t ! i), c)]) t)"
proof -
  let ?t = "with_regexps ((regexps t)[i := (fst (regexps t ! i), c)]) t"
  note old = regexp_position_Some(3) [OF assms(6)]
  have d: "distinct (map (\<lambda>e. rx_as_str R (fst e)) (regexps t))" using assms(1) by (simp add: trie_ok_fields [of R t])
  have changed: "slot R ?t k = (case rx_edge s k of Some r \<Rightarrow> slot R c r | None \<Rightarrow> slot R t k)" for k
    using rx_edge_changed [OF assms(5) pattern_replace [OF d assms(6)]] by (cases "rx_edge s k") simp_all
  have "trie_ok R ?t" "count_values ?t = count_values t + 1"
    using trie_ok_replace_regexp [OF assms(1,6)] count_regexps(1) [OF assms(6), of "fst (regexps t ! i)" c] assms(7)
    by (auto simp: own_inserted_def)
  moreover have "slot R t k = slot R (snd (regexps t ! i)) r" if "rx_edge s k = Some r" for k r
    using rx_edge_slot [OF assms(5) that, of t] old by simp
  note edge_change [OF rx_edge_ok assms(2,3) changed this own_inserted_slot [OF assms(7)]]
  ultimately show ?thesis by (intro insertedI assms(2,4)) simp_all
qed

lemma inserted_new_regexp:
  assumes "trie_ok R t" and "wf_key R pk" and "rx_edge s pk = Some rest"
    and "anchored_segment R s = Some a" and "regexp_position R a (regexps t) = None"
    and "pattern_ok R r" "rx_as_str R r = a" and "own_inserted R trie_root rest kv c"
  shows "inserted R t pk kv (InsertOk, with_regexps (regexps t @ [(r, c)]) t)"
proof -
  let ?t = "with_regexps (regexps t @ [(r, c)]) t"
  have none: "map_of (pattern_map R (regexps t)) a = None" using assms(5) by (simp only: regexp_position_None)
  have changed: "slot R ?t k = (case rx_edge s k of Some r \<Rightarrow> slot R c r | None \<Rightarrow> slot R t k)" for k
    using rx_edge_changed [OF assms(4) pattern_push [OF assms(5,7)]] by (cases "rx_edge s k") simp_all
  have "trie_ok R ?t" "count_values ?t = count_values t + 1"
    using trie_ok_push_regexp [OF assms(1,5-7)] count_push_regexp [of t r c] assms(8) by (auto simp: own_inserted_def)
  moreover have old: "slot R t k = slot R trie_root r" if "rx_edge s k = Some r" for k r
    using rx_edge_slot [OF assms(4) that, of t] none by simp
  note edge_change [OF rx_edge_ok assms(2,3) changed old own_inserted_slot [OF assms(8)]]
  ultimately show ?thesis using old [OF assms(3)] by (intro insertedI assms(2)) simp_all
qed

lemma inserted_behind_child:
  assumes "trie_ok R t" and "wf_key R pk" and "lit_edge s pk = Some rest" and "slot R t pk = None"
    and "label_key s" and "leaf_key s c"
    and "own_inserted R (case map_of (children t) s of Some c \<Rightarrow> c | None \<Rightarrow> trie_root) rest kv c"
  shows "inserted R t pk kv (InsertOk, with_children (AList.update s c (children t)) t)"
proof -
  let ?t = "with_children (AList.update s c (children t)) t"
  have "trie_ok R ?t"
    using trie_ok_update_child [OF assms(1,5) _ _ assms(6)] assms(7) by (simp add: own_inserted_def)
  moreover have "count_values ?t = count_values t + 1"
    using count_update_child(1) [of t s c] count_update_child(2) [of t s _ c] assms(7)
    by (cases "map_of (children t) s") (fastforce simp: own_inserted_def)+
  moreover have "slot R t k = slot R (case map_of (children t) s of Some c \<Rightarrow> c | None \<Rightarrow> trie_root) r"
    if "lit_edge s k = Some r" for k r
    using lit_edge_slot [OF that, of R t] by (cases "map_of (children t) s") simp_all
  note edge_change [OF lit_edge_ok assms(2,3) lit_edge_changed this own_inserted_slot [OF assms(7)]]
  ultimately show ?thesis by (intro insertedI assms(2,4)) simp_all
qed

lemma insert_spec_Rgx:
  assumes "regex_documented R" and "trie_ok R t" and step: "key_step pk = Rgx pos s rest"
    and IH: "\<And>c. trie_ok R c \<Longrightarrow> inserted R c rest (key, v) (insert_recursive R c rest key v)"
  shows "inserted R t pk (key, v) (insert_recursive R t pk key v)"
proof (cases "anchored_segment R s")
  case None
  then have "\<not> wf_key R pk" using wf_key_Rgx [OF step, of R] by (simp add: compiled_segment_def)
  with None show ?thesis by (simp add: insert_step_Rgx [OF step] inserted_bad)
next
  case (Some a)
  have edge: "rx_edge s pk = Some rest" using step by (simp add: rx_edge_def)
  show ?thesis
  proof (cases "regexp_position R a (regexps t)")
    case (Some i)
    let ?c = "snd (regexps t ! i)"
    have "compiled_segment R s \<noteq> None"
      using trie_ok_regexp(3) [OF assms(2) Some] regexp_position_Some(2) [OF Some] \<open>anchored_segment R s = Some a\<close>
      by (simp add: compiled_segment_def pattern_ok_def)
    then have wf: "wf_key R pk \<longleftrightarrow> (0 < pos \<longrightarrow> wf_key R rest)" using wf_key_Rgx [OF step, of R] by simp
    have c: "trie_ok R ?c" by (rule trie_ok_regexp(1) [OF assms(2) Some])
    have slot: "slot R t pk = slot R ?c rest"
      using rx_edge_slot [OF \<open>anchored_segment R s = Some a\<close> edge, of t] regexp_position_Some(3) [OF Some] by simp
    have new: "own_inserted R ?c rest (key, v) c' \<Longrightarrow> slot R ?c rest = None \<Longrightarrow> wf_key R pk \<Longrightarrow>
        inserted R t pk (key, v) (InsertOk, with_regexps ((regexps t)[i := (fst (regexps t ! i), c')]) t)" for c'
      using inserted_behind_regexp [OF assms(2) _ edge _ \<open>anchored_segment R s = Some a\<close> Some] slot by simp
    have same: "(regexps t)[i := (fst (regexps t ! i), ?c)] = regexps t" by simp
    show ?thesis
    proof (cases "0 < pos")
      case True
      obtain res c' where r: "insert_recursive R ?c rest key v = (res, c')" by (cases "insert_recursive R ?c rest key v")
      have eq: "insert_recursive R t pk key v = (res, with_regexps ((regexps t)[i := (fst (regexps t ! i), c')]) t)"
        using True by (simp add: insert_step_Rgx [OF step] \<open>anchored_segment R s = Some a\<close> Some r)
      have "inserted R ?c rest (key, v) (res, c')" using IH [OF c] r by simp
      then show ?thesis
      proof (cases rule: inserted_cases)
        case bad
        then show ?thesis using True wf same by (simp add: eq inserted_bad)
      next
        case old
        then show ?thesis using True wf slot same by (simp add: eq inserted_old)
      next
        case new': new
        then show ?thesis using True wf new by (simp add: eq)
      qed
    next
      case False
      then have rest: "rest = []" using key_step_Rgx(6) [OF step] by simp
      show ?thesis
      proof (cases "key_value ?c")
        case None
        then show ?thesis
          using False wf slot rest new insert_own_value_ok [OF c None]
          by (simp add: insert_step_Rgx [OF step] \<open>anchored_segment R s = Some a\<close> Some insert_own_value_def slot_cases
              key_step_others)
      next
        case (Some kv)
        then have "slot R t pk \<noteq> None" using slot rest by (simp add: slot_cases key_step_others)
        then show ?thesis
          using False wf Some same \<open>regexp_position R a (regexps t) = Some i\<close>
          by (simp add: insert_step_Rgx [OF step] \<open>anchored_segment R s = Some a\<close> insert_own_value_def inserted_old)
      qed
    qed
  next
    case None
    have slot: "slot R t pk = None"
      using rx_edge_slot [OF Some edge, of t] None by (simp add: regexp_position_None)
    show ?thesis
    proof (cases "compiled_segment R s")
      case None
      then have "\<not> wf_key R pk" using wf_key_Rgx [OF step, of R] by simp
      then show ?thesis
        using None \<open>regexp_position R a (regexps t) = None\<close> Some by (simp add: insert_step_Rgx [OF step] inserted_bad)
    next
      case (Some r)
      then have b: "rx_build R a = Some r" using \<open>anchored_segment R s = Some a\<close> by (simp add: compiled_segment_def)
      then have as: "rx_as_str R r = a" using assms(1) by (simp add: regex_documented_def)
      have "pattern_ok R r"
        using b as \<open>anchored_segment R s = Some a\<close> key_step_Rgx(4,7) [OF step] by (auto simp: pattern_ok_def)
      note new = inserted_new_regexp [OF assms(2) _ edge \<open>anchored_segment R s = Some a\<close> None this as]
      note eq = insert_step_Rgx [OF step, of R t key v, unfolded \<open>anchored_segment R s = Some a\<close> None Some option.case]
      show ?thesis
      proof (cases "0 < pos")
        case True
        obtain res c' where r: "insert_recursive R trie_root rest key v = (res, c')"
          by (cases "insert_recursive R trie_root rest key v")
        have "inserted R trie_root rest (key, v) (res, c')" using IH [of trie_root] r by simp
        then show ?thesis
        proof (cases rule: inserted_cases)
          case bad
          then show ?thesis using True wf_key_Rgx [OF step, of R] by (simp add: eq r inserted_bad)
        next
          case new': new
          then show ?thesis using True wf_key_Rgx [OF step, of R] Some new by (simp add: eq r)
        qed simp
      next
        case False
        then have "rest = []" using key_step_Rgx(6) [OF step] by simp
        moreover have "own_inserted R trie_root [] (key, v) (trie_new key v)" by (simp add: own_inserted_def)
        ultimately show ?thesis
          using False wf_key_Rgx [OF step, of R] Some new [of "(key, v)" "trie_new key v"] by (simp add: eq)
      qed
    qed
  qed
qed

lemma insert_spec_Lit:
  assumes "trie_ok R t" and step: "key_step pk = Lit s rest"
    and IH: "\<And>c. trie_ok R c \<Longrightarrow> inserted R c rest (key, v) (insert_recursive R c rest key v)"
  shows "inserted R t pk (key, v) (insert_recursive R t pk key v)"
proof -
  let ?c = "case map_of (children t) s of Some c \<Rightarrow> c | None \<Rightarrow> trie_root"
  have edge: "lit_edge s pk = Some rest" using step by (simp add: lit_edge_def)
  have s: "label_key s" by (rule key_step_label [OF step])
  note wf = wf_key_Lit [OF step, of R]
  have slot: "slot R t pk = slot R ?c rest"
    using lit_edge_slot [OF edge, of R t] by (cases "map_of (children t) s") simp_all
  note new = inserted_behind_child [OF assms(1) _ edge _ s]
  note eq = insert_step_Lit [OF step, of R t key v]
  show ?thesis
  proof (cases "DOT \<in> set s")
    case True
    obtain res c' where r: "insert_recursive R ?c rest key v = (res, c')" by (cases "insert_recursive R ?c rest key v")
    have "trie_ok R ?c" using trie_ok_child(1) [OF assms(1)] by (cases "map_of (children t) s") simp_all
    then have "inserted R ?c rest (key, v) (res, c')" using IH r by metis
    then show ?thesis
    proof (cases rule: inserted_cases)
      case bad
      then show ?thesis
        using True wf r by (cases "map_of (children t) s") (simp_all add: eq inserted_bad alist_update_same)
    next
      case old
      then show ?thesis
        using True wf slot r by (cases "map_of (children t) s") (simp_all add: eq inserted_old alist_update_same)
    next
      case new': new
      then have "slot R c' [] = slot R ?c []" using own_inserted_slot [OF new'(4), of "[]"] by auto
      moreover have "key_value ?c = None"
        using trie_ok_child(3) [OF assms(1), of s] True by (cases "map_of (children t) s") (simp_all add: leaf_key_def trie_root_def)
      ultimately have "leaf_key s c'" using True by (simp add: leaf_key_def slot_Nil)
      with new' show ?thesis
        using True wf slot r new [of c' "(key, v)"] by (cases "map_of (children t) s") (simp_all add: eq)
    qed
  next
    case False
    then have rest: "rest = []" using key_step_Lit(3) [OF step] by simp
    show ?thesis
    proof (cases "map_of (children t) s")
      case None
      have "own_inserted R trie_root [] (key, v) (trie_new key v)" by (simp add: own_inserted_def)
      then show ?thesis
        using None False wf slot rest new [of "trie_new key v" "(key, v)"] by (simp add: eq leaf_key_def trie_new_def [of key v])
    next
      case (Some c)
      then obtain kv where "c = TrieNode (Some kv) None [] []" using trie_ok_child(3) [OF assms(1) Some] False by (auto simp: leaf_key_def)
      then show ?thesis
        using Some False wf slot rest by (simp add: eq inserted_old slot_cases key_step_others)
    qed
  qed
qed

lemma insert_recursive_spec:
  assumes "regex_documented R" and "trie_ok R t"
  shows "inserted R t pk (key, v) (insert_recursive R t pk key v)"
  using assms(2)
proof (induction pk arbitrary: t rule: measure_induct_rule [of length])
  case (less pk)
  show ?case
  proof (cases "key_step pk")
    case Own
    then show ?thesis by (simp add: insert_step_others key_step_others inserted_def)
  next
    case Bad
    then have "\<not> wf_key R pk" by (subst wf_key.simps) simp
    with Bad show ?thesis by (simp add: insert_step_others inserted_def)
  next
    case Star
    then have "wf_key R pk" by (subst wf_key.simps) simp
    moreover have "pk = [STAR]" using Star by (simp add: key_step_others)
    ultimately show ?thesis
      using Star less.prems
      by (auto simp: insert_step_others slot_cases inserted_def trie_ok_values slot_with_wildcard count_values_fields [of t]
          count_values_fields [of "with_wildcard x t" for x])
  next
    case (Rgx pos s rest)
    then show ?thesis using insert_spec_Rgx [OF assms(1) less.prems Rgx less.IH [OF key_step_less(1) [OF Rgx]]] by simp
  next
    case (Lit s rest)
    then show ?thesis using insert_spec_Lit [OF less.prems Lit less.IH [OF key_step_less(2) [OF Lit]]] by simp
  qed
qed

subsection \<open>Removal\<close>

lemma remove_step_Rgx:
  assumes "key_step pk = Rgx pos s rest"
  shows "remove_recursive R t pk =
    (case anchored_segment R s of
       None \<Rightarrow> (NotFound, t)
     | Some a \<Rightarrow>
         (case regexp_position R a (regexps t) of
            None \<Rightarrow> (NotFound, t)
          | Some i \<Rightarrow>
              (case remove_recursive R (snd (regexps t ! i)) rest of
                 (res, c) \<Rightarrow>
                   if res = RemoveOk then
                     (RemoveOk, with_regexps
                        (if trie_is_empty c then take i (regexps t) @ drop (i + 1) (regexps t)
                         else (regexps t)[i := (fst (regexps t ! i), c)]) t)
                   else (NotFound, with_regexps ((regexps t)[i := (fst (regexps t ! i), c)]) t))))"
proof -
  have "pk \<noteq> [STAR]" using key_step_Rgx(1) [OF assms] by auto
  then show ?thesis
    using key_step_Rgx(1-3) [OF assms] key_step_Rgx_rest [OF assms]
    by (subst remove_recursive.simps) (simp add: Let_def case_prod_beta split: option.split)
qed

lemma remove_step_Lit:
  assumes "key_step pk = Lit s rest"
  shows "remove_recursive R t pk =
    (case map_of (children t) s of
       None \<Rightarrow> (NotFound, t)
     | Some c \<Rightarrow>
         (case remove_recursive R c rest of
            (res, c) \<Rightarrow>
              if res = RemoveOk then
                (RemoveOk, with_children
                   (if trie_is_empty c then AList.delete s (children t) else AList.update s c (children t)) t)
              else (NotFound, with_children (AList.update s c (children t)) t)))"
proof -
  have "(case find_last_dot pk of None \<Rightarrow> ([], pk) | Some pos \<Rightarrow> (take pos pk, drop pos pk)) = (rest, s)"
    using key_step_LitD(4-6) [OF assms] key_step_Lit(3) [OF assms] by auto
  then show ?thesis
    using key_step_LitD(1-3) [OF assms]
    by (subst remove_recursive.simps) (simp add: Let_def case_prod_beta split: option.split)
qed

lemma remove_step_others:
  "remove_recursive R t [] = (if key_value t \<noteq> None then (RemoveOk, with_key_value None t) else (NotFound, t))"
  "remove_recursive R t [STAR] = (if wildcard t \<noteq> None then (RemoveOk, with_wildcard None t) else (NotFound, t))"
  "key_step pk = Bad \<Longrightarrow> remove_recursive R t pk = (NotFound, t)"
proof -
  show "remove_recursive R t [] = (if key_value t \<noteq> None then (RemoveOk, with_key_value None t) else (NotFound, t))"
    by (subst remove_recursive.simps) (simp only: if_True simp_thms)
  show "remove_recursive R t [STAR] = (if wildcard t \<noteq> None then (RemoveOk, with_wildcard None t) else (NotFound, t))"
    by (subst remove_recursive.simps) (simp only: if_True list.distinct if_False simp_thms)
  assume "key_step pk = Bad"
  then have "pk \<noteq> []" "pk \<noteq> [STAR]" "last pk = SLASH" "regex_segment pk = None"
    by (auto simp: key_step_def split: if_splits option.splits)
  then show "remove_recursive R t pk = (NotFound, t)" by (subst remove_recursive.simps) simp
qed

text \<open>Removal of the key \<open>pk\<close>, which may be the rest of a stored key and so empty.\<close>

definition removed :: "'r RegexCrate \<Rightarrow> ('r, 'v) TrieNode \<Rightarrow> bytes \<Rightarrow> RemoveResult \<times> ('r, 'v) TrieNode \<Rightarrow> bool" where
  "removed R t pk result \<longleftrightarrow>
     (if slot R t pk = None then result = (NotFound, t)
      else (\<exists>t'. result = (RemoveOk, t') \<and> trie_ok R t' \<and> count_values t' + 1 = count_values t \<and>
        (\<forall>k. k = [] \<or> wf_key R k \<longrightarrow> slot R t' k = (if k = pk then None else slot R t k))))"

lemma removed_cases:
  assumes "removed R t pk (res, t')"
  obtains (absent) "slot R t pk = None" "res = NotFound" "t' = t"
  | (gone) "slot R t pk \<noteq> None" "res = RemoveOk" "trie_ok R t'" "count_values t' + 1 = count_values t"
      "\<forall>k. k = [] \<or> wf_key R k \<longrightarrow> slot R t' k = (if k = pk then None else slot R t k)"
proof (cases "slot R t pk = None")
  case True
  with assms show ?thesis by (intro absent) (simp_all add: removed_def)
next
  case False
  with assms have "res = RemoveOk \<and> trie_ok R t' \<and> count_values t' + 1 = count_values t \<and>
      (\<forall>k. k = [] \<or> wf_key R k \<longrightarrow> slot R t' k = (if k = pk then None else slot R t k))"
    unfolding removed_def by (simp only: if_False prod.inject ex_simps simp_thms) blast
  with False show ?thesis by (intro gone) blast+
qed

lemma slot_empty: "trie_is_empty t \<Longrightarrow> slot R t pk = None"
  using trie_root_ok(3) [of R pk] by (cases t) (simp add: trie_is_empty_def trie_root_def)

lemma removedI:
  assumes "wf_key R pk" and "slot R t pk \<noteq> None" and "trie_ok R t'" and "count_values t' + 1 = count_values t"
    and "\<forall>k. wf_key R k \<longrightarrow> slot R t' k = (if k = pk then None else slot R t k)" and "slot R t' [] = slot R t []"
  shows "removed R t pk (RemoveOk, t')"
proof -
  have "pk \<noteq> []" using assms(1) by auto
  with assms show ?thesis by (simp add: removed_def)
qed

lemma removed_behind_regexp:
  assumes "trie_ok R t" and "wf_key R pk" and "rx_edge s pk = Some rest"
    and "anchored_segment R s = Some a" and "regexp_position R a (regexps t) = Some i"
    and "removed R (snd (regexps t ! i)) rest (RemoveOk, c)"
  shows "removed R t pk (RemoveOk, with_regexps
      (if trie_is_empty c then take i (regexps t) @ drop (i + 1) (regexps t)
       else (regexps t)[i := (fst (regexps t ! i), c)]) t)"
    (is "removed R t pk (RemoveOk, ?t)")
proof -
  let ?c = "snd (regexps t ! i)"
  from assms(6) have c: "slot R ?c rest \<noteq> None" "trie_ok R c" "count_values c + 1 = count_values ?c"
    "\<And>k. k = [] \<or> wf_key R k \<Longrightarrow> slot R c k = (if k = rest then None else slot R ?c k)"
    by (cases rule: removed_cases; blast)+
  have old: "slot R t k = slot R ?c r" if "rx_edge s k = Some r" for k r
    using rx_edge_slot [OF assms(4) that, of t] regexp_position_Some(3) [OF assms(5)] by simp
  have d: "distinct (map (\<lambda>e. rx_as_str R (fst e)) (regexps t))" using assms(1) by (simp add: trie_ok_fields [of R t])
  have changed: "slot R ?t k = (case rx_edge s k of Some r \<Rightarrow> slot R c r | None \<Rightarrow> slot R t k)" for k
    using rx_edge_changed [OF assms(4) pattern_replace [OF d assms(5)], of c k]
      rx_edge_changed [OF assms(4) pattern_drop [OF d assms(5)], of k] slot_empty [of c R]
    by (cases "rx_edge s k") simp_all
  have "trie_ok R ?t"
    using trie_ok_drop_regexp [OF assms(1), of i] trie_ok_replace_regexp [OF assms(1,5) c(2)] trie_empty_count [OF c(2)] by simp
  moreover have "count_values ?t + 1 = count_values t"
    using count_regexps(1) [OF assms(5), of "fst (regexps t ! i)" c] count_regexps(2) [OF assms(5)] c(3)
      trie_empty_count [OF c(2)] by auto
  moreover note edge_change [OF rx_edge_ok assms(2,3) changed old c(4)]
  ultimately show ?thesis using c(1) old [OF assms(3)] by (intro removedI assms(2)) simp_all
qed

lemma removed_behind_child:
  assumes "trie_ok R t" and "wf_key R pk" and "lit_edge s pk = Some rest"
    and "map_of (children t) s = Some c0" and "label_key s"
    and "removed R c0 rest (RemoveOk, c)"
  shows "removed R t pk (RemoveOk, with_children
      (if trie_is_empty c then AList.delete s (children t) else AList.update s c (children t)) t)"
    (is "removed R t pk (RemoveOk, ?t)")
proof -
  from assms(6) have c: "slot R c0 rest \<noteq> None" "trie_ok R c" "count_values c + 1 = count_values c0"
    "\<And>k. k = [] \<or> wf_key R k \<Longrightarrow> slot R c k = (if k = rest then None else slot R c0 k)"
    by (cases rule: removed_cases; blast)+
  have old: "slot R t k = slot R c0 r" if "lit_edge s k = Some r" for k r
    using lit_edge_slot [OF that, of R t] assms(4) by simp
  have d: "distinct (map fst (children t))" using assms(1) by (simp add: trie_ok_fields [of R t])
  have "slot R (with_children (AList.delete s (children t)) t) k =
      (case lit_edge s k of Some r \<Rightarrow> None | None \<Rightarrow> slot R t k)" for k
    unfolding slot_delete_child [OF d] by (simp add: lit_edge_def split: key_step.split)
  then have changed: "slot R ?t k = (case lit_edge s k of Some r \<Rightarrow> slot R c r | None \<Rightarrow> slot R t k)" for k
    using lit_edge_changed [of R s c t k] slot_empty [of c R] by (cases "lit_edge s k") simp_all
  have leaf: "leaf_key s c" if "\<not> trie_is_empty c"
  proof (cases "DOT \<in> set s")
    case True
    then have "key_value c0 = None" using trie_ok_child(3) [OF assms(1,4)] by (simp add: leaf_key_def)
    then show ?thesis using c(4) [of "[]"] True by (simp add: leaf_key_def slot_Nil)
  next
    case False
    then have "count_values c0 = 1" using trie_ok_child(3) [OF assms(1,4)] by (auto simp: leaf_key_def)
    with c(3) trie_empty_count [OF c(2)] that show ?thesis by simp
  qed
  have "trie_ok R ?t"
    using trie_ok_delete_child [OF assms(1), of s] trie_ok_update_child [OF assms(1,5) c(2) _ leaf]
      trie_empty_count [OF c(2)] by simp
  moreover have "count_values ?t + 1 = count_values t"
    using count_update_child(2) [OF assms(4), of c] count_delete_child [OF assms(1,4)] c(3) trie_empty_count [OF c(2)] by auto
  moreover note edge_change [OF lit_edge_ok assms(2,3) changed old c(4)]
  ultimately show ?thesis using c(1) old [OF assms(3)] by (intro removedI assms(2)) simp_all
qed

lemma remove_recursive_spec:
  assumes "trie_ok R t" and "pk = [] \<or> wf_key R pk"
  shows "removed R t pk (remove_recursive R t pk)"
  using assms
proof (induction pk arbitrary: t rule: measure_induct_rule [of length])
  case (less pk)
  show ?case
  proof (cases "key_step pk")
    case Own
    then have "pk = []" by (simp add: key_step_others)
    then show ?thesis
      using less.prems(1) slot_cases(1) [of "[]" R t]
      by (auto simp: remove_step_others removed_def trie_ok_values slot_with_key_value key_step_others
          count_values_fields [of t] count_values_fields [of "with_key_value x t" for x])
  next
    case Star
    then have "pk = [STAR]" by (simp add: key_step_others)
    then show ?thesis
      using less.prems(1) slot_cases(2) [of "[STAR]" R t]
      by (auto simp: remove_step_others removed_def trie_ok_values slot_with_wildcard key_step_others
          count_values_fields [of t] count_values_fields [of "with_wildcard x t" for x])
  next
    case Bad
    then show ?thesis by (simp add: remove_step_others removed_def slot_cases)
  next
    case (Rgx pos s rest)
    have "pk \<noteq> []" using Rgx by (auto simp: key_step_others(1) [symmetric])
    then have wf: "wf_key R pk" using less.prems(2) by simp
    then obtain a where a: "anchored_segment R s = Some a"
      using wf_key_Rgx [OF Rgx, of R] by (auto dest: compiled_anchored)
    have edge: "rx_edge s pk = Some rest" using Rgx by (simp add: rx_edge_def)
    show ?thesis
    proof (cases "regexp_position R a (regexps t)")
      case None
      then have "slot R t pk = None" using rx_edge_slot [OF a edge, of t] by (simp add: regexp_position_None)
      with None show ?thesis by (simp add: remove_step_Rgx [OF Rgx] a removed_def)
    next
      case (Some i)
      obtain res c where r: "remove_recursive R (snd (regexps t ! i)) rest = (res, c)"
        by (cases "remove_recursive R (snd (regexps t ! i)) rest")
      have "rest = [] \<or> wf_key R rest" using rx_edge_ok [of R s] wf edge unfolding edge_ok_def by blast
      then have IH: "removed R (snd (regexps t ! i)) rest (res, c)"
        using less.IH [OF key_step_less(1) [OF Rgx] trie_ok_regexp(1) [OF less.prems(1) Some]] r by simp
      then show ?thesis
      proof (cases rule: removed_cases)
        case absent
        moreover have "slot R t pk = slot R (snd (regexps t ! i)) rest"
          using rx_edge_slot [OF a edge, of t] regexp_position_Some(3) [OF Some] by simp
        ultimately show ?thesis by (simp add: remove_step_Rgx [OF Rgx] a Some r removed_def)
      next
        case gone
        then show ?thesis
          using removed_behind_regexp [OF less.prems(1) wf edge a Some] IH by (simp add: remove_step_Rgx [OF Rgx] a Some r)
      qed
    qed
  next
    case (Lit s rest)
    have "pk \<noteq> []" using Lit by (auto simp: key_step_others(1) [symmetric])
    then have wf: "wf_key R pk" using less.prems(2) by simp
    have edge: "lit_edge s pk = Some rest" using Lit by (simp add: lit_edge_def)
    have s: "label_key s" by (rule key_step_label [OF Lit])
    show ?thesis
    proof (cases "map_of (children t) s")
      case None
      then show ?thesis using lit_edge_slot [OF edge, of R t] by (simp add: remove_step_Lit [OF Lit] removed_def)
    next
      case (Some c0)
      obtain res c where r: "remove_recursive R c0 rest = (res, c)" by (cases "remove_recursive R c0 rest")
      have "rest = [] \<or> wf_key R rest" using lit_edge_ok [of R s] wf edge unfolding edge_ok_def by blast
      then have IH: "removed R c0 rest (res, c)"
        using less.IH [OF key_step_less(2) [OF Lit] trie_ok_child(1) [OF less.prems(1) Some]] r by simp
      then show ?thesis
      proof (cases rule: removed_cases)
        case absent
        moreover have "slot R t pk = slot R c0 rest" using lit_edge_slot [OF edge, of R t] Some by simp
        ultimately show ?thesis by (simp add: remove_step_Lit [OF Lit] Some r removed_def alist_update_same)
      next
        case gone
        then show ?thesis
          using removed_behind_child [OF less.prems(1) wf edge Some s] IH by (simp add: remove_step_Lit [OF Lit] Some r)
      qed
    qed
  qed
qed

subsection \<open>Access by key\<close>

lemma lookup_mut_Rgx:
  assumes "key_step pk = Rgx pos s rest"
  shows "lookup_mut R f t pk False =
    (case anchored_segment R s of
       None \<Rightarrow> (None, t)
     | Some a \<Rightarrow>
         (case regexp_position R a (regexps t) of
            None \<Rightarrow> (None, t)
          | Some i \<Rightarrow>
              (case lookup_mut R f (snd (regexps t ! i)) rest False of
                 (found, c) \<Rightarrow> (found, with_regexps ((regexps t)[i := (fst (regexps t ! i), c)]) t))))"
proof -
  have "pk \<noteq> [STAR]" using key_step_Rgx(1) [OF assms] by auto
  then show ?thesis
    using key_step_Rgx(1-3) [OF assms] key_step_Rgx_rest [OF assms]
    by (subst lookup_mut.simps) (simp add: Let_def case_prod_beta split: option.split)
qed

lemma lookup_mut_Lit:
  assumes "key_step pk = Lit s rest"
  shows "lookup_mut R f t pk False =
    (case map_of (children t) s of
       None \<Rightarrow> (None, t)
     | Some c \<Rightarrow>
         (case lookup_mut R f c rest False of
            (found, c) \<Rightarrow> (found, with_children (AList.update s c (children t)) t)))"
proof -
  have "(case find_last_dot pk of None \<Rightarrow> ([], pk) | Some pos \<Rightarrow> (take pos pk, drop pos pk)) = (rest, s)"
    using key_step_LitD(4-6) [OF assms] key_step_Lit(3) [OF assms] by auto
  then show ?thesis
    using key_step_LitD(1-3) [OF assms]
    by (subst lookup_mut.simps) (simp add: Let_def case_prod_beta split: option.split)
qed

lemma lookup_mut_others:
  "lookup_mut R f t [] aw = (key_value t, with_key_value (map_option f (key_value t)) t)"
  "lookup_mut R f t [STAR] aw = (wildcard t, with_wildcard (map_option f (wildcard t)) t)"
  "key_step pk = Bad \<Longrightarrow> lookup_mut R f t pk aw = (None, t)"
proof -
  show "lookup_mut R f t [] aw = (key_value t, with_key_value (map_option f (key_value t)) t)"
    by (subst lookup_mut.simps) (simp only: if_True simp_thms)
  show "lookup_mut R f t [STAR] aw = (wildcard t, with_wildcard (map_option f (wildcard t)) t)"
    by (subst lookup_mut.simps) (simp only: if_True list.distinct if_False simp_thms)
  assume "key_step pk = Bad"
  then have "pk \<noteq> []" "pk \<noteq> [STAR]" "last pk = SLASH" "regex_segment pk = None"
    by (auto simp: key_step_def split: if_splits option.splits)
  then show "lookup_mut R f t pk aw = (None, t)" by (subst lookup_mut.simps) simp
qed

definition accessed ::
  "'r RegexCrate \<Rightarrow> ('v KeyValue \<Rightarrow> 'v KeyValue) \<Rightarrow> ('r, 'v) TrieNode \<Rightarrow> bytes \<Rightarrow> 'v KeyValue option \<times> ('r, 'v) TrieNode \<Rightarrow> bool" where
  "accessed R f t pk result \<longleftrightarrow> fst result = slot R t pk \<and> trie_ok R (snd result) \<and>
     count_values (snd result) = count_values t \<and>
     (\<forall>k. k = [] \<or> wf_key R k \<longrightarrow> slot R (snd result) k = (if k = pk then map_option f (slot R t pk) else slot R t k))"

lemma accessedI:
  assumes "wf_key R pk" and "x = slot R t pk" and "trie_ok R t'" and "count_values t' = count_values t"
    and "\<forall>k. wf_key R k \<longrightarrow> slot R t' k = (if k = pk then map_option f (slot R t pk) else slot R t k)"
    and "slot R t' [] = slot R t []"
  shows "accessed R f t pk (x, t')"
proof -
  have "pk \<noteq> []" using assms(1) by auto
  with assms show ?thesis by (simp add: accessed_def)
qed

lemma accessed_behind_regexp:
  assumes "trie_ok R t" and "wf_key R pk" and "rx_edge s pk = Some rest"
    and "anchored_segment R s = Some a" and "regexp_position R a (regexps t) = Some i"
    and "accessed R f (snd (regexps t ! i)) rest (x, c)"
  shows "accessed R f t pk (x, with_regexps ((regexps t)[i := (fst (regexps t ! i), c)]) t)" (is "accessed R f t pk (x, ?t)")
proof -
  let ?c = "snd (regexps t ! i)"
  have c: "x = slot R ?c rest" "trie_ok R c" "count_values c = count_values ?c"
    "\<And>k. k = [] \<or> wf_key R k \<Longrightarrow> slot R c k = (if k = rest then map_option f (slot R ?c rest) else slot R ?c k)"
    using assms(6) unfolding accessed_def fst_conv snd_conv by blast+
  have old: "slot R t k = slot R ?c r" if "rx_edge s k = Some r" for k r
    using rx_edge_slot [OF assms(4) that, of t] regexp_position_Some(3) [OF assms(5)] by simp
  have d: "distinct (map (\<lambda>e. rx_as_str R (fst e)) (regexps t))" using assms(1) by (simp add: trie_ok_fields [of R t])
  have changed: "slot R ?t k = (case rx_edge s k of Some r \<Rightarrow> slot R c r | None \<Rightarrow> slot R t k)" for k
    using rx_edge_changed [OF assms(4) pattern_replace [OF d assms(5)], of c k] by (cases "rx_edge s k") simp_all
  have "trie_ok R ?t"
    using trie_ok_replace_regexp [OF assms(1,5) c(2)] c(3) trie_ok_regexp(2) [OF assms(1,5)] by simp
  moreover have "count_values ?t = count_values t"
    using count_regexps(1) [OF assms(5), of "fst (regexps t ! i)" c] c(3) by simp
  moreover note edge_change [OF rx_edge_ok assms(2,3) changed old c(4)]
  ultimately show ?thesis using c(1) old [OF assms(3)] by (intro accessedI assms(2)) simp_all
qed

lemma accessed_behind_child:
  assumes "trie_ok R t" and "wf_key R pk" and "lit_edge s pk = Some rest"
    and "map_of (children t) s = Some c0" and "label_key s" and "leaf_key s c"
    and "accessed R f c0 rest (x, c)"
  shows "accessed R f t pk (x, with_children (AList.update s c (children t)) t)" (is "accessed R f t pk (x, ?t)")
proof -
  have c: "x = slot R c0 rest" "trie_ok R c" "count_values c = count_values c0"
    "\<And>k. k = [] \<or> wf_key R k \<Longrightarrow> slot R c k = (if k = rest then map_option f (slot R c0 rest) else slot R c0 k)"
    using assms(7) unfolding accessed_def fst_conv snd_conv by blast+
  have old: "slot R t k = slot R c0 r" if "lit_edge s k = Some r" for k r
    using lit_edge_slot [OF that, of R t] assms(4) by simp
  have "trie_ok R ?t"
    using trie_ok_update_child [OF assms(1,5) c(2) _ assms(6)] c(3) trie_ok_child(2) [OF assms(1,4)] by simp
  moreover have "count_values ?t = count_values t" using count_update_child(2) [OF assms(4), of c] c(3) by simp
  moreover note edge_change [OF lit_edge_ok assms(2,3) lit_edge_changed old c(4)]
  ultimately show ?thesis using c(1) old [OF assms(3)] by (intro accessedI assms(2)) simp_all
qed

lemma lookup_mut_spec:
  assumes "trie_ok R t" and "pk = [] \<or> wf_key R pk"
  shows "accessed R f t pk (lookup_mut R f t pk False)"
  using assms
proof (induction pk arbitrary: t rule: measure_induct_rule [of length])
  case (less pk)
  show ?case
  proof (cases "key_step pk")
    case Own
    then have "pk = []" by (simp add: key_step_others)
    then show ?thesis
      using less.prems(1) slot_cases(1) [of "[]" R t]
      by (cases "key_value t") (auto simp: lookup_mut_others accessed_def trie_ok_values slot_with_key_value key_step_others
          count_values_fields [of t] count_values_fields [of "with_key_value x t" for x])
  next
    case Star
    then have "pk = [STAR]" by (simp add: key_step_others)
    then show ?thesis
      using less.prems(1) slot_cases(2) [of "[STAR]" R t]
      by (cases "wildcard t") (auto simp: lookup_mut_others accessed_def trie_ok_values slot_with_wildcard key_step_others
          count_values_fields [of t] count_values_fields [of "with_wildcard x t" for x])
  next
    case Bad
    moreover have "pk \<noteq> []" using Bad by (auto simp: key_step_others(1) [symmetric])
    ultimately show ?thesis using less.prems by (auto simp: lookup_mut_others accessed_def slot_cases)
  next
    case (Rgx pos s rest)
    have "pk \<noteq> []" using Rgx by (auto simp: key_step_others(1) [symmetric])
    then have wf: "wf_key R pk" using less.prems(2) by simp
    then obtain a where a: "anchored_segment R s = Some a"
      using wf_key_Rgx [OF Rgx, of R] by (auto dest: compiled_anchored)
    have edge: "rx_edge s pk = Some rest" using Rgx by (simp add: rx_edge_def)
    have rest: "rest = [] \<or> wf_key R rest" using rx_edge_ok [of R s] wf edge unfolding edge_ok_def by blast
    show ?thesis
    proof (cases "regexp_position R a (regexps t)")
      case None
      then have "slot R t pk = None" using rx_edge_slot [OF a edge, of t] by (simp add: regexp_position_None)
      with None show ?thesis using less.prems(1) \<open>pk \<noteq> []\<close> by (auto simp: lookup_mut_Rgx [OF Rgx] a accessed_def)
    next
      case (Some i)
      obtain x c where r: "lookup_mut R f (snd (regexps t ! i)) rest False = (x, c)"
        by (cases "lookup_mut R f (snd (regexps t ! i)) rest False")
      have "accessed R f (snd (regexps t ! i)) rest (x, c)"
        using less.IH [OF key_step_less(1) [OF Rgx] trie_ok_regexp(1) [OF less.prems(1) Some] rest] r by simp
      then show ?thesis
        using accessed_behind_regexp [OF less.prems(1) wf edge a Some] by (simp add: lookup_mut_Rgx [OF Rgx] a Some r)
    qed
  next
    case (Lit s rest)
    have "pk \<noteq> []" using Lit by (auto simp: key_step_others(1) [symmetric])
    then have wf: "wf_key R pk" using less.prems(2) by simp
    have edge: "lit_edge s pk = Some rest" using Lit by (simp add: lit_edge_def)
    have s: "label_key s" by (rule key_step_label [OF Lit])
    have rest: "rest = [] \<or> wf_key R rest" using lit_edge_ok [of R s] wf edge unfolding edge_ok_def by blast
    show ?thesis
    proof (cases "map_of (children t) s")
      case None
      then show ?thesis
        using lit_edge_slot [OF edge, of R t] less.prems(1) \<open>pk \<noteq> []\<close>
        by (auto simp: lookup_mut_Lit [OF Lit] accessed_def)
    next
      case (Some c0)
      obtain x c where r: "lookup_mut R f c0 rest False = (x, c)" by (cases "lookup_mut R f c0 rest False")
      have "accessed R f c0 rest (x, c)"
        using less.IH [OF key_step_less(2) [OF Lit] trie_ok_child(1) [OF less.prems(1) Some] rest] r by simp
      moreover have "leaf_key s c"
      proof (cases "DOT \<in> set s")
        case True
        then have "key_value c0 = None" using trie_ok_child(3) [OF less.prems(1) Some] by (simp add: leaf_key_def)
        then show ?thesis using \<open>accessed R f c0 rest (x, c)\<close> True by (auto simp: leaf_key_def accessed_def slot_Nil)
      next
        case False
        then obtain kv where "c0 = TrieNode (Some kv) None [] []" "rest = []"
          using trie_ok_child(3) [OF less.prems(1) Some] key_step_Lit(3) [OF Lit] by (auto simp: leaf_key_def)
        with r False show ?thesis by (auto simp: lookup_mut_others trie_with leaf_key_def)
      qed
      ultimately show ?thesis
        using accessed_behind_child [OF less.prems(1) wf edge Some s] by (simp add: lookup_mut_Lit [OF Lit] Some r)
    qed
  qed
qed

subsection \<open>Properties\<close>

text \<open>
  The tries a router builds from the empty one, whatever the keys and the order of the calls.
\<close>

inductive trie_reachable :: "'r RegexCrate \<Rightarrow> ('r, 'v) TrieNode \<Rightarrow> bool" for R where
  reach_root: "trie_reachable R trie_root"
| reach_insert: "trie_reachable R t \<Longrightarrow> trie_reachable R (snd (trie_insert R t key v))"
| reach_remove: "trie_reachable R t \<Longrightarrow> wf_key R key \<Longrightarrow> trie_reachable R (snd (trie_remove R t key))"
| reach_modify: "trie_reachable R t \<Longrightarrow> wf_key R key \<Longrightarrow> trie_reachable R (snd (lookup_mut R f t key False))"

text \<open>The map a trie stands for: the accepted keys and the entries stored for them.\<close>

definition trie_map :: "'r RegexCrate \<Rightarrow> ('r, 'v) TrieNode \<Rightarrow> bytes \<rightharpoonup> 'v KeyValue" where
  "trie_map R t key = (if wf_key R key then slot R t key else None)"

lemma trie_insert_spec:
  assumes "regex_documented R" and "trie_ok R t"
  shows "inserted R t key (key, v) (trie_insert R t key v)"
proof -
  have "\<not> wf_key R [DOT]"
    using wf_key_Lit [of "[DOT]" "[DOT]" "[]" R] by (simp add: key_step_def find_last_dot_def)
  then show ?thesis
    using insert_recursive_spec [OF assms, of key key v] by (auto simp: trie_insert_def inserted_bad)
qed

lemma trie_reachable_ok:
  assumes "trie_reachable R t" and "regex_documented R"
  shows "trie_ok R t"
  using assms(1)
proof induction
  case (reach_insert t key v)
  obtain res t' where r: "trie_insert R t key v = (res, t')" by (cases "trie_insert R t key v")
  have "inserted R t key (key, v) (res, t')" using trie_insert_spec [OF assms(2) reach_insert.IH] r by metis
  then show ?case using reach_insert.IH by (cases rule: inserted_cases) (auto simp: r own_inserted_def)
next
  case (reach_remove t key)
  obtain res t' where r: "remove_recursive R t key = (res, t')" by (cases "remove_recursive R t key")
  have "removed R t key (res, t')" using remove_recursive_spec [of R t key] reach_remove r by simp
  then show ?case using reach_remove.IH by (cases rule: removed_cases) (auto simp: r trie_remove_def)
next
  case (reach_modify t key f)
  then show ?case using lookup_mut_spec [of R t key f] by (simp add: accessed_def)
qed simp


text \<open>An engine for patterns without operators, which match exactly themselves.\<close>

definition rx_literal :: "bytes RegexCrate" where
  "rx_literal = \<lparr>rx_valid = (\<lambda>s. set s \<inter> set [0x28, 0x29, 0x2A, 0x2B, 0x3F, 0x5B, 0x5C, 0x5D, 0x7C] = {}),
     rx_build = Some, rx_as_str = id,
     rx_is_match = (\<lambda>p s. p = [0x5C, 0x41, 0x28, 0x3F, 0x3A] @ s @ [0x29, 0x5C, 0x7A])\<rparr>"

lemma rx_literal_documented: "regex_documented rx_literal"
  by (simp add: regex_documented_def rx_literal_def)

lemma trie_map_root: "trie_map R trie_root = Map.empty"
  by (simp add: trie_map_def fun_eq_iff)

lemma sample_keys: "wf_key rx_literal [0x61, DOT, 0x62]" "wf_key rx_literal [SLASH, 0x61, SLASH, DOT, 0x62]"
  by code_simp+


text \<open>
  the counting and the structural sweep of the debug builds hold on every trie a router can
  build: a successful insertion adds one value and a successful removal takes one away, no emptied
  subtree is left behind, and no node has two subtrees for one pattern.
\<close>

theorem trie_invariants_kept:
  assumes "regex_documented R" and "trie_reachable R t"
  shows "trie_check_invariants R t \<and>
    (case trie_insert R t key v of (res, t') \<Rightarrow>
      trie_check_invariants R t' \<and> count_values t' = count_values t + of_bool (res = InsertOk)) \<and>
    (wf_key R key \<longrightarrow> (case trie_remove R t key of (res, t') \<Rightarrow>
      trie_check_invariants R t' \<and> count_values t' + of_bool (res = RemoveOk) = count_values t)) \<and>
    (trie_is_empty t \<longleftrightarrow> count_values t = 0)"
proof (intro conjI impI)
  have ok: "trie_ok R t" by (rule trie_reachable_ok [OF assms(2,1)])
  then show "trie_check_invariants R t" "trie_is_empty t \<longleftrightarrow> count_values t = 0"
    by (rule trie_ok_checks, rule trie_empty_count)
  obtain res t' where r: "trie_insert R t key v = (res, t')" by (cases "trie_insert R t key v")
  have "inserted R t key (key, v) (res, t')" using trie_insert_spec [OF assms(1) ok] r by metis
  then show "case trie_insert R t key v of (res, t') \<Rightarrow>
      trie_check_invariants R t' \<and> count_values t' = count_values t + of_bool (res = InsertOk)"
    using trie_ok_checks [OF ok] by (cases rule: inserted_cases) (auto simp: r own_inserted_def intro: trie_ok_checks)
  assume "wf_key R key"
  then obtain res t' where r: "trie_remove R t key = (res, t')" "removed R t key (res, t')"
    using remove_recursive_spec [OF ok, of key] by (metis surj_pair trie_remove_def)
  from r(2) show "case trie_remove R t key of (res, t') \<Rightarrow>
      trie_check_invariants R t' \<and> count_values t' + of_bool (res = RemoveOk) = count_values t"
    using trie_ok_checks [OF ok] by (cases rule: removed_cases) (auto simp: r(1) intro: trie_ok_checks)
qed

theorem trie_invariants_kept_witness:
  "count_values (snd (trie_insert rx_literal trie_root [0x61, DOT, 0x62] (1 :: nat))) =
    of_bool (fst (trie_insert rx_literal trie_root [0x61, DOT, 0x62] (1 :: nat)) = InsertOk)"
  using trie_invariants_kept [OF rx_literal_documented reach_root, of "[0x61, DOT, 0x62]" "1 :: nat"] sample_keys
  by (simp add: case_prod_beta)

text \<open>
  A key that starts with a dot before a regular expression is refused by insertion, yet removal
  takes it for the key without the dot and deletes that entry.
\<close>

lemma remove_alias:
  "trie_insert rx_literal trie_root [DOT, SLASH, 0x61, SLASH] (1 :: nat) = (InsertFailed, trie_root) \<and>
   trie_remove rx_literal (snd (trie_insert rx_literal trie_root [SLASH, 0x61, SLASH] (1 :: nat))) [DOT, SLASH, 0x61, SLASH] =
     (RemoveOk, trie_root)"
  by code_simp

text \<open>The export of a trie leaves out the entries behind a regular expression.\<close>

lemma to_hashmap_omits_regexps:
  "count_values (snd (trie_insert rx_literal trie_root [SLASH, 0x61, SLASH] (1 :: nat))) = 1 \<and>
   to_hashmap (snd (trie_insert rx_literal trie_root [SLASH, 0x61, SLASH] (1 :: nat))) [SLASH, 0x61, SLASH] = None"
  by code_simp

end
