(* ===== verification/Router_Trie_Lookup.thy ===== *)
theory Router_Trie_Lookup
  imports Router_Trie_Map
begin

text \<open>
  The lookup of a request. The backtracking walk is the first accepted entry of a list of
  candidates, most specific first, and the segments it records are those of the answer, whichever
  sink records them.
\<close>

subsection \<open>Sinks\<close>

text \<open>
  What the walk relies on: a push appends what the sink keeps of a segment to what it holds, and a
  rewind to an earlier mark drops what was pushed since.
\<close>

locale sub_match_sink =
  fixes S :: "('s, 'r) SubMatchSink" and valid :: "'s \<Rightarrow> bool" and recorded :: "'s \<Rightarrow> 'm list"
    and obs :: "'r TrieSubMatch \<Rightarrow> 'm list"
  assumes push_recorded: "valid s \<Longrightarrow> valid (sink_push S x s) \<and> recorded (sink_push S x s) = recorded s @ obs x"
    and rewind_recorded: "valid s \<Longrightarrow> valid s' \<Longrightarrow> recorded s' = recorded s @ xs \<Longrightarrow>
      valid (sink_rewind S (sink_mark S s) s') \<and> recorded (sink_rewind S (sink_mark S s) s') = recorded s"

interpretation no_trace: sub_match_sink NoTrace "\<lambda>_. True" "\<lambda>_. [] :: unit list" "\<lambda>_. []"
  by unfold_locales simp_all

interpretation vec_sink: sub_match_sink TrieMatches "\<lambda>_. True" "\<lambda>s. s" "\<lambda>x. [x]"
  by unfold_locales (simp_all add: TrieMatches_def)

definition inline_ok :: "'r InlineTrieMatches \<Rightarrow> bool" where
  "inline_ok s \<longleftrightarrow> length (itm_inline s) = INLINE_TRIE_MATCHES \<and>
     (\<forall>i < min (itm_len s) INLINE_TRIE_MATCHES. itm_inline s ! i \<noteq> None) \<and>
     length (itm_spilled s) = itm_len s - INLINE_TRIE_MATCHES"

lemma inline_iter_eq:
  assumes "inline_ok s"
  shows "inline_iter s = map the (take (min (itm_len s) INLINE_TRIE_MATCHES) (itm_inline s)) @ itm_spilled s"
proof -
  have "List.map_filter id xs = map the xs" if "\<forall>x \<in> set xs. x \<noteq> None" for xs :: "'a TrieSubMatch option list"
    using that by (induction xs) (auto simp: List.map_filter_simps)
  moreover have "\<forall>x \<in> set (take (min (itm_len s) INLINE_TRIE_MATCHES) (itm_inline s)). x \<noteq> None"
    using assms by (auto simp: inline_ok_def in_set_conv_nth)
  ultimately show ?thesis by (simp add: inline_iter_def)
qed

lemma inline_new_ok: "inline_ok inline_new" "inline_iter inline_new = []"
  by (simp_all add: inline_ok_def inline_new_def inline_iter_def List.map_filter_simps)

lemma inline_push:
  assumes "inline_ok s"
  shows "inline_ok (sink_push inline_sink x s)" "inline_iter (sink_push inline_sink x s) = inline_iter s @ [x]"
proof -
  let ?s = "sink_push inline_sink x s"
  have len: "length (itm_inline s) = INLINE_TRIE_MATCHES" using assms by (simp add: inline_ok_def)
  show ok: "inline_ok ?s"
    using assms by (auto simp: inline_ok_def inline_sink_def Let_def nth_list_update less_Suc_eq min_def split: if_splits)
  show "inline_iter ?s = inline_iter s @ [x]"
  proof (cases "itm_len s < INLINE_TRIE_MATCHES")
    case True
    then have s: "?s = s\<lparr>itm_inline := (itm_inline s)[itm_len s := Some x], itm_len := itm_len s + 1\<rparr>" "itm_spilled s = []"
      using assms len by (simp_all add: inline_sink_def inline_ok_def)
    have "take (Suc (itm_len s)) ((itm_inline s)[itm_len s := Some x]) = take (itm_len s) (itm_inline s) @ [Some x]"
      using True len by (simp add: take_Suc_conv_app_nth)
    then show ?thesis
      unfolding inline_iter_eq [OF ok] inline_iter_eq [OF assms] using True s by simp
  next
    case False
    then show ?thesis
      using len by (simp add: inline_iter_eq [OF ok] inline_iter_eq [OF assms]) (simp add: inline_sink_def)
  qed
qed

lemma inline_length: "inline_ok s \<Longrightarrow> length (inline_iter s) = itm_len s"
  by (simp add: inline_iter_eq) (auto simp: inline_ok_def)

lemma inline_rewind:
  assumes "inline_ok s" and "n \<le> itm_len s"
  shows "inline_ok (sink_rewind inline_sink n s)" "inline_iter (sink_rewind inline_sink n s) = take n (inline_iter s)"
proof -
  show ok: "inline_ok (sink_rewind inline_sink n s)"
    using assms by (auto simp: inline_ok_def inline_sink_def)
  show "inline_iter (sink_rewind inline_sink n s) = take n (inline_iter s)"
    using assms by (simp add: inline_iter_eq [OF ok] inline_iter_eq [OF assms(1)])
      (simp add: inline_sink_def inline_ok_def take_map min_def)
qed

interpretation inline: sub_match_sink inline_sink inline_ok inline_iter "\<lambda>x. [x]"
proof
  fix s s' :: "'a InlineTrieMatches" and xs
  assume "inline_ok s" "inline_ok s'" and r: "inline_iter s' = inline_iter s @ xs"
  then have "itm_len s \<le> itm_len s'" using inline_length [of s] inline_length [of s'] by simp
  from inline_rewind [OF \<open>inline_ok s'\<close> this] show "inline_ok (sink_rewind inline_sink (sink_mark inline_sink s) s') \<and>
      inline_iter (sink_rewind inline_sink (sink_mark inline_sink s) s') = inline_iter s"
    using r inline_length [OF \<open>inline_ok s\<close>] by (simp add: inline_sink_def)
qed (simp_all add: inline_push)

subsection \<open>Candidates\<close>

text \<open>
  The entries that match a key, with the segments they matched, in the order of precedence: the
  literal child, the regular expressions in declaration order, the wildcard.
\<close>

function candidates :: "'r RegexCrate \<Rightarrow> ('r, 'v) TrieNode \<Rightarrow> bytes \<Rightarrow> bool \<Rightarrow> ('v KeyValue \<times> 'r TrieSubMatch list) list" where
  "candidates R t pk aw =
     (if pk = [] then (case key_value t of None \<Rightarrow> [] | Some kv \<Rightarrow> [(kv, [])])
      else
        let (prefix, suffix) =
              (case find_last_dot pk of None \<Rightarrow> ([], pk) | Some pos \<Rightarrow> (take pos pk, drop pos pk));
            segment = (if hd suffix = DOT then tl suffix else suffix)
        in (case map_of (children t) suffix of None \<Rightarrow> [] | Some c \<Rightarrow> candidates R c prefix aw) @
           concat (map (\<lambda>(r, c). if rx_is_match R r segment
             then map (\<lambda>(kv, ms). (kv, Regexp segment r # ms)) (candidates R c prefix aw) else []) (regexps t)) @
           (if prefix = [] \<and> aw then (case wildcard t of None \<Rightarrow> [] | Some kv \<Rightarrow> [(kv, [Wildcard segment])]) else []))"
  by pat_completeness auto

termination
  by (relation "measure (\<lambda>(R, t, pk, aw). length pk)") (auto dest: find_last_dot_less split: option.splits if_splits)

declare candidates.simps [simp del]

text \<open>The first candidate the predicate accepts, with the predicate's state threaded through.\<close>

fun first_accepted ::
  "('k \<Rightarrow> 'a \<Rightarrow> bool \<times> 'a) \<Rightarrow> ('k \<times> 'm) list \<Rightarrow> 'a \<Rightarrow> ('k \<times> 'm) option \<times> 'a" where
  "first_accepted accept [] st = (None, st)"
| "first_accepted accept ((kv, ms) # cs) st =
     (case accept kv st of (ok, st) \<Rightarrow> if ok then (Some (kv, ms), st) else first_accepted accept cs st)"

lemma first_accepted_append:
  "first_accepted accept (xs @ ys) st =
    (case first_accepted accept xs st of (Some x, st) \<Rightarrow> (Some x, st) | (None, st) \<Rightarrow> first_accepted accept ys st)"
  by (induction accept xs st rule: first_accepted.induct) (auto split: prod.splits)

lemma first_accepted_map:
  "first_accepted accept (map (\<lambda>(kv, ms). (kv, f ms)) cs) st =
    (case first_accepted accept cs st of (x, st) \<Rightarrow> (map_option (\<lambda>(kv, ms). (kv, f ms)) x, st))"
  by (induction accept cs st rule: first_accepted.induct) (auto split: prod.splits)

lemma candidates_Nil: "candidates R t [] aw = (case key_value t of None \<Rightarrow> [] | Some kv \<Rightarrow> [(kv, [])])"
  by (subst candidates.simps) (simp only: if_True simp_thms)

lemma lookup_recursive_Nil:
  "lookup_recursive R S t [] aw accept tr st =
    (case key_value t of
       None \<Rightarrow> (None, tr, st)
     | Some kv \<Rightarrow> (case accept kv st of (ok, st) \<Rightarrow> (if ok then Some kv else None, tr, st)))"
  by (subst lookup_recursive.simps) (simp only: if_True simp_thms)

text \<open>What a walk over some candidates yields, in terms of the segments a sink holds.\<close>

definition walked ::
  "('s \<Rightarrow> bool) \<Rightarrow> ('s \<Rightarrow> 'm list) \<Rightarrow> ('x \<Rightarrow> 'm list) \<Rightarrow> ('k \<Rightarrow> 'a \<Rightarrow> bool \<times> 'a) \<Rightarrow> ('k \<times> 'x list) list \<Rightarrow> 's \<Rightarrow> 'a \<Rightarrow>
     'k option \<times> 's \<times> 'a \<Rightarrow> bool" where
  "walked valid recorded obs accept cs tr st result \<longleftrightarrow>
     (case result of (found, tr', st') \<Rightarrow> valid tr' \<and>
       (case first_accepted accept cs st of
          (None, st2) \<Rightarrow> found = None \<and> recorded tr' = recorded tr \<and> st' = st2
        | (Some (kv, ms), st2) \<Rightarrow> found = Some kv \<and> recorded tr' = recorded tr @ concat (map obs ms) \<and> st' = st2))"

lemma walked_cases:
  assumes "walked valid recorded obs accept cs tr st result"
  obtains (miss) tr' st' where "result = (None, tr', st')" "valid tr'" "recorded tr' = recorded tr"
      "first_accepted accept cs st = (None, st')"
  | (hit) kv ms tr' st' where "result = (Some kv, tr', st')" "valid tr'" "recorded tr' = recorded tr @ concat (map obs ms)"
      "first_accepted accept cs st = (Some (kv, ms), st')"
  using assms unfolding walked_def by (auto split: prod.splits option.splits)

lemma walked_miss:
  "first_accepted accept cs st = (None, st') \<Longrightarrow> valid tr' \<Longrightarrow> recorded tr' = recorded tr \<Longrightarrow>
    walked valid recorded obs accept cs tr st (None, tr', st')"
  by (simp add: walked_def)

lemma walked_hit:
  "first_accepted accept cs st = (Some (kv, ms), st') \<Longrightarrow> valid tr' \<Longrightarrow> recorded tr' = recorded tr @ concat (map obs ms) \<Longrightarrow>
    walked valid recorded obs accept cs tr st (Some kv, tr', st')"
  by (simp add: walked_def)

lemma walked_append_hit:
  "first_accepted accept xs st = (Some (kv, ms), st') \<Longrightarrow> valid tr' \<Longrightarrow> recorded tr' = recorded tr @ concat (map obs ms) \<Longrightarrow>
    walked valid recorded obs accept (xs @ ys) tr st (Some kv, tr', st')"
  by (simp add: walked_def first_accepted_append)

lemma walked_append_miss:
  assumes "first_accepted accept xs st = (None, st1)" and "recorded tr1 = recorded tr"
    and "walked valid recorded obs accept ys tr1 st1 result"
  shows "walked valid recorded obs accept (xs @ ys) tr st result"
  using assms(3) by (cases rule: walked_cases) (use assms(1,2) in \<open>simp_all add: walked_def first_accepted_append\<close>)

context sub_match_sink
begin

lemma walked_regexps:
  assumes IH: "\<And>c tr st. valid tr \<Longrightarrow>
      walked valid recorded obs accept (candidates R c prefix aw) tr st (lookup_recursive R S c prefix aw accept tr st)"
    and "valid tr"
  shows "walked valid recorded obs accept (concat (map (\<lambda>(r, c). if rx_is_match R r segment
      then map (\<lambda>(kv, ms). (kv, Regexp segment r # ms)) (candidates R c prefix aw) else []) rs)) tr st
    (lookup_regexps R S rs segment prefix aw accept tr st)"
  using assms(2)
proof (induction rs arbitrary: tr st)
  case Nil
  then show ?case by (simp add: walked_def)
next
  case (Cons e rs)
  obtain r c where e: "e = (r, c)" by (cases e)
  show ?case
  proof (cases "rx_is_match R r segment")
    case False
    then show ?thesis using Cons by (simp add: e)
  next
    case True
    let ?tr = "sink_push S (Regexp segment r) tr"
    have p: "valid ?tr" "recorded ?tr = recorded tr @ obs (Regexp segment r)" using push_recorded [OF Cons.prems] by simp_all
    from IH [OF p(1), of c st] show ?thesis
    proof (cases rule: walked_cases)
      case (miss tr' st')
      let ?rewound = "sink_rewind S (sink_mark S tr) tr'"
      have b: "valid ?rewound" "recorded ?rewound = recorded tr"
        using rewind_recorded [OF Cons.prems miss(2), of "obs (Regexp segment r)"] miss(3) p(2) by simp_all
      have "first_accepted accept (map (\<lambda>(kv, ms). (kv, Regexp segment r # ms)) (candidates R c prefix aw)) st = (None, st')"
        using miss(4) by (simp add: first_accepted_map [where f = "(#) (Regexp segment r)"])
      from walked_append_miss [OF this b(2) Cons.IH [OF b(1)]] show ?thesis
        using miss(1) True by (simp add: e)
    next
      case (hit kv ms tr' st')
      have "first_accepted accept (map (\<lambda>(kv, ms). (kv, Regexp segment r # ms)) (candidates R c prefix aw)) st =
          (Some (kv, Regexp segment r # ms), st')"
        using hit(4) by (simp add: first_accepted_map [where f = "(#) (Regexp segment r)"])
      from walked_append_hit [OF this, of valid tr' recorded tr obs] show ?thesis
        using hit(1-3) True p(2) by (simp add: e)
    qed
  qed
qed

lemma walk:
  assumes "valid tr"
  shows "walked valid recorded obs accept (candidates R t pk aw) tr st (lookup_recursive R S t pk aw accept tr st)"
  using assms
proof (induction pk arbitrary: t tr st rule: measure_induct_rule [of length])
  case (less pk)
  show ?case
  proof (cases "pk = []")
    case True
    then show ?thesis
      using less.prems
      by (cases "key_value t") (auto simp: candidates_Nil lookup_recursive_Nil walked_def split: prod.splits)
  next
    case False
    obtain prefix suffix where ps: "(case find_last_dot pk of None \<Rightarrow> ([], pk) | Some pos \<Rightarrow> (take pos pk, drop pos pk)) = (prefix, suffix)"
      by (rule prod.exhaust)
    then have "length prefix < length pk"
      using False find_last_dot_less [of pk] by (cases "find_last_dot pk") auto
    note IH = less.IH [OF this]
    let ?seg = "if hd suffix = DOT then tl suffix else suffix"
    let ?child = "case map_of (children t) suffix of None \<Rightarrow> [] | Some c \<Rightarrow> candidates R c prefix aw"
    let ?first = "case map_of (children t) suffix of
        None \<Rightarrow> (None, tr, st)
      | Some child \<Rightarrow>
          (case lookup_recursive R S child prefix aw accept tr st of
             (Some kv, trace', st) \<Rightarrow> (Some kv, trace', st)
           | (None, trace', st) \<Rightarrow> (None, sink_rewind S (sink_mark S tr) trace', st))"
    have child: "walked valid recorded obs accept ?child tr st ?first"
    proof (cases "map_of (children t) suffix")
      case None
      then show ?thesis using less.prems by (simp add: walked_def)
    next
      case (Some c)
      from IH [OF less.prems, of c st] show ?thesis
      proof (cases rule: walked_cases)
        case (miss tr' st')
        then show ?thesis
          using rewind_recorded [OF less.prems miss(2), of "[]"] Some by (simp add: walked_def)
      next
        case (hit kv ms tr' st')
        then show ?thesis using Some by (simp add: walked_def)
      qed
    qed
    let ?rx = "concat (map (\<lambda>(r, c). if rx_is_match R r ?seg
      then map (\<lambda>(kv, ms). (kv, Regexp ?seg r # ms)) (candidates R c prefix aw) else []) (regexps t))"
    let ?wild = "if prefix = [] \<and> aw then (case wildcard t of None \<Rightarrow> [] | Some kv \<Rightarrow> [(kv, [Wildcard ?seg])]) else []"
    have cand: "candidates R t pk aw = ?child @ ?rx @ ?wild"
      by (subst candidates.simps) (simp only: False ps Let_def prod.case if_False)
    from child show ?thesis
    proof (cases rule: walked_cases)
      case (hit kv ms tr' st')
      have "lookup_recursive R S t pk aw accept tr st = (Some kv, tr', st')"
        using hit(1) by (subst lookup_recursive.simps) (simp add: False ps)
      then show ?thesis unfolding cand using walked_append_hit [OF hit(4), of valid tr' recorded tr obs] hit(2,3) by simp
    next
      case (miss tr' st')
      have "walked valid recorded obs accept ?rx tr' st' (lookup_regexps R S (regexps t) ?seg prefix aw accept tr' st')"
        by (rule walked_regexps [OF IH miss(2)])
      then have "walked valid recorded obs accept (?rx @ ?wild) tr' st' (lookup_recursive R S t pk aw accept tr st)"
      proof (cases rule: walked_cases)
        case (hit kv ms tr'' st'')
        have "lookup_recursive R S t pk aw accept tr st = (Some kv, tr'', st'')"
          using hit(1) miss(1) by (subst lookup_recursive.simps) (simp add: False ps)
        then show ?thesis using walked_append_hit [OF hit(4), of valid tr'' recorded tr' obs] hit(2,3) by simp
      next
        case miss': (miss tr'' st'')
        have "lookup_recursive R S t pk aw accept tr st =
            (if prefix = [] \<and> aw then
               (case wildcard t of
                  None \<Rightarrow> (None, tr'', st'')
                | Some kv \<Rightarrow>
                    (case accept kv st'' of
                       (ok, st) \<Rightarrow>
                         if ok then (Some kv, sink_push S (Wildcard ?seg) tr'', st) else (None, tr'', st)))
             else (None, tr'', st''))"
          using miss'(1) miss(1) by (subst lookup_recursive.simps) (simp add: False ps)
        moreover have "walked valid recorded obs accept ?wild tr'' st'' \<dots>"
          using miss'(2) push_recorded [OF miss'(2), of "Wildcard ?seg"]
          by (auto simp: walked_def split: option.splits prod.splits)
        ultimately show ?thesis using walked_append_miss [where recorded = recorded, OF miss'(4,3)] by simp
      qed
      then show ?thesis unfolding cand by (rule walked_append_miss [where recorded = recorded, OF miss(4,3)])
    qed
  qed
qed

end

lemma concat_singletons: "concat (map (\<lambda>x. [x]) xs) = xs"
  by (induction xs) auto

lemma lookup_no_trace:
  "fst (lookup_recursive R NoTrace t pk aw accept () st) = map_option fst (fst (first_accepted accept (candidates R t pk aw) st))"
proof -
  obtain r where r: "lookup_recursive R NoTrace t pk aw accept () st = r" by simp
  have "walked (\<lambda>_. True) (\<lambda>_. [] :: unit list) (\<lambda>_. []) accept (candidates R t pk aw) () st r"
    using no_trace.walk [of accept R t pk aw "()" st] by (simp add: r)
  then show ?thesis unfolding r by (cases rule: walked_cases) simp_all
qed

lemma first_accepted_any: "fst (first_accepted (\<lambda>_ st. (True, st)) cs st) = (case cs of [] \<Rightarrow> None | c # _ \<Rightarrow> Some c)"
  by (cases cs) (auto split: prod.splits)

lemma trie_lookup_candidates:
  "trie_lookup R t pk aw = (case candidates R t pk aw of [] \<Rightarrow> None | (kv, _) # _ \<Rightarrow> Some kv)"
  unfolding trie_lookup_def lookup_no_trace first_accepted_any by (auto split: list.splits)

text \<open>
  C37: the backtracking walk tries the matching entries in the order of precedence and returns the
  first one the caller's predicate accepts, with the predicate asked about each candidate once and
  in that order. The three entry points agree: the one without a trace, the one that records the
  segments in a vector and the one that records them in sixteen inline cells before it spills. The
  segments recorded are exactly those of the returned entry; those of the branches given up are
  rewound.
\<close>

theorem trie_lookups_agree:
  "(case first_accepted accept (candidates R t pk aw) st of
      (found, st') \<Rightarrow>
        lookup_with_path R t pk aw trace accept st = (map_option (map_prod id ((@) trace)) found, st') \<and>
        (case lookup_with_inline_path R t pk aw inline_new accept st of
           (found', trace', st'') \<Rightarrow>
             found' = map_option fst found \<and> st'' = st' \<and>
             inline_iter trace' = (case found of None \<Rightarrow> [] | Some (_, ms) \<Rightarrow> ms)) \<and>
        fst (lookup_recursive R NoTrace t pk aw accept () st) = map_option fst found)"
proof -
  obtain found st' where f: "first_accepted accept (candidates R t pk aw) st = (found, st')" by (rule prod.exhaust)
  obtain r where r: "lookup_recursive R TrieMatches t pk aw accept trace st = r" by simp
  have "walked (\<lambda>_. True) (\<lambda>s. s) (\<lambda>x. [x]) accept (candidates R t pk aw) trace st r"
    using vec_sink.walk [of accept R t pk aw trace st] by (simp add: r)
  then have "lookup_with_path R t pk aw trace accept st = (map_option (map_prod id ((@) trace)) found, st')"
    unfolding lookup_with_path_def r by (cases rule: walked_cases) (simp_all add: f concat_singletons)
  moreover obtain q where q: "lookup_recursive R inline_sink t pk aw accept inline_new st = q" by simp
  have "walked inline_ok inline_iter (\<lambda>x. [x]) accept (candidates R t pk aw) inline_new st q"
    using inline.walk [OF inline_new_ok(1), of accept R t pk aw st] by (simp add: q)
  then have "case q of (found', trace', st'') \<Rightarrow> found' = map_option fst found \<and> st'' = st' \<and>
      inline_iter trace' = (case found of None \<Rightarrow> [] | Some (_, ms) \<Rightarrow> ms)"
    by (cases rule: walked_cases) (simp_all add: f concat_singletons inline_new_ok)
  ultimately show ?thesis by (simp add: f lookup_with_inline_path_def q lookup_no_trace)
qed

subsection \<open>Work\<close>

lemma candidates_count: "length (candidates R t pk aw) \<le> count_values t"
proof (induction pk arbitrary: t rule: measure_induct_rule [of length])
  case (less pk)
  show ?case
  proof (cases "pk = []")
    case True
    then show ?thesis by (cases "key_value t") (simp_all add: candidates_Nil count_values_fields [of t])
  next
    case False
    obtain prefix suffix where ps: "(case find_last_dot pk of None \<Rightarrow> ([], pk) | Some pos \<Rightarrow> (take pos pk, drop pos pk)) = (prefix, suffix)"
      by (rule prod.exhaust)
    then have "length prefix < length pk"
      using False find_last_dot_less [of pk] by (cases "find_last_dot pk") auto
    note IH = less.IH [OF this]
    let ?seg = "if hd suffix = DOT then tl suffix else suffix"
    let ?child = "case map_of (children t) suffix of None \<Rightarrow> [] | Some c \<Rightarrow> candidates R c prefix aw"
    let ?rx = "concat (map (\<lambda>(r, c). if rx_is_match R r ?seg
      then map (\<lambda>(kv, ms). (kv, Regexp ?seg r # ms)) (candidates R c prefix aw) else []) (regexps t))"
    let ?wild = "if prefix = [] \<and> aw then (case wildcard t of None \<Rightarrow> [] | Some kv \<Rightarrow> [(kv, [Wildcard ?seg])]) else []"
    have cand: "candidates R t pk aw = ?child @ ?rx @ ?wild"
      by (subst candidates.simps) (simp only: False ps Let_def prod.case if_False)
    have "length ?child \<le> sum_list (map (\<lambda>(_, c). count_values c) (children t))"
    proof (cases "map_of (children t) suffix")
      case (Some c)
      have "count_values c \<in> set (map (\<lambda>(_, c). count_values c) (children t))" using map_of_SomeD [OF Some] by force
      from member_le_sum_list [OF this] IH [of c] show ?thesis using Some by simp
    qed simp
    moreover have "length ?rx \<le> sum_list (map (\<lambda>(_, c). count_values c) (regexps t))"
      unfolding length_concat map_map by (rule sum_list_mono) (use IH in \<open>auto split: prod.splits\<close>)
    moreover have "length ?wild \<le> of_bool (wildcard t \<noteq> None)" by (cases "wildcard t") simp_all
    moreover have "x \<le> x' \<Longrightarrow> y \<le> y' \<Longrightarrow> z \<le> z' \<Longrightarrow> x + (y + z) \<le> k + z' + x' + y'" for x x' y y' z z' k :: nat by simp
    ultimately show ?thesis unfolding cand count_values_fields [of t] length_append by blast
  qed
qed

lemma first_accepted_steps:
  "snd (first_accepted (\<lambda>kv n. (P kv, Suc n)) cs n) \<le> n + length cs"
proof (induction cs arbitrary: n)
  case (Cons c cs)
  then show ?case using Cons.IH [of "Suc n"] by (cases c) simp
qed simp

text \<open>
  the backtracking ends within the entries of the trie: whatever the patterns, a lookup asks the
  caller's predicate about at most as many entries as the trie holds, also when every one of them is
  turned down.
\<close>

theorem trie_lookup_work_bounded:
  "(case lookup_recursive R TrieMatches t pk aw (\<lambda>kv n. (P kv, Suc n)) [] 0 of
      (found, _, asked) \<Rightarrow> asked \<le> count_values t \<and> (found = None \<longrightarrow> asked = length (candidates R t pk aw)))"
proof -
  obtain r where r: "lookup_recursive R TrieMatches t pk aw (\<lambda>kv n. (P kv, Suc n)) [] 0 = r" by simp
  have w: "walked (\<lambda>_. True) (\<lambda>s. s) (\<lambda>x. [x]) (\<lambda>kv n. (P kv, Suc n)) (candidates R t pk aw) [] 0 r"
    using vec_sink.walk [of "\<lambda>kv n. (P kv, Suc n)" R t pk aw "[]" 0] by (simp add: r)
  have le: "snd (first_accepted (\<lambda>kv n. (P kv, Suc n)) (candidates R t pk aw) 0) \<le> count_values t"
    using first_accepted_steps [of P "candidates R t pk aw" 0] candidates_count [of R t pk aw] by simp
  have all: "fst (first_accepted (\<lambda>kv n. (P kv, Suc n)) cs n) = None \<Longrightarrow>
      snd (first_accepted (\<lambda>kv n. (P kv, Suc n)) cs n) = n + length cs" for cs n
    by (induction cs arbitrary: n) (auto split: if_splits)
  from w show ?thesis
    unfolding r by (cases rule: walked_cases) (use le all [of "candidates R t pk aw" 0] in simp_all)
qed

theorem trie_lookup_work_bounded_witness:
  "snd (snd (lookup_recursive rx_literal TrieMatches (snd (trie_insert rx_literal trie_root [0x61, DOT, 0x62] (1 :: nat)))
    [0x61, DOT, 0x62] True (\<lambda>kv n. (False, Suc n)) [] 0)) = 1"
proof -
  let ?t = "snd (trie_insert rx_literal trie_root [0x61, DOT, 0x62] (1 :: nat))"
  have "fst (lookup_recursive rx_literal TrieMatches ?t [0x61, DOT, 0x62] True (\<lambda>kv n. (False, Suc n)) [] 0) = None"
    "length (candidates rx_literal ?t [0x61, DOT, 0x62] True) = 1"
    by code_simp+
  then show ?thesis
    using trie_lookup_work_bounded [where R = rx_literal and t = ?t and pk = "[0x61, DOT, 0x62]" and aw = True and P = "\<lambda>_. False"] by (simp add: case_prod_beta)
qed

end
