(* ===== verification/Router_Trie_Match.thy ===== *)
theory Router_Trie_Match
  imports Router_Trie_Lookup
begin

text \<open>
  What a request host finds: an entry is a candidate exactly when a stored pattern that matches the
  host holds it, and a literal entry for the host itself comes first.
\<close>

subsection \<open>Patterns and hosts\<close>

text \<open>
  A pattern matches a host label by label from the right: a literal label equals it, a regular
  expression matches it, and a wildcard stands for exactly the leftmost one.
\<close>

definition split_host :: "bytes \<Rightarrow> bytes \<times> bytes" where
  "split_host pk = (case find_last_dot pk of None \<Rightarrow> ([], pk) | Some pos \<Rightarrow> (take pos pk, drop pos pk))"

definition host_label :: "bytes \<Rightarrow> bytes" where
  "host_label suffix = (if hd suffix = DOT then tl suffix else suffix)"

function pattern_matches :: "'r RegexCrate \<Rightarrow> bool \<Rightarrow> bytes \<Rightarrow> bytes \<Rightarrow> bool" where
  "pattern_matches R aw pat host \<longleftrightarrow>
     (case key_step pat of
        Own \<Rightarrow> host = []
      | Star \<Rightarrow> host \<noteq> [] \<and> fst (split_host host) = [] \<and> aw
      | Rgx pos s rest \<Rightarrow> host \<noteq> [] \<and>
          (case compiled_segment R s of None \<Rightarrow> False | Some r \<Rightarrow> rx_is_match R r (host_label (snd (split_host host)))) \<and>
          pattern_matches R aw rest (fst (split_host host))
      | Lit suffix prefix \<Rightarrow> host \<noteq> [] \<and> snd (split_host host) = suffix \<and>
          pattern_matches R aw prefix (fst (split_host host))
      | Bad \<Rightarrow> False)"
  by pat_completeness auto

termination
  by (relation "measure (\<lambda>(R, aw, pat, host). length pat)") (auto dest: key_step_less)

declare pattern_matches.simps [simp del]

lemma pattern_matches_cases:
  "key_step pat = Own \<Longrightarrow> pattern_matches R aw pat host \<longleftrightarrow> host = []"
  "key_step pat = Star \<Longrightarrow> pattern_matches R aw pat host \<longleftrightarrow> host \<noteq> [] \<and> fst (split_host host) = [] \<and> aw"
  "key_step pat = Rgx pos s rest \<Longrightarrow> pattern_matches R aw pat host \<longleftrightarrow> host \<noteq> [] \<and>
     (case compiled_segment R s of None \<Rightarrow> False | Some r \<Rightarrow> rx_is_match R r (host_label (snd (split_host host)))) \<and>
     pattern_matches R aw rest (fst (split_host host))"
  "key_step pat = Lit suffix prefix \<Longrightarrow> pattern_matches R aw pat host \<longleftrightarrow> host \<noteq> [] \<and>
     snd (split_host host) = suffix \<and> pattern_matches R aw prefix (fst (split_host host))"
  "key_step pat = Bad \<Longrightarrow> \<not> pattern_matches R aw pat host"
  by (subst pattern_matches.simps; simp)+

lemma split_host_less: "host \<noteq> [] \<Longrightarrow> length (fst (split_host host)) < length host"
  using find_last_dot_less [of host] by (auto simp: split_host_def split: option.splits)

text \<open>A key is rebuilt from its last segment and the rest.\<close>

lemma find_last_split:
  assumes "c \<notin> set q"
  shows "List.find (\<lambda>i. (p @ c # q) ! i = c) (rev [0..<length (p @ c # q)]) = Some (length p)"
proof (cases "List.find (\<lambda>i. (p @ c # q) ! i = c) (rev [0..<length (p @ c # q)])")
  case None
  then have "c \<notin> set (p @ c # q)" by (simp only: find_last_None not_False_eq_True)
  then show ?thesis by simp
next
  case (Some n)
  note n = find_lastD [OF Some]
  have "\<not> n < length p" using n(3) [of "length p"] by auto
  moreover have "\<not> length p < n"
  proof
    assume "length p < n"
    then have "(p @ c # q) ! n = q ! (n - length p - 1)" "n - length p - 1 < length q"
      using n(1) by (auto simp: nth_append nth_Cons')
    then show False using n(2) assms nth_mem by metis
  qed
  ultimately show ?thesis using Some by simp
qed

lemma key_step_literal:
  assumes "label_key k"
  shows "DOT \<in> set k \<Longrightarrow> key_step (p @ k) = Lit k p" and "DOT \<notin> set k \<Longrightarrow> key_step k = Lit k []"
proof -
  have k: "k \<noteq> []" "k \<noteq> [STAR]" "last k \<noteq> SLASH" "DOT \<notin> set (tl k)" using assms by (simp_all add: label_key_def)
  show "key_step k = Lit k []" if "DOT \<notin> set k"
    using that k by (simp add: key_step_def find_last_dot_None [THEN iffD2])
  assume "DOT \<in> set k"
  then obtain q where q: "k = DOT # q" "DOT \<notin> set q" using k by (cases k) auto
  have "find_last_dot (p @ k) = Some (length p)"
    unfolding find_last_dot_def q(1) by (rule find_last_split [OF q(2)])
  moreover have "p @ k \<noteq> [STAR]" using q by (cases p) auto
  ultimately show "key_step (p @ k) = Lit k p" using k by (simp add: key_step_def)
qed

lemma key_step_regexp:
  assumes "from_utf8 s" and "SLASH \<notin> set s"
  shows "key_step (SLASH # s @ [SLASH]) = Rgx 0 s []"
    and "key_step (p @ DOT # SLASH # s @ [SLASH]) = Rgx (Suc (length p)) s p"
proof -
  have "regex_segment (SLASH # s @ [SLASH]) = Some (0, s)"
    using find_last_split [OF assms(2), of "[]"] assms(1)
    by (simp add: regex_segment_def find_last_slash_def butlast_append)
  then show "key_step (SLASH # s @ [SLASH]) = Rgx 0 s []" by (simp add: key_step_def)
  have "regex_segment (p @ DOT # SLASH # s @ [SLASH]) = Some (Suc (length p), s)"
    using find_last_split [OF assms(2), of "p @ [DOT]"] assms(1)
    by (simp add: regex_segment_def find_last_slash_def butlast_append nth_append)
  then show "key_step (p @ DOT # SLASH # s @ [SLASH]) = Rgx (Suc (length p)) s p" by (simp add: key_step_def)
qed

subsection \<open>Candidates are the matching entries\<close>

lemma candidates_step:
  assumes "host \<noteq> []" and "split_host host = (prefix, suffix)"
  shows "candidates R t host aw =
    (case map_of (children t) suffix of None \<Rightarrow> [] | Some c \<Rightarrow> candidates R c prefix aw) @
    concat (map (\<lambda>(r, c). if rx_is_match R r (host_label suffix)
      then map (\<lambda>(kv, ms). (kv, Regexp (host_label suffix) r # ms)) (candidates R c prefix aw) else []) (regexps t)) @
    (if prefix = [] \<and> aw then
       (case wildcard t of None \<Rightarrow> [] | Some kv \<Rightarrow> [(kv, [Wildcard (host_label suffix)])]) else [])"
  using assms(1) by (subst candidates.simps)
    (simp only: assms(2) [unfolded split_host_def] Let_def prod.case if_False host_label_def)

text \<open>The entries among some candidates.\<close>

definition entries :: "'r RegexCrate \<Rightarrow> ('r, 'v) TrieNode \<Rightarrow> bytes \<Rightarrow> bool \<Rightarrow> 'v KeyValue set" where
  "entries R t host aw = fst ` set (candidates R t host aw)"

lemma entries_Nil: "entries R t [] aw = set_option (key_value t)"
  by (cases "key_value t") (simp_all add: entries_def candidates_Nil)

lemma regexp_entries:
  "fst ` set (concat (map (\<lambda>(r, c). if P r then map (\<lambda>(kv, ms). (kv, f r ms)) (g c) else []) rs)) =
    {kv. \<exists>r c. (r, c) \<in> set rs \<and> P r \<and> kv \<in> fst ` set (g c)}"
proof -
  have e: "fst ` set (case e of (r, c) \<Rightarrow> if P r then map (\<lambda>(kv, ms). (kv, f r ms)) (g c) else []) =
      {kv. P (fst e) \<and> kv \<in> fst ` set (g (snd e))}" for e
    by (cases e) force
  show ?thesis unfolding set_concat set_map image_UN UN_simps(10) e by (rule set_eqI) (simp add: Bex_def)
qed

lemma option_entries:
  "fst ` set (case x of None \<Rightarrow> [] | Some c \<Rightarrow> g c) = {kv. \<exists>c. x = Some c \<and> kv \<in> fst ` set (g c)}"
  "fst ` set (if P then (case w of None \<Rightarrow> [] | Some kv \<Rightarrow> [(kv, l)]) else []) = {kv. P \<and> w = Some kv}"
  by (cases x; simp) (cases P; cases w; simp)

lemma entries_step:
  assumes "host \<noteq> []" and "split_host host = (prefix, suffix)"
  shows "kv \<in> entries R t host aw \<longleftrightarrow>
    (\<exists>c. map_of (children t) suffix = Some c \<and> kv \<in> entries R c prefix aw) \<or>
    (\<exists>r c. (r, c) \<in> set (regexps t) \<and> rx_is_match R r (host_label suffix) \<and> kv \<in> entries R c prefix aw) \<or>
    prefix = [] \<and> aw \<and> wildcard t = Some kv"
  unfolding entries_def candidates_step [OF assms] set_append image_Un regexp_entries option_entries by blast

lemma regexps_child:
  assumes "trie_ok R t" and "(r, c) \<in> set (regexps t)"
  obtains s where "rx_child R s t = Some c" "compiled_segment R s = Some r" "from_utf8 s" "SLASH \<notin> set s" "trie_ok R c"
proof -
  have r: "pattern_ok R r" "trie_ok R c" "distinct (map (\<lambda>e. rx_as_str R (fst e)) (regexps t))"
    using assms by (auto simp: trie_ok_fields [of R t])
  then obtain s where s: "anchored_segment R s = Some (rx_as_str R r)" "rx_build R (rx_as_str R r) = Some r"
      "from_utf8 s" "SLASH \<notin> set s" by (auto simp: pattern_ok_def)
  have "map_of (pattern_map R (regexps t)) (rx_as_str R r) = Some c"
    using assms(2) by (intro map_of_is_SomeI [OF pattern_map_distinct [OF r(3)]]) force
  then show thesis using that [of s] s r(2) by (simp add: rx_child_map compiled_segment_def)
qed

lemma child_regexps:
  assumes "trie_ok R t" and "rx_child R s t = Some c"
  obtains r where "(r, c) \<in> set (regexps t)" "compiled_segment R s = Some r"
proof -
  obtain a where a: "anchored_segment R s = Some a" "map_of (pattern_map R (regexps t)) a = Some c"
    using assms(2) by (auto simp: rx_child_map split: option.splits)
  then obtain r where r: "(r, c) \<in> set (regexps t)" "rx_as_str R r = a" using map_of_SomeD [OF a(2)] by auto
  then have "rx_build R a = Some r" using assms(1) by (auto simp: trie_ok_fields [of R t] pattern_ok_def)
  then show thesis using that [OF r(1)] a(1) by (simp add: compiled_segment_def)
qed

lemma matching_slot_entry:
  assumes "trie_ok R t" and "slot R t pat = Some kv" and "pattern_matches R aw pat host"
  shows "kv \<in> entries R t host aw"
  using assms
proof (induction pat arbitrary: t host rule: measure_induct_rule [of length])
  case (less pat)
  obtain prefix suffix where ps: "split_host host = (prefix, suffix)" by (rule prod.exhaust)
  show ?case
  proof (cases "key_step pat")
    case (Rgx pos s rest)
    then obtain c where c: "rx_child R s t = Some c" "slot R c rest = Some kv"
      using less.prems(2) by (auto simp: slot_cases split: option.splits)
    obtain r where r: "(r, c) \<in> set (regexps t)" "compiled_segment R s = Some r" by (rule child_regexps [OF less.prems(1) c(1)])
    have m: "host \<noteq> []" "rx_is_match R r (host_label suffix)" "pattern_matches R aw rest prefix"
      using less.prems(3) by (simp_all add: pattern_matches_cases(3) [OF Rgx] r(2) ps)
    have "trie_ok R c" using less.prems(1) r(1) by (auto simp: trie_ok_fields [of R t])
    from less.IH [OF key_step_less(1) [OF Rgx] this c(2) m(3)] show ?thesis
      using entries_step [OF m(1) ps, of kv R t aw] m(2) r(1) by auto
  next
    case (Lit s rest)
    then obtain c where c: "map_of (children t) s = Some c" "slot R c rest = Some kv"
      using less.prems(2) by (auto simp: slot_cases split: option.splits)
    have m: "host \<noteq> []" "suffix = s" "pattern_matches R aw rest prefix"
      using less.prems(3) by (simp_all add: pattern_matches_cases(4) [OF Lit] ps)
    from less.IH [OF key_step_less(2) [OF Lit] trie_ok_child(1) [OF less.prems(1) c(1)] c(2) m(3)] show ?thesis
      using entries_step [OF m(1) ps, of kv R t aw] m(2) c(1) by auto
  next
    case Star
    then show ?thesis
      using less.prems(2,3) entries_step [of host prefix suffix kv R t aw] ps
      by (simp add: slot_cases pattern_matches_cases)
  qed (use less.prems in \<open>simp_all add: slot_cases pattern_matches_cases entries_Nil\<close>)
qed

text \<open>Every candidate is the entry of a pattern that matches.\<close>

definition pattern_for :: "'r RegexCrate \<Rightarrow> ('r, 'v) TrieNode \<Rightarrow> bool \<Rightarrow> bytes \<Rightarrow> 'v KeyValue \<Rightarrow> bytes \<Rightarrow> bool" where
  "pattern_for R t aw host kv pat \<longleftrightarrow>
     (pat = [] \<or> wf_key R pat) \<and> slot R t pat = Some kv \<and> pattern_matches R aw pat host"

lemma pattern_for_child:
  assumes "trie_ok R t" and "host \<noteq> []" and "split_host host = (prefix, suffix)"
    and "map_of (children t) suffix = Some c" and "pattern_for R c aw prefix kv p"
  shows "pattern_for R t aw host kv (if DOT \<in> set suffix then p @ suffix else suffix)"
proof -
  note k = trie_ok_child [OF assms(1,4)]
  show ?thesis
  proof (cases "DOT \<in> set suffix")
    case True
    then have "p \<noteq> []" using k(3) assms(5) by (auto simp: leaf_key_def pattern_for_def slot_Nil)
    then show ?thesis
      using key_step_literal(1) [OF k(4) True, of p] assms(2-5)
      by (simp add: True pattern_for_def wf_key_Lit slot_cases(4) pattern_matches_cases(4))
  next
    case False
    then obtain kv' where "c = TrieNode (Some kv') None [] []" using k(3) by (auto simp: leaf_key_def)
    then have "p = []" "key_value c = Some kv"
      using assms(5) by (cases "key_step p"; auto simp: pattern_for_def slot_cases rx_child_map key_step_others split: option.splits)+
    then show ?thesis
      using key_step_literal(2) [OF k(4) False] assms(2-5) False
      by (simp add: pattern_for_def wf_key_Lit slot_cases(4) slot_Nil pattern_matches_cases(4))
  qed
qed

lemma pattern_for_regexp:
  assumes "trie_ok R t" and "host \<noteq> []" and "split_host host = (prefix, suffix)"
    and "(r, c) \<in> set (regexps t)" and "rx_is_match R r (host_label suffix)" and "pattern_for R c aw prefix kv p"
  shows "\<exists>pat. pattern_for R t aw host kv pat"
proof -
  obtain s where s: "rx_child R s t = Some c" "compiled_segment R s = Some r" "from_utf8 s" "SLASH \<notin> set s"
    by (rule regexps_child [OF assms(1,4)])
  let ?pat = "if p = [] then SLASH # s @ [SLASH] else p @ DOT # SLASH # s @ [SLASH]"
  have "\<exists>pos. key_step ?pat = Rgx pos s p \<and> (p = [] \<longrightarrow> pos = 0)"
    using key_step_regexp(1) [OF s(3,4)] key_step_regexp(2) [OF s(3,4), of p] by auto
  then obtain pos where pos: "key_step ?pat = Rgx pos s p" "p = [] \<longrightarrow> pos = 0" by blast
  have "pattern_for R t aw host kv ?pat"
    using assms(2,3,5,6) pos(2) s(1,2) unfolding pattern_for_def
    by (auto simp: wf_key_Rgx [OF pos(1)] slot_cases(3) [OF pos(1)] pattern_matches_cases(3) [OF pos(1)])
  then show ?thesis by blast
qed

lemma entry_matching_slot:
  assumes "trie_ok R t" and "kv \<in> entries R t host aw"
  shows "\<exists>pat. pattern_for R t aw host kv pat"
  using assms
proof (induction host arbitrary: t rule: measure_induct_rule [of length])
  case (less host)
  show ?case
  proof (cases "host = []")
    case True
    then have "pattern_for R t aw host kv []"
      using less.prems(2) by (simp add: pattern_for_def entries_Nil slot_Nil pattern_matches_cases(1) key_step_others)
    then show ?thesis by blast
  next
    case False
    obtain prefix suffix where ps: "split_host host = (prefix, suffix)" by (rule prod.exhaust)
    have l: "length prefix < length host" using split_host_less [OF False] by (simp add: ps)
    from less.prems(2) consider c where "map_of (children t) suffix = Some c" "kv \<in> entries R c prefix aw"
      | r c where "(r, c) \<in> set (regexps t)" "rx_is_match R r (host_label suffix)" "kv \<in> entries R c prefix aw"
      | "prefix = []" "aw" "wildcard t = Some kv"
      unfolding entries_step [OF False ps] by blast
    then show ?thesis
    proof cases
      case 1
      from less.IH [OF l trie_ok_child(1) [OF less.prems(1) 1(1)] 1(2)] show ?thesis
        using pattern_for_child [OF less.prems(1) False ps 1(1)] by blast
    next
      case 2
      have "trie_ok R c" using less.prems(1) 2(1) by (auto simp: trie_ok_fields [of R t])
      from less.IH [OF l this 2(3)] show ?thesis
        using pattern_for_regexp [OF less.prems(1) False ps 2(1,2)] by blast
    next
      case 3
      have k: "key_step [STAR] = Star" by (simp add: key_step_def)
      have "wf_key R [STAR]" by (subst wf_key.simps) (simp add: k)
      then have "pattern_for R t aw host kv [STAR]"
        using 3 False ps by (simp add: pattern_for_def slot_cases(2) [OF k] pattern_matches_cases(2) [OF k])
      then show ?thesis by blast
    qed
  qed
qed

subsection \<open>What a lookup finds\<close>

lemma reachable_root_empty:
  assumes "trie_reachable R t" and "regex_documented R"
  shows "slot R t [] = None"
  using assms(1)
proof induction
  case (reach_insert t key v)
  note ok = trie_reachable_ok [OF reach_insert.hyps assms(2)]
  obtain res t' where r: "trie_insert R t key v = (res, t')" by (cases "trie_insert R t key v")
  have "inserted R t key (key, v) (res, t')" using trie_insert_spec [OF assms(2) ok] r by metis
  then show ?case
    using reach_insert.IH by (cases rule: inserted_cases) (auto simp: r own_inserted_def)
next
  case (reach_remove t key)
  note ok = trie_reachable_ok [OF reach_remove.hyps(1) assms(2)]
  obtain res t' where r: "remove_recursive R t key = (res, t')" by (cases "remove_recursive R t key")
  have "removed R t key (res, t')" using remove_recursive_spec [OF ok, of key] reach_remove.hyps r by simp
  then show ?case
    using reach_remove.IH by (cases rule: removed_cases) (auto simp: r trie_remove_def)
next
  case (reach_modify t key f)
  have "accessed R f t key (lookup_mut R f t key False)"
    using lookup_mut_spec [OF trie_reachable_ok [OF reach_modify.hyps(1) assms(2)]] reach_modify.hyps by simp
  then show ?case using reach_modify.IH by (auto simp: accessed_def)
qed (simp add: slot_Nil trie_root_def)

lemma reachable_entries:
  assumes "regex_documented R" and "trie_reachable R t"
  shows "kv \<in> entries R t host aw \<longleftrightarrow> (\<exists>pat. trie_map R t pat = Some kv \<and> pattern_matches R aw pat host)"
proof
  note ok = trie_reachable_ok [OF assms(2,1)]
  show "\<exists>pat. trie_map R t pat = Some kv \<and> pattern_matches R aw pat host" if "kv \<in> entries R t host aw"
    using entry_matching_slot [OF ok that] reachable_root_empty [OF assms(2,1)]
    by (auto simp: pattern_for_def trie_map_def)
  show "kv \<in> entries R t host aw" if "\<exists>pat. trie_map R t pat = Some kv \<and> pattern_matches R aw pat host"
    using that by (auto simp: trie_map_def split: if_splits intro: matching_slot_entry [OF ok])
qed

lemma literal_first:
  assumes "SLASH \<notin> set host" and "STAR \<notin> set host" and "slot R t host = Some kv"
  shows "\<exists>cs. candidates R t host aw = (kv, []) # cs"
  using assms
proof (induction host arbitrary: t rule: measure_induct_rule [of length])
  case (less host)
  show ?case
  proof (cases "host = []")
    case True
    then show ?thesis using less.prems(3) by (simp add: slot_Nil candidates_Nil)
  next
    case False
    obtain prefix suffix where ps: "split_host host = (prefix, suffix)" by (rule prod.exhaust)
    have "last host \<noteq> SLASH" "host \<noteq> [STAR]" using less.prems(1,2) False by (auto dest: last_in_set)
    then have "key_step host = Lit suffix prefix"
      using False ps by (auto simp: key_step_def split_host_def split: option.splits)
    then obtain c where c: "map_of (children t) suffix = Some c" "slot R c prefix = Some kv"
      using less.prems(3) by (auto simp: slot_cases split: option.splits)
    have "set prefix \<subseteq> set host"
      using ps by (auto simp: split_host_def split: option.splits dest: in_set_takeD)
    then have "SLASH \<notin> set prefix" "STAR \<notin> set prefix" using less.prems(1,2) by auto
    with less.IH [of prefix c] split_host_less [OF False] ps c(2) obtain cs where "candidates R c prefix aw = (kv, []) # cs" by auto
    then show ?thesis by (simp add: candidates_step [OF False ps] c(1))
  qed
qed

text \<open>
  C5: on every trie a router can build, a request host finds an entry exactly when one of the stored
  patterns matches it, and what it finds is the entry of a pattern that matches: backtracking misses
  no entry and invents none. An entry stored for the host itself, with neither a wildcard nor a
  regular expression in it, is found before any other.
\<close>

theorem trie_lookup_finds_matching:
  assumes "regex_documented R" and "trie_reachable R t"
  shows "(trie_lookup R t host aw = None \<longleftrightarrow> (\<forall>pat \<in> dom (trie_map R t). \<not> pattern_matches R aw pat host)) \<and>
    (trie_lookup R t host aw = Some kv \<longrightarrow> (\<exists>pat. trie_map R t pat = Some kv \<and> pattern_matches R aw pat host)) \<and>
    (SLASH \<notin> set host \<and> STAR \<notin> set host \<and> trie_map R t host = Some kv \<longrightarrow> trie_lookup R t host aw = Some kv)"
proof (intro conjI impI)
  note e = reachable_entries [OF assms, of _ host aw]
  have "trie_lookup R t host aw = None \<longleftrightarrow> entries R t host aw = {}"
    by (auto simp: trie_lookup_candidates entries_def split: list.splits)
  also have "\<dots> \<longleftrightarrow> (\<forall>kv. \<not> (\<exists>pat. trie_map R t pat = Some kv \<and> pattern_matches R aw pat host))"
    unfolding e [symmetric] by blast
  finally show "trie_lookup R t host aw = None \<longleftrightarrow> (\<forall>pat \<in> dom (trie_map R t). \<not> pattern_matches R aw pat host)"
    by (auto simp: dom_def)
  show "\<exists>pat. trie_map R t pat = Some kv \<and> pattern_matches R aw pat host" if "trie_lookup R t host aw = Some kv"
    using that unfolding e [symmetric] by (auto simp: trie_lookup_candidates entries_def split: list.splits)
  assume "SLASH \<notin> set host \<and> STAR \<notin> set host \<and> trie_map R t host = Some kv"
  then show "trie_lookup R t host aw = Some kv"
    using literal_first [of host R t kv aw] by (auto simp: trie_lookup_candidates trie_map_def split: if_splits)
qed

theorem trie_lookup_finds_matching_witness:
  "trie_lookup rx_literal (snd (trie_insert rx_literal trie_root [SLASH, 0x61, SLASH, DOT, 0x62] (1 :: nat))) [0x61, DOT, 0x62] True \<noteq> None"
proof -
  let ?t = "snd (trie_insert rx_literal trie_root [SLASH, 0x61, SLASH, DOT, 0x62] (1 :: nat))"
  have "pattern_matches rx_literal True [SLASH, 0x61, SLASH, DOT, 0x62] [0x61, DOT, 0x62]"
    "trie_map rx_literal ?t [SLASH, 0x61, SLASH, DOT, 0x62] \<noteq> None"
    by code_simp+
  then show ?thesis
    using trie_lookup_finds_matching [OF rx_literal_documented reach_insert [OF reach_root],
        of "[SLASH, 0x61, SLASH, DOT, 0x62]" "1 :: nat" "[0x61, DOT, 0x62]" True]
    by blast
qed

end
