(* ===== verification/Buffer_Memory.thy ===== *)
theory Buffer_Memory
  imports Sozu_Std
begin

text \<open>
  Memory of the byte buffers: bounds-checked ranges, the raw copies the buffers make, and the
  contract of a byte queue that their users rely on. A fault is either a Rust panic (a range out of
  bounds) or undefined behaviour (a raw copy that leaves the allocation). Sizes are natural numbers:
  no sum of two sizes reaches \<open>2 ^ 64\<close>.
\<close>

datatype Fault = Panic | Undefined

text \<open>\<open>&m[a..b]\<close>\<close>

definition check_range :: "nat \<Rightarrow> nat \<Rightarrow> bytes \<Rightarrow> Fault + unit" where
  "check_range a b m = (if a \<le> b \<and> b \<le> length m then Inr () else Inl Panic)"

text \<open>\<open>ptr::copy\<close> inside one allocation: \<open>n\<close> bytes from offset \<open>src\<close> to offset \<open>dst\<close>, overlap allowed.\<close>

definition ptr_copy :: "nat \<Rightarrow> nat \<Rightarrow> nat \<Rightarrow> bytes \<Rightarrow> Fault + bytes" where
  "ptr_copy src dst n m =
     (if src + n \<le> length m \<and> dst + n \<le> length m
      then Inr (take dst m @ take n (drop src m) @ drop (dst + n) m)
      else Inl Undefined)"

text \<open>\<open>ptr::copy\<close> from another allocation, and \<open>copy_from_slice\<close>.\<close>

definition ptr_copy_in :: "bytes \<Rightarrow> nat \<Rightarrow> bytes \<Rightarrow> Fault + bytes" where
  "ptr_copy_in xs dst m =
     (if dst + length xs \<le> length m then Inr (take dst m @ xs @ drop (dst + length xs) m) else Inl Undefined)"

definition copy_from_slice :: "bytes \<Rightarrow> nat \<Rightarrow> nat \<Rightarrow> bytes \<Rightarrow> Fault + bytes" where
  "copy_from_slice xs a b m =
     (if a \<le> b \<and> b \<le> length m \<and> b - a = length xs then Inr (take a m @ xs @ drop b m) else Inl Panic)"

text \<open>\<open><[u8]>::copy_within(src..src_end, dst)\<close>\<close>

definition copy_within :: "nat \<Rightarrow> nat \<Rightarrow> nat \<Rightarrow> bytes \<Rightarrow> Fault + bytes" where
  "copy_within src src_end dst m =
     (if src \<le> src_end \<and> src_end \<le> length m \<and> dst + (src_end - src) \<le> length m
      then Inr (take dst m @ slice m src src_end @ drop (dst + (src_end - src)) m)
      else Inl Panic)"

lemmas memory_ops = check_range_def ptr_copy_def ptr_copy_in_def copy_from_slice_def copy_within_def

subsection \<open>Windows\<close>

text \<open>A window \<open>position..end\<close> of a memory.\<close>

definition window_ok :: "bytes \<Rightarrow> nat \<Rightarrow> nat \<Rightarrow> bool" where
  "window_ok m p e \<longleftrightarrow> p \<le> e \<and> e \<le> length m"

lemma window_split:
  assumes "window_ok m p e"
  obtains pre xs post where "m = pre @ xs @ post" "p = length pre" "e = length pre + length xs" "slice m p e = xs"
proof -
  let ?pre = "take p m" and ?xs = "slice m p e" and ?post = "drop e m"
  have "take e m = take p m @ take (e - p) (drop p m)"
    using assms by (metis window_ok_def le_add_diff_inverse take_add)
  then have "m = ?pre @ ?xs @ ?post"
    by (metis append_assoc append_take_drop_id slice_def)
  moreover have "length ?pre = p" "length ?xs = e - p" using assms by (simp_all add: window_ok_def)
  ultimately show thesis using that [of ?pre ?xs ?post] assms by (simp add: window_ok_def)
qed

lemma slice_window [simp]:
  "slice (pre @ xs @ post) (length pre) (length pre + length xs) = xs"
  by (simp add: slice_def)

lemma slice_front: "n \<le> length xs \<Longrightarrow> slice (xs @ post) 0 n = take n xs"
  by (simp add: slice_def)

lemma length_window: "window_ok m p e \<Longrightarrow> length (slice m p e) = e - p"
  by (simp add: window_ok_def)

lemma three_parts:
  assumes "start + len \<le> length xs"
  obtains as ds bs where "xs = as @ ds @ bs" "length as = start" "length ds = len"
    "take start xs = as" "drop (start + len) xs = bs"
proof -
  have "xs = take start xs @ take len (drop start xs) @ drop (start + len) xs"
    by (metis append_take_drop_id drop_drop add.commute)
  then show thesis using that assms by simp
qed

subsection \<open>Byte queues\<close>

text \<open>
  What the users of a buffer rely on: bytes written are appended, as many as the free space takes,
  and bytes consumed leave from the front.
\<close>

datatype queue_op = Put bytes | Drop nat

locale byte_queue =
  fixes queue_ok :: "'b \<Rightarrow> bool"
    and pending :: "'b \<Rightarrow> bytes"
    and put :: "bytes \<Rightarrow> 'b \<Rightarrow> Fault + nat \<times> 'b"
    and discard :: "nat \<Rightarrow> 'b \<Rightarrow> Fault + nat \<times> 'b"
  assumes put_law: "queue_ok b \<Longrightarrow> \<exists>n b'. put xs b = Inr (n, b') \<and> queue_ok b' \<and> n \<le> length xs \<and>
      pending b' = pending b @ take n xs"
    and discard_law: "queue_ok b \<Longrightarrow> \<exists>b'. discard n b = Inr (min n (length (pending b)), b') \<and> queue_ok b' \<and>
      pending b' = drop n (pending b)"

text \<open>A run of a buffer: the bytes accepted and the bytes consumed.\<close>

fun queue_run ::
  "('b \<Rightarrow> bytes) \<Rightarrow> (bytes \<Rightarrow> 'b \<Rightarrow> Fault + nat \<times> 'b) \<Rightarrow> (nat \<Rightarrow> 'b \<Rightarrow> Fault + nat \<times> 'b) \<Rightarrow>
     queue_op list \<Rightarrow> 'b \<Rightarrow> Fault + bytes \<times> bytes \<times> 'b" where
  "queue_run pend put discard [] b = Inr ([], [], b)"
| "queue_run pend put discard (Put xs # ops) b =
     and_then (put xs b) (\<lambda>(n, b').
     and_then (queue_run pend put discard ops b') (\<lambda>(ins, outs, b''). Inr (take n xs @ ins, outs, b'')))"
| "queue_run pend put discard (Drop n # ops) b =
     and_then (discard n b) (\<lambda>(k, b').
     and_then (queue_run pend put discard ops b') (\<lambda>(ins, outs, b''). Inr (ins, take k (pend b) @ outs, b'')))"

context byte_queue
begin

lemma run_fifo:
  "queue_ok b \<Longrightarrow> \<exists>ins outs b'. queue_run pending put discard ops b = Inr (ins, outs, b') \<and>
    queue_ok b' \<and> pending b @ ins = outs @ pending b'"
proof (induction ops arbitrary: b)
  case (Cons op ops)
  show ?case
  proof (cases op)
    case (Put xs)
    obtain n b' where p: "put xs b = Inr (n, b')" "queue_ok b'" "pending b' = pending b @ take n xs"
      using put_law [OF Cons.prems] by blast
    from Cons.IH [OF p(2)] show ?thesis by (auto simp: Put p(1,3))
  next
    case (Drop n)
    obtain b' where d: "discard n b = Inr (min n (length (pending b)), b')" "queue_ok b'" "pending b' = drop n (pending b)"
      using discard_law [OF Cons.prems] by blast
    have "pending b = take (min n (length (pending b))) (pending b) @ pending b'"
      unfolding d(3) by (simp add: min_def)
    with Cons.IH [OF d(2)] show ?thesis by (auto simp: Drop d(1)) (metis append_assoc)
  qed
qed simp

end

end
