(* ===== verification/Buffer_Checkout.thy ===== *)
theory Buffer_Checkout
  imports Buffer_Memory
begin

text \<open>
  The pooled I/O buffer \<open>Checkout\<close>, from \<^verbatim>\<open>src/lib/src/pool.rs\<close>. The allocation (\<open>extra\<close>)
  comes from the \<open>poule\<close> crate; the buffer's own state is the window \<open>position..end\<close> of it. The
  debug assertions are the proved invariant.
\<close>

record Checkout =
  ck_extra :: bytes
  ck_position :: nat
  ck_end :: nat

definition ck_capacity :: "Checkout \<Rightarrow> nat" where "ck_capacity c = length (ck_extra c)"
definition ck_available_data :: "Checkout \<Rightarrow> nat" where "ck_available_data c = ck_end c - ck_position c"
definition ck_available_space :: "Checkout \<Rightarrow> nat" where "ck_available_space c = ck_capacity c - ck_end c"
definition ck_empty :: "Checkout \<Rightarrow> bool" where "ck_empty c \<longleftrightarrow> ck_position c = ck_end c"
definition ck_data :: "Checkout \<Rightarrow> bytes" where "ck_data c = slice (ck_extra c) (ck_position c) (ck_end c)"
definition ck_space :: "Checkout \<Rightarrow> bytes" where "ck_space c = slice (ck_extra c) (ck_end c) (ck_capacity c)"

definition ck_check_invariants :: "Checkout \<Rightarrow> bool" where
  "ck_check_invariants c \<longleftrightarrow> ck_position c \<le> ck_end c \<and> ck_end c \<le> ck_capacity c \<and>
     ck_position c + ck_available_data c + ck_available_space c = ck_capacity c"

definition ck_shift :: "Checkout \<Rightarrow> Fault + Checkout" where
  "ck_shift c =
     (if 0 < ck_position c then
        let len = ck_end c - ck_position c in
        and_then (check_range (ck_position c) (ck_end c) (ck_extra c)) (\<lambda>_.
        and_then (check_range 0 len (ck_extra c)) (\<lambda>_.
        and_then (ptr_copy (ck_position c) 0 len (ck_extra c)) (\<lambda>m.
        Inr (c\<lparr>ck_extra := m, ck_position := 0, ck_end := len\<rparr>))))
      else Inr c)"

definition ck_consume :: "nat \<Rightarrow> Checkout \<Rightarrow> Fault + nat \<times> Checkout" where
  "ck_consume count c =
     (let cnt = min count (ck_available_data c);
          c = c\<lparr>ck_position := ck_position c + cnt\<rparr>
      in if ck_capacity c div 2 < ck_position c
         then and_then (ck_shift c) (\<lambda>c. Inr (cnt, c))
         else Inr (cnt, c))"

definition ck_fill :: "nat \<Rightarrow> Checkout \<Rightarrow> Fault + nat \<times> Checkout" where
  "ck_fill count c =
     (let cnt = min count (ck_available_space c);
          c = c\<lparr>ck_end := ck_end c + cnt\<rparr>
      in if ck_available_space c < ck_available_data c + cnt
         then and_then (ck_shift c) (\<lambda>c. Inr (cnt, c))
         else Inr (cnt, c))"

definition ck_reset :: "Checkout \<Rightarrow> Checkout" where
  "ck_reset c = c\<lparr>ck_position := 0, ck_end := 0\<rparr>"

definition ck_sync :: "nat \<Rightarrow> nat \<Rightarrow> Checkout \<Rightarrow> Checkout" where
  "ck_sync e p c = c\<lparr>ck_position := p, ck_end := e\<rparr>"

definition ck_delete_slice :: "nat \<Rightarrow> nat \<Rightarrow> Checkout \<Rightarrow> Fault + nat option \<times> Checkout" where
  "ck_delete_slice start len c =
     (if ck_available_data c \<le> start + len then Inr (None, c)
      else
        let begin = ck_position c + start; next_end = ck_end c - len in
        and_then (check_range (begin + len) (ck_end c) (ck_extra c)) (\<lambda>_.
        and_then (check_range begin next_end (ck_extra c)) (\<lambda>_.
        and_then (ptr_copy (begin + len) begin (ck_end c - (begin + len)) (ck_extra c)) (\<lambda>m.
        let c = c\<lparr>ck_extra := m, ck_end := next_end\<rparr> in Inr (Some (ck_available_data c), c)))))"

definition ck_replace_slice :: "bytes \<Rightarrow> nat \<Rightarrow> nat \<Rightarrow> Checkout \<Rightarrow> Fault + nat option \<times> Checkout" where
  "ck_replace_slice data start len c =
     (let data_len = length data in
      if ck_available_data c < start + len \<or> ck_capacity c < ck_position c + start + data_len
      then Inr (None, c)
      else
        let begin = ck_position c + start; slice_end = begin + data_len in
        and_then
          (if data_len < len then
             and_then (check_range begin slice_end (ck_extra c)) (\<lambda>_.
             and_then (ptr_copy_in data begin (ck_extra c)) (\<lambda>m.
             and_then (check_range (start + len) (ck_end c) m) (\<lambda>_.
             and_then (check_range slice_end (length m) m) (\<lambda>_.
             and_then (ptr_copy (start + len) slice_end (ck_end c - (start + len)) m) (\<lambda>m.
             Inr (c\<lparr>ck_extra := m, ck_end := ck_end c - (len - data_len)\<rparr>))))))
           else
             and_then (check_range (start + len) (ck_end c) (ck_extra c)) (\<lambda>_.
             and_then (check_range (start + data_len) (ck_capacity c) (ck_extra c)) (\<lambda>_.
             and_then (ptr_copy (start + len) (start + data_len) (ck_end c - (start + len)) (ck_extra c)) (\<lambda>m.
             and_then (check_range begin slice_end m) (\<lambda>_.
             and_then (ptr_copy_in data begin m) (\<lambda>m.
             Inr (c\<lparr>ck_extra := m, ck_end := ck_end c + (data_len - len)\<rparr>)))))))
          (\<lambda>c. Inr (Some (ck_available_data c), c)))"

definition ck_insert_slice :: "bytes \<Rightarrow> nat \<Rightarrow> Checkout \<Rightarrow> Fault + nat option \<times> Checkout" where
  "ck_insert_slice data start c =
     (let data_len = length data in
      if ck_available_data c < start \<or> ck_capacity c < ck_position c + ck_end c + data_len
      then Inr (None, c)
      else
        let begin = ck_position c + start; slice_end = begin + data_len in
        and_then (check_range start (ck_end c) (ck_extra c)) (\<lambda>_.
        and_then (check_range (start + data_len) (ck_capacity c) (ck_extra c)) (\<lambda>_.
        and_then (ptr_copy start (start + data_len) (ck_end c - start) (ck_extra c)) (\<lambda>m.
        and_then (check_range begin slice_end m) (\<lambda>_.
        and_then (ptr_copy_in data begin m) (\<lambda>m.
        let c = c\<lparr>ck_extra := m, ck_end := ck_end c + data_len\<rparr> in Inr (Some (ck_available_data c), c)))))))"

text \<open>\<open>Write\<close>: the bytes that fit are copied to the free space, which is then filled.\<close>

definition ck_write :: "bytes \<Rightarrow> Checkout \<Rightarrow> Fault + nat \<times> Checkout" where
  "ck_write buf c =
     and_then (check_range (ck_end c) (ck_capacity c) (ck_extra c)) (\<lambda>_.
     let size = min (length buf) (length (ck_space c)) in
     and_then (ptr_copy_in (take size buf) (ck_end c) (ck_extra c)) (\<lambda>m.
     and_then (ck_fill size (c\<lparr>ck_extra := m\<rparr>)) (\<lambda>(_, c). Inr (size, c))))"

text \<open>\<open>Read\<close>: the caller's slice has \<open>n\<close> bytes.\<close>

definition ck_read :: "nat \<Rightarrow> Checkout \<Rightarrow> Fault + bytes \<times> Checkout" where
  "ck_read n c =
     (let len = min (ck_available_data c) n in
      and_then (check_range (ck_position c) (ck_position c + len) (ck_extra c)) (\<lambda>_.
      Inr (slice (ck_extra c) (ck_position c) (ck_position c + len), c\<lparr>ck_position := ck_position c + len\<rparr>)))"

subsection \<open>The buffer is a byte queue\<close>

abbreviation ck_ok :: "Checkout \<Rightarrow> bool" where
  "ck_ok c \<equiv> window_ok (ck_extra c) (ck_position c) (ck_end c)"

lemma ck_invariants: "ck_check_invariants c \<longleftrightarrow> ck_ok c"
  by (auto simp: ck_check_invariants_def window_ok_def ck_capacity_def ck_available_data_def ck_available_space_def)

lemma ck_length_data: "ck_ok c \<Longrightarrow> length (ck_data c) = ck_available_data c"
  by (simp add: ck_data_def ck_available_data_def length_window)

lemma ck_cases:
  assumes "ck_ok c"
  obtains pre xs post where "c = \<lparr>ck_extra = pre @ xs @ post, ck_position = length pre, ck_end = length pre + length xs\<rparr>"
    "ck_data c = xs"
  using window_split [OF assms] that by (metis Checkout.surjective ck_data_def unit.exhaust)

lemma ck_shift_spec:
  assumes "ck_ok c"
  shows "\<exists>c'. ck_shift c = Inr c' \<and> ck_ok c' \<and> ck_data c' = ck_data c \<and> ck_capacity c' = ck_capacity c"
  using assms
proof (cases rule: ck_cases)
  case (1 pre xs post)
  then show ?thesis
    by (auto simp: ck_shift_def memory_ops window_ok_def ck_data_def ck_capacity_def Let_def slice_def)
qed

lemma ck_consume_spec:
  assumes "ck_ok c"
  shows "\<exists>c'. ck_consume n c = Inr (min n (length (ck_data c)), c') \<and> ck_ok c' \<and>
    ck_data c' = drop n (ck_data c) \<and> ck_capacity c' = ck_capacity c"
proof -
  let ?cnt = "min n (ck_available_data c)"
  let ?c = "c\<lparr>ck_position := ck_position c + ?cnt\<rparr>"
  have ok: "ck_ok ?c" and d: "ck_data ?c = drop n (ck_data c)" and cap: "ck_capacity ?c = ck_capacity c"
    using assms by (auto simp: window_ok_def ck_data_def ck_available_data_def slice_def ck_capacity_def drop_take min_def add.commute)
  from ck_shift_spec [OF ok] d cap ok ck_length_data [OF assms] show ?thesis
    by (auto simp: ck_consume_def Let_def)
qed

lemma ck_fill_spec:
  assumes "ck_ok c"
  shows "\<exists>c'. ck_fill n c = Inr (min n (ck_available_space c), c') \<and> ck_ok c' \<and>
    ck_data c' = ck_data c @ take n (ck_space c) \<and> ck_capacity c' = ck_capacity c"
proof -
  let ?cnt = "min n (ck_available_space c)"
  let ?c = "c\<lparr>ck_end := ck_end c + ?cnt\<rparr>"
  have ok: "ck_ok ?c" and cap: "ck_capacity ?c = ck_capacity c"
    using assms by (auto simp: window_ok_def ck_available_space_def ck_capacity_def)
  from assms have d: "ck_data ?c = ck_data c @ take n (ck_space c)"
  proof (cases rule: ck_cases)
    case (1 pre xs post)
    then show ?thesis
      by (simp add: ck_data_def ck_space_def ck_available_space_def ck_capacity_def slice_def min_def)
  qed
  from ck_shift_spec [OF ok] d cap ok show ?thesis by (auto simp: ck_fill_def Let_def)
qed

lemma ck_write_spec:
  assumes "ck_ok c"
  shows "\<exists>c'. ck_write xs c = Inr (min (length xs) (ck_available_space c), c') \<and> ck_ok c' \<and>
    ck_data c' = ck_data c @ take (ck_available_space c) xs \<and> ck_capacity c' = ck_capacity c"
  using assms
proof (cases rule: ck_cases)
  case (1 pre ys post)
  let ?n = "min (length xs) (length post)"
  let ?c = "\<lparr>ck_extra = pre @ ys @ take ?n xs @ drop ?n post, ck_position = length pre, ck_end = length pre + length ys\<rparr>"
  have "ck_ok ?c" by (simp add: window_ok_def)
  from ck_fill_spec [OF this, of ?n] obtain c' where c': "ck_fill ?n ?c = Inr (?n, c')" "ck_ok c'"
      "ck_data c' = ys @ take ?n xs" "ck_capacity c' = length pre + (length ys + length post)"
    by (auto simp: ck_available_space_def ck_capacity_def ck_data_def ck_space_def slice_def)
  have "ck_write xs c = Inr (?n, c')"
    using c'(1)
    by (cases "length xs \<le> length post")
      (simp_all add: ck_write_def memory_ops 1 ck_space_def ck_capacity_def slice_def Let_def)
  then show ?thesis using c' 1 by (simp add: ck_available_space_def ck_capacity_def min_def)
qed

lemma ck_read_spec:
  assumes "ck_ok c"
  shows "\<exists>c'. ck_read n c = Inr (take n (ck_data c), c') \<and> ck_ok c' \<and> ck_data c' = drop n (ck_data c)"
  using assms
proof (cases rule: ck_cases)
  case (1 pre xs post)
  then show ?thesis
    by (auto simp: ck_read_def memory_ops window_ok_def ck_data_def ck_available_data_def Let_def slice_def min_def)
qed

interpretation checkout: byte_queue ck_ok ck_data ck_write ck_consume
proof
  show "\<exists>n c'. ck_write xs c = Inr (n, c') \<and> ck_ok c' \<and> n \<le> length xs \<and> ck_data c' = ck_data c @ take n xs"
    if "ck_ok c" for c xs
    using ck_write_spec [OF that, of xs] by (auto simp: min_def)
  show "\<exists>c'. ck_consume n c = Inr (min n (length (ck_data c)), c') \<and> ck_ok c' \<and> ck_data c' = drop n (ck_data c)"
    if "ck_ok c" for c n
    using ck_consume_spec [OF that] by blast
qed

subsection \<open>Slice edits\<close>

lemma ck_delete_slice_spec:
  assumes "ck_ok c"
  shows "ck_available_data c \<le> start + len \<Longrightarrow> ck_delete_slice start len c = Inr (None, c)"
    and "start + len < ck_available_data c \<Longrightarrow> \<exists>c'. ck_delete_slice start len c = Inr (Some (ck_available_data c - len), c') \<and>
      ck_ok c' \<and> ck_data c' = take start (ck_data c) @ drop (start + len) (ck_data c)"
proof -
  show "ck_available_data c \<le> start + len \<Longrightarrow> ck_delete_slice start len c = Inr (None, c)"
    by (simp add: ck_delete_slice_def)
  assume lt: "start + len < ck_available_data c"
  from assms show "\<exists>c'. ck_delete_slice start len c = Inr (Some (ck_available_data c - len), c') \<and>
      ck_ok c' \<and> ck_data c' = take start (ck_data c) @ drop (start + len) (ck_data c)"
  proof (cases rule: ck_cases)
    case (1 pre xs post)
    then show ?thesis
      using lt by (auto simp: ck_delete_slice_def memory_ops window_ok_def ck_data_def ck_available_data_def Let_def slice_def)
  qed
qed

text \<open>
  Replacement and insertion leave the position out of some offsets and do not bound the moved tail,
  so they are right only on a buffer whose data starts at the front, and replacement only when the
  result fits.
\<close>

lemma ck_replace_slice_front:
  assumes "ck_ok c" and "ck_position c = 0" and "start + len \<le> ck_available_data c"
    and "ck_end c + length data \<le> ck_capacity c + len"
  shows "\<exists>c'. ck_replace_slice data start len c = Inr (Some (ck_available_data c + length data - len), c') \<and>
    ck_ok c' \<and> ck_data c' = take start (ck_data c) @ data @ drop (start + len) (ck_data c)"
  using assms(1)
proof (cases rule: ck_cases)
  case (1 pre xs post)
  then show ?thesis
    using assms(2-4)
    by (auto simp: ck_replace_slice_def memory_ops window_ok_def ck_data_def ck_available_data_def ck_capacity_def Let_def slice_def)
      (simp add: add.commute)
qed

lemma ck_insert_slice_front:
  assumes "ck_ok c" and "ck_position c = 0" and "start \<le> ck_available_data c" and "length data \<le> ck_available_space c"
  shows "\<exists>c'. ck_insert_slice data start c = Inr (Some (ck_available_data c + length data), c') \<and>
    ck_ok c' \<and> ck_data c' = take start (ck_data c) @ data @ drop start (ck_data c)"
  using assms(1)
proof (cases rule: ck_cases)
  case (1 pre xs post)
  then show ?thesis
    using assms(2-4)
    by (auto simp: ck_insert_slice_def memory_ops window_ok_def ck_data_def ck_available_data_def ck_available_space_def ck_capacity_def Let_def slice_def)
qed

lemma ck_replace_slice_overruns:
  "ck_replace_slice [1, 2, 3, 4, 5] 0 0 \<lparr>ck_extra = replicate 10 0, ck_position = 0, ck_end = 10\<rparr> = Inl Undefined"
  by code_simp

lemma ck_insert_slice_corrupts:
  "map_sum id (\<lambda>(_, c). ck_data c) (ck_insert_slice [9] 3 \<lparr>ck_extra = [1, 2, 3, 4, 5, 6, 7, 8, 0, 0, 0, 0, 0, 0], ck_position = 4, ck_end = 8\<rparr>) =
     Inr [4, 5, 6, 9, 8]"
  by code_simp

end
