(* ===== verification/Buffer_Fixed.thy ===== *)
theory Buffer_Fixed
  imports Buffer_Memory
begin

text \<open>
  The fixed-capacity \<open>Buffer\<close> of the command channel, from
  \<^verbatim>\<open>src/command/src/buffer/fixed.rs\<close>. \<open>grow\<close> beyond the capacity is unimplemented in the
  source and panics.
\<close>

record FixedBuffer =
  fx_memory :: bytes
  fx_position :: nat
  fx_end :: nat

definition fx_with_capacity :: "nat \<Rightarrow> FixedBuffer" where
  "fx_with_capacity capacity = \<lparr>fx_memory = replicate capacity 0, fx_position = 0, fx_end = 0\<rparr>"

definition fx_capacity :: "FixedBuffer \<Rightarrow> nat" where "fx_capacity b = length (fx_memory b)"
definition fx_available_data :: "FixedBuffer \<Rightarrow> nat" where "fx_available_data b = fx_end b - fx_position b"
definition fx_available_space :: "FixedBuffer \<Rightarrow> nat" where "fx_available_space b = fx_capacity b - fx_end b"
definition fx_empty :: "FixedBuffer \<Rightarrow> bool" where "fx_empty b \<longleftrightarrow> fx_position b = fx_end b"
definition fx_data :: "FixedBuffer \<Rightarrow> bytes" where "fx_data b = slice (fx_memory b) (fx_position b) (fx_end b)"
definition fx_space :: "FixedBuffer \<Rightarrow> bytes" where "fx_space b = drop (fx_end b) (fx_memory b)"

definition fx_grow :: "nat \<Rightarrow> FixedBuffer \<Rightarrow> Fault + bool" where
  "fx_grow new_size b = (if new_size \<le> fx_capacity b then Inr False else Inl Panic)"

definition fx_reset :: "FixedBuffer \<Rightarrow> FixedBuffer" where
  "fx_reset b = b\<lparr>fx_position := 0, fx_end := 0\<rparr>"

definition fx_shift :: "FixedBuffer \<Rightarrow> Fault + FixedBuffer" where
  "fx_shift b =
     (if 0 < fx_position b then
        let len = fx_end b - fx_position b in
        and_then (copy_within (fx_position b) (fx_end b) 0 (fx_memory b)) (\<lambda>m.
        Inr (b\<lparr>fx_memory := m, fx_position := 0, fx_end := len\<rparr>))
      else Inr b)"

definition fx_consume :: "nat \<Rightarrow> FixedBuffer \<Rightarrow> Fault + nat \<times> FixedBuffer" where
  "fx_consume count b =
     (let cnt = min count (fx_available_data b);
          b = b\<lparr>fx_position := fx_position b + cnt\<rparr>
      in if fx_capacity b div 2 < fx_position b
         then and_then (fx_shift b) (\<lambda>b. Inr (cnt, b))
         else Inr (cnt, b))"

definition fx_fill :: "nat \<Rightarrow> FixedBuffer \<Rightarrow> Fault + nat \<times> FixedBuffer" where
  "fx_fill count b =
     (let cnt = min count (fx_available_space b);
          b = b\<lparr>fx_end := fx_end b + cnt\<rparr>
      in if fx_available_space b < fx_available_data b + cnt
         then and_then (fx_shift b) (\<lambda>b. Inr (cnt, b))
         else Inr (cnt, b))"

definition fx_delete_slice :: "nat \<Rightarrow> nat \<Rightarrow> FixedBuffer \<Rightarrow> Fault + nat option \<times> FixedBuffer" where
  "fx_delete_slice start len b =
     (if fx_available_data b \<le> start + len then Inr (None, b)
      else
        let begin = fx_position b + start; tail_start = begin + len in
        and_then (copy_within tail_start (fx_end b) begin (fx_memory b)) (\<lambda>m.
        let b = b\<lparr>fx_memory := m, fx_end := fx_end b - len\<rparr> in Inr (Some (fx_available_data b), b)))"

definition fx_replace_slice :: "bytes \<Rightarrow> nat \<Rightarrow> nat \<Rightarrow> FixedBuffer \<Rightarrow> Fault + nat option \<times> FixedBuffer" where
  "fx_replace_slice data start len b =
     (let data_len = length data in
      if fx_available_data b < start + len then Inr (None, b)
      else
        let begin = fx_position b + start; tail_start = begin + len; slice_end = begin + data_len in
        if data_len < len then
          and_then (copy_from_slice data begin slice_end (fx_memory b)) (\<lambda>m.
          and_then (copy_within tail_start (fx_end b) slice_end m) (\<lambda>m.
          let b = b\<lparr>fx_memory := m, fx_end := fx_end b - (len - data_len)\<rparr> in Inr (Some (fx_available_data b), b)))
        else if data_len = len then
          and_then (copy_from_slice data begin slice_end (fx_memory b)) (\<lambda>m.
          let b = b\<lparr>fx_memory := m\<rparr> in Inr (Some (fx_available_data b), b))
        else
          let new_end = fx_end b + (data_len - len) in
          if fx_capacity b < new_end then Inr (None, b)
          else
            and_then (copy_within tail_start (fx_end b) slice_end (fx_memory b)) (\<lambda>m.
            and_then (copy_from_slice data begin slice_end m) (\<lambda>m.
            let b = b\<lparr>fx_memory := m, fx_end := new_end\<rparr> in Inr (Some (fx_available_data b), b))))"

definition fx_insert_slice :: "bytes \<Rightarrow> nat \<Rightarrow> FixedBuffer \<Rightarrow> Fault + nat option \<times> FixedBuffer" where
  "fx_insert_slice data start b = fx_replace_slice data start 0 b"

definition fx_write :: "bytes \<Rightarrow> FixedBuffer \<Rightarrow> Fault + nat \<times> FixedBuffer" where
  "fx_write buf b =
     and_then (check_range (fx_end b) (fx_capacity b) (fx_memory b)) (\<lambda>_.
     let size = min (length buf) (length (fx_space b)) in
     and_then (copy_from_slice (take size buf) (fx_end b) (fx_end b + size) (fx_memory b)) (\<lambda>m.
     and_then (fx_fill size (b\<lparr>fx_memory := m\<rparr>)) (\<lambda>(_, b). Inr (size, b))))"

definition fx_read :: "nat \<Rightarrow> FixedBuffer \<Rightarrow> Fault + bytes \<times> FixedBuffer" where
  "fx_read n b =
     (let len = min (fx_available_data b) n in
      and_then (check_range (fx_position b) (fx_position b + len) (fx_memory b)) (\<lambda>_.
      Inr (slice (fx_memory b) (fx_position b) (fx_position b + len), b\<lparr>fx_position := fx_position b + len\<rparr>)))"

lemmas fx_defs = fx_capacity_def fx_available_data_def fx_available_space_def fx_data_def fx_space_def

subsection \<open>The buffer is a byte queue\<close>

abbreviation fx_ok :: "FixedBuffer \<Rightarrow> bool" where
  "fx_ok b \<equiv> window_ok (fx_memory b) (fx_position b) (fx_end b)"

lemma fx_cases:
  assumes "fx_ok b"
  obtains pre xs post where "b = \<lparr>fx_memory = pre @ xs @ post, fx_position = length pre, fx_end = length pre + length xs\<rparr>"
    "fx_data b = xs"
  using window_split [OF assms] that by (metis FixedBuffer.surjective fx_data_def unit.exhaust)

lemma fx_length_data: "fx_ok b \<Longrightarrow> length (fx_data b) = fx_available_data b"
  by (simp add: fx_data_def fx_available_data_def length_window)

lemma fx_shift_spec:
  assumes "fx_ok b"
  shows "\<exists>b'. fx_shift b = Inr b' \<and> fx_ok b' \<and> fx_data b' = fx_data b \<and> fx_capacity b' = fx_capacity b"
  using assms
proof (cases rule: fx_cases)
  case (1 pre xs post)
  then show ?thesis by (auto simp: fx_shift_def memory_ops window_ok_def fx_defs Let_def slice_def)
qed

lemma fx_consume_spec:
  assumes "fx_ok b"
  shows "\<exists>b'. fx_consume n b = Inr (min n (length (fx_data b)), b') \<and> fx_ok b' \<and>
    fx_data b' = drop n (fx_data b) \<and> fx_capacity b' = fx_capacity b"
proof -
  let ?b = "b\<lparr>fx_position := fx_position b + min n (fx_available_data b)\<rparr>"
  have ok: "fx_ok ?b" and d: "fx_data ?b = drop n (fx_data b)" and cap: "fx_capacity ?b = fx_capacity b"
    using assms by (auto simp: window_ok_def fx_defs slice_def drop_take min_def add.commute)
  from fx_shift_spec [OF ok] d cap ok fx_length_data [OF assms] show ?thesis
    by (auto simp: fx_consume_def Let_def)
qed

lemma fx_fill_spec:
  assumes "fx_ok b"
  shows "\<exists>b'. fx_fill n b = Inr (min n (fx_available_space b), b') \<and> fx_ok b' \<and>
    fx_data b' = fx_data b @ take n (fx_space b) \<and> fx_capacity b' = fx_capacity b"
proof -
  let ?b = "b\<lparr>fx_end := fx_end b + min n (fx_available_space b)\<rparr>"
  have ok: "fx_ok ?b" and cap: "fx_capacity ?b = fx_capacity b"
    using assms by (auto simp: window_ok_def fx_defs)
  from assms have d: "fx_data ?b = fx_data b @ take n (fx_space b)"
  proof (cases rule: fx_cases)
    case (1 pre xs post)
    then show ?thesis by (simp add: fx_defs slice_def min_def)
  qed
  from fx_shift_spec [OF ok] d cap ok show ?thesis by (auto simp: fx_fill_def Let_def)
qed

lemma fx_write_spec:
  assumes "fx_ok b"
  shows "\<exists>b'. fx_write xs b = Inr (min (length xs) (fx_available_space b), b') \<and> fx_ok b' \<and>
    fx_data b' = fx_data b @ take (fx_available_space b) xs \<and> fx_capacity b' = fx_capacity b"
  using assms
proof (cases rule: fx_cases)
  case (1 pre ys post)
  let ?n = "min (length xs) (length post)"
  let ?b = "\<lparr>fx_memory = pre @ ys @ take ?n xs @ drop ?n post, fx_position = length pre, fx_end = length pre + length ys\<rparr>"
  have "fx_ok ?b" by (simp add: window_ok_def)
  from fx_fill_spec [OF this, of ?n] obtain b' where b': "fx_fill ?n ?b = Inr (?n, b')" "fx_ok b'"
      "fx_data b' = ys @ take ?n xs" "fx_capacity b' = length pre + (length ys + length post)"
    by (auto simp: fx_defs slice_def)
  have "fx_write xs b = Inr (?n, b')"
    using b'(1) by (cases "length xs \<le> length post") (simp_all add: fx_write_def memory_ops 1 fx_defs Let_def)
  then show ?thesis using b' 1 by (simp add: fx_defs min_def)
qed

interpretation fixed_buffer: byte_queue fx_ok fx_data fx_write fx_consume
proof
  show "\<exists>n b'. fx_write xs b = Inr (n, b') \<and> fx_ok b' \<and> n \<le> length xs \<and> fx_data b' = fx_data b @ take n xs"
    if "fx_ok b" for b xs
    using fx_write_spec [OF that, of xs] by (auto simp: min_def)
  show "\<exists>b'. fx_consume n b = Inr (min n (length (fx_data b)), b') \<and> fx_ok b' \<and> fx_data b' = drop n (fx_data b)"
    if "fx_ok b" for b n
    using fx_consume_spec [OF that] by blast
qed

subsection \<open>Slice edits\<close>

lemma fx_delete_slice_spec:
  assumes "fx_ok b" and "start + len < fx_available_data b"
  shows "\<exists>b'. fx_delete_slice start len b = Inr (Some (fx_available_data b - len), b') \<and> fx_ok b' \<and>
    fx_data b' = take start (fx_data b) @ drop (start + len) (fx_data b)"
  using assms(1)
proof (cases rule: fx_cases)
  case (1 pre xs post)
  then show ?thesis
    using assms(2) by (auto simp: fx_delete_slice_def memory_ops window_ok_def fx_defs Let_def slice_def)
qed

lemma fx_replace_slice_spec:
  assumes "fx_ok b" and "start + len \<le> fx_available_data b" and "fx_end b + length data \<le> fx_capacity b + len"
  shows "\<exists>b'. fx_replace_slice data start len b = Inr (Some (fx_available_data b + length data - len), b') \<and> fx_ok b' \<and>
    fx_data b' = take start (fx_data b) @ data @ drop (start + len) (fx_data b)"
  using assms(1)
proof (cases rule: fx_cases)
  case (1 pre xs post)
  have "start + len \<le> length xs" using assms(2) 1 by (simp add: fx_available_data_def)
  then obtain as ds bs where xs: "xs = as @ ds @ bs" "length as = start" "length ds = len"
      "take start xs = as" "drop (start + len) xs = bs" by (rule three_parts)
  have le: "length data \<le> len + length post" using assms(3) by (simp add: 1 fx_capacity_def)
  let ?post = "drop (length data - len) (if length data < len then drop (length bs + length data) (ds @ bs) @ post else post)"
  have "fx_replace_slice data start len b = Inr (Some (start + length data + length bs),
      \<lparr>fx_memory = pre @ as @ data @ bs @ ?post, fx_position = length pre, fx_end = length pre + start + length data + length bs\<rparr>)"
    using le
    by (cases "length data < len"; cases "length data = len")
      (simp_all add: fx_replace_slice_def memory_ops 1 xs(1) fx_defs Let_def slice_def flip: xs(2,3))
  then show ?thesis using xs 1 by (simp add: window_ok_def fx_defs slice_def)
qed

lemma fx_replace_slice_refused:
  assumes "fx_available_data b < start + len \<or> fx_capacity b + len < fx_end b + length data"
    and "fx_ok b"
  shows "fx_replace_slice data start len b = Inr (None, b)"
  using assms by (auto simp: fx_replace_slice_def Let_def window_ok_def fx_defs)

end
