(* ===== verification/Buffer_Growable.thy ===== *)
theory Buffer_Growable
  imports Buffer_Memory
begin

text \<open>
  The growable \<open>Buffer\<close> of the command channel, from
  \<^verbatim>\<open>src/command/src/buffer/growable.rs\<close>. It carries secrets, so every operation erases the
  bytes that stop being pending. The old allocation that a reallocation wipes before releasing it is
  not part of the state afterwards.
\<close>

record GrowableBuffer =
  gb_memory :: bytes
  gb_capacity :: nat
  gb_position :: nat
  gb_end :: nat

definition gb_with_capacity :: "nat \<Rightarrow> GrowableBuffer" where
  "gb_with_capacity capacity = \<lparr>gb_memory = replicate capacity 0, gb_capacity = capacity, gb_position = 0, gb_end = 0\<rparr>"

definition gb_from_slice :: "bytes \<Rightarrow> GrowableBuffer" where
  "gb_from_slice sl = \<lparr>gb_memory = sl, gb_capacity = length sl, gb_position = 0, gb_end = length sl\<rparr>"

definition gb_available_data :: "GrowableBuffer \<Rightarrow> nat" where "gb_available_data b = gb_end b - gb_position b"
definition gb_available_space :: "GrowableBuffer \<Rightarrow> nat" where "gb_available_space b = gb_capacity b - gb_end b"
definition gb_empty :: "GrowableBuffer \<Rightarrow> bool" where "gb_empty b \<longleftrightarrow> gb_position b = gb_end b"
definition gb_data :: "GrowableBuffer \<Rightarrow> bytes" where "gb_data b = slice (gb_memory b) (gb_position b) (gb_end b)"
definition gb_space :: "GrowableBuffer \<Rightarrow> bytes" where "gb_space b = slice (gb_memory b) (gb_end b) (gb_capacity b)"

definition gb_erase :: "nat \<Rightarrow> nat \<Rightarrow> GrowableBuffer \<Rightarrow> Fault + GrowableBuffer" where
  "gb_erase from to b =
     and_then (check_range from to (gb_memory b)) (\<lambda>_.
     Inr (b\<lparr>gb_memory := take from (gb_memory b) @ replicate (to - from) 0 @ drop to (gb_memory b)\<rparr>))"

definition gb_reallocate :: "nat \<Rightarrow> GrowableBuffer \<Rightarrow> Fault + GrowableBuffer" where
  "gb_reallocate new_size b =
     and_then (check_range (gb_position b) (gb_end b) (gb_memory b)) (\<lambda>_.
     and_then (copy_from_slice (gb_data b) (gb_position b) (gb_end b) (replicate new_size 0)) (\<lambda>destination.
     Inr (b\<lparr>gb_memory := destination\<rparr>)))"

definition gb_grow :: "nat \<Rightarrow> GrowableBuffer \<Rightarrow> Fault + bool \<times> GrowableBuffer" where
  "gb_grow new_size b =
     (if new_size \<le> gb_capacity b then Inr (False, b)
      else and_then (gb_reallocate new_size b) (\<lambda>b. Inr (True, b\<lparr>gb_capacity := new_size\<rparr>)))"

definition gb_shift :: "GrowableBuffer \<Rightarrow> Fault + GrowableBuffer" where
  "gb_shift b =
     (if 0 < gb_position b then
        let previous_end = gb_end b; len = gb_end b - gb_position b in
        and_then (check_range (gb_position b) (gb_end b) (gb_memory b)) (\<lambda>_.
        and_then (check_range 0 len (gb_memory b)) (\<lambda>_.
        and_then (ptr_copy (gb_position b) 0 len (gb_memory b)) (\<lambda>m.
        gb_erase len previous_end (b\<lparr>gb_memory := m, gb_position := 0, gb_end := len\<rparr>))))
      else Inr b)"

definition gb_shrink :: "nat \<Rightarrow> GrowableBuffer \<Rightarrow> Fault + bool \<times> GrowableBuffer" where
  "gb_shrink target b =
     (if gb_capacity b \<le> target then Inr (False, b)
      else
        and_then (gb_shift b) (\<lambda>b.
        if target < gb_end b then Inr (False, b)
        else and_then (gb_reallocate target b) (\<lambda>b. Inr (True, b\<lparr>gb_capacity := target\<rparr>))))"

definition gb_consume :: "nat \<Rightarrow> GrowableBuffer \<Rightarrow> Fault + nat \<times> GrowableBuffer" where
  "gb_consume count b =
     (let cnt = min count (gb_available_data b) in
      and_then (gb_erase (gb_position b) (gb_position b + cnt) b) (\<lambda>b.
      let b = b\<lparr>gb_position := gb_position b + cnt\<rparr> in
      if gb_capacity b div 2 < gb_position b
      then and_then (gb_shift b) (\<lambda>b. Inr (cnt, b))
      else Inr (cnt, b)))"

definition gb_fill :: "nat \<Rightarrow> GrowableBuffer \<Rightarrow> Fault + nat \<times> GrowableBuffer" where
  "gb_fill count b =
     (let cnt = min count (gb_available_space b);
          b = b\<lparr>gb_end := gb_end b + cnt\<rparr>
      in if gb_available_space b < gb_available_data b + cnt
         then and_then (gb_shift b) (\<lambda>b. Inr (cnt, b))
         else Inr (cnt, b))"

definition gb_reset :: "GrowableBuffer \<Rightarrow> Fault + GrowableBuffer" where
  "gb_reset b =
     and_then (gb_erase (gb_position b) (gb_end b) b) (\<lambda>b. Inr (b\<lparr>gb_position := 0, gb_end := 0\<rparr>))"

definition gb_delete_slice :: "nat \<Rightarrow> nat \<Rightarrow> GrowableBuffer \<Rightarrow> Fault + nat option \<times> GrowableBuffer" where
  "gb_delete_slice start len b =
     (if gb_available_data b \<le> start + len then Inr (None, b)
      else
        let previous_end = gb_end b; begin = gb_position b + start; next_end = gb_end b - len in
        and_then (check_range (begin + len) (gb_end b) (gb_memory b)) (\<lambda>_.
        and_then (check_range begin next_end (gb_memory b)) (\<lambda>_.
        and_then (ptr_copy (begin + len) begin (gb_end b - (begin + len)) (gb_memory b)) (\<lambda>m.
        and_then (gb_erase next_end previous_end (b\<lparr>gb_memory := m, gb_end := next_end\<rparr>)) (\<lambda>b.
        Inr (Some (gb_available_data b), b))))))"

definition gb_replace_slice :: "bytes \<Rightarrow> nat \<Rightarrow> nat \<Rightarrow> GrowableBuffer \<Rightarrow> Fault + nat option \<times> GrowableBuffer" where
  "gb_replace_slice data start len b =
     (let data_len = length data in
      if gb_available_data b < start + len \<or> gb_capacity b < gb_position b + start + data_len
      then Inr (None, b)
      else
        let previous_end = gb_end b; begin = gb_position b + start; slice_end = begin + data_len in
        and_then
          (if data_len < len then
             and_then (check_range begin slice_end (gb_memory b)) (\<lambda>_.
             and_then (ptr_copy_in data begin (gb_memory b)) (\<lambda>m.
             and_then (check_range (start + len) (gb_end b) m) (\<lambda>_.
             and_then (check_range slice_end (length m) m) (\<lambda>_.
             and_then (ptr_copy (start + len) slice_end (gb_end b - (start + len)) m) (\<lambda>m.
             Inr (b\<lparr>gb_memory := m, gb_end := gb_end b - (len - data_len)\<rparr>))))))
           else
             and_then (check_range (start + len) (gb_end b) (gb_memory b)) (\<lambda>_.
             and_then (check_range (start + data_len) (length (gb_memory b)) (gb_memory b)) (\<lambda>_.
             and_then (ptr_copy (start + len) (start + data_len) (gb_end b - (start + len)) (gb_memory b)) (\<lambda>m.
             and_then (check_range begin slice_end m) (\<lambda>_.
             and_then (ptr_copy_in data begin m) (\<lambda>m.
             Inr (b\<lparr>gb_memory := m, gb_end := gb_end b + (data_len - len)\<rparr>)))))))
          (\<lambda>b.
        and_then (if gb_end b < previous_end then gb_erase (gb_end b) previous_end b else Inr b) (\<lambda>b.
        Inr (Some (gb_available_data b), b))))"

definition gb_insert_slice :: "bytes \<Rightarrow> nat \<Rightarrow> GrowableBuffer \<Rightarrow> Fault + nat option \<times> GrowableBuffer" where
  "gb_insert_slice data start b =
     (let data_len = length data in
      if gb_available_data b < start \<or> gb_capacity b < gb_position b + gb_end b + data_len
      then Inr (None, b)
      else
        let begin = gb_position b + start; slice_end = begin + data_len in
        and_then (check_range start (gb_end b) (gb_memory b)) (\<lambda>_.
        and_then (check_range (start + data_len) (length (gb_memory b)) (gb_memory b)) (\<lambda>_.
        and_then (ptr_copy start (start + data_len) (gb_end b - start) (gb_memory b)) (\<lambda>m.
        and_then (check_range begin slice_end m) (\<lambda>_.
        and_then (ptr_copy_in data begin m) (\<lambda>m.
        let b = b\<lparr>gb_memory := m, gb_end := gb_end b + data_len\<rparr> in Inr (Some (gb_available_data b), b)))))))"

definition gb_write :: "bytes \<Rightarrow> GrowableBuffer \<Rightarrow> Fault + nat \<times> GrowableBuffer" where
  "gb_write buf b =
     and_then (check_range (gb_end b) (gb_capacity b) (gb_memory b)) (\<lambda>_.
     let size = min (length buf) (length (gb_space b)) in
     and_then (copy_from_slice (take size buf) (gb_end b) (gb_end b + size) (gb_memory b)) (\<lambda>m.
     and_then (gb_fill size (b\<lparr>gb_memory := m\<rparr>)) (\<lambda>(_, b). Inr (size, b))))"

definition gb_read :: "nat \<Rightarrow> GrowableBuffer \<Rightarrow> Fault + bytes \<times> GrowableBuffer" where
  "gb_read n b =
     (let len = min (gb_available_data b) n in
      and_then (check_range (gb_position b) (gb_position b + len) (gb_memory b)) (\<lambda>_.
      let out = slice (gb_memory b) (gb_position b) (gb_position b + len) in
      and_then (gb_erase (gb_position b) (gb_position b + len) b) (\<lambda>b.
      Inr (out, b\<lparr>gb_position := gb_position b + len\<rparr>))))"

lemmas gb_defs = gb_available_data_def gb_available_space_def gb_data_def gb_space_def

subsection \<open>Nothing is left behind\<close>

text \<open>
  A buffer whose pending bytes are \<open>xs\<close>: everything around them is zero.
\<close>

definition gb_at :: "nat \<Rightarrow> bytes \<Rightarrow> nat \<Rightarrow> GrowableBuffer" where
  "gb_at p xs k = \<lparr>gb_memory = replicate p 0 @ xs @ replicate k 0, gb_capacity = p + length xs + k,
     gb_position = p, gb_end = p + length xs\<rparr>"

definition gb_ok :: "GrowableBuffer \<Rightarrow> bool" where
  "gb_ok b \<longleftrightarrow> gb_capacity b = length (gb_memory b) \<and> window_ok (gb_memory b) (gb_position b) (gb_end b) \<and>
     (\<forall>i < length (gb_memory b). i < gb_position b \<or> gb_end b \<le> i \<longrightarrow> gb_memory b ! i = 0)"

lemma gb_at_ok: "gb_ok (gb_at p xs k)"
  by (auto simp: gb_ok_def gb_at_def window_ok_def nth_append)

lemma gb_at_data [simp]: "gb_data (gb_at p xs k) = xs" "gb_capacity (gb_at p xs k) = p + length xs + k"
  "gb_position (gb_at p xs k) = p" "gb_end (gb_at p xs k) = p + length xs"
  "gb_available_data (gb_at p xs k) = length xs" "gb_available_space (gb_at p xs k) = k"
  by (simp_all add: gb_at_def gb_defs slice_def)

lemma gb_cases:
  assumes "gb_ok b"
  obtains p k where "b = gb_at p (gb_data b) k"
proof -
  have w: "window_ok (gb_memory b) (gb_position b) (gb_end b)" using assms by (simp add: gb_ok_def)
  obtain pre xs post where m: "gb_memory b = pre @ xs @ post" "gb_position b = length pre"
      "gb_end b = length pre + length xs" "gb_data b = xs"
    using window_split [OF w] by (metis gb_data_def)
  have z: "(pre @ xs @ post) ! i = 0" if "i < length (pre @ xs @ post)" "i < length pre \<or> length pre + length xs \<le> i" for i
    using assms that unfolding gb_ok_def m(1-3) by blast
  have "pre = replicate (length pre) 0"
  proof (rule nth_equalityI)
    fix i assume "i < length pre"
    then show "pre ! i = replicate (length pre) 0 ! i" using z [of i] by (simp add: nth_append)
  qed simp
  moreover have "post = replicate (length post) 0"
  proof (rule nth_equalityI)
    fix i assume "i < length post"
    then show "post ! i = replicate (length post) 0 ! i" using z [of "length pre + length xs + i"] by (simp add: nth_append)
  qed simp
  moreover have "gb_capacity b = length pre + length xs + length post" using assms m(1) by (simp add: gb_ok_def)
  ultimately have "b = gb_at (length pre) (gb_data b) (length post)"
    using m by (simp add: gb_at_def)
  then show thesis by (rule that)
qed

text \<open>Each operation on such a buffer.\<close>

lemma gb_shift_at: "gb_shift (gb_at p xs k) = Inr (gb_at 0 xs (p + k))"
proof (cases "p = 0")
  case False
  have "drop (length xs) (replicate p 0 @ xs @ replicate k 0) = drop (length xs) (replicate p 0 @ xs) @ replicate k (0 :: octet)"
    by simp
  moreover have "p + length xs - length xs = p" by simp
  ultimately show ?thesis
    using False by (simp add: gb_shift_def gb_erase_def gb_at_def memory_ops Let_def replicate_add)
qed (simp add: gb_shift_def gb_at_def)

lemma gb_erase_front:
  "n \<le> length xs \<Longrightarrow> gb_erase p (p + n) (gb_at p xs k) =
    Inr ((gb_at p xs k)\<lparr>gb_memory := replicate (p + n) 0 @ drop n xs @ replicate k 0\<rparr>)"
  by (simp add: gb_erase_def gb_at_def memory_ops replicate_add)

lemma gb_drop_at:
  "n \<le> length xs \<Longrightarrow> (gb_at p xs k)\<lparr>gb_memory := replicate (p + n) 0 @ drop n xs @ replicate k 0, gb_position := p + n\<rparr> =
    gb_at (p + n) (drop n xs) k"
  by (simp add: gb_at_def)

lemma gb_consume_spec:
  assumes "gb_ok b"
  shows "\<exists>b'. gb_consume n b = Inr (min n (length (gb_data b)), b') \<and> gb_ok b' \<and> gb_data b' = drop n (gb_data b)"
  using assms
proof (cases rule: gb_cases)
  case (1 p k)
  define xs cnt where "xs = gb_data b" and "cnt = min n (length xs)"
  have b: "b = gb_at p xs k" using 1 by (simp add: xs_def)
  have cnt: "cnt \<le> length xs" "drop cnt xs = drop n xs" by (simp_all add: cnt_def min_def)
  have "gb_consume n b = Inr (cnt, gb_at (p + cnt) (drop cnt xs) k) \<or> gb_consume n b = Inr (cnt, gb_at 0 (drop cnt xs) (p + cnt + k))"
    using cnt(1) by (simp add: gb_consume_def b Let_def gb_erase_front gb_drop_at gb_shift_at flip: cnt_def)
  then show ?thesis using gb_at_ok cnt(2) by (auto simp: b cnt_def)
qed

lemma gb_fill_written:
  "gb_fill (length ys) ((gb_at p (xs @ ys) k)\<lparr>gb_end := p + length xs\<rparr>) = Inr (length ys, gb_at p (xs @ ys) k) \<or>
   gb_fill (length ys) ((gb_at p (xs @ ys) k)\<lparr>gb_end := p + length xs\<rparr>) = Inr (length ys, gb_at 0 (xs @ ys) (p + k))"
proof -
  have at: "(gb_at p (xs @ ys) k)\<lparr>gb_end := p + length xs + length ys\<rparr> = gb_at p (xs @ ys) k"
    by (simp add: gb_at_def)
  show ?thesis
    using gb_shift_at [of p "xs @ ys" k] by (simp add: gb_fill_def Let_def gb_available_space_def at)
qed

lemma gb_fill_spec:
  assumes "gb_ok b" and "n \<le> gb_available_space b"
  shows "\<exists>b'. gb_fill n b = Inr (n, b') \<and> gb_ok b' \<and> gb_data b' = gb_data b @ replicate n 0"
  using assms(1)
proof (cases rule: gb_cases)
  case (1 p k)
  define xs where "xs = gb_data b"
  have b: "b = gb_at p xs k" using 1 by (simp add: xs_def)
  then have "n \<le> k" using assms(2) by (simp add: gb_available_space_def gb_at_def)
  then have "b = (gb_at p (xs @ replicate n 0) (k - n))\<lparr>gb_end := p + length xs\<rparr>"
    by (simp add: b gb_at_def flip: replicate_add)
  then have "gb_fill n b = Inr (n, gb_at p (xs @ replicate n 0) (k - n)) \<or>
      gb_fill n b = Inr (n, gb_at 0 (xs @ replicate n 0) (p + (k - n)))"
    using gb_fill_written [of "replicate n 0" p xs "k - n"] by simp
  then show ?thesis using gb_at_ok by (auto simp flip: xs_def)
qed

lemma gb_write_spec:
  assumes "gb_ok b"
  shows "\<exists>b'. gb_write ys b = Inr (min (length ys) (gb_available_space b), b') \<and> gb_ok b' \<and>
    gb_data b' = gb_data b @ take (gb_available_space b) ys"
  using assms
proof (cases rule: gb_cases)
  case (1 p k)
  define xs ws where "xs = gb_data b" and "ws = take k ys"
  have b: "b = gb_at p xs k" using 1 by (simp add: xs_def)
  have ws: "length ws = min (length ys) k" "take (length ws) ys = ws" by (simp_all add: ws_def min_def)
  have "b\<lparr>gb_memory := replicate p 0 @ xs @ ws @ replicate (k - length ws) 0\<rparr> =
      (gb_at p (xs @ ws) (k - length ws))\<lparr>gb_end := p + length xs\<rparr>"
    by (simp add: b gb_at_def ws_def)
  then have "gb_write ys b = and_then (gb_fill (length ws) ((gb_at p (xs @ ws) (k - length ws))\<lparr>gb_end := p + length xs\<rparr>))
      (\<lambda>(_, b). Inr (length ws, b))"
    using ws by (simp add: gb_write_def memory_ops b gb_space_def Let_def) (simp add: gb_at_def slice_def ws_def min_def add.assoc)
  then have "gb_write ys b = Inr (length ws, gb_at p (xs @ ws) (k - length ws)) \<or>
      gb_write ys b = Inr (length ws, gb_at 0 (xs @ ws) (p + (k - length ws)))"
    using gb_fill_written [of ws p xs "k - length ws"] by auto
  moreover have "gb_available_space b = k" by (simp add: b)
  ultimately show ?thesis using gb_at_ok ws(1) by (auto simp: ws_def simp flip: xs_def)
qed

interpretation growable: byte_queue gb_ok gb_data gb_write gb_consume
proof
  show "\<exists>n b'. gb_write xs b = Inr (n, b') \<and> gb_ok b' \<and> n \<le> length xs \<and> gb_data b' = gb_data b @ take n xs"
    if "gb_ok b" for b xs
    using gb_write_spec [OF that, of xs] by (auto simp: min_def)
  show "\<exists>b'. gb_consume n b = Inr (min n (length (gb_data b)), b') \<and> gb_ok b' \<and> gb_data b' = drop n (gb_data b)"
    if "gb_ok b" for b n
    using gb_consume_spec [OF that] by blast
qed

lemma gb_read_spec:
  assumes "gb_ok b"
  shows "\<exists>b'. gb_read n b = Inr (take n (gb_data b), b') \<and> gb_ok b' \<and> gb_data b' = drop n (gb_data b)"
  using assms
proof (cases rule: gb_cases)
  case (1 p k)
  define xs cnt where "xs = gb_data b" and "cnt = min (length xs) n"
  have b: "b = gb_at p xs k" using 1 by (simp add: xs_def)
  have cnt: "cnt \<le> length xs" "take cnt xs = take n xs" "drop cnt xs = drop n xs" by (simp_all add: cnt_def min_def)
  have "slice (gb_memory (gb_at p xs k)) p (p + cnt) = take cnt xs" by (simp add: gb_at_def slice_def cnt_def)
  then have "gb_read n b = Inr (take cnt xs, gb_at (p + cnt) (drop cnt xs) k)"
    using cnt(1) by (simp add: gb_read_def b Let_def gb_erase_front gb_drop_at check_range_def flip: cnt_def) (simp add: gb_at_def)
  then show ?thesis using gb_at_ok cnt by (auto simp: b)
qed

lemma gb_reset_spec:
  assumes "gb_ok b"
  shows "\<exists>b'. gb_reset b = Inr b' \<and> gb_ok b' \<and> gb_data b' = [] \<and> gb_capacity b' = gb_capacity b"
  using assms
proof (cases rule: gb_cases)
  case (1 p k)
  define xs where "xs = gb_data b"
  have b: "b = gb_at p xs k" using 1 by (simp add: xs_def)
  have "gb_reset b = Inr (gb_at 0 [] (p + length xs + k))"
    using gb_erase_front [of "length xs" xs p k] by (simp add: gb_reset_def b) (simp add: gb_at_def replicate_add)
  then show ?thesis using gb_at_ok by (auto simp: b)
qed

lemma gb_reallocate_at:
  "p + length xs \<le> n \<Longrightarrow> and_then (gb_reallocate n (gb_at p xs k)) (\<lambda>b. Inr (True, b\<lparr>gb_capacity := n\<rparr>)) =
    Inr (True, gb_at p xs (n - (p + length xs)))"
  by (simp add: gb_reallocate_def memory_ops gb_data_def) (simp add: gb_at_def slice_def)

lemma gb_grow_spec:
  assumes "gb_ok b"
  shows "\<exists>b'. gb_grow n b = Inr (gb_capacity b < n, b') \<and> gb_ok b' \<and> gb_data b' = gb_data b \<and> gb_capacity b' = max (gb_capacity b) n"
  using assms
proof (cases rule: gb_cases)
  case (1 p k)
  define xs where "xs = gb_data b"
  have b: "b = gb_at p xs k" using 1 by (simp add: xs_def)
  show ?thesis
    using gb_reallocate_at [of p xs n k] gb_at_ok by (cases "n \<le> gb_capacity b") (auto simp: gb_grow_def b)
qed

lemma gb_shrink_spec:
  assumes "gb_ok b"
  shows "\<exists>done b'. gb_shrink n b = Inr (done, b') \<and> gb_ok b' \<and> gb_data b' = gb_data b \<and>
    gb_capacity b' = (if done then n else gb_capacity b) \<and> (done \<longleftrightarrow> length (gb_data b) \<le> n \<and> n < gb_capacity b)"
  using assms
proof (cases rule: gb_cases)
  case (1 p k)
  define xs where "xs = gb_data b"
  have b: "b = gb_at p xs k" using 1 by (simp add: xs_def)
  show ?thesis
    using gb_reallocate_at [of 0 xs n "p + k"] gb_at_ok
    by (cases "gb_capacity b \<le> n"; cases "n < length xs") (auto simp: gb_shrink_def b gb_shift_at)
qed

lemma gb_delete_slice_spec:
  assumes "gb_ok b" and "start + len < gb_available_data b"
  shows "\<exists>b'. gb_delete_slice start len b = Inr (Some (gb_available_data b - len), b') \<and> gb_ok b' \<and>
    gb_data b' = take start (gb_data b) @ drop (start + len) (gb_data b)"
  using assms(1)
proof (cases rule: gb_cases)
  case (1 p k)
  define xs where "xs = gb_data b"
  have b: "b = gb_at p xs k" using 1 by (simp add: xs_def)
  have "start + len \<le> length xs" using assms(2) by (simp add: b)
  then obtain as ds bs where xs: "xs = as @ ds @ bs" "length as = start" "length ds = len"
      "take start xs = as" "drop (start + len) xs = bs" by (rule three_parts)
  have "bs \<noteq> []" using assms(2) xs(1-3) by (auto simp: b)
  then have "gb_delete_slice start len b = Inr (Some (start + length bs), gb_at p (as @ bs) (len + k))"
    by (simp add: gb_delete_slice_def b Let_def gb_erase_def memory_ops flip: xs(2,3))
      (simp add: xs(1) gb_at_def gb_available_data_def replicate_add)
  then show ?thesis using gb_at_ok xs by (auto simp: b)
qed

lemma gb_replace_slice_front:
  assumes "gb_ok b" and "gb_position b = 0" and "start + len \<le> gb_available_data b"
    and "gb_end b + length data \<le> gb_capacity b + len"
  shows "\<exists>b'. gb_replace_slice data start len b = Inr (Some (gb_available_data b + length data - len), b') \<and> gb_ok b' \<and>
    gb_data b' = take start (gb_data b) @ data @ drop (start + len) (gb_data b)"
  using assms(1)
proof (cases rule: gb_cases)
  case (1 p k)
  define xs where "xs = gb_data b"
  have b: "b = gb_at 0 xs k" using 1 assms(2) by (simp add: xs_def) (metis gb_at_data(3))
  have "start + len \<le> length xs" using assms(3) by (simp add: b)
  then obtain as ds bs where xs: "xs = as @ ds @ bs" "length as = start" "length ds = len"
      "take start xs = as" "drop (start + len) xs = bs" by (rule three_parts)
  have le: "length data \<le> k + len" using assms(4) by (simp add: b)
  have "gb_replace_slice data start len b = Inr (Some (start + length data + length bs), gb_at 0 (as @ data @ bs) (k + len - length data))"
    using le
    by (cases "length data < len")
      (auto simp: gb_replace_slice_def b Let_def gb_erase_def memory_ops xs(1) gb_at_def gb_available_data_def simp flip: xs(2,3) replicate_add)
  then show ?thesis using gb_at_ok xs by (auto simp: b)
qed

lemma gb_insert_slice_front:
  assumes "gb_ok b" and "gb_position b = 0" and "start \<le> gb_available_data b" and "length data \<le> gb_available_space b"
  shows "\<exists>b'. gb_insert_slice data start b = Inr (Some (gb_available_data b + length data), b') \<and> gb_ok b' \<and>
    gb_data b' = take start (gb_data b) @ data @ drop start (gb_data b)"
  using assms(1)
proof (cases rule: gb_cases)
  case (1 p k)
  define xs where "xs = gb_data b"
  have b: "b = gb_at 0 xs k" using 1 assms(2) by (simp add: xs_def) (metis gb_at_data(3))
  have "start + 0 \<le> length xs" using assms(3) by (simp add: b)
  then obtain as ds bs where xs: "xs = as @ ds @ bs" "length as = start" "length ds = 0"
      "take start xs = as" "drop (start + 0) xs = bs" by (rule three_parts)
  have "length data \<le> k" using assms(4) by (simp add: b)
  then have "gb_insert_slice data start b = Inr (Some (start + length data + length bs), gb_at 0 (as @ data @ bs) (k - length data))"
    using xs(3)
    by (simp add: gb_insert_slice_def b Let_def memory_ops xs(1) gb_at_def gb_available_data_def flip: xs(2) replicate_add)
  then show ?thesis using gb_at_ok xs by (auto simp: b)
qed

lemma gb_fill_clamp: "gb_fill n b = gb_fill (min n (gb_available_space b)) b"
  by (simp add: gb_fill_def)

text \<open>
  The states a buffer goes through. The two operations that ignore the position are used on a buffer
  whose data is at the front, with room for the result.
\<close>

inductive gb_reachable :: "GrowableBuffer \<Rightarrow> bool" where
  gb_new: "gb_reachable (gb_with_capacity n)"
| gb_from: "gb_reachable (gb_from_slice xs)"
| gb_grown: "gb_reachable b \<Longrightarrow> gb_grow n b = Inr (r, b') \<Longrightarrow> gb_reachable b'"
| gb_shrunk: "gb_reachable b \<Longrightarrow> gb_shrink n b = Inr (r, b') \<Longrightarrow> gb_reachable b'"
| gb_shifted: "gb_reachable b \<Longrightarrow> gb_shift b = Inr b' \<Longrightarrow> gb_reachable b'"
| gb_consumed: "gb_reachable b \<Longrightarrow> gb_consume n b = Inr (k, b') \<Longrightarrow> gb_reachable b'"
| gb_filled: "gb_reachable b \<Longrightarrow> gb_fill n b = Inr (k, b') \<Longrightarrow> gb_reachable b'"
| gb_emptied: "gb_reachable b \<Longrightarrow> gb_reset b = Inr b' \<Longrightarrow> gb_reachable b'"
| gb_written: "gb_reachable b \<Longrightarrow> gb_write xs b = Inr (k, b') \<Longrightarrow> gb_reachable b'"
| gb_taken: "gb_reachable b \<Longrightarrow> gb_read n b = Inr (xs, b') \<Longrightarrow> gb_reachable b'"
| gb_deleted: "gb_reachable b \<Longrightarrow> gb_delete_slice start len b = Inr (r, b') \<Longrightarrow> gb_reachable b'"
| gb_replaced: "gb_reachable b \<Longrightarrow> gb_position b = 0 \<Longrightarrow> gb_end b + length xs \<le> gb_capacity b + len \<Longrightarrow>
    gb_replace_slice xs start len b = Inr (r, b') \<Longrightarrow> gb_reachable b'"
| gb_inserted: "gb_reachable b \<Longrightarrow> gb_position b = 0 \<Longrightarrow> gb_insert_slice xs start b = Inr (r, b') \<Longrightarrow> gb_reachable b'"

lemma gb_reachable_ok: "gb_reachable b \<Longrightarrow> gb_ok b"
proof (induction rule: gb_reachable.induct)
  case (gb_new n)
  then show ?case using gb_at_ok [of 0 "[]" n] by (simp add: gb_at_def gb_with_capacity_def)
next
  case (gb_from xs)
  then show ?case using gb_at_ok [of 0 xs 0] by (simp add: gb_at_def gb_from_slice_def)
next
  case (gb_grown b n r b')
  then show ?case using gb_grow_spec [of b n] by auto
next
  case (gb_shrunk b n r b')
  then show ?case using gb_shrink_spec [of b n] by auto
next
  case (gb_shifted b b')
  from gb_shifted.IH show ?case
    by (cases rule: gb_cases) (metis gb_shift_at gb_shifted.hyps(2) gb_at_ok sum.inject(2))
next
  case (gb_consumed b n k b')
  then show ?case using gb_consume_spec [of b n] by auto
next
  case (gb_filled b n k b')
  then show ?case using gb_fill_spec [of b "min n (gb_available_space b)"] gb_fill_clamp [of n b] by auto
next
  case (gb_emptied b b')
  then show ?case using gb_reset_spec [of b] by auto
next
  case (gb_written b xs k b')
  then show ?case using gb_write_spec [of b xs] by auto
next
  case (gb_taken b n xs b')
  then show ?case using gb_read_spec [of b n] by auto
next
  case (gb_deleted b start len r b')
  then show ?case
    using gb_delete_slice_spec [of b start len]
    by (cases "start + len < gb_available_data b") (auto simp: gb_delete_slice_def)
next
  case (gb_replaced b xs len start r b')
  then show ?case
    using gb_replace_slice_front [of b start len xs]
    by (cases "start + len \<le> gb_available_data b") (auto simp: gb_replace_slice_def Let_def)
next
  case (gb_inserted b xs start r b')
  have "gb_insert_slice xs start b = Inr (None, b)" if "\<not> (start \<le> gb_available_data b \<and> length xs \<le> gb_available_space b)"
    using gb_inserted.IH gb_inserted.hyps(2) that
    by (auto simp: gb_insert_slice_def Let_def gb_available_space_def gb_ok_def window_ok_def)
  then show ?case
    using gb_inserted gb_insert_slice_front [of b start xs]
    by (cases "start \<le> gb_available_data b \<and> length xs \<le> gb_available_space b") auto
qed

end
