(* ===== verification/Buffer_Contracts.thy ===== *)
theory Buffer_Contracts
  imports Buffer_Checkout Buffer_Fixed Buffer_Growable
begin

text \<open>
  What the three byte buffers promise: first in, first out; exact slice edits; and, for the one that
  carries secrets, that nothing outside the pending bytes survives.
\<close>

text \<open>
  C14: the pooled I/O buffer and the two command-channel buffers are byte queues. On any sequence of
  writes and consumptions none of them panics or leaves its allocation, however often the data is
  shifted to the front, and the bytes that come out followed by those still pending are those that
  were pending followed by those accepted.
\<close>

theorem byte_buffers_fifo:
  assumes "ck_check_invariants c" and "window_ok (fx_memory f) (fx_position f) (fx_end f)" and "gb_reachable g"
  shows "(\<exists>ins outs c'. queue_run ck_data ck_write ck_consume ops c = Inr (ins, outs, c') \<and>
      ck_check_invariants c' \<and> ck_data c @ ins = outs @ ck_data c') \<and>
    (\<exists>ins outs f'. queue_run fx_data fx_write fx_consume ops f = Inr (ins, outs, f') \<and>
      fx_data f @ ins = outs @ fx_data f') \<and>
    (\<exists>ins outs g'. queue_run gb_data gb_write gb_consume ops g = Inr (ins, outs, g') \<and>
      gb_data g @ ins = outs @ gb_data g')"
  using checkout.run_fifo [of c ops] fixed_buffer.run_fifo [of f ops] growable.run_fifo [of g ops]
    assms gb_reachable_ok [OF assms(3)] unfolding ck_invariants by blast

theorem byte_buffers_fifo_witness:
  "\<exists>ins outs g'. queue_run gb_data gb_write gb_consume [Put [1, 2, 3], Drop 2, Put [4, 5]] (gb_with_capacity 4) =
     Inr (ins, outs, g') \<and> gb_data (gb_with_capacity 4) @ ins = outs @ gb_data g'"
  using byte_buffers_fifo [of "\<lparr>ck_extra = [], ck_position = 0, ck_end = 0\<rparr>" "fx_with_capacity 0" "gb_with_capacity 4"
      "[Put [1, 2, 3], Drop 2, Put [4, 5]]"] gb_new [of 4]
  by (simp add: ck_invariants window_ok_def fx_with_capacity_def)

text \<open>
  the command-channel buffer leaves no trace of what it carried: in every state it goes through,
  each byte of its memory outside the pending window is zero, after growing, shrinking, shifting,
  consuming, reading, deleting, replacing or inserting.
\<close>

theorem growable_leaves_nothing:
  assumes "gb_reachable b" and "i < length (gb_memory b)" and "i < gb_position b \<or> gb_end b \<le> i"
  shows "gb_memory b ! i = 0"
  using gb_reachable_ok [OF assms(1)] assms(2,3) by (auto simp: gb_ok_def)

theorem growable_leaves_nothing_witness:
  "\<exists>b. gb_consume 2 (gb_from_slice [7, 8, 9]) = Inr (2, b) \<and> gb_memory b ! 1 = 0 \<and> gb_memory b ! 2 = 0"
proof -
  let ?b = "\<lparr>gb_memory = [9, 0, 0], gb_capacity = 3, gb_position = 0, gb_end = 1\<rparr>"
  have c: "gb_consume 2 (gb_from_slice [7, 8, 9]) = Inr (2, ?b)" by code_simp
  have r: "gb_reachable ?b" by (rule gb_consumed [OF gb_from c])
  show ?thesis
    using c growable_leaves_nothing [OF r, of 1] growable_leaves_nothing [OF r, of 2] by simp
qed

text \<open>
  the slice edits are exact. The fixed buffer deletes and replaces precisely the range asked for,
  and refuses a replacement exactly when the range is not pending or the result does not fit; the
  other two buffers delete likewise, and replace and insert likewise when their data is at the front
  and the result fits.
\<close>

theorem slice_edits_exact:
  assumes "window_ok (fx_memory f) (fx_position f) (fx_end f)" and "ck_check_invariants c" and "gb_reachable g"
  shows "(if start + len \<le> fx_available_data f \<and> fx_end f + length xs \<le> fx_capacity f + len
      then \<exists>f'. fx_replace_slice xs start len f = Inr (Some (fx_available_data f + length xs - len), f') \<and>
        fx_data f' = take start (fx_data f) @ xs @ drop (start + len) (fx_data f)
      else fx_replace_slice xs start len f = Inr (None, f)) \<and>
    (start + len < fx_available_data f \<longrightarrow> (\<exists>f'. fx_delete_slice start len f = Inr (Some (fx_available_data f - len), f') \<and>
        fx_data f' = take start (fx_data f) @ drop (start + len) (fx_data f))) \<and>
    (start + len < ck_available_data c \<longrightarrow> (\<exists>c'. ck_delete_slice start len c = Inr (Some (ck_available_data c - len), c') \<and>
        ck_data c' = take start (ck_data c) @ drop (start + len) (ck_data c))) \<and>
    (start + len < gb_available_data g \<longrightarrow> (\<exists>g'. gb_delete_slice start len g = Inr (Some (gb_available_data g - len), g') \<and>
        gb_data g' = take start (gb_data g) @ drop (start + len) (gb_data g))) \<and>
    (ck_position c = 0 \<and> start + len \<le> ck_available_data c \<and> ck_end c + length xs \<le> ck_capacity c + len \<longrightarrow>
      (\<exists>c'. ck_replace_slice xs start len c = Inr (Some (ck_available_data c + length xs - len), c') \<and>
        ck_data c' = take start (ck_data c) @ xs @ drop (start + len) (ck_data c))) \<and>
    (ck_position c = 0 \<and> start \<le> ck_available_data c \<and> length xs \<le> ck_available_space c \<longrightarrow>
      (\<exists>c'. ck_insert_slice xs start c = Inr (Some (ck_available_data c + length xs), c') \<and>
        ck_data c' = take start (ck_data c) @ xs @ drop start (ck_data c)))"
proof (intro conjI impI)
  note fx = assms(1) and ck = assms(2) [unfolded ck_invariants] and gb = gb_reachable_ok [OF assms(3)]
  show "if start + len \<le> fx_available_data f \<and> fx_end f + length xs \<le> fx_capacity f + len
      then \<exists>f'. fx_replace_slice xs start len f = Inr (Some (fx_available_data f + length xs - len), f') \<and>
        fx_data f' = take start (fx_data f) @ xs @ drop (start + len) (fx_data f)
      else fx_replace_slice xs start len f = Inr (None, f)"
    using fx_replace_slice_spec [OF fx, of start len xs] fx_replace_slice_refused [OF _ fx, of start len xs] by auto
qed (use fx_delete_slice_spec [OF assms(1)] ck_delete_slice_spec(2) [OF assms(2) [unfolded ck_invariants]]
    gb_delete_slice_spec [OF gb_reachable_ok [OF assms(3)]] ck_replace_slice_front [OF assms(2) [unfolded ck_invariants]]
    ck_insert_slice_front [OF assms(2) [unfolded ck_invariants]] in blast)+

theorem slice_edits_exact_witness:
  "\<exists>f'. fx_replace_slice [9] 1 2 \<lparr>fx_memory = [1, 2, 3, 4, 0], fx_position = 0, fx_end = 4\<rparr> = Inr (Some 3, f') \<and> fx_data f' = [1, 9, 4]"
  using slice_edits_exact [of "\<lparr>fx_memory = [1, 2, 3, 4, 0], fx_position = 0, fx_end = 4\<rparr>"
      "\<lparr>ck_extra = [], ck_position = 0, ck_end = 0\<rparr>" "gb_with_capacity 0" 1 2 "[9]"] gb_new [of 0]
  by (simp add: ck_invariants window_ok_def fx_defs slice_def)

end
