(* ===== verification/Proxy_Header.thy ===== *)
theory Proxy_Header
  imports H2_Parser
begin

text \<open>
  PROXY protocol version 2: the header and its serializer from
  \<^verbatim>\<open>src/lib/src/protocol/proxy_protocol/header.rs\<close>, the wire parser from
  \<^verbatim>\<open>src/lib/src/protocol/proxy_protocol/parser.rs\<close>, and the datagram header from
  \<^verbatim>\<open>src/lib/src/protocol/udp/proxy_protocol.rs\<close>. The streaming primitives of the \<open>nom\<close> crate are
  the record \<open>NomStreaming\<close>.
\<close>

subsection \<open>Socket addresses\<close>

record SocketAddrV4 =
  v4_ip :: u32
  v4_port :: u16

record SocketAddrV6 =
  v6_ip :: "128 word"
  v6_port :: u16
  v6_flowinfo :: u32
  v6_scope_id :: u32

datatype SocketAddr = V4 SocketAddrV4 | V6 SocketAddrV6

definition v6_octets :: "128 word \<Rightarrow> bytes" where "v6_octets ip = be_bytes 16 (unat ip)"
definition v6_from :: "bytes \<Rightarrow> 128 word" where "v6_from bs = of_nat (be_nat bs)"

lemma length_v6_octets [simp]: "length (v6_octets ip) = 16"
  by (simp add: v6_octets_def)

lemma v6_from_octets [simp]: "v6_from (v6_octets ip) = ip"
proof -
  have "unat ip < 256 ^ 16" using unsigned_less [of ip] by simp
  then show ?thesis by (simp add: v6_from_def v6_octets_def be_nat_be_bytes del: be_bytes.simps)
qed

subsection \<open>Headers\<close>

datatype Command = Local | Proxy

datatype ProxyAddr =
    Ipv4Addr SocketAddrV4 SocketAddrV4
  | Ipv6Addr SocketAddrV6 SocketAddrV6
  | UnixAddr bytes bytes
  | AfUnspec

fun proxy_addr_from :: "SocketAddr \<Rightarrow> SocketAddr \<Rightarrow> ProxyAddr" where
  "proxy_addr_from (V4 s) (V4 d) = Ipv4Addr s d"
| "proxy_addr_from (V6 s) (V6 d) = Ipv6Addr s d"
| "proxy_addr_from _ _ = AfUnspec"

fun proxy_addr_len :: "ProxyAddr \<Rightarrow> u16" where
  "proxy_addr_len (Ipv4Addr _ _) = 12"
| "proxy_addr_len (Ipv6Addr _ _) = 36"
| "proxy_addr_len (UnixAddr _ _) = 216"
| "proxy_addr_len AfUnspec = 0"

fun proxy_source :: "ProxyAddr \<Rightarrow> SocketAddr option" where
  "proxy_source (Ipv4Addr s _) = Some (V4 s)"
| "proxy_source (Ipv6Addr s _) = Some (V6 s)"
| "proxy_source _ = None"

fun proxy_destination :: "ProxyAddr \<Rightarrow> SocketAddr option" where
  "proxy_destination (Ipv4Addr _ d) = Some (V4 d)"
| "proxy_destination (Ipv6Addr _ d) = Some (V6 d)"
| "proxy_destination _ = None"

definition u16_to_array_of_u8 :: "u16 \<Rightarrow> bytes" where
  "u16_to_array_of_u8 x = [ucast (drop_bit 8 x AND 0xff), ucast (x AND 0xff)]"

fun write_bytes_to :: "ProxyAddr \<Rightarrow> bytes \<Rightarrow> bytes" where
  "write_bytes_to (Ipv4Addr s d) buf =
     buf @ u32_bytes (v4_ip s) @ u32_bytes (v4_ip d) @ u16_to_array_of_u8 (v4_port s) @ u16_to_array_of_u8 (v4_port d)"
| "write_bytes_to (Ipv6Addr s d) buf =
     buf @ v6_octets (v6_ip s) @ v6_octets (v6_ip d) @ u16_to_array_of_u8 (v6_port s) @ u16_to_array_of_u8 (v6_port d)"
| "write_bytes_to (UnixAddr s d) buf = buf @ s @ d"
| "write_bytes_to AfUnspec buf = buf"

fun get_family :: "ProxyAddr \<Rightarrow> octet" where
  "get_family (Ipv4Addr _ _) = 0x10 OR 0x01"
| "get_family (Ipv6Addr _ _) = 0x20 OR 0x01"
| "get_family (UnixAddr _ _) = 0x30 OR 0x01"
| "get_family AfUnspec = 0x00"

record HeaderV2 =
  h_command :: Command
  h_family :: octet
  h_addr :: ProxyAddr

definition header_v2_new :: "Command \<Rightarrow> SocketAddr \<Rightarrow> SocketAddr \<Rightarrow> HeaderV2" where
  "header_v2_new command addr_src addr_dst =
     (let addr = proxy_addr_from addr_src addr_dst
      in \<lparr>h_command = command, h_family = get_family addr, h_addr = addr\<rparr>)"

definition header_v2_len :: "HeaderV2 \<Rightarrow> nat" where
  "header_v2_len h = 12 + 1 + 1 + 2 + unat (proxy_addr_len (h_addr h))"

definition header_v2_into_bytes :: "HeaderV2 \<Rightarrow> bytes" where
  "header_v2_into_bytes h =
     (let signature = [0x0D, 0x0A, 0x0D, 0x0A, 0x00, 0x0D, 0x0A, 0x51, 0x55, 0x49, 0x54, 0x0A];
          command = (case h_command h of Local \<Rightarrow> 0 | Proxy \<Rightarrow> 1);
          header = signature @ [0x20 OR command] @ [h_family h] @ u16_to_array_of_u8 (proxy_addr_len (h_addr h))
      in write_bytes_to (h_addr h) header)"

subsection \<open>Parsing\<close>

text \<open>The error of \<open>nom::error::Error\<close>: the input it points at and its kind.\<close>

type_synonym ('k, 'a) SResult = "(bytes \<times> 'k) Err + bytes \<times> 'a"

record 'k NomStreaming =
  ns_tag :: "bytes \<Rightarrow> bytes \<Rightarrow> ('k, bytes) SResult"
  ns_take :: "nat \<Rightarrow> bytes \<Rightarrow> ('k, bytes) SResult"
  ns_be_u8 :: "bytes \<Rightarrow> ('k, octet) SResult"
  ns_be_u16 :: "bytes \<Rightarrow> ('k, u16) SResult"
  ns_switch :: 'k

definition PROTOCOL_SIGNATURE_V2 :: bytes where
  "PROTOCOL_SIGNATURE_V2 = [0x0D, 0x0A, 0x0D, 0x0A, 0x00, 0x0D, 0x0A, 0x51, 0x55, 0x49, 0x54, 0x0A]"

definition parse_command :: "'k NomStreaming \<Rightarrow> bytes \<Rightarrow> ('k, Command) SResult" where
  "parse_command N i2 =
     and_then (ns_be_u8 N i2) (\<lambda>(i, cmd).
     if cmd = 0x20 then Inr (i, Local)
     else if cmd = 0x21 then Inr (i, Proxy)
     else Inl (Error (i2, ns_switch N)))"

definition parse_ipv4_on_v2 :: "'k NomStreaming \<Rightarrow> bytes \<Rightarrow> ('k, ProxyAddr) SResult" where
  "parse_ipv4_on_v2 N i =
     and_then (ns_take N 4 i) (\<lambda>(i, src_ip).
     and_then (ns_take N 4 i) (\<lambda>(i, dest_ip).
     and_then (ns_be_u16 N i) (\<lambda>(i, src_port).
     and_then (ns_be_u16 N i) (\<lambda>(i, dest_port).
     Inr (i, Ipv4Addr \<lparr>v4_ip = be_u32_of src_ip, v4_port = src_port\<rparr> \<lparr>v4_ip = be_u32_of dest_ip, v4_port = dest_port\<rparr>)))))"

definition slice_to_ipv6 :: "bytes \<Rightarrow> 128 word" where
  "slice_to_ipv6 sl = v6_from sl"

definition parse_ipv6_on_v2 :: "'k NomStreaming \<Rightarrow> bytes \<Rightarrow> ('k, ProxyAddr) SResult" where
  "parse_ipv6_on_v2 N i =
     and_then (ns_take N 16 i) (\<lambda>(i, src_ip).
     and_then (ns_take N 16 i) (\<lambda>(i, dest_ip).
     and_then (ns_be_u16 N i) (\<lambda>(i, src_port).
     and_then (ns_be_u16 N i) (\<lambda>(i, dest_port).
     Inr (i, Ipv6Addr
       \<lparr>v6_ip = slice_to_ipv6 src_ip, v6_port = src_port, v6_flowinfo = 0, v6_scope_id = 0\<rparr>
       \<lparr>v6_ip = slice_to_ipv6 dest_ip, v6_port = dest_port, v6_flowinfo = 0, v6_scope_id = 0\<rparr>)))))"

definition parse_addr_v2 :: "'k NomStreaming \<Rightarrow> octet \<Rightarrow> bytes \<Rightarrow> ('k, ProxyAddr) SResult" where
  "parse_addr_v2 N family i =
     (let nibble = drop_bit 4 family AND 0x0f in
      if nibble = 0x00 then Inr (i, AfUnspec)
      else if nibble = 0x01 then parse_ipv4_on_v2 N i
      else if nibble = 0x02 then parse_ipv6_on_v2 N i
      else Inl (Error (i, ns_switch N)))"

definition parse_v2_header :: "'k NomStreaming \<Rightarrow> bytes \<Rightarrow> ('k, HeaderV2) SResult" where
  "parse_v2_header N i =
     and_then (ns_tag N PROTOCOL_SIGNATURE_V2 i) (\<lambda>(i, _).
     and_then (parse_command N i) (\<lambda>(i, command).
     and_then (ns_be_u8 N i) (\<lambda>(i, family).
     and_then (ns_be_u16 N i) (\<lambda>(i, len).
     and_then (ns_take N (unat len) i) (\<lambda>(i, data).
     and_then (parse_addr_v2 N family data) (\<lambda>(data_rest, parsed_addr).
     let addr = (case command of Local \<Rightarrow> AfUnspec | Proxy \<Rightarrow> parsed_addr) in
     Inr (i, \<lparr>h_command = command, h_family = family, h_addr = addr\<rparr>)))))))"

subsection \<open>The datagram header\<close>

definition PP2_VER_CMD_PROXY :: octet where "PP2_VER_CMD_PROXY = 0x21"
definition PP2_FAM_INET_DGRAM :: octet where "PP2_FAM_INET_DGRAM = 0x12"
definition PP2_FAM_INET6_DGRAM :: octet where "PP2_FAM_INET6_DGRAM = 0x22"
definition PP2_SIGNATURE :: bytes where
  "PP2_SIGNATURE = [0x0D, 0x0A, 0x0D, 0x0A, 0x00, 0x0D, 0x0A, 0x51, 0x55, 0x49, 0x54, 0x0A]"

fun dgram_header :: "SocketAddr \<Rightarrow> SocketAddr \<Rightarrow> bytes" where
  "dgram_header (V4 src) (V4 dst) =
     PP2_SIGNATURE @ [PP2_VER_CMD_PROXY] @ [PP2_FAM_INET_DGRAM] @ u16_bytes 12 @
     u32_bytes (v4_ip src) @ u32_bytes (v4_ip dst) @ u16_bytes (v4_port src) @ u16_bytes (v4_port dst)"
| "dgram_header (V6 src) (V6 dst) =
     PP2_SIGNATURE @ [PP2_VER_CMD_PROXY] @ [PP2_FAM_INET6_DGRAM] @ u16_bytes 36 @
     v6_octets (v6_ip src) @ v6_octets (v6_ip dst) @ u16_bytes (v6_port src) @ u16_bytes (v6_port dst)"
| "dgram_header _ _ = PP2_SIGNATURE @ [PP2_VER_CMD_PROXY] @ [0x00] @ u16_bytes 0"

definition prepend_dgram_header :: "bytes \<Rightarrow> SocketAddr \<Rightarrow> SocketAddr \<Rightarrow> nat \<times> bytes" where
  "prepend_dgram_header payload client backend =
     (let header = dgram_header client backend in (length header, header @ payload))"

end
