(* ===== verification/Proxy_Wire.thy ===== *)
theory Proxy_Wire
  imports Proxy_Header
begin

text \<open>
  What the PROXY protocol parser accepts, and that it reads back what the serializers write.
\<close>

subsection \<open>Streaming primitives\<close>

text \<open>
  The documented behaviour of the streaming primitives: they ask for more input when it ends before
  they can decide, and otherwise take the next bytes off its front.
\<close>

definition nom_streaming_documented :: "'k NomStreaming \<Rightarrow> bool" where
  "nom_streaming_documented N \<longleftrightarrow>
     (\<forall>t i. take (length t) i = t \<longrightarrow> ns_tag N t i = Inr (drop (length t) i, t)) \<and>
     (\<forall>t i. length i < length t \<and> i = take (length i) t \<longrightarrow> ns_tag N t i = Inl Incomplete) \<and>
     (\<forall>t i. take (length t) i \<noteq> take (length i) t \<longrightarrow> (\<exists>e. ns_tag N t i = Inl (Error e))) \<and>
     (\<forall>n i. ns_take N n i = (if n \<le> length i then Inr (drop n i, take n i) else Inl Incomplete)) \<and>
     (\<forall>i. ns_be_u8 N i = (if 1 \<le> length i then Inr (drop 1 i, hd i) else Inl Incomplete)) \<and>
     (\<forall>i. ns_be_u16 N i = (if 2 \<le> length i then Inr (drop 2 i, be_u16_of (take 2 i)) else Inl Incomplete))"

definition nom_streaming :: "nat NomStreaming" where
  "nom_streaming =
     \<lparr>ns_tag = (\<lambda>t i. if take (length t) i = t then Inr (drop (length t) i, t)
                      else if i = take (length i) t then Inl Incomplete else Inl (Error (i, 0))),
      ns_take = (\<lambda>n i. if n \<le> length i then Inr (drop n i, take n i) else Inl Incomplete),
      ns_be_u8 = (\<lambda>i. if 1 \<le> length i then Inr (drop 1 i, hd i) else Inl Incomplete),
      ns_be_u16 = (\<lambda>i. if 2 \<le> length i then Inr (drop 2 i, be_u16_of (take 2 i)) else Inl Incomplete),
      ns_switch = 1\<rparr>"

lemma nom_streaming_ok: "nom_streaming_documented nom_streaming"
  by (auto simp: nom_streaming_documented_def nom_streaming_def) (metis take_all nat_le_linear)+

lemma streaming_laws:
  assumes "nom_streaming_documented N"
  shows "take (length t) i = t \<Longrightarrow> ns_tag N t i = Inr (drop (length t) i, t)"
    and "length i < length t \<Longrightarrow> i = take (length i) t \<Longrightarrow> ns_tag N t i = Inl Incomplete"
    and "take (length t) i \<noteq> take (length i) t \<Longrightarrow> \<exists>e. ns_tag N t i = Inl (Error e)"
    and "ns_take N n i = (if n \<le> length i then Inr (drop n i, take n i) else Inl Incomplete)"
    and "ns_be_u8 N i = (if 1 \<le> length i then Inr (drop 1 i, hd i) else Inl Incomplete)"
    and "ns_be_u16 N i = (if 2 \<le> length i then Inr (drop 2 i, be_u16_of (take 2 i)) else Inl Incomplete)"
  using assms by (simp_all add: nom_streaming_documented_def)

subsection \<open>Address blocks\<close>

text \<open>The address a family byte and a block of bytes stand for.\<close>

definition block_addr :: "octet \<Rightarrow> bytes \<Rightarrow> ProxyAddr option" where
  "block_addr family b =
     (let nibble = drop_bit 4 family AND 0x0f in
      if nibble = 0x00 then Some AfUnspec
      else if nibble = 0x01 \<and> 12 \<le> length b then
        Some (Ipv4Addr \<lparr>v4_ip = be_u32_of (slice b 0 4), v4_port = be_u16_of (slice b 8 10)\<rparr>
                       \<lparr>v4_ip = be_u32_of (slice b 4 8), v4_port = be_u16_of (slice b 10 12)\<rparr>)
      else if nibble = 0x02 \<and> 36 \<le> length b then
        Some (Ipv6Addr \<lparr>v6_ip = v6_from (slice b 0 16), v6_port = be_u16_of (slice b 32 34), v6_flowinfo = 0, v6_scope_id = 0\<rparr>
                       \<lparr>v6_ip = v6_from (slice b 16 32), v6_port = be_u16_of (slice b 34 36), v6_flowinfo = 0, v6_scope_id = 0\<rparr>)
      else None)"

lemma parse_addr_block:
  assumes "nom_streaming_documented N"
  shows "block_addr family b = Some a \<Longrightarrow> \<exists>r. parse_addr_v2 N family b = Inr (r, a)"
    and "block_addr family b = None \<Longrightarrow> \<exists>e. parse_addr_v2 N family b = Inl e"
proof -
  note laws = streaming_laws(4-6) [OF assms]
  have v4: "parse_ipv4_on_v2 N b = (if 12 \<le> length b then
      Inr (drop 12 b, Ipv4Addr \<lparr>v4_ip = be_u32_of (slice b 0 4), v4_port = be_u16_of (slice b 8 10)\<rparr>
                       \<lparr>v4_ip = be_u32_of (slice b 4 8), v4_port = be_u16_of (slice b 10 12)\<rparr>)
      else Inl Incomplete)"
    by (auto simp: parse_ipv4_on_v2_def laws slice_def)
  have v6: "parse_ipv6_on_v2 N b = (if 36 \<le> length b then
      Inr (drop 36 b, Ipv6Addr \<lparr>v6_ip = v6_from (slice b 0 16), v6_port = be_u16_of (slice b 32 34), v6_flowinfo = 0, v6_scope_id = 0\<rparr>
                       \<lparr>v6_ip = v6_from (slice b 16 32), v6_port = be_u16_of (slice b 34 36), v6_flowinfo = 0, v6_scope_id = 0\<rparr>)
      else Inl Incomplete)"
    by (auto simp: parse_ipv6_on_v2_def laws slice_def slice_to_ipv6_def)
  show "block_addr family b = Some a \<Longrightarrow> \<exists>r. parse_addr_v2 N family b = Inr (r, a)"
    "block_addr family b = None \<Longrightarrow> \<exists>e. parse_addr_v2 N family b = Inl e"
    by (auto simp: block_addr_def parse_addr_v2_def Let_def v4 v6 split: if_splits)
qed

subsection \<open>Whole headers\<close>

text \<open>The length field of the sixteen fixed bytes.\<close>

definition declared_len :: "bytes \<Rightarrow> nat" where
  "declared_len i = unat (be_u16_of (slice i 14 16))"

abbreviation SIG :: bytes where "SIG \<equiv> PROTOCOL_SIGNATURE_V2"

lemma length_SIG [simp]: "length SIG = 12"
  by (simp add: PROTOCOL_SIGNATURE_V2_def)

text \<open>The parser stage by stage.\<close>

lemma parse_stages:
  assumes "nom_streaming_documented N"
  shows "take 12 i \<noteq> take (length i) SIG \<Longrightarrow> \<exists>e. parse_v2_header N i = Inl (Error e)"
    and "length i \<le> 12 \<Longrightarrow> i = take (length i) SIG \<Longrightarrow> parse_v2_header N i = Inl Incomplete"
    and "12 < length i \<Longrightarrow> take 12 i = SIG \<Longrightarrow> i ! 12 \<noteq> 0x20 \<Longrightarrow> i ! 12 \<noteq> 0x21 \<Longrightarrow>
      \<exists>e. parse_v2_header N i = Inl (Error e)"
    and "12 < length i \<Longrightarrow> take 12 i = SIG \<Longrightarrow> i ! 12 = 0x20 \<or> i ! 12 = 0x21 \<Longrightarrow> length i < 16 \<Longrightarrow>
      parse_v2_header N i = Inl Incomplete"
    and "16 \<le> length i \<Longrightarrow> take 12 i = SIG \<Longrightarrow> i ! 12 = 0x20 \<or> i ! 12 = 0x21 \<Longrightarrow> length i < 16 + declared_len i \<Longrightarrow>
      parse_v2_header N i = Inl Incomplete"
    and "16 + declared_len i \<le> length i \<Longrightarrow> take 12 i = SIG \<Longrightarrow> i ! 12 = 0x20 \<or> i ! 12 = 0x21 \<Longrightarrow>
      parse_v2_header N i =
        and_then (parse_addr_v2 N (i ! 13) (slice i 16 (16 + declared_len i))) (\<lambda>(_, a).
        Inr (drop (16 + declared_len i) i,
          \<lparr>h_command = if i ! 12 = 0x20 then Local else Proxy, h_family = i ! 13,
           h_addr = if i ! 12 = 0x20 then AfUnspec else a\<rparr>))"
proof -
  note laws = streaming_laws [OF assms]
  have tag: "ns_tag N SIG i = Inr (drop 12 i, SIG)" if "take 12 i = SIG" using laws(1) [of SIG i] that by simp
  have hd: "hd (drop 12 i) = i ! 12" if "12 < length i" using that by (simp add: hd_drop_conv_nth)
  have hd13: "hd (drop 13 i) = i ! 13" if "13 < length i" using that by (simp add: hd_drop_conv_nth)
  show "\<exists>e. parse_v2_header N i = Inl (Error e)" if "take 12 i \<noteq> take (length i) SIG"
    using laws(3) [of SIG i] that by (auto simp: parse_v2_header_def)
  show "parse_v2_header N i = Inl Incomplete" if "length i \<le> 12" "i = take (length i) SIG"
  proof (cases "length i = 12")
    case True
    then have "ns_tag N SIG i = Inr (drop 12 i, SIG)" using that tag by simp
    then show ?thesis using True by (simp add: parse_v2_header_def parse_command_def laws(5))
  qed (use that laws(2) [of i SIG] in \<open>simp add: parse_v2_header_def\<close>)
  show "\<exists>e. parse_v2_header N i = Inl (Error e)"
    if "12 < length i" "take 12 i = SIG" "i ! 12 \<noteq> 0x20" "i ! 12 \<noteq> 0x21"
    using that by (simp add: parse_v2_header_def parse_command_def tag laws(5) hd)
  show "parse_v2_header N i = Inl Incomplete"
    if "12 < length i" "take 12 i = SIG" "i ! 12 = 0x20 \<or> i ! 12 = 0x21" "length i < 16"
    using that by (auto simp: parse_v2_header_def parse_command_def tag laws(5,6) hd)
  show "parse_v2_header N i = Inl Incomplete"
    if "16 \<le> length i" "take 12 i = SIG" "i ! 12 = 0x20 \<or> i ! 12 = 0x21" "length i < 16 + declared_len i"
    using that by (auto simp: parse_v2_header_def parse_command_def tag laws(4-6) hd declared_len_def slice_def)
  show "parse_v2_header N i =
        and_then (parse_addr_v2 N (i ! 13) (slice i 16 (16 + declared_len i))) (\<lambda>(_, a).
        Inr (drop (16 + declared_len i) i,
          \<lparr>h_command = if i ! 12 = 0x20 then Local else Proxy, h_family = i ! 13,
           h_addr = if i ! 12 = 0x20 then AfUnspec else a\<rparr>))"
    if "16 + declared_len i \<le> length i" "take 12 i = SIG" "i ! 12 = 0x20 \<or> i ! 12 = 0x21"
    using that
    by (auto simp: parse_v2_header_def parse_command_def tag laws(4-6) hd hd13 declared_len_def slice_def add.commute Let_def)
qed

text \<open>A proper prefix of an accepted header asks for more.\<close>

lemma parse_accepts:
  assumes "nom_streaming_documented N" and "parse_v2_header N i = Inr (rest, h)"
  shows "take 12 i = SIG" "i ! 12 = 0x20 \<or> i ! 12 = 0x21" "16 + declared_len i \<le> length i"
    "rest = drop (16 + declared_len i) i" "h_family h = i ! 13"
    "\<exists>a. block_addr (i ! 13) (slice i 16 (16 + declared_len i)) = Some a \<and>
       h = \<lparr>h_command = if i ! 12 = 0x20 then Local else Proxy, h_family = i ! 13, h_addr = if i ! 12 = 0x20 then AfUnspec else a\<rparr>"
proof -
  note st = parse_stages [OF assms(1), of i]
  have pre: "take 12 i = take (length i) SIG" using st(1) assms(2) by auto
  have "12 < length i"
  proof (rule ccontr)
    assume "\<not> 12 < length i"
    with pre have "i = take (length i) SIG" by simp
    with st(2) \<open>\<not> 12 < length i\<close> assms(2) show False by simp
  qed
  then show sig: "take 12 i = SIG" using pre by simp
  show cmd: "i ! 12 = 0x20 \<or> i ! 12 = 0x21" using st(3) [OF \<open>12 < length i\<close> sig] assms(2) by auto
  have "16 \<le> length i" using st(4) [OF \<open>12 < length i\<close> sig cmd] assms(2) by fastforce
  then show len: "16 + declared_len i \<le> length i" using st(5) [OF _ sig cmd] assms(2) by fastforce
  note p = st(6) [OF len sig cmd]
  obtain a where a: "block_addr (i ! 13) (slice i 16 (16 + declared_len i)) = Some a"
    using parse_addr_block(2) [OF assms(1), of "i ! 13" "slice i 16 (16 + declared_len i)"] p assms(2) by fastforce
  obtain r where "parse_addr_v2 N (i ! 13) (slice i 16 (16 + declared_len i)) = Inr (r, a)"
    using parse_addr_block(1) [OF assms(1) a] by blast
  with p assms(2) have "rest = drop (16 + declared_len i) i"
    "h = \<lparr>h_command = if i ! 12 = 0x20 then Local else Proxy, h_family = i ! 13, h_addr = if i ! 12 = 0x20 then AfUnspec else a\<rparr>"
    by simp_all
  then show "rest = drop (16 + declared_len i) i" "h_family h = i ! 13"
    "\<exists>a. block_addr (i ! 13) (slice i 16 (16 + declared_len i)) = Some a \<and>
       h = \<lparr>h_command = if i ! 12 = 0x20 then Local else Proxy, h_family = i ! 13, h_addr = if i ! 12 = 0x20 then AfUnspec else a\<rparr>"
    using a by simp_all
qed

lemma parse_builds:
  assumes "nom_streaming_documented N" and "take 12 i = SIG" and "i ! 12 = 0x20 \<or> i ! 12 = 0x21"
    and "16 + declared_len i \<le> length i" and "block_addr (i ! 13) (slice i 16 (16 + declared_len i)) = Some a"
  shows "parse_v2_header N i = Inr (drop (16 + declared_len i) i,
    \<lparr>h_command = if i ! 12 = 0x20 then Local else Proxy, h_family = i ! 13, h_addr = if i ! 12 = 0x20 then AfUnspec else a\<rparr>)"
  using parse_stages(6) [OF assms(1,4,2,3)] parse_addr_block(1) [OF assms(1,5)] by auto

lemma parse_prefix:
  assumes "nom_streaming_documented N" and "parse_v2_header N i = Inr (rest, h)" and "n < 16 + declared_len i"
  shows "parse_v2_header N (take n i) = Inl Incomplete"
proof -
  note acc = parse_accepts [OF assms(1,2)]
  let ?p = "take n i"
  have l: "length ?p = n" using acc(3) assms(3) by simp
  have sig: "take 12 ?p = take n SIG" using acc(1) by (metis take_take min.commute)
  show ?thesis
  proof (cases "n \<le> 12")
    case True
    then have "?p = take n SIG" using acc(1) by (metis min.absorb1 take_take)
    then show ?thesis using parse_stages(2) [OF assms(1), of ?p] True l by simp
  next
    case False
    then have s: "take 12 ?p = SIG" and c: "?p ! 12 = i ! 12" using sig by simp_all
    show ?thesis
    proof (cases "n < 16")
      case True
      then show ?thesis using parse_stages(4) [OF assms(1), of ?p] s c acc(2) l False by simp
    next
      case n: False
      then have "declared_len ?p = declared_len i" by (simp add: declared_len_def slice_def drop_take min_def)
      then show ?thesis using parse_stages(5) [OF assms(1), of ?p] s c acc(2) l n assms(3) by simp
    qed
  qed
qed

subsection \<open>The wire format\<close>

lemma u16_bytes_of: "length bs = 2 \<Longrightarrow> u16_bytes (be_u16_of bs) = bs"
proof -
  assume len: "length bs = 2"
  then have "be_nat bs < 256 ^ 2" using be_nat_less [of bs] by simp
  then have "unat (be_u16_of bs) = be_nat bs" by (simp add: be_u16_of_def unat_of_nat)
  then show ?thesis using be_bytes_be_nat [of bs] len by (simp add: u16_bytes_def)
qed

text \<open>The bytes of a header with a given version byte, family, length field and block.\<close>

definition wire_v2 :: "octet \<Rightarrow> octet \<Rightarrow> bytes \<Rightarrow> bytes" where
  "wire_v2 ver fam block = SIG @ [ver, fam] @ u16_bytes (of_nat (length block)) @ block"

lemma wire_fields:
  assumes "length block < 2 ^ 16"
  shows "take 12 (wire_v2 ver fam block @ rest) = SIG" "(wire_v2 ver fam block @ rest) ! 12 = ver"
    "(wire_v2 ver fam block @ rest) ! 13 = fam" "declared_len (wire_v2 ver fam block @ rest) = length block"
    "slice (wire_v2 ver fam block @ rest) 16 (16 + length block) = block"
    "drop (16 + length block) (wire_v2 ver fam block @ rest) = rest" "length (wire_v2 ver fam block) = 16 + length block"
proof -
  have u: "unat (of_nat (length block) :: u16) = length block" using assms by (simp add: unat_of_nat)
  show "take 12 (wire_v2 ver fam block @ rest) = SIG" "(wire_v2 ver fam block @ rest) ! 12 = ver"
    "(wire_v2 ver fam block @ rest) ! 13 = fam" "length (wire_v2 ver fam block) = 16 + length block"
    "slice (wire_v2 ver fam block @ rest) 16 (16 + length block) = block"
    by (simp_all add: wire_v2_def nth_append slice_def)
  then show "drop (16 + length block) (wire_v2 ver fam block @ rest) = rest" by (metis append_eq_conv_conj)
  show "declared_len (wire_v2 ver fam block @ rest) = length block"
    by (simp add: declared_len_def wire_v2_def slice_def u)
qed

lemma wire_v2_of:
  assumes "take 12 i = SIG" and "16 + declared_len i \<le> length i"
  shows "i = wire_v2 (i ! 12) (i ! 13) (slice i 16 (16 + declared_len i)) @ drop (16 + declared_len i) i"
proof -
  let ?l = "declared_len i"
  have "slice i 14 16 = u16_bytes (of_nat ?l)"
    using u16_bytes_of [of "slice i 14 16"] assms(2) by (simp add: declared_len_def)
  moreover have "length (slice i 16 (16 + ?l)) = ?l" using assms(2) by simp
  ultimately have "wire_v2 (i ! 12) (i ! 13) (slice i 16 (16 + ?l)) = take 12 i @ [i ! 12, i ! 13] @ slice i 14 16 @ slice i 16 (16 + ?l)"
    by (simp add: wire_v2_def assms(1))
  also have "\<dots> = take (16 + ?l) i"
  proof -
    have "take 14 i = take 12 i @ [i ! 12, i ! 13]"
      using take_Suc_conv_app_nth [of 12 i] take_Suc_conv_app_nth [of 13 i] assms(2) by simp
    moreover have "take 16 i = take 14 i @ slice i 14 16"
      unfolding slice_def by (subst take_add [symmetric]) simp
    moreover have "take (16 + ?l) i = take 16 i @ slice i 16 (16 + ?l)"
      unfolding slice_def by (simp add: take_add)
    ultimately show ?thesis by simp
  qed
  finally show ?thesis by simp
qed

lemma parse_wire:
  assumes "nom_streaming_documented N" and "length block < 2 ^ 16" and "ver = 0x20 \<or> ver = 0x21"
    and "block_addr fam block = Some a"
  shows "parse_v2_header N (wire_v2 ver fam block @ rest) = Inr (rest,
    \<lparr>h_command = if ver = 0x20 then Local else Proxy, h_family = fam, h_addr = if ver = 0x20 then AfUnspec else a\<rparr>)"
proof -
  note f = wire_fields [OF assms(2), of ver fam]
  have "16 + length block \<le> length (wire_v2 ver fam block @ rest)" using f(7) by simp
  from parse_builds [OF assms(1), of "wire_v2 ver fam block @ rest", unfolded f(1-6), OF refl assms(3) this assms(4)]
  show ?thesis .
qed

text \<open>
  C15: the PROXY protocol parser accepts exactly the version 2 headers: the signature, a LOCAL or PROXY
  command, a family byte, a two-byte length, and a block of that length that holds the addresses of
  the family, with anything after them in the block skipped. It leaves the bytes after the block
  alone, asks for more on every proper prefix, and attributes no address at all to a LOCAL header,
  whatever its block holds.
\<close>

theorem proxy_v2_accepts_exactly:
  assumes "nom_streaming_documented N"
  shows "(parse_v2_header N i = Inr (rest, h) \<longleftrightarrow>
      (\<exists>ver fam block a. i = wire_v2 ver fam block @ rest \<and> length block < 2 ^ 16 \<and> ver \<in> {0x20, 0x21} \<and>
        block_addr fam block = Some a \<and>
        h = \<lparr>h_command = if ver = 0x20 then Local else Proxy, h_family = fam, h_addr = if ver = 0x20 then AfUnspec else a\<rparr>)) \<and>
    (parse_v2_header N i = Inr (rest, h) \<and> n < length i - length rest \<longrightarrow> parse_v2_header N (take n i) = Inl Incomplete) \<and>
    (parse_v2_header N i = Inr (rest, h) \<and> h_command h = Local \<longrightarrow> proxy_source (h_addr h) = None \<and> proxy_destination (h_addr h) = None)"
proof (intro conjI impI iffI)
  assume p: "parse_v2_header N i = Inr (rest, h)"
  note acc = parse_accepts [OF assms p]
  have lt: "declared_len i < 2 ^ 16" unfolding declared_len_def using unsigned_less [of "be_u16_of (slice i 14 16)"] by simp
  let ?block = "slice i 16 (16 + declared_len i)"
  have "length ?block < 2 ^ 16" using acc(3) lt by simp
  moreover have "i = wire_v2 (i ! 12) (i ! 13) ?block @ rest" using wire_v2_of [OF acc(1,3)] acc(4) by simp
  ultimately show "\<exists>ver fam block a. i = wire_v2 ver fam block @ rest \<and> length block < 2 ^ 16 \<and> ver \<in> {0x20, 0x21} \<and>
        block_addr fam block = Some a \<and>
        h = \<lparr>h_command = if ver = 0x20 then Local else Proxy, h_family = fam, h_addr = if ver = 0x20 then AfUnspec else a\<rparr>"
    using acc(2,6) by blast
next
  assume "\<exists>ver fam block a. i = wire_v2 ver fam block @ rest \<and> length block < 2 ^ 16 \<and> ver \<in> {0x20, 0x21} \<and>
        block_addr fam block = Some a \<and>
        h = \<lparr>h_command = if ver = 0x20 then Local else Proxy, h_family = fam, h_addr = if ver = 0x20 then AfUnspec else a\<rparr>"
  then obtain ver fam block a where w: "i = wire_v2 ver fam block @ rest" "length block < 2 ^ 16" "ver \<in> {0x20, 0x21}"
      "block_addr fam block = Some a"
      "h = \<lparr>h_command = if ver = 0x20 then Local else Proxy, h_family = fam, h_addr = if ver = 0x20 then AfUnspec else a\<rparr>"
    by blast
  show "parse_v2_header N i = Inr (rest, h)"
    using parse_wire [OF assms w(2) _ w(4), of ver rest] w(1,3,5) by simp
next
  assume "parse_v2_header N i = Inr (rest, h) \<and> n < length i - length rest"
  then show "parse_v2_header N (take n i) = Inl Incomplete"
    using parse_prefix [OF assms, of i rest h n] parse_accepts(3,4) [OF assms, of i rest h] by auto
qed (use parse_accepts(6) [OF assms, of i rest h] in \<open>auto split: if_splits\<close>)

theorem proxy_v2_accepts_exactly_witness:
  "parse_v2_header nom_streaming (wire_v2 0x20 0x11 (replicate 12 7) @ [1]) =
     Inr ([1], \<lparr>h_command = Local, h_family = 0x11, h_addr = AfUnspec\<rparr>)"
proof -
  have "block_addr 0x11 (replicate 12 7) \<noteq> None" by (simp add: block_addr_def)
  then obtain a where "block_addr 0x11 (replicate 12 7) = Some a" by blast
  then have "\<exists>ver fam block a. wire_v2 0x20 0x11 (replicate 12 7) @ [1] = wire_v2 ver fam block @ [1] \<and> length block < 2 ^ 16 \<and>
      ver \<in> {0x20, 0x21} \<and> block_addr fam block = Some a \<and>
      \<lparr>h_command = Local, h_family = 0x11, h_addr = AfUnspec\<rparr> =
        \<lparr>h_command = if ver = 0x20 then Local else Proxy, h_family = fam, h_addr = if ver = 0x20 then AfUnspec else a\<rparr>"
    by (intro exI [of _ "0x20 :: octet"] exI [of _ "0x11 :: octet"] exI [of _ "replicate 12 (7 :: octet)"] exI [of _ a]) simp
  then show ?thesis
    using proxy_v2_accepts_exactly [OF nom_streaming_ok, of "wire_v2 0x20 0x11 (replicate 12 7) @ [1]" "[1]"] by blast
qed

lemma array_of_u8: "u16_to_array_of_u8 x = u16_bytes x"
proof -
  have m: "y AND 0xff = take_bit 8 y" for y :: u16 by (simp add: take_bit_eq_mask mask_eq_exp_minus_1)
  have t: "ucast (take_bit 8 y) = (of_nat (unat y) :: octet)" for y :: u16
    by (rule word_unat_eq_iff [THEN iffD2])
      (simp add: unsigned_ucast_eq unsigned_take_bit_eq unat_of_nat take_bit_eq_mod [where ?'a = nat])
  have "unat (drop_bit 8 x) = unat x div 256" by (simp add: unat_drop_bit_eq drop_bit_eq_div [where ?'a = nat])
  then show ?thesis by (simp add: u16_to_array_of_u8_def u16_bytes_def numeral_2_eq_2 m t)
qed

text \<open>What a header carries of an address pair: IPv6 flow labels and scopes are not on the wire.\<close>

fun wire_addr :: "ProxyAddr \<Rightarrow> ProxyAddr" where
  "wire_addr (Ipv6Addr s d) = Ipv6Addr (s\<lparr>v6_flowinfo := 0, v6_scope_id := 0\<rparr>) (d\<lparr>v6_flowinfo := 0, v6_scope_id := 0\<rparr>)"
| "wire_addr a = a"

lemma block_addr_written:
  assumes "drop_bit 4 fam AND 0x0f = drop_bit 4 (get_family a) AND (0x0f :: octet)" and "\<forall>s d. a \<noteq> UnixAddr s d"
  shows "block_addr fam (write_bytes_to a []) = Some (wire_addr a)"
    and "length (write_bytes_to a []) = unat (proxy_addr_len a)" "length (write_bytes_to a []) < 2 ^ 16"
proof -
  show "block_addr fam (write_bytes_to a []) = Some (wire_addr a)"
    using assms by (cases a) (simp_all add: block_addr_def slice_def array_of_u8)
  show "length (write_bytes_to a []) = unat (proxy_addr_len a)" "length (write_bytes_to a []) < 2 ^ 16"
    using assms(2) by (cases a; simp add: array_of_u8)+
qed

lemma proxy_addr_not_unix: "proxy_addr_from s d \<noteq> UnixAddr x y"
  by (cases s; cases d) auto

lemma write_bytes_append: "write_bytes_to a buf = buf @ write_bytes_to a []"
  by (cases a) auto

lemma into_bytes_wire:
  "header_v2_into_bytes (header_v2_new c s d) =
    wire_v2 (case c of Local \<Rightarrow> 0x20 | Proxy \<Rightarrow> 0x21) (get_family (proxy_addr_from s d)) (write_bytes_to (proxy_addr_from s d) [])"
  using block_addr_written(2) [OF refl, of "proxy_addr_from s d"] proxy_addr_not_unix [of s d]
  by (cases c) (simp_all add: header_v2_into_bytes_def header_v2_new_def Let_def write_bytes_append [of _ "_ # _"]
      wire_v2_def array_of_u8 PROTOCOL_SIGNATURE_V2_def)

lemma dgram_header_wire:
  "\<exists>fam. dgram_header s d = wire_v2 0x21 fam (write_bytes_to (proxy_addr_from s d) []) \<and>
    drop_bit 4 fam AND 0x0f = drop_bit 4 (get_family (proxy_addr_from s d)) AND (0x0f :: octet)"
proof (cases s; cases d)
  fix x y assume "s = V4 x" "d = V4 y"
  then show ?thesis
    by (intro exI [of _ "0x12 :: octet"])
      (simp add: wire_v2_def PP2_SIGNATURE_def PROTOCOL_SIGNATURE_V2_def PP2_VER_CMD_PROXY_def PP2_FAM_INET_DGRAM_def array_of_u8)
next
  fix x y assume "s = V6 x" "d = V6 y"
  then show ?thesis
    by (intro exI [of _ "0x22 :: octet"])
      (simp add: wire_v2_def PP2_SIGNATURE_def PROTOCOL_SIGNATURE_V2_def PP2_VER_CMD_PROXY_def PP2_FAM_INET6_DGRAM_def array_of_u8)
qed (auto simp: wire_v2_def PP2_SIGNATURE_def PROTOCOL_SIGNATURE_V2_def PP2_VER_CMD_PROXY_def intro!: exI [of _ "0 :: octet"])

text \<open>
  the addresses of a connection survive the trip through a PROXY header. Whatever follows it, the
  parser reads back the header that the serializer wrote for a pair of socket addresses, with the
  addresses and ports themselves (a mixed pair as unspecified, an IPv6 pair without flow label and
  scope); a LOCAL header yields no address. The datagram header in front of a UDP payload is read
  back as the addresses of the client and the backend, followed by the payload.
\<close>

theorem proxy_v2_roundtrip:
  assumes "nom_streaming_documented N"
  shows "parse_v2_header N (header_v2_into_bytes (header_v2_new c s d) @ rest) =
      Inr (rest, \<lparr>h_command = c, h_family = get_family (proxy_addr_from s d),
        h_addr = case c of Local \<Rightarrow> AfUnspec | Proxy \<Rightarrow> wire_addr (proxy_addr_from s d)\<rparr>) \<and>
    length (header_v2_into_bytes (header_v2_new c s d)) = header_v2_len (header_v2_new c s d) \<and>
    (\<exists>fam. parse_v2_header N (snd (prepend_dgram_header rest s d)) =
      Inr (rest, \<lparr>h_command = Proxy, h_family = fam, h_addr = wire_addr (proxy_addr_from s d)\<rparr>))"
proof (intro conjI)
  let ?a = "proxy_addr_from s d"
  have nu: "\<forall>x y. ?a \<noteq> UnixAddr x y" using proxy_addr_not_unix [of s d] by blast
  note w = block_addr_written [OF refl nu]
  show "parse_v2_header N (header_v2_into_bytes (header_v2_new c s d) @ rest) =
      Inr (rest, \<lparr>h_command = c, h_family = get_family ?a, h_addr = case c of Local \<Rightarrow> AfUnspec | Proxy \<Rightarrow> wire_addr ?a\<rparr>)"
    using parse_wire [OF assms w(3) _ w(1), of "case c of Local \<Rightarrow> 0x20 | Proxy \<Rightarrow> 0x21" rest]
    unfolding into_bytes_wire by (cases c) simp_all
  show "length (header_v2_into_bytes (header_v2_new c s d)) = header_v2_len (header_v2_new c s d)"
    unfolding into_bytes_wire using wire_fields(7) [OF w(3)] w(2) by (simp add: header_v2_len_def header_v2_new_def Let_def)
  obtain fam where fam: "dgram_header s d = wire_v2 0x21 fam (write_bytes_to ?a [])"
      "drop_bit 4 fam AND 0x0f = drop_bit 4 (get_family ?a) AND (0x0f :: octet)"
    using dgram_header_wire [of s d] by blast
  show "\<exists>fam. parse_v2_header N (snd (prepend_dgram_header rest s d)) =
      Inr (rest, \<lparr>h_command = Proxy, h_family = fam, h_addr = wire_addr ?a\<rparr>)"
    using parse_wire [OF assms w(3) _ block_addr_written(1) [OF fam(2) nu], of "0x21" rest] fam(1)
    by (auto simp: prepend_dgram_header_def Let_def)
qed

theorem proxy_v2_roundtrip_witness:
  "parse_v2_header nom_streaming (header_v2_into_bytes
      (header_v2_new Proxy (V4 \<lparr>v4_ip = 0x7D190A01, v4_port = 8080\<rparr>) (V4 \<lparr>v4_ip = 0x0A040508, v4_port = 4200\<rparr>)) @ [9]) =
    Inr ([9], \<lparr>h_command = Proxy, h_family = 0x11,
      h_addr = Ipv4Addr \<lparr>v4_ip = 0x7D190A01, v4_port = 8080\<rparr> \<lparr>v4_ip = 0x0A040508, v4_port = 4200\<rparr>\<rparr>)"
  using proxy_v2_roundtrip [OF nom_streaming_ok, of Proxy "V4 \<lparr>v4_ip = 0x7D190A01, v4_port = 8080\<rparr>"
      "V4 \<lparr>v4_ip = 0x0A040508, v4_port = 4200\<rparr>" "[9]"]
  by simp

end
