(* ===== verification/Proxy_Expect.thy ===== *)
theory Proxy_Expect
  imports Proxy_Wire Sozu_Socket
begin

text \<open>
  The inbound PROXY protocol state, from \<^verbatim>\<open>src/lib/src/protocol/proxy_protocol/expect.rs\<close>. The
  front socket is a parameter: \<open>rd n s\<close> is a read into a slice of \<open>n\<close> bytes in the socket state \<open>s\<close>,
  with the bytes read, the outcome and the next socket state. Timeouts, metrics, logs and the tokens
  are left out.
\<close>

definition V2_FIXED_HEADER_LEN :: nat where "V2_FIXED_HEADER_LEN = 16"
definition MAX_HEADER_LEN :: nat where "MAX_HEADER_LEN = 232"

record ExpectProxyProtocol =
  ex_addresses :: "ProxyAddr option"
  ex_buffer :: bytes
  ex_readiness :: Readiness
  ex_read_target :: nat
  ex_index :: nat

definition expect_new :: ExpectProxyProtocol where
  "expect_new =
     \<lparr>ex_addresses = None, ex_buffer = replicate MAX_HEADER_LEN 0,
      ex_readiness = \<lparr>event = READY_EMPTY, interest = READABLE OR HUP OR READY_ERROR\<rparr>,
      ex_read_target = V2_FIXED_HEADER_LEN, ex_index = 0\<rparr>"

definition expect_clear_readable :: "ExpectProxyProtocol \<Rightarrow> ExpectProxyProtocol" where
  "expect_clear_readable e =
     e\<lparr>ex_readiness := (ex_readiness e)\<lparr>event := ready_remove READABLE (event (ex_readiness e))\<rparr>\<rparr>"

definition expect_close :: "ExpectProxyProtocol \<Rightarrow> SessionResult \<times> ExpectProxyProtocol" where
  "expect_close e = (SClose, e\<lparr>ex_readiness := readiness_reset (ex_readiness e)\<rparr>)"

text \<open>The \<open>match\<close> on the parser's answer.\<close>

definition expect_parsed :: "'k NomStreaming \<Rightarrow> ExpectProxyProtocol \<Rightarrow> SessionResult \<times> ExpectProxyProtocol" where
  "expect_parsed N e =
     (case parse_v2_header N (take (ex_index e) (ex_buffer e)) of
        Inr (rest, header) \<Rightarrow> (SUpgrade, e\<lparr>ex_addresses := Some (h_addr header)\<rparr>)
      | Inl Incomplete \<Rightarrow>
          if ex_index e < ex_read_target e then (SContinue, e)
          else if ex_read_target e = V2_FIXED_HEADER_LEN then
            let declared_len = unat (be_u16_of [ex_buffer e ! 14, ex_buffer e ! 15]);
                declared_total = V2_FIXED_HEADER_LEN + declared_len
            in if length (ex_buffer e) < declared_total then expect_close e
               else if V2_FIXED_HEADER_LEN < declared_total then (SContinue, e\<lparr>ex_read_target := declared_total\<rparr>)
               else expect_close e
          else expect_close e
      | Inl _ \<Rightarrow> expect_close e)"

definition expect_readable ::
  "'k NomStreaming \<Rightarrow> 's socket_read \<Rightarrow> ExpectProxyProtocol \<Rightarrow> 's \<Rightarrow> (SessionResult \<times> ExpectProxyProtocol) \<times> 's" where
  "expect_readable N rd e s =
     (let total_len = ex_read_target e;
          ((data, socket_result), s) = rd (total_len - ex_index e) s;
          sz = length data;
          e = e\<lparr>ex_buffer := take (ex_index e) (ex_buffer e) @ data @ drop (ex_index e + sz) (ex_buffer e)\<rparr>;
          e = (if 0 < sz then e\<lparr>ex_index := ex_index e + sz\<rparr> else expect_clear_readable e)
      in case socket_result of
           SockError \<Rightarrow> (expect_close e, s)
         | SockWouldBlock \<Rightarrow> (expect_parsed N (expect_clear_readable e), s)
         | SockClosed \<Rightarrow> if ex_index e = 0 then ((SClose, e), s) else (expect_parsed N e, s)
         | SockContinue \<Rightarrow> (expect_parsed N e, s))"

text \<open>The readiness loop; \<open>k\<close> is the number of iterations left below \<open>MAX_LOOP_ITERATIONS\<close>.\<close>

fun expect_ready_loop ::
  "'k NomStreaming \<Rightarrow> 's socket_read \<Rightarrow> nat \<Rightarrow> ExpectProxyProtocol \<Rightarrow> 's \<Rightarrow> (SessionResult \<times> ExpectProxyProtocol) \<times> 's" where
  "expect_ready_loop N rd 0 e s = ((SClose, e), s)"
| "expect_ready_loop N rd (Suc k) e s =
     (let frontend_interest = filter_interest (ex_readiness e) in
      if is_hup (event (ex_readiness e)) \<and> \<not> is_readable frontend_interest then ((SClose, e), s)
      else if ready_is_empty frontend_interest then ((SContinue, e), s)
      else
        let ((session_result, e), s) =
              (if is_readable frontend_interest then expect_readable N rd e s else ((SContinue, e), s))
        in if session_result \<noteq> SContinue then ((session_result, e), s)
           else if is_error frontend_interest then
             ((SClose, e\<lparr>ex_readiness := (ex_readiness e)\<lparr>interest := READY_EMPTY\<rparr>\<rparr>), s)
           else expect_ready_loop N rd k e s)"

definition expect_ready ::
  "'k NomStreaming \<Rightarrow> 's socket_read \<Rightarrow> ExpectProxyProtocol \<Rightarrow> 's \<Rightarrow> (SessionResult \<times> ExpectProxyProtocol) \<times> 's" where
  "expect_ready N rd e s = expect_ready_loop N rd MAX_LOOP_ITERATIONS e s"

definition expect_update_readiness :: "Ready \<Rightarrow> ExpectProxyProtocol \<Rightarrow> ExpectProxyProtocol" where
  "expect_update_readiness events e =
     e\<lparr>ex_readiness := (ex_readiness e)\<lparr>event := event (ex_readiness e) OR events\<rparr>\<rparr>"

lemmas expect_consts = V2_FIXED_HEADER_LEN_def MAX_HEADER_LEN_def

subsection \<open>One read\<close>

lemma clear_readable_fields [simp]:
  "ex_index (expect_clear_readable e) = ex_index e" "ex_buffer (expect_clear_readable e) = ex_buffer e"
  "ex_read_target (expect_clear_readable e) = ex_read_target e" "ex_addresses (expect_clear_readable e) = ex_addresses e"
  by (simp_all add: expect_clear_readable_def)

text \<open>The reading position and the buffer before the parser runs.\<close>

definition expect_ok :: "ExpectProxyProtocol \<Rightarrow> bool" where
  "expect_ok e \<longleftrightarrow> length (ex_buffer e) = MAX_HEADER_LEN \<and> ex_index e \<le> ex_read_target e \<and>
     ex_read_target e \<le> MAX_HEADER_LEN \<and> V2_FIXED_HEADER_LEN \<le> ex_read_target e"

abbreviation received :: "ExpectProxyProtocol \<Rightarrow> bytes" where
  "received e \<equiv> take (ex_index e) (ex_buffer e)"

lemma readable_cases:
  assumes "expect_ok e" and "rd (ex_read_target e - ex_index e) s = ((data, res), s')"
    and "length data \<le> ex_read_target e - ex_index e"
  obtains e1 where "ex_index e1 = ex_index e + length data" "received e1 = received e @ data" "expect_ok e1"
    "ex_read_target e1 = ex_read_target e" "ex_addresses e1 = ex_addresses e"
    "data = [] \<or> res = SockWouldBlock \<Longrightarrow> \<not> is_readable (event (ex_readiness e1))"
    "interest (ex_readiness e1) = interest (ex_readiness e)" "is_hup (event (ex_readiness e1)) = is_hup (event (ex_readiness e))"
    "is_error (event (ex_readiness e1)) = is_error (event (ex_readiness e))"
    "expect_readable N rd e s =
       (if res = SockError then (expect_close e1, s')
        else if res = SockClosed \<and> ex_index e1 = 0 then ((SClose, e1), s')
        else (expect_parsed N e1, s'))"
proof -
  let ?e = "e\<lparr>ex_buffer := take (ex_index e) (ex_buffer e) @ data @ drop (ex_index e + length data) (ex_buffer e)\<rparr>"
  let ?e2 = "if data \<noteq> [] then ?e\<lparr>ex_index := ex_index ?e + length data\<rparr> else expect_clear_readable ?e"
  let ?e1 = "if res = SockWouldBlock then expect_clear_readable ?e2 else ?e2"
  have "ex_index ?e1 = ex_index e + length data" "received ?e1 = received e @ data" "expect_ok ?e1"
    "ex_read_target ?e1 = ex_read_target e" "ex_addresses ?e1 = ex_addresses e"
    "interest (ex_readiness ?e1) = interest (ex_readiness e)" "is_hup (event (ex_readiness ?e1)) = is_hup (event (ex_readiness e))"
    "is_error (event (ex_readiness ?e1)) = is_error (event (ex_readiness e))"
    "data = [] \<or> res = SockWouldBlock \<Longrightarrow> \<not> is_readable (event (ex_readiness ?e1))"
    using assms(1,3) by (auto simp: expect_ok_def expect_clear_readable_def remove_readable expect_consts)
  moreover have "expect_readable N rd e s =
       (if res = SockError then (expect_close ?e1, s')
        else if res = SockClosed \<and> ex_index ?e1 = 0 then ((SClose, ?e1), s')
        else (expect_parsed N ?e1, s'))"
    by (cases res) (simp_all add: expect_readable_def assms(2) Let_def)
  ultimately show thesis using that [of ?e1] by blast
qed

end
