(* ===== verification/Proxy_Expect_Run.thy ===== *)
theory Proxy_Expect_Run
  imports Proxy_Expect
begin

text \<open>
  What the inbound PROXY protocol state takes from a socket over a whole run of readiness events: the
  header and nothing else, whatever the sizes in which it arrives.
\<close>

subsection \<open>Headers at the front of a stream\<close>

text \<open>The session woken up with each of a list of readiness events, until it upgrades or closes.\<close>

fun expect_run ::
  "'k NomStreaming \<Rightarrow> 's socket_read \<Rightarrow> Ready list \<Rightarrow> ExpectProxyProtocol \<Rightarrow> 's \<Rightarrow> (SessionResult \<times> ExpectProxyProtocol) \<times> 's" where
  "expect_run N rd [] e s = ((SContinue, e), s)"
| "expect_run N rd (ev # evs) e s =
     (let ((r, e), s) = expect_ready N rd (expect_update_readiness ev e) s in
      if r = SContinue then expect_run N rd evs e s else ((r, e), s))"

definition header_at :: "'k NomStreaming \<Rightarrow> bytes \<Rightarrow> bytes \<Rightarrow> HeaderV2 \<Rightarrow> bool" where
  "header_at N T w h \<longleftrightarrow> (\<exists>rest. T = w @ rest) \<and> parse_v2_header N w = Inr ([], h) \<and> length w \<le> MAX_HEADER_LEN"

lemma declared_len_append: "16 \<le> length x \<Longrightarrow> declared_len (x @ y) = declared_len x"
  by (simp add: declared_len_def)

lemma parse_front_unique:
  assumes "nom_streaming_documented N" and "parse_v2_header N w = Inr ([], h)" and "parse_v2_header N w' = Inr ([], h')"
    and "w @ x = w' @ y"
  shows "w = w' \<and> h = h'"
proof -
  note acc = parse_accepts(3,4) [OF assms(1,2)] and acc' = parse_accepts(3,4) [OF assms(1,3)]
  have "declared_len w = declared_len w'"
    using declared_len_append [of w x] declared_len_append [of w' y] acc(1) acc'(1) assms(4) by simp
  then have "length w = length w'" using acc acc' by simp
  then have "w = w'" using assms(4) by simp
  then show ?thesis using assms(2,3) by simp
qed

lemma header_at_length:
  assumes "nom_streaming_documented N" and "header_at N T w h"
  shows "length w = 16 + declared_len w" "declared_len T = declared_len w" "w = take (length w) T" "length w \<le> length T"
proof -
  have p: "parse_v2_header N w = Inr ([], h)" using assms(2) by (simp add: header_at_def)
  obtain rest where T: "T = w @ rest" using assms(2) by (auto simp: header_at_def)
  from parse_accepts(3,4) [OF assms(1) p] show l: "length w = 16 + declared_len w" by simp
  from T l show "declared_len T = declared_len w" by (simp add: declared_len_append)
  from T show "w = take (length w) T" "length w \<le> length T" by simp_all
qed

lemma header_at_unique:
  assumes "nom_streaming_documented N" and "header_at N T w h" and "header_at N T w' h'"
  shows "w = w'" "h = h'"
proof -
  from header_at_length [OF assms(1,2)] header_at_length [OF assms(1,3)] show "w = w'" by metis
  with assms(2,3) show "h = h'" by (simp add: header_at_def)
qed

subsection \<open>The stage of the read\<close>

definition staged :: "ExpectProxyProtocol \<Rightarrow> bool" where
  "staged e \<longleftrightarrow> expect_ok e \<and> ex_addresses e = None \<and>
     (ex_read_target e = V2_FIXED_HEADER_LEN \<or>
      V2_FIXED_HEADER_LEN \<le> ex_index e \<and> ex_read_target e = V2_FIXED_HEADER_LEN + declared_len (received e))"

definition expect_inv :: "ExpectProxyProtocol \<Rightarrow> bool" where
  "expect_inv e \<longleftrightarrow> staged e \<and> ex_index e < ex_read_target e \<and> interest (ex_readiness e) = READABLE OR HUP OR READY_ERROR"

lemma length_received: "expect_ok e \<Longrightarrow> length (received e) = ex_index e"
  by (simp add: expect_ok_def)

lemma staged_within:
  assumes "nom_streaming_documented N" and "header_at N (received e @ rest) w h" and "staged e"
  shows "ex_read_target e \<le> length w" "received e = take (ex_index e) w"
    "ex_read_target e \<noteq> V2_FIXED_HEADER_LEN \<Longrightarrow> ex_read_target e = length w"
proof -
  note l = header_at_length [OF assms(1,2)]
  have len: "length (received e) = ex_index e" "ex_index e \<le> ex_read_target e"
    using assms(3) by (auto simp: staged_def length_received expect_ok_def)
  then have "declared_len (received e @ rest) = declared_len (received e)" if "16 \<le> ex_index e"
    using that declared_len_append by simp
  then show t: "ex_read_target e \<le> length w" and "ex_read_target e \<noteq> V2_FIXED_HEADER_LEN \<Longrightarrow> ex_read_target e = length w"
    using assms(3) l(1,2) by (auto simp: staged_def expect_consts)
  have "take (ex_index e) w = take (ex_index e) (received e @ rest)"
    using l(3) t len(2) by (metis min.absorb1 order_trans take_take)
  then show "received e = take (ex_index e) w" using len(1) by simp
qed

lemma buffered_length:
  assumes "expect_ok e" and "V2_FIXED_HEADER_LEN \<le> ex_index e"
  shows "unat (be_u16_of [ex_buffer e ! 14, ex_buffer e ! 15]) = declared_len (received e)"
proof -
  have "slice (received e) 14 16 = [ex_buffer e ! 14, ex_buffer e ! 15]"
    using assms by (auto simp: slice_def expect_ok_def expect_consts list_eq_iff_nth_eq nth_Cons' less_Suc_eq numeral_2_eq_2)
  then show ?thesis by (simp add: declared_len_def)
qed

lemma expect_parsed_keeps:
  assumes "expect_parsed N e = (r, e')"
  shows "received e' = received e" "ex_index e' = ex_index e" "r \<noteq> SUpgrade \<Longrightarrow> ex_addresses e' = ex_addresses e"
    "r = SContinue \<Longrightarrow> ex_readiness e' = ex_readiness e"
  using assms by (auto simp: expect_parsed_def expect_close_def Let_def split: sum.splits Err.splits if_splits)

lemma expect_parsed_continues:
  assumes "expect_parsed N e = (SContinue, e')" and "staged e"
  shows "staged e' \<and> ex_index e' < ex_read_target e'"
  using assms buffered_length [of e]
  by (auto simp: expect_parsed_def expect_close_def staged_def expect_ok_def Let_def split: sum.splits Err.splits if_splits)

lemma expect_parsed_upgrades:
  assumes "nom_streaming_documented N" and "expect_parsed N e = (SUpgrade, e')" and "staged e"
  shows "\<exists>h. header_at N (received e @ rest) (received e) h \<and> ex_addresses e' = Some (h_addr h)"
proof -
  obtain tail h where p: "parse_v2_header N (received e) = Inr (tail, h)" and a: "ex_addresses e' = Some (h_addr h)"
    using assms(2) by (auto simp: expect_parsed_def expect_close_def Let_def split: sum.splits Err.splits if_splits)
  note acc = parse_accepts(3,4) [OF assms(1) p]
  have "ex_index e \<le> 16 + declared_len (received e)" "ex_index e \<le> MAX_HEADER_LEN" "length (received e) = ex_index e"
    using assms(3) by (auto simp: staged_def expect_ok_def expect_consts)
  then have "tail = []" "length (received e) \<le> MAX_HEADER_LEN" using acc(2) by simp_all
  then show ?thesis using p a by (auto simp: header_at_def)
qed

lemma expect_parsed_closes:
  assumes "nom_streaming_documented N" and "expect_parsed N e = (SClose, e')" and "staged e"
  shows "\<not> header_at N (received e @ rest) w h"
proof
  assume h: "header_at N (received e @ rest) w h"
  note in_w = staged_within [OF assms(1) h assms(3)] and len = header_at_length [OF assms(1) h]
  have p: "parse_v2_header N w = Inr ([], h)" and w: "length w \<le> MAX_HEADER_LEN" using h by (auto simp: header_at_def)
  have ok: "expect_ok e" "ex_index e \<le> ex_read_target e" "length (ex_buffer e) = MAX_HEADER_LEN"
    using assms(3) by (auto simp: staged_def expect_ok_def)
  show False
  proof (cases "ex_index e = length w")
    case True
    then have "received e = w" using in_w(2) by simp
    then show False using assms(2) p by (simp add: expect_parsed_def)
  next
    case False
    then have lt: "ex_index e < length w" using in_w(1) ok(2) by simp
    then have inc: "parse_v2_header N (received e) = Inl Incomplete"
      using parse_prefix [OF assms(1) p] len(1) in_w(2) by simp
    have "16 + declared_len (received e) = length w" if "V2_FIXED_HEADER_LEN \<le> ex_index e"
      using that len(1,2) declared_len_append [of "received e" rest] length_received [OF ok(1)] by (simp add: expect_consts)
    then show False using assms(2) inc lt ok(2,3) w in_w(3) buffered_length [OF ok(1)]
      by (auto simp: expect_parsed_def expect_consts Let_def split: if_splits)
  qed
qed

lemma event_mask_empty:
  "ready_is_empty (x AND (READABLE OR HUP OR READY_ERROR)) \<longleftrightarrow> \<not> is_readable x \<and> \<not> is_hup x \<and> \<not> is_error x"
proof
  assume "ready_is_empty (x AND (READABLE OR HUP OR READY_ERROR))"
  then have "\<not> bit (x AND (READABLE OR HUP OR READY_ERROR)) n" for n by (simp add: ready_is_empty_def)
  from this [of 0] this [of 2] this [of 3] show "\<not> is_readable x \<and> \<not> is_hup x \<and> \<not> is_error x"
    by (simp add: contains_bit ready_consts bit_simps)
next
  assume n: "\<not> is_readable x \<and> \<not> is_hup x \<and> \<not> is_error x"
  have c: "READABLE = 2 ^ 0" "HUP = 2 ^ 3" "READY_ERROR = 2 ^ 2" by (simp_all add: ready_consts)
  have "x AND (READABLE OR HUP OR READY_ERROR) = 0"
    by (rule bit_word_eqI, unfold c bit_and_iff bit_or_iff bit_exp_iff) (use n in \<open>auto simp: contains_bit intro: gr0I\<close>)
  then show "ready_is_empty (x AND (READABLE OR HUP OR READY_ERROR))" by (simp add: ready_is_empty_def)
qed

lemma expect_close_result: "(r, e') = expect_close e \<Longrightarrow> r = SClose"
  by (simp add: expect_close_def)

lemma update_readiness_fields:
  "ex_index (expect_update_readiness ev e) = ex_index e" "ex_buffer (expect_update_readiness ev e) = ex_buffer e"
  "expect_inv (expect_update_readiness ev e) = expect_inv e" "event (ex_readiness (expect_update_readiness ev e)) = event (ex_readiness e) OR ev"
  by (simp_all add: expect_update_readiness_def expect_inv_def staged_def expect_ok_def)

text \<open>An event without a hang-up or an error.\<close>

definition quiet :: "Ready \<Rightarrow> bool" where
  "quiet ev \<longleftrightarrow> \<not> is_hup ev \<and> \<not> is_error ev"

text \<open>What the loop can still do: one iteration per byte, one to clear the event.\<close>

lemma loop_room: "MAX_HEADER_LEN - i + of_bool b < MAX_HEADER_LEN + 2"
  by (cases b) simp_all

subsection \<open>One readable event\<close>

context byte_source
begin

lemma readable_elim:
  assumes "expect_inv e" and "expect_readable N rd e s = ((r, e'), s')"
  obtains e1 where "staged e1" "received e @ pending s = received e1 @ pending s'" "ex_index e \<le> ex_index e1"
    "ex_index e < ex_index e1 \<or> \<not> is_readable (event (ex_readiness e1))"
    "interest (ex_readiness e1) = interest (ex_readiness e)" "is_hup (event (ex_readiness e1)) = is_hup (event (ex_readiness e))"
    "is_error (event (ex_readiness e1)) = is_error (event (ex_readiness e))"
    "pending s \<noteq> [] \<Longrightarrow> effort s' < effort s" "sound s \<Longrightarrow> sound s'"
    "\<not> sound s \<and> (r, e') = expect_close e1 \<or> received e1 @ pending s' = [] \<and> (r, e') = (SClose, e1) \<or> expect_parsed N e1 = (r, e')"
proof -
  obtain data res m where rd: "rd (ex_read_target e - ex_index e) s = ((data, res), m)" by (metis prod.exhaust)
  note del = delivers [OF rd]
  have ok: "expect_ok e" "ex_index e < ex_read_target e" and st: "staged e" using assms(1) by (auto simp: expect_inv_def staged_def)
  from readable_cases [where rd = rd and N = N, OF ok(1) rd conjunct1 [OF del]] obtain e1 where
    e1: "ex_index e1 = ex_index e + length data" "received e1 = received e @ data" "expect_ok e1"
      "ex_read_target e1 = ex_read_target e" "ex_addresses e1 = ex_addresses e"
      "data = [] \<or> res = SockWouldBlock \<Longrightarrow> \<not> is_readable (event (ex_readiness e1))"
      "interest (ex_readiness e1) = interest (ex_readiness e)" "is_hup (event (ex_readiness e1)) = is_hup (event (ex_readiness e))"
      "is_error (event (ex_readiness e1)) = is_error (event (ex_readiness e))"
    and eq: "expect_readable N rd e s =
       (if res = SockError then (expect_close e1, m)
        else if res = SockClosed \<and> ex_index e1 = 0 then ((SClose, e1), m)
        else (expect_parsed N e1, m))" by blast
  have m: "s' = m" using assms(2) eq by (auto split: if_splits)
  have "staged e1"
    using st e1 declared_len_append [of "received e" data] length_received [OF ok(1)] by (auto simp: staged_def expect_consts)
  moreover have "\<not> sound s \<and> (r, e') = expect_close e1 \<or> received e1 @ pending s' = [] \<and> (r, e') = (SClose, e1) \<or> expect_parsed N e1 = (r, e')"
    using assms(2) eq sound [OF rd] closed [of _ s data m] rd m by (auto split: if_splits)
  ultimately show thesis
    using that [of e1] e1 del sound [OF rd] progress [OF rd] ok m by auto
qed

lemma readable_stream:
  assumes "expect_inv e" and "expect_readable N rd e s = ((r, e'), s')"
  shows "received e @ pending s = received e' @ pending s'" and "r \<noteq> SUpgrade \<Longrightarrow> ex_addresses e' = None"
    and "sound s \<Longrightarrow> sound s'" and "pending s \<noteq> [] \<Longrightarrow> effort s' < effort s"
  using assms by (auto elim!: readable_elim simp: expect_close_def staged_def dest: expect_parsed_keeps(1,3))

lemma readable_continues:
  assumes "expect_inv e" and "expect_readable N rd e s = ((SContinue, e'), s')"
  shows "expect_inv e'" "is_hup (event (ex_readiness e')) = is_hup (event (ex_readiness e))"
    "is_error (event (ex_readiness e')) = is_error (event (ex_readiness e))"
    "ex_index e \<le> ex_index e'" "ex_index e < ex_index e' \<or> \<not> is_readable (event (ex_readiness e'))"
proof -
  from assms obtain e1 where e1: "staged e1" "ex_index e \<le> ex_index e1" "ex_index e < ex_index e1 \<or> \<not> is_readable (event (ex_readiness e1))"
    "interest (ex_readiness e1) = interest (ex_readiness e)" "is_hup (event (ex_readiness e1)) = is_hup (event (ex_readiness e))"
    "is_error (event (ex_readiness e1)) = is_error (event (ex_readiness e))" "expect_parsed N e1 = (SContinue, e')"
    by (rule readable_elim) (use expect_close_result in blast)
  note k = expect_parsed_keeps [OF e1(7)]
  from expect_parsed_continues [OF e1(7,1)] k e1 assms(1) show "expect_inv e'" by (auto simp: expect_inv_def)
  from k e1 show "is_hup (event (ex_readiness e')) = is_hup (event (ex_readiness e))"
    "is_error (event (ex_readiness e')) = is_error (event (ex_readiness e))"
    "ex_index e \<le> ex_index e'" "ex_index e < ex_index e' \<or> \<not> is_readable (event (ex_readiness e'))" by auto
qed

lemma readable_upgrades:
  assumes "nom_streaming_documented N" and "expect_inv e" and "expect_readable N rd e s = ((SUpgrade, e'), s')"
  shows "\<exists>h. header_at N (received e @ pending s) (received e') h \<and> ex_addresses e' = Some (h_addr h)"
proof -
  from assms(2,3) obtain e1 where e1: "staged e1" "received e @ pending s = received e1 @ pending s'" "expect_parsed N e1 = (SUpgrade, e')"
    by (rule readable_elim) (use expect_close_result in blast)
  then show ?thesis using expect_parsed_upgrades [OF assms(1) e1(3,1)] expect_parsed_keeps(1) [OF e1(3)] by simp
qed

lemma readable_closes:
  assumes "nom_streaming_documented N" and "expect_inv e" and "expect_readable N rd e s = ((SClose, e'), s')" and "sound s"
  shows "\<not> header_at N (received e @ pending s) w h"
proof -
  obtain e1 where e1: "staged e1" "received e @ pending s = received e1 @ pending s'"
    "received e1 @ pending s' = [] \<or> expect_parsed N e1 = (SClose, e')"
    by (rule readable_elim [OF assms(2,3)]) (use assms(4) in blast)
  from e1(3) show ?thesis
  proof
    assume "received e1 @ pending s' = []"
    then show ?thesis using header_at_length(1,4) [OF assms(1), of "[]" w h] e1(2) by auto
  next
    assume "expect_parsed N e1 = (SClose, e')"
    then show ?thesis using expect_parsed_closes [OF assms(1) _ e1(1)] e1(2) by simp
  qed
qed

subsection \<open>The readiness loop\<close>

text \<open>The interests never change, so the loop goes on only to read.\<close>

declare expect_ready_loop.simps(2) [simp del]

lemma ready_loop_step:
  assumes "expect_inv e"
  shows "expect_ready_loop N rd (Suc k) e s =
    (if is_readable (event (ex_readiness e)) then
       let ((r, e'), s') = expect_readable N rd e s in
       if r \<noteq> SContinue then ((r, e'), s')
       else if is_error (event (ex_readiness e)) then
         ((SClose, e'\<lparr>ex_readiness := (ex_readiness e')\<lparr>interest := READY_EMPTY\<rparr>\<rparr>), s')
       else expect_ready_loop N rd k e' s'
     else if is_hup (event (ex_readiness e)) then ((SClose, e), s)
     else if is_error (event (ex_readiness e)) then
       ((SClose, e\<lparr>ex_readiness := (ex_readiness e)\<lparr>interest := READY_EMPTY\<rparr>\<rparr>), s)
     else ((SContinue, e), s))"
proof -
  let ?r = "ex_readiness e"
  have i: "interest ?r = READABLE OR HUP OR READY_ERROR" using assms by (simp add: expect_inv_def)
  have bits: "is_readable (interest ?r)" "is_error (interest ?r)" "is_hup (interest ?r)"
    unfolding i by (simp_all add: contains_bit ready_consts bit_simps)
  have "ready_is_empty (filter_interest ?r) \<longleftrightarrow>
      \<not> is_readable (event ?r) \<and> \<not> is_hup (event ?r) \<and> \<not> is_error (event ?r)"
    unfolding i filter_interest_def by (rule event_mask_empty)
  then show ?thesis
    by (simp add: expect_ready_loop.simps filter_interest_bits bits Let_def split: prod.split)
qed

lemma ready_loop_safe:
  assumes "nom_streaming_documented N" and "expect_inv e" and "expect_ready_loop N rd k e s = ((r, e'), s')"
  shows "received e @ pending s = received e' @ pending s'" and "r = SContinue \<Longrightarrow> expect_inv e'"
    and "r = SUpgrade \<Longrightarrow> \<exists>h. header_at N (received e @ pending s) (received e') h \<and> ex_addresses e' = Some (h_addr h)"
    and "r \<noteq> SUpgrade \<Longrightarrow> ex_addresses e' = None"
proof -
  have "received e @ pending s = received e' @ pending s' \<and> (r = SContinue \<longrightarrow> expect_inv e') \<and>
    (r = SUpgrade \<longrightarrow> (\<exists>h. header_at N (received e @ pending s) (received e') h \<and> ex_addresses e' = Some (h_addr h))) \<and>
    (r \<noteq> SUpgrade \<longrightarrow> ex_addresses e' = None)"
    using assms(2,3)
  proof (induction k arbitrary: e s)
    case 0
    then show ?case by (auto simp: expect_inv_def staged_def)
  next
    case (Suc k)
    show ?case
    proof (cases "is_readable (event (ex_readiness e))")
      case False
      with Suc.prems show ?thesis
        by (auto simp: ready_loop_step staged_def expect_inv_def split: if_splits)
    next
      case True
      obtain q e1 s1 where q: "expect_readable N rd e s = ((q, e1), s1)" by (metis prod.exhaust)
      note st = readable_stream [OF Suc.prems(1) q]
      show ?thesis
      proof (cases "q = SContinue")
        case False
        then have "q = r" "e1 = e'" "s1 = s'" using Suc.prems True q by (simp_all add: ready_loop_step)
        then show ?thesis using st(1,2) readable_upgrades [OF assms(1) Suc.prems(1), of s e1 s1] q False by auto
      next
        case c: True
        note inv = readable_continues(1) [OF Suc.prems(1) q [unfolded c]]
        show ?thesis
        proof (cases "is_error (event (ex_readiness e))")
          case err: True
          then show ?thesis using Suc.prems True q c st(1) inv
            by (auto simp: ready_loop_step expect_inv_def staged_def)
        next
          case False
          then have "expect_ready_loop N rd k e1 s1 = ((r, e'), s')" using Suc.prems True q c by (simp add: ready_loop_step)
          from Suc.IH [OF inv this] show ?thesis unfolding st(1) .
        qed
      qed
    qed
  qed
  then show "received e @ pending s = received e' @ pending s'" and "r = SContinue \<Longrightarrow> expect_inv e'"
    and "r = SUpgrade \<Longrightarrow> \<exists>h. header_at N (received e @ pending s) (received e') h \<and> ex_addresses e' = Some (h_addr h)"
    and "r \<noteq> SUpgrade \<Longrightarrow> ex_addresses e' = None" by blast+
qed

text \<open>Without a hang-up, an error or a transport fault, and with a header on its way.\<close>

lemma header_pending:
  assumes "nom_streaming_documented N" and "expect_inv e" and "header_at N (received e @ p) w h"
  shows "p \<noteq> []"
proof
  assume "p = []"
  then have "length w \<le> ex_index e" using header_at_length(4) [OF assms(1,3)] by simp
  then show False using staged_within(1) [OF assms(1,3)] assms(2) by (auto simp: expect_inv_def)
qed

lemma ready_loop_quiet:
  assumes "nom_streaming_documented N" and "expect_inv e" and "expect_ready_loop N rd k e s = ((r, e'), s')"
    and "quiet (event (ex_readiness e))" and "sound s" and "header_at N (received e @ pending s) w h"
    and "MAX_HEADER_LEN - ex_index e + of_bool (is_readable (event (ex_readiness e))) < k"
  shows "r \<noteq> SClose \<and> sound s' \<and> (r = SContinue \<longrightarrow>
    quiet (event (ex_readiness e')) \<and> effort s' + of_bool (is_readable (event (ex_readiness e))) \<le> effort s)"
  using assms(2-)
proof (induction k arbitrary: e s)
  case 0
  then show ?case by simp
next
  case (Suc k)
  show ?case
  proof (cases "is_readable (event (ex_readiness e))")
    case False
    with Suc.prems show ?thesis by (auto simp: ready_loop_step quiet_def)
  next
    case True
    obtain q e1 s1 where q: "expect_readable N rd e s = ((q, e1), s1)" by (metis prod.exhaust)
    note st = readable_stream [OF Suc.prems(1) q] and p = header_pending [OF assms(1) Suc.prems(1,5)]
    have "q \<noteq> SClose" using readable_closes [OF assms(1) Suc.prems(1) _ Suc.prems(4), of e1 s1 w h] q Suc.prems(5) by auto
    show ?thesis
    proof (cases "q = SContinue")
      case False
      then show ?thesis using Suc.prems True q st(3) \<open>q \<noteq> SClose\<close> by (auto simp: ready_loop_step)
    next
      case c: True
      note co = readable_continues [OF Suc.prems(1) q [unfolded c]]
      have loop: "expect_ready_loop N rd k e1 s1 = ((r, e'), s')"
        using Suc.prems True q c by (simp add: ready_loop_step quiet_def)
      have "ex_index e1 < MAX_HEADER_LEN" using co(1) by (auto simp: expect_inv_def staged_def expect_ok_def)
      then have "MAX_HEADER_LEN - ex_index e1 + of_bool (is_readable (event (ex_readiness e1))) < k"
        using Suc.prems(6) True co(4,5) by (auto simp: of_bool_def split: if_splits)
      from Suc.IH [OF co(1) loop _ _ _ this] st(1,3,4) co(2,3) Suc.prems(3-5) p True show ?thesis
        by (auto simp: quiet_def)
    qed
  qed
qed

lemma ready_loop_cap:
  assumes "expect_inv e" and "MAX_HEADER_LEN - ex_index e + of_bool (is_readable (event (ex_readiness e))) < k"
  shows "expect_ready_loop N rd k e s = expect_ready_loop N rd (k + n) e s"
  using assms
proof (induction k arbitrary: e s)
  case 0
  then show ?case by simp
next
  case (Suc k)
  obtain q e1 s1 where q: "expect_readable N rd e s = ((q, e1), s1)" by (metis prod.exhaust)
  have "expect_ready_loop N rd k e1 s1 = expect_ready_loop N rd (k + n) e1 s1"
    if "is_readable (event (ex_readiness e))" "q = SContinue"
  proof (rule Suc.IH)
    note co = readable_continues [OF Suc.prems(1) q [unfolded that(2)]]
    show "expect_inv e1" by (rule co(1))
    have "ex_index e1 < MAX_HEADER_LEN" using co(1) by (auto simp: expect_inv_def staged_def expect_ok_def)
    then show "MAX_HEADER_LEN - ex_index e1 + of_bool (is_readable (event (ex_readiness e1))) < k"
      using Suc.prems(2) that(1) co(4,5) by (auto simp: of_bool_def split: if_splits)
  qed
  then show ?case using Suc.prems(1) q by (auto simp: ready_loop_step)
qed

subsection \<open>A whole run\<close>

lemma run_safe:
  assumes "nom_streaming_documented N" and "expect_inv e" and "expect_run N rd evs e s = ((r, e'), s')"
  shows "received e @ pending s = received e' @ pending s' \<and> (r = SContinue \<longrightarrow> expect_inv e') \<and>
    (r = SUpgrade \<longrightarrow> (\<exists>h. header_at N (received e @ pending s) (received e') h \<and> ex_addresses e' = Some (h_addr h))) \<and>
    (r \<noteq> SUpgrade \<longrightarrow> ex_addresses e' = None)"
  using assms(2,3)
proof (induction evs arbitrary: e s)
  case Nil
  then show ?case by (auto simp: expect_inv_def staged_def)
next
  case (Cons ev evs)
  let ?e = "expect_update_readiness ev e"
  obtain q e1 s1 where q: "expect_ready N rd ?e s = ((q, e1), s1)" by (metis prod.exhaust)
  have inv: "expect_inv ?e" using Cons.prems(1) by (simp add: update_readiness_fields)
  note st = ready_loop_safe [OF assms(1) inv q [unfolded expect_ready_def], unfolded update_readiness_fields]
  show ?case
  proof (cases "q = SContinue")
    case True
    then have "expect_run N rd evs e1 s1 = ((r, e'), s')" using Cons.prems(2) q by simp
    from Cons.IH [OF st(2) [OF True] this] show ?thesis unfolding st(1) .
  next
    case False
    then have "q = r" "e1 = e'" "s1 = s'" using Cons.prems(2) q by simp_all
    with st False show ?thesis by blast
  qed
qed

lemma run_quiet:
  assumes "nom_streaming_documented N" and "expect_inv e" and "expect_run N rd evs e s = ((r, e'), s')"
    and "quiet (event (ex_readiness e))" and "sound s" and "header_at N (received e @ pending s) w h" and "\<forall>ev \<in> set evs. quiet ev"
  shows "r \<noteq> SClose \<and> ((\<forall>ev \<in> set evs. is_readable ev) \<and> r = SContinue \<longrightarrow> effort s' + length evs \<le> effort s)"
  using assms(2-)
proof (induction evs arbitrary: e s)
  case Nil
  then show ?case by auto
next
  case (Cons ev evs)
  let ?e = "expect_update_readiness ev e"
  obtain q e1 s1 where q: "expect_ready N rd ?e s = ((q, e1), s1)" by (metis prod.exhaust)
  have inv: "expect_inv ?e" using Cons.prems(1) by (simp add: update_readiness_fields)
  have ev: "event (ex_readiness ?e) = event (ex_readiness e) OR ev" by (simp add: update_readiness_fields)
  have qt: "quiet (event (ex_readiness ?e))" using Cons.prems(3,6) by (simp add: ev quiet_def contains_bit bit_or_iff)
  have h: "header_at N (received ?e @ pending s) w h" using Cons.prems(5) by (simp add: update_readiness_fields)
  have "MAX_HEADER_LEN - ex_index ?e + of_bool (is_readable (event (ex_readiness ?e))) < MAX_LOOP_ITERATIONS"
    using loop_room by (rule less_le_trans) (simp add: MAX_LOOP_ITERATIONS_def expect_consts)
  note lq = ready_loop_quiet [OF assms(1) inv q [unfolded expect_ready_def] qt Cons.prems(4) h this]
    and st = ready_loop_safe(1,2) [OF assms(1) inv q [unfolded expect_ready_def]]
  show ?case
  proof (cases "q = SContinue")
    case True
    have rd: "is_readable ev \<Longrightarrow> is_readable (event (ex_readiness ?e))" by (simp add: ev contains_bit bit_or_iff)
    have "r \<noteq> SClose \<and> ((\<forall>ev \<in> set evs. is_readable ev) \<and> r = SContinue \<longrightarrow> effort s' + length evs \<le> effort s1)"
      using Cons.IH [OF st(2) [OF True], of s1] Cons.prems(2,6) q True lq h st(1) by simp
    then show ?thesis using lq rd True by auto
  next
    case False
    then show ?thesis using Cons.prems(2) q lq by auto
  qed
qed

end

subsection \<open>Plain sockets\<close>

lemma expect_new_inv: "expect_inv expect_new" "received expect_new = []" "quiet (event (ex_readiness expect_new))"
  by (simp_all add: expect_new_def expect_inv_def staged_def expect_ok_def expect_consts quiet_def READY_EMPTY_def contains_bit)

lemma expect_run_upgrades:
  assumes "nom_streaming_documented N" and "expect_run N tcp_socket_read evs expect_new k = ((SUpgrade, e), k')"
  shows "\<exists>w h. kernel_pending k = w @ kernel_pending k' \<and> parse_v2_header N w = Inr ([], h) \<and>
    length w \<le> MAX_HEADER_LEN \<and> ex_addresses e = Some (h_addr h)"
  using tcp_source.run_safe [OF assms(1) expect_new_inv(1) assms(2)] unfolding expect_new_inv(2) header_at_def by auto

text \<open>
  C22: an inbound session takes the PROXY header and nothing else from its socket. Whatever the client
  sends, in whatever chunks and with whatever readiness events, the session upgrades only after it
  has read exactly one well-formed header, with the payload left in the socket and the addresses
  those of the header; in every other outcome no address is attributed.
\<close>

theorem expect_takes_header_only:
  assumes "nom_streaming_documented N" and "expect_run N tcp_socket_read evs expect_new k = ((r, e), k')"
  shows "(r = SUpgrade \<longrightarrow> (\<exists>w h. kernel_pending k = w @ kernel_pending k' \<and> parse_v2_header N w = Inr ([], h) \<and>
      length w \<le> MAX_HEADER_LEN \<and> ex_addresses e = Some (h_addr h))) \<and>
    (r \<noteq> SUpgrade \<longrightarrow> ex_addresses e = None)"
  using tcp_source.run_safe [OF assms(1) expect_new_inv(1) assms(2)] expect_run_upgrades [OF assms(1)] assms(2) by blast

theorem expect_takes_header_only_witness:
  "\<exists>r e k'. expect_run nom_streaming tcp_socket_read [READABLE, READABLE] expect_new [Arrived (replicate 20 71)] = ((r, e), k') \<and>
     r \<noteq> SUpgrade \<and> ex_addresses e = None"
proof -
  let ?k = "[Arrived (replicate 20 71)]"
  obtain r e k' where run: "expect_run nom_streaming tcp_socket_read [READABLE, READABLE] expect_new ?k = ((r, e), k')"
    by (metis prod.exhaust)
  note out = expect_takes_header_only [OF nom_streaming_ok run]
  have "r \<noteq> SUpgrade"
  proof
    assume "r = SUpgrade"
    with out obtain w h where w: "kernel_pending ?k = w @ kernel_pending k'" "parse_v2_header nom_streaming w = Inr ([], h)" by blast
    note acc = parse_accepts(1,3) [OF nom_streaming_ok w(2)]
    then have "hd (kernel_pending ?k) = hd SIG" unfolding w(1) by (metis append_is_Nil_conv hd_append2 hd_take list.size(3) not_numeral_le_zero le_add1 order_trans zero_less_numeral)
    then show False by (simp add: PROTOCOL_SIGNATURE_V2_def)
  qed
  with run out show ?thesis by blast
qed

text \<open>
  a header that is on its way is always accepted. With no hang-up, error event or transport error
  before it, the session never closes, in whatever pieces the header arrives; once woken up more
  often than the socket has bytes and interruptions to deliver, it has upgraded, with the payload
  behind the header untouched.
\<close>

theorem expect_accepts_header:
  assumes "nom_streaming_documented N" and "expect_run N tcp_socket_read evs expect_new k = ((r, e), k')"
    and "kernel_pending k = w @ payload" and "parse_v2_header N w = Inr ([], h)" and "length w \<le> MAX_HEADER_LEN"
    and "kernel_sound k" and "\<forall>ev \<in> set evs. \<not> is_hup ev \<and> \<not> is_error ev"
  shows "r \<noteq> SClose \<and>
    ((\<forall>ev \<in> set evs. is_readable ev) \<and> kernel_effort k < length evs \<longrightarrow> r = SUpgrade) \<and>
    (r = SUpgrade \<longrightarrow> kernel_pending k' = payload \<and> ex_addresses e = Some (h_addr h))"
proof -
  have h: "header_at N (received expect_new @ kernel_pending k) w h" using assms(3-5) by (simp add: header_at_def expect_new_inv)
  have "\<forall>ev \<in> set evs. quiet ev" using assms(7) by (simp add: quiet_def)
  note q = tcp_source.run_quiet [OF assms(1) expect_new_inv(1) assms(2) expect_new_inv(3) assms(6) h this]
    and s = tcp_source.run_safe [OF assms(1) expect_new_inv(1) assms(2)]
  have "kernel_pending k' = payload \<and> ex_addresses e = Some (h_addr h)" if up: "r = SUpgrade"
  proof -
    obtain h' where h': "header_at N (received expect_new @ kernel_pending k) (received e) h'" "ex_addresses e = Some (h_addr h')"
      using s up by blast
    from header_at_unique [OF assms(1) h h'(1)] h'(2) s assms(3) show ?thesis by (simp add: expect_new_inv)
  qed
  moreover have "r = SUpgrade" if "\<forall>ev \<in> set evs. is_readable ev" "kernel_effort k < length evs"
    using q that by (cases r) auto
  ultimately show ?thesis using q by blast
qed

theorem expect_accepts_header_witness:
  "\<exists>e k'. expect_run nom_streaming tcp_socket_read (replicate 20 READABLE) expect_new
      [Arrived (take 9 (wire_v2 0x20 0x00 [])), ReadFault WouldBlock, Arrived (drop 9 (wire_v2 0x20 0x00 [])), Arrived [7]] = ((SUpgrade, e), k') \<and>
     kernel_pending k' = [7] \<and> ex_addresses e = Some AfUnspec"
proof -
  let ?w = "wire_v2 0x20 0x00 []"
  let ?k = "[Arrived (take 9 ?w), ReadFault WouldBlock, Arrived (drop 9 ?w), Arrived [7]]"
  obtain r e k' where run: "expect_run nom_streaming tcp_socket_read (replicate 20 READABLE) expect_new ?k = ((r, e), k')"
    by (metis prod.exhaust)
  have len: "length ?w = 16" using wire_fields(7) [of "[]" "0x20" "0x00"] by simp
  then have ne: "take 9 ?w \<noteq> []" "drop 9 ?w \<noteq> []" by (metis length_take length_drop list.size(3) numeral_eq_iff min_def diff_numeral_special zero_neq_numeral, simp)
  have p: "parse_v2_header nom_streaming ?w = Inr ([], \<lparr>h_command = Local, h_family = 0x00, h_addr = AfUnspec\<rparr>)"
    using parse_wire [OF nom_streaming_ok, of "[]" "0x20" "0x00" AfUnspec "[]"] by (simp add: block_addr_def)
  have quiet: "\<forall>ev \<in> set (replicate 20 READABLE). \<not> is_hup ev \<and> \<not> is_error ev" and rd: "is_readable READABLE"
    by (simp_all add: contains_bit READABLE_def)
  have "kernel_pending ?k = ?w @ [7]" using ne by simp
  from expect_accepts_header [OF nom_streaming_ok run this p _ _ quiet] len rd run show ?thesis
    by (auto simp: expect_consts)
qed



end
