(* ===== verification/Proxy_Relay.thy ===== *)
theory Proxy_Relay
  imports Proxy_Wire Sozu_Socket Buffer_Checkout
begin

text \<open>
  The PROXY protocol relay, from \<^verbatim>\<open>src/lib/src/protocol/proxy_protocol/relay.rs\<close>: it parses the
  header the client sent, keeps its bytes in the front buffer and writes them to the backend. The
  front socket is a parameter, the backend socket is a write side. Metrics, logs and tokens are left
  out; a fault is a panic or an access outside the buffer.
\<close>

record RelayProxyProtocol =
  rl_cursor_header :: nat
  rl_backend_readiness :: Readiness
  rl_backend :: "WriteSide option"
  rl_frontend_buffer :: Checkout
  rl_frontend_readiness :: Readiness
  rl_header_size :: "nat option"
  rl_addresses :: "ProxyAddr option"

definition relay_new :: "WriteSide option \<Rightarrow> Checkout \<Rightarrow> RelayProxyProtocol" where
  "relay_new backend front_buf =
     \<lparr>rl_cursor_header = 0,
      rl_backend_readiness = \<lparr>event = READY_EMPTY, interest = HUP OR READY_ERROR\<rparr>,
      rl_backend = backend, rl_frontend_buffer = front_buf,
      rl_frontend_readiness = \<lparr>event = READY_EMPTY, interest = READABLE OR HUP OR READY_ERROR\<rparr>,
      rl_header_size = None, rl_addresses = None\<rparr>"

definition relay_set_back_socket :: "WriteSide \<Rightarrow> RelayProxyProtocol \<Rightarrow> RelayProxyProtocol" where
  "relay_set_back_socket w r = r\<lparr>rl_backend := Some w\<rparr>"

definition relay_reset :: "RelayProxyProtocol \<Rightarrow> RelayProxyProtocol" where
  "relay_reset r = r\<lparr>rl_frontend_readiness := readiness_reset (rl_frontend_readiness r),
     rl_backend_readiness := readiness_reset (rl_backend_readiness r)\<rparr>"

definition relay_clear_readable :: "RelayProxyProtocol \<Rightarrow> RelayProxyProtocol" where
  "relay_clear_readable r = r\<lparr>rl_frontend_readiness :=
     (rl_frontend_readiness r)\<lparr>event := ready_remove READABLE (event (rl_frontend_readiness r))\<rparr>\<rparr>"

definition relay_clear_writable :: "RelayProxyProtocol \<Rightarrow> RelayProxyProtocol" where
  "relay_clear_writable r = r\<lparr>rl_backend_readiness :=
     (rl_backend_readiness r)\<lparr>event := ready_remove WRITABLE (event (rl_backend_readiness r))\<rparr>\<rparr>"

text \<open>What a read into the free space leaves in the buffer.\<close>

definition into_space :: "bytes \<Rightarrow> Checkout \<Rightarrow> Checkout" where
  "into_space data c = c\<lparr>ck_extra := take (ck_end c) (ck_extra c) @ data @ drop (ck_end c + length data) (ck_extra c)\<rparr>"

text \<open>The \<open>match\<close> on the parser's answer.\<close>

definition relay_parsed :: "'k NomStreaming \<Rightarrow> RelayProxyProtocol \<Rightarrow> SessionResult \<times> RelayProxyProtocol" where
  "relay_parsed N r =
     (case parse_v2_header N (ck_data (rl_frontend_buffer r)) of
        Inr (rest, header) \<Rightarrow>
          (SContinue,
           r\<lparr>rl_frontend_readiness := (rl_frontend_readiness r)
               \<lparr>interest := ready_remove READABLE (interest (rl_frontend_readiness r))\<rparr>,
             rl_backend_readiness := (rl_backend_readiness r)
               \<lparr>interest := ready_insert WRITABLE (interest (rl_backend_readiness r))\<rparr>,
             rl_addresses := Some (h_addr header),
             rl_header_size := Some (length (ck_data (rl_frontend_buffer r)) - length rest)\<rparr>)
      | Inl Incomplete \<Rightarrow> (SContinue, r)
      | Inl _ \<Rightarrow> (SClose, r))"

definition relay_readable ::
  "'k NomStreaming \<Rightarrow> 's socket_read \<Rightarrow> RelayProxyProtocol \<Rightarrow> 's \<Rightarrow> Fault + (SessionResult \<times> RelayProxyProtocol) \<times> 's" where
  "relay_readable N rd r s =
     (let ((data, res), s) = rd (length (ck_space (rl_frontend_buffer r))) s;
          sz = length data
      in if 0 < sz then
           and_then (ck_fill sz (into_space data (rl_frontend_buffer r))) (\<lambda>(_, buf).
           let r = r\<lparr>rl_frontend_buffer := buf\<rparr> in
           if res = SockError then Inr ((SClose, relay_reset r), s)
           else Inr (relay_parsed N (if res = SockWouldBlock then relay_clear_readable r else r), s))
         else Inr ((SContinue, relay_clear_readable r), s))"

text \<open>The loop of \<open>back_writable\<close>, which ends because the cursor advances.\<close>

function relay_write_loop :: "nat \<Rightarrow> RelayProxyProtocol \<Rightarrow> WriteSide \<Rightarrow> Fault + (SessionResult \<times> RelayProxyProtocol) \<times> WriteSide" where
  "relay_write_loop header_size r w =
     (let remaining = header_size - rl_cursor_header r;
          buffered = ck_data (rl_frontend_buffer r);
          offered = min remaining (length buffered)
      in case os_write (take offered buffered) w of
           (Inr sz, w) \<Rightarrow>
             if sz = 0 then Inr ((SContinue, relay_clear_writable r), w)
             else (case ck_consume sz (rl_frontend_buffer r) of
                     Inl f \<Rightarrow> Inl f
                   | Inr (_, buf) \<Rightarrow>
                       if header_size \<le> rl_cursor_header r + sz
                       then Inr ((SUpgrade, r\<lparr>rl_cursor_header := rl_cursor_header r + sz, rl_frontend_buffer := buf\<rparr>), w)
                       else relay_write_loop header_size
                              (r\<lparr>rl_cursor_header := rl_cursor_header r + sz, rl_frontend_buffer := buf\<rparr>) w)
         | (Inl WouldBlock, w) \<Rightarrow> Inr ((SContinue, relay_clear_writable r), w)
         | (Inl Interrupted, w) \<Rightarrow> Inr ((SContinue, r), w)
         | (Inl e, w) \<Rightarrow> Inr ((SContinue, relay_reset r), w))"
  by pat_completeness auto
termination
  by (relation "measure (\<lambda>(header_size, r, w). header_size - rl_cursor_header r)") auto

declare relay_write_loop.simps [simp del]

definition relay_back_writable :: "RelayProxyProtocol \<Rightarrow> Fault + SessionResult \<times> RelayProxyProtocol" where
  "relay_back_writable r =
     (case (rl_backend r, rl_header_size r) of
        (Some socket, Some header_size) \<Rightarrow>
          map_sum id (\<lambda>((res, r), socket). (res, r\<lparr>rl_backend := Some socket\<rparr>)) (relay_write_loop header_size r socket)
      | _ \<Rightarrow> Inr (SContinue, r))"

subsection \<open>Reading the header\<close>

text \<open>The session's events: each handler runs only while its readiness is of interest, as the session loop does.\<close>

datatype relay_event = FrontReadable | BackWritable

definition relay_step ::
  "'k NomStreaming \<Rightarrow> 's socket_read \<Rightarrow> relay_event \<Rightarrow> RelayProxyProtocol \<Rightarrow> 's \<Rightarrow> Fault + (SessionResult \<times> RelayProxyProtocol) \<times> 's" where
  "relay_step N rd ev r s =
     (case ev of
        FrontReadable \<Rightarrow>
          if is_readable (interest (rl_frontend_readiness r)) then relay_readable N rd r s else Inr ((SContinue, r), s)
      | BackWritable \<Rightarrow>
          if is_writable (interest (rl_backend_readiness r)) then map_sum id (\<lambda>q. (q, s)) (relay_back_writable r)
          else Inr ((SContinue, r), s))"

fun relay_run ::
  "'k NomStreaming \<Rightarrow> 's socket_read \<Rightarrow> relay_event list \<Rightarrow> RelayProxyProtocol \<Rightarrow> 's \<Rightarrow> Fault + (SessionResult \<times> RelayProxyProtocol) \<times> 's" where
  "relay_run N rd [] r s = Inr ((SContinue, r), s)"
| "relay_run N rd (ev # evs) r s =
     and_then (relay_step N rd ev r s) (\<lambda>((q, r), s).
     if q = SContinue then relay_run N rd evs r s else Inr ((q, r), s))"

lemma into_space_spec:
  assumes "ck_ok c" and "length data \<le> length (ck_space c)"
  shows "\<exists>c'. ck_fill (length data) (into_space data c) = Inr (length data, c') \<and> ck_ok c' \<and> ck_data c' = ck_data c @ data \<and>
    ck_capacity c' = ck_capacity c"
proof -
  from assms(1) obtain pre xs post where c: "c = \<lparr>ck_extra = pre @ xs @ post, ck_position = length pre, ck_end = length pre + length xs\<rparr>"
    "ck_data c = xs" by (cases rule: ck_cases)
  have sp: "ck_space c = post" by (simp add: c ck_space_def ck_capacity_def slice_def)
  have i: "into_space data c = \<lparr>ck_extra = pre @ xs @ data @ drop (length data) post, ck_position = length pre, ck_end = length pre + length xs\<rparr>"
    by (simp add: c into_space_def)
  have ok: "ck_ok (into_space data c)" and space: "ck_space (into_space data c) = data @ drop (length data) post"
    and dt: "ck_data (into_space data c) = xs" and av: "ck_available_space (into_space data c) = length post"
    and cap: "ck_capacity (into_space data c) = ck_capacity c"
    using assms(2) unfolding i sp
    by (auto simp: window_ok_def ck_space_def ck_data_def ck_capacity_def ck_available_space_def slice_def c(1))
  from ck_fill_spec [OF ok, of "length data"] show ?thesis
    using assms(2) by (simp add: space dt av c(2) sp cap min_def)
qed

subsection \<open>Relaying the header\<close>

text \<open>
  A header \<open>w\<close> at the front of the stream \<open>T\<close> is being relayed: of the bytes that left the socket,
  those before the cursor are at the backend, behind the \<open>A\<close> it had already, and the rest is in the buffer.
\<close>

definition relayed :: "bytes \<Rightarrow> bytes \<Rightarrow> bytes \<Rightarrow> RelayProxyProtocol \<Rightarrow> WriteSide \<Rightarrow> bytes \<Rightarrow> bool" where
  "relayed T w A r soc p \<longleftrightarrow> ck_ok (rl_frontend_buffer r) \<and> w = take (length w) T \<and>
     rl_cursor_header r \<le> length w \<and> ck_data (rl_frontend_buffer r) @ p = drop (rl_cursor_header r) T \<and>
     length w - rl_cursor_header r \<le> length (ck_data (rl_frontend_buffer r)) \<and> accepted soc = A @ take (rl_cursor_header r) T"

text \<open>The loop keeps the rest of the state, up to the readiness words, which never gain an interest.\<close>

definition same_relay :: "RelayProxyProtocol \<Rightarrow> RelayProxyProtocol \<Rightarrow> bool" where
  "same_relay r r' \<longleftrightarrow> rl_header_size r' = rl_header_size r \<and> rl_addresses r' = rl_addresses r \<and>
     (is_readable (interest (rl_frontend_readiness r')) \<longrightarrow> is_readable (interest (rl_frontend_readiness r)))"

lemma same_relay_trivial:
  "same_relay r r" "same_relay r (relay_clear_writable r)" "same_relay r (relay_reset r)"
  "same_relay r (r\<lparr>rl_cursor_header := c, rl_frontend_buffer := buf\<rparr>)"
  by (simp_all add: same_relay_def relay_clear_writable_def relay_reset_def readiness_reset_def READY_EMPTY_def contains_bit)

lemma relayed_readiness:
  "relayed T w A (relay_clear_writable r) soc p = relayed T w A r soc p" "relayed T w A (relay_reset r) soc p = relayed T w A r soc p"
  "rl_cursor_header (relay_clear_writable r) = rl_cursor_header r" "rl_cursor_header (relay_reset r) = rl_cursor_header r"
  by (simp_all add: relayed_def relay_clear_writable_def relay_reset_def)

lemma relayed_write:
  assumes "relayed T w A r soc p" and "n \<le> length w - rl_cursor_header r"
    and "accepted soc' = accepted soc @ take n (ck_data (rl_frontend_buffer r))"
  shows "\<exists>c buf. ck_consume n (rl_frontend_buffer r) = Inr (c, buf) \<and>
    relayed T w A (r\<lparr>rl_cursor_header := rl_cursor_header r + n, rl_frontend_buffer := buf\<rparr>) soc' p"
proof -
  let ?d = "ck_data (rl_frontend_buffer r)" and ?c = "rl_cursor_header r"
  have inv: "ck_ok (rl_frontend_buffer r)" "?d @ p = drop ?c T" "length w - ?c \<le> length ?d" "?c \<le> length w"
    "accepted soc = A @ take ?c T" using assms(1) by (simp_all add: relayed_def)
  obtain c buf where buf: "ck_consume n (rl_frontend_buffer r) = Inr (c, buf)" "ck_ok buf" "ck_data buf = drop n ?d"
    using ck_consume_spec [OF inv(1), of n] by blast
  have n: "n \<le> length ?d" using assms(2) inv(3) by simp
  have "drop n ?d @ p = drop n (?d @ p)" using n by simp
  then have d: "drop n ?d @ p = drop (?c + n) T" by (simp only: inv(2) drop_drop add.commute)
  have "take n ?d = take n (?d @ p)" using n by simp
  then have t: "take ?c T @ take n ?d = take (?c + n) T" by (simp only: inv(2) take_add)
  have "relayed T w A (r\<lparr>rl_cursor_header := ?c + n, rl_frontend_buffer := buf\<rparr>) soc' p"
    using assms inv buf(2,3) d t by (auto simp: relayed_def)
  with buf(1) show ?thesis by blast
qed

lemma relay_write_loop_spec:
  assumes "relayed T w A r soc p" and "rl_cursor_header r < length w"
  shows "\<exists>q r' soc'. relay_write_loop (length w) r soc = Inr ((q, r'), soc') \<and> relayed T w A r' soc' p \<and> same_relay r r' \<and>
    (q = SContinue \<and> rl_cursor_header r' < length w \<or> q = SUpgrade \<and> rl_cursor_header r' = length w)"
  using assms
proof (induction "length w" r soc rule: relay_write_loop.induct)
  case (1 r soc)
  let ?d = "ck_data (rl_frontend_buffer r)" and ?c = "rl_cursor_header r"
  have off: "min (length w - ?c) (length ?d) = length w - ?c" using 1(2) by (simp add: relayed_def)
  obtain a soc1 where os: "os_write (take (length w - ?c) ?d) soc = (a, soc1)" by (rule prod.exhaust)
  note loop = relay_write_loop.simps [of "length w" r soc, unfolded Let_def off os prod.case]
  show ?case
  proof (cases a)
    case (Inl e)
    then have "accepted soc1 = accepted soc" using os by (auto simp: os_write_def split: list.splits kernel_write.splits)
    then have "relayed T w A r soc1 p" using 1(2) by (simp add: relayed_def)
    then show ?thesis unfolding loop Inl using 1(3)
      by (cases e) (auto simp: relayed_readiness same_relay_trivial)
  next
    case (Inr n)
    then have acc: "accepted soc1 = accepted soc @ take n ?d" and n: "n \<le> length w - ?c"
      using os by (auto simp: os_write_def min_def split: list.splits kernel_write.splits)
    from relayed_write [OF 1(2) n acc] obtain c buf where buf: "ck_consume n (rl_frontend_buffer r) = Inr (c, buf)"
      "relayed T w A (r\<lparr>rl_cursor_header := ?c + n, rl_frontend_buffer := buf\<rparr>) soc1 p" by blast
    show ?thesis
    proof (cases "n = 0 \<or> length w \<le> ?c + n")
      case True
      have "relayed T w A r soc1 p" if "n = 0" using 1(2) acc that by (simp add: relayed_def)
      then show ?thesis unfolding loop Inr using True buf n 1(3)
        by (auto simp: relayed_readiness same_relay_trivial)
    next
      case False
      then have "\<exists>q r' soc'. relay_write_loop (length w) (r\<lparr>rl_cursor_header := ?c + n, rl_frontend_buffer := buf\<rparr>) soc1 = Inr ((q, r'), soc') \<and>
          relayed T w A r' soc' p \<and> same_relay (r\<lparr>rl_cursor_header := ?c + n, rl_frontend_buffer := buf\<rparr>) r' \<and>
          (q = SContinue \<and> rl_cursor_header r' < length w \<or> q = SUpgrade \<and> rl_cursor_header r' = length w)"
        using 1(1) [OF refl refl refl, unfolded off, OF os [symmetric]] Inr buf by auto
      then show ?thesis unfolding loop Inr using False buf by (auto simp: same_relay_def)
    qed
  qed
qed

subsection \<open>A whole run\<close>

lemma parse_split:
  assumes "nom_streaming_documented N" and "parse_v2_header N i = Inr (rest, h)"
  obtains w where "i = w @ rest" "parse_v2_header N w = Inr ([], h)" "w \<noteq> []"
proof
  note acc = parse_accepts [OF assms]
  let ?b = "slice i 16 (16 + declared_len i)" and ?w = "wire_v2 (i ! 12) (i ! 13) (slice i 16 (16 + declared_len i))"
  have lb: "length ?b < 2 ^ 16"
    using acc(3) unsigned_less [of "be_u16_of (slice i 14 16)"] by (simp add: declared_len_def)
  show "i = ?w @ rest" using wire_v2_of [OF acc(1,3)] acc(4) by simp
  from acc(6) obtain a where a: "block_addr (i ! 13) ?b = Some a"
    "h = \<lparr>h_command = if i ! 12 = 0x20 then Local else Proxy, h_family = i ! 13, h_addr = if i ! 12 = 0x20 then AfUnspec else a\<rparr>"
    by blast
  then show "parse_v2_header N ?w = Inr ([], h)" using parse_wire [OF assms(1) lb acc(2) a(1), of "[]"] by simp
  show "?w \<noteq> []" by (simp add: wire_v2_def)
qed

definition relay_inv :: "'k NomStreaming \<Rightarrow> bytes \<Rightarrow> bytes \<Rightarrow> RelayProxyProtocol \<Rightarrow> bytes \<Rightarrow> bool" where
  "relay_inv N T A r p \<longleftrightarrow> (\<exists>soc. rl_backend r = Some soc \<and>
     (case rl_header_size r of
        None \<Rightarrow> ck_ok (rl_frontend_buffer r) \<and> rl_addresses r = None \<and> ck_data (rl_frontend_buffer r) @ p = T \<and> accepted soc = A
      | Some hs \<Rightarrow> \<exists>w h. hs = length w \<and> parse_v2_header N w = Inr ([], h) \<and> rl_addresses r = Some (h_addr h) \<and>
          relayed T w A r soc p \<and> \<not> is_readable (interest (rl_frontend_readiness r))))"

context byte_source
begin

lemma relay_readable_spec:
  assumes "nom_streaming_documented N" and "relay_inv N T A r (pending s)" and "rl_header_size r = None" and "rl_cursor_header r = 0"
  shows "\<exists>q r' s'. relay_readable N rd r s = Inr ((q, r'), s') \<and> q \<noteq> SUpgrade \<and> relay_inv N T A r' (pending s') \<and> rl_cursor_header r' = 0"
proof -
  let ?c = "rl_frontend_buffer r"
  obtain soc where inv: "rl_backend r = Some soc" "ck_ok ?c" "rl_addresses r = None" "ck_data ?c @ pending s = T" "accepted soc = A"
    using assms(2,3) by (auto simp: relay_inv_def)
  obtain data res m where rd: "rd (length (ck_space ?c)) s = ((data, res), m)" by (metis prod.exhaust)
  note del = delivers [OF rd]
  show ?thesis
  proof (cases "data = []")
    case True
    then show ?thesis using inv assms(3,4) del by (auto simp: relay_readable_def rd relay_inv_def relay_clear_readable_def)
  next
    case False
    from into_space_spec [OF inv(2) conjunct1 [OF del]] obtain c' where
      c': "ck_fill (length data) (into_space data ?c) = Inr (length data, c')" "ck_ok c'" "ck_data c' = ck_data ?c @ data" by blast
    let ?r = "r\<lparr>rl_frontend_buffer := c'\<rparr>"
    let ?r' = "if res = SockWouldBlock then relay_clear_readable ?r else ?r"
    have T: "ck_data c' @ pending m = T" using c'(3) del inv(4) by simp
    have kept: "rl_backend ?r' = Some soc" "rl_frontend_buffer ?r' = c'" "rl_header_size ?r' = None" "rl_addresses ?r' = None"
      "rl_cursor_header ?r' = 0" using inv assms(3,4) by (simp_all add: relay_clear_readable_def)
    show ?thesis
    proof (cases "res = SockError")
      case True
      then show ?thesis using False c' inv assms(3,4) T by (auto simp: relay_readable_def rd relay_inv_def relay_reset_def)
    next
      case ok: False
      then have eq: "relay_readable N rd r s = Inr (relay_parsed N ?r', m)" using False c' by (simp add: relay_readable_def rd)
      show ?thesis
      proof (cases "parse_v2_header N (ck_data c')")
        case (Inl e)
        then show ?thesis unfolding eq using kept c'(2) T inv(5) by (cases e) (auto simp: relay_parsed_def relay_inv_def)
      next
        case (Inr q)
        then obtain rest h where p: "parse_v2_header N (ck_data c') = Inr (rest, h)" by (metis prod.exhaust)
        from parse_split [OF assms(1) p] obtain w where w: "ck_data c' = w @ rest" "parse_v2_header N w = Inr ([], h)" by blast
        have "relayed T w A x soc (pending m)" if "rl_frontend_buffer x = c'" "rl_cursor_header x = 0" for x
          using that c'(2) T w(1) inv(5) by (auto simp: relayed_def)
        then show ?thesis unfolding eq using kept w p inv(5)
          by (auto simp: relay_parsed_def relay_inv_def remove_readable)
      qed
    qed
  qed
qed

end

text \<open>The cursor stays inside the header until the session upgrades.\<close>

definition relay_open :: "RelayProxyProtocol \<Rightarrow> bool" where
  "relay_open r \<longleftrightarrow> (case rl_header_size r of None \<Rightarrow> rl_cursor_header r = 0 | Some hs \<Rightarrow> rl_cursor_header r < hs)"

lemma relay_back_writable_spec:
  assumes "relay_inv N T A r p" and "relay_open r"
  shows "\<exists>q r'. relay_back_writable r = Inr (q, r') \<and> q \<noteq> SClose \<and> relay_inv N T A r' p \<and>
    (q = SContinue \<longrightarrow> relay_open r') \<and> (q = SUpgrade \<longrightarrow> rl_header_size r' = Some (rl_cursor_header r'))"
proof -
  obtain soc where soc: "rl_backend r = Some soc" using assms(1) by (auto simp: relay_inv_def)
  show ?thesis
  proof (cases "rl_header_size r")
    case None
    then show ?thesis using assms by (auto simp: relay_back_writable_def soc)
  next
    case (Some hs)
    obtain w h where w: "hs = length w" "parse_v2_header N w = Inr ([], h)" "rl_addresses r = Some (h_addr h)"
      "relayed T w A r soc p" "\<not> is_readable (interest (rl_frontend_readiness r))"
      using assms(1) soc Some by (auto simp: relay_inv_def)
    have "rl_cursor_header r < length w" using assms(2) Some w(1) by (simp add: relay_open_def)
    from relay_write_loop_spec [OF w(4) this] obtain q r' soc' where
      q: "relay_write_loop (length w) r soc = Inr ((q, r'), soc')" "relayed T w A r' soc' p" "same_relay r r'"
        "q = SContinue \<and> rl_cursor_header r' < length w \<or> q = SUpgrade \<and> rl_cursor_header r' = length w" by blast
    have "relay_inv N T A (r'\<lparr>rl_backend := Some soc'\<rparr>) p"
      using q(2,3) w Some by (auto simp: relay_inv_def same_relay_def relayed_def)
    then show ?thesis using q Some w(1)
      by (auto simp: relay_back_writable_def soc relay_open_def same_relay_def)
  qed
qed

context byte_source
begin

lemma relay_step_spec:
  assumes "nom_streaming_documented N" and "relay_inv N T A r (pending s)" and "relay_open r"
  shows "\<exists>q r' s'. relay_step N rd ev r s = Inr ((q, r'), s') \<and> relay_inv N T A r' (pending s') \<and>
    (q \<noteq> SUpgrade \<longrightarrow> relay_open r') \<and> (q = SUpgrade \<longrightarrow> rl_header_size r' = Some (rl_cursor_header r'))"
proof (cases "ev = FrontReadable \<and> is_readable (interest (rl_frontend_readiness r))")
  case True
  then have none: "rl_header_size r = None" using assms(2) by (auto simp: relay_inv_def split: option.splits)
  have c: "rl_cursor_header r = 0" using assms(3) none by (simp add: relay_open_def)
  from relay_readable_spec [OF assms(1,2) none c] obtain q r' s' where
    q: "relay_readable N rd r s = Inr ((q, r'), s')" "q \<noteq> SUpgrade" "relay_inv N T A r' (pending s')" "rl_cursor_header r' = 0" by blast
  have "relay_open r'" using q(3,4) parse_accepts(3) [OF assms(1)] by (fastforce simp: relay_open_def relay_inv_def split: option.splits)
  then show ?thesis using q True by (simp add: relay_step_def)
next
  case False
  obtain q r' where q: "relay_back_writable r = Inr (q, r')" "q \<noteq> SClose" "relay_inv N T A r' (pending s)"
    "q = SContinue \<longrightarrow> relay_open r'" "q = SUpgrade \<longrightarrow> rl_header_size r' = Some (rl_cursor_header r')"
    using relay_back_writable_spec [OF assms(2,3)] by blast
  then have "q \<noteq> SUpgrade \<longrightarrow> relay_open r'" by (cases q) auto
  with False q assms(2,3) show ?thesis by (cases ev) (auto simp: relay_step_def)
qed

lemma relay_run_spec:
  assumes "nom_streaming_documented N" and "relay_inv N T A r (pending s)" and "relay_open r"
  shows "\<exists>q r' s'. relay_run N rd evs r s = Inr ((q, r'), s') \<and> relay_inv N T A r' (pending s') \<and>
    (q \<noteq> SUpgrade \<longrightarrow> relay_open r') \<and> (q = SUpgrade \<longrightarrow> rl_header_size r' = Some (rl_cursor_header r'))"
  using assms(2,3)
proof (induction evs arbitrary: r s)
  case (Cons ev evs)
  from relay_step_spec [OF assms(1) Cons.prems, of ev] obtain q r1 s1 where
    q: "relay_step N rd ev r s = Inr ((q, r1), s1)" "relay_inv N T A r1 (pending s1)" "q \<noteq> SUpgrade \<longrightarrow> relay_open r1"
      "q = SUpgrade \<longrightarrow> rl_header_size r1 = Some (rl_cursor_header r1)" by blast
  show ?case
  proof (cases "q = SContinue")
    case True
    then show ?thesis using Cons.IH [OF q(2)] q(1,3) by simp
  qed (use q in simp)
qed simp

end

lemma relay_run_outcome:
  assumes "nom_streaming_documented N" and "ck_check_invariants buf" and "ck_empty buf"
  shows "\<exists>q r soc k' sent. relay_run N tcp_socket_read evs (relay_new (Some w0) buf) k = Inr ((q, r), k') \<and>
    rl_backend r = Some soc \<and> accepted soc = accepted w0 @ sent \<and>
    kernel_pending k = sent @ ck_data (rl_frontend_buffer r) @ kernel_pending k' \<and>
    (q = SUpgrade \<longrightarrow> (\<exists>h. parse_v2_header N sent = Inr ([], h) \<and> rl_addresses r = Some (h_addr h))) \<and>
    (q \<noteq> SUpgrade \<longrightarrow> sent = [] \<or> (\<exists>rest h. rest \<noteq> [] \<and> parse_v2_header N (sent @ rest) = Inr ([], h)))"
proof -
  let ?T = "kernel_pending k" and ?A = "accepted w0"
  have ok: "ck_ok buf" "ck_data buf = []" using assms(2,3) by (simp_all add: ck_invariants ck_empty_def ck_data_def slice_def)
  have inv: "relay_inv N ?T ?A (relay_new (Some w0) buf) (kernel_pending k)" "relay_open (relay_new (Some w0) buf)"
    using ok by (simp_all add: relay_inv_def relay_open_def relay_new_def)
  from tcp_source.relay_run_spec [OF assms(1) inv] obtain q r k' where
    run: "relay_run N tcp_socket_read evs (relay_new (Some w0) buf) k = Inr ((q, r), k')" "relay_inv N ?T ?A r (kernel_pending k')"
      "q \<noteq> SUpgrade \<longrightarrow> relay_open r" "q = SUpgrade \<longrightarrow> rl_header_size r = Some (rl_cursor_header r)" by blast
  obtain soc where soc: "rl_backend r = Some soc" using run(2) by (auto simp: relay_inv_def)
  show ?thesis
  proof (cases "rl_header_size r")
    case None
    then show ?thesis using run soc by (auto simp: relay_inv_def)
  next
    case (Some hs)
    then obtain w h where w: "hs = length w" "parse_v2_header N w = Inr ([], h)" "rl_addresses r = Some (h_addr h)"
      "relayed ?T w ?A r soc (kernel_pending k')" using run(2) soc by (auto simp: relay_inv_def)
    let ?c = "rl_cursor_header r"
    have s: "accepted soc = ?A @ take ?c ?T" "?T = take ?c ?T @ ck_data (rl_frontend_buffer r) @ kernel_pending k'"
      using w(4) by (simp_all add: relayed_def)
    have pre: "take ?c ?T = take ?c w" using w(4) unfolding relayed_def by (metis min.absorb1 take_take)
    have "\<exists>rest. rest \<noteq> [] \<and> take ?c ?T @ rest = w" if "q \<noteq> SUpgrade"
      using run(3) that Some w(1) by (intro exI [of _ "drop ?c w"]) (auto simp: relay_open_def pre)
    moreover have "take ?c ?T = w" if "q = SUpgrade" using run(4) that Some w(1) pre by simp
    ultimately show ?thesis using run(1) soc s w(2,3) by (metis (no_types, lifting))
  qed
qed

lemma relay_run_upgrades:
  assumes "nom_streaming_documented N" and "ck_check_invariants buf" and "ck_empty buf"
    and "relay_run N tcp_socket_read evs (relay_new (Some w0) buf) k = Inr ((SUpgrade, r), k')" and "rl_backend r = Some soc"
  shows "\<exists>sent h. accepted soc = accepted w0 @ sent \<and> parse_v2_header N sent = Inr ([], h) \<and> rl_addresses r = Some (h_addr h) \<and>
    kernel_pending k = sent @ ck_data (rl_frontend_buffer r) @ kernel_pending k'"
  using relay_run_outcome [OF assms(1-3), of evs w0 k] assms(4,5) by auto

text \<open>A header that arrives whole and finds room at the backend is relayed by one event on each side.\<close>

lemma relay_upgrades_at_once:
  assumes "nom_streaming_documented N" and "ck_check_invariants buf" and "ck_empty buf" and "parse_v2_header N H = Inr ([], h)"
    and "length H < length (ck_space buf)" and "length H \<le> m"
  shows "\<exists>r k'. relay_run N tcp_socket_read [FrontReadable, BackWritable] (relay_new (Some \<lparr>accepted = A, answers = Room m # a\<rparr>) buf)
    [Arrived H] = Inr ((SUpgrade, r), k') \<and> rl_backend r \<noteq> None"
proof -
  have ok: "ck_ok buf" "ck_data buf = []" using assms(2,3) by (simp_all add: ck_invariants ck_empty_def ck_data_def slice_def)
  have ne: "H \<noteq> []" using parse_accepts(3) [OF assms(1,4)] by auto
  have rd: "tcp_socket_read (length (ck_space buf)) [Arrived H] = ((H, SockWouldBlock), [])"
    using ne assms(5) by (auto simp: tcp_socket_read_def plain_socket_read_def read_uninterrupted.simps)
  obtain c where c: "ck_fill (length H) (into_space H buf) = Inr (length H, c)" "ck_ok c" "ck_data c = H"
    using into_space_spec [OF ok(1), of H] assms(5) ok(2) by auto
  obtain n c' where c': "ck_consume (length H) c = Inr (n, c')" using ck_consume_spec [OF c(2)] by blast
  have front: "is_readable (interest (rl_frontend_readiness (relay_new w buf)))" for w
    by (simp add: relay_new_def contains_bit ready_consts bit_simps)
  have wr: "is_writable (ready_insert WRITABLE x)" for x by (simp add: contains_bit ready_insert_def WRITABLE_def bit_simps)
  show ?thesis
    using ne assms(4,6) c c' front wr
    by (simp add: relay_step_def relay_readable_def relay_parsed_def rd relay_back_writable_def relay_write_loop.simps
        relay_clear_readable_def os_write_def relay_new_def min.absorb2 Let_def)
qed

text \<open>
  C27: the relay hands the backend the client's header, byte for byte, and nothing else. On any sequence
  of readable and writable events, whatever the sizes in which the bytes arrive and are accepted, no
  byte is lost, duplicated or reordered: those sent, those buffered and those still in the client's
  socket are the client's stream. What was sent is a proper prefix of a well-formed header until the
  session upgrades, and then exactly that header, with the addresses it carries; no handler panics.
\<close>

theorem relay_forwards_header:
  assumes "nom_streaming_documented N" and "ck_check_invariants buf" and "ck_empty buf"
  shows "\<exists>q r soc k' sent. relay_run N tcp_socket_read evs (relay_new (Some w0) buf) k = Inr ((q, r), k') \<and>
    rl_backend r = Some soc \<and> accepted soc = accepted w0 @ sent \<and>
    kernel_pending k = sent @ ck_data (rl_frontend_buffer r) @ kernel_pending k' \<and>
    (q = SUpgrade \<longrightarrow> (\<exists>h. parse_v2_header N sent = Inr ([], h) \<and> rl_addresses r = Some (h_addr h))) \<and>
    (q \<noteq> SUpgrade \<longrightarrow> sent = [] \<or> (\<exists>rest h. rest \<noteq> [] \<and> parse_v2_header N (sent @ rest) = Inr ([], h)))"
  using relay_run_outcome [OF assms] .

theorem relay_forwards_header_witness:
  "\<exists>q r soc k' sent. relay_run nom_streaming tcp_socket_read [FrontReadable, BackWritable]
      (relay_new (Some \<lparr>accepted = [], answers = [Room 9]\<rparr>) \<lparr>ck_extra = replicate 32 0, ck_position = 0, ck_end = 0\<rparr>)
      [Arrived (wire_v2 0x20 0x00 [] @ [7])] = Inr ((q, r), k') \<and>
    rl_backend r = Some soc \<and> accepted soc = sent \<and>
    wire_v2 0x20 0x00 [] @ [7] = sent @ ck_data (rl_frontend_buffer r) @ kernel_pending k'"
  using relay_forwards_header [OF nom_streaming_ok, of "\<lparr>ck_extra = replicate 32 0, ck_position = 0, ck_end = 0\<rparr>"
      "[FrontReadable, BackWritable]" "\<lparr>accepted = [], answers = [Room 9]\<rparr>" "[Arrived (wire_v2 0x20 0x00 [] @ [7])]"]
  by (auto simp: ck_invariants window_ok_def ck_empty_def)

end
