(* ===== verification/Proxy_Send.thy ===== *)
theory Proxy_Send
  imports Proxy_Wire Sozu_Socket
begin

text \<open>
  The PROXY protocol emitter, from \<^verbatim>\<open>src/lib/src/protocol/proxy_protocol/send.rs\<close>: it builds a
  header from the two ends of the front socket and writes it to the backend. The addresses the
  front socket reports are arguments; the backend socket is a write side.
\<close>

record SendProxyProtocol =
  sd_cursor_header :: nat
  sd_backend_readiness :: Readiness
  sd_backend :: "WriteSide option"
  sd_frontend_readiness :: Readiness
  sd_header :: "bytes option"

definition send_new :: "WriteSide option \<Rightarrow> SendProxyProtocol" where
  "send_new backend =
     \<lparr>sd_cursor_header = 0,
      sd_backend_readiness = \<lparr>event = READY_EMPTY, interest = HUP OR READY_ERROR\<rparr>,
      sd_backend = backend,
      sd_frontend_readiness = \<lparr>event = READY_EMPTY, interest = HUP OR READY_ERROR\<rparr>,
      sd_header = None\<rparr>"

definition send_set_back_socket :: "WriteSide \<Rightarrow> SendProxyProtocol \<Rightarrow> SendProxyProtocol" where
  "send_set_back_socket w r = r\<lparr>sd_backend := Some w\<rparr>"

definition send_set_back_connected :: "bool \<Rightarrow> SendProxyProtocol \<Rightarrow> SendProxyProtocol" where
  "send_set_back_connected connected r =
     (if connected
      then r\<lparr>sd_backend_readiness := (sd_backend_readiness r)\<lparr>interest := ready_insert WRITABLE (interest (sd_backend_readiness r))\<rparr>\<rparr>
      else r)"

text \<open>The loop of \<open>back_writable\<close>: a write of no byte is tried again at once.\<close>

function send_write_loop :: "bytes \<Rightarrow> SendProxyProtocol \<Rightarrow> WriteSide \<Rightarrow> (SessionResult \<times> SendProxyProtocol) \<times> WriteSide" where
  "send_write_loop header r w =
     (case os_write (drop (sd_cursor_header r) header) w of
        (Inr sz, w) \<Rightarrow>
          if sd_cursor_header r + sz = length header
          then ((SUpgrade, r\<lparr>sd_cursor_header := sd_cursor_header r + sz\<rparr>), w)
          else send_write_loop header (r\<lparr>sd_cursor_header := sd_cursor_header r + sz\<rparr>) w
      | (Inl WouldBlock, w) \<Rightarrow>
          ((SContinue, r\<lparr>sd_backend_readiness := (sd_backend_readiness r)
              \<lparr>event := ready_remove WRITABLE (event (sd_backend_readiness r))\<rparr>\<rparr>), w)
      | (Inl e, w) \<Rightarrow> ((SClose, r), w))"
  by pat_completeness auto
termination
  by (relation "measure (\<lambda>(header, r, w). length (answers w))") (auto simp: os_write_def split: list.splits kernel_write.splits)

declare send_write_loop.simps [simp del]

definition send_header :: "SocketAddr option \<Rightarrow> SocketAddr option \<Rightarrow> SendProxyProtocol \<Rightarrow> SendProxyProtocol option" where
  "send_header local_addr peer_addr r =
     (case (sd_header r, local_addr) of
        (None, Some local_addr) \<Rightarrow>
          (case peer_addr of
             None \<Rightarrow> None
           | Some frontend_addr \<Rightarrow>
               Some (r\<lparr>sd_header := Some (header_v2_into_bytes (header_v2_new Proxy frontend_addr local_addr))\<rparr>))
      | _ \<Rightarrow> Some r)"

definition send_back_writable ::
  "SocketAddr option \<Rightarrow> SocketAddr option \<Rightarrow> SendProxyProtocol \<Rightarrow> SessionResult \<times> SendProxyProtocol" where
  "send_back_writable local_addr peer_addr r =
     (case send_header local_addr peer_addr r of
        None \<Rightarrow> (SClose, r)
      | Some r \<Rightarrow>
          (case (sd_backend r, sd_header r) of
             (Some socket, Some header) \<Rightarrow>
               (let ((q, r), socket) = send_write_loop header r socket in (q, r\<lparr>sd_backend := Some socket\<rparr>))
           | _ \<Rightarrow> (SClose, r)))"

subsection \<open>Writing the header\<close>

text \<open>The handler called again and again, with what the front socket reports each time as its two addresses.\<close>

fun send_run :: "(SocketAddr option \<times> SocketAddr option) list \<Rightarrow> SendProxyProtocol \<Rightarrow> SessionResult \<times> SendProxyProtocol" where
  "send_run [] r = (SContinue, r)"
| "send_run ((local_addr, peer_addr) # calls) r =
     (let (q, r) = send_back_writable local_addr peer_addr r in
      if q = SContinue then send_run calls r else (q, r))"

text \<open>The backend has the part of the header \<open>H\<close> before the cursor, behind the \<open>A\<close> it had already.\<close>

definition emitted :: "bytes \<Rightarrow> bytes \<Rightarrow> SendProxyProtocol \<Rightarrow> WriteSide \<Rightarrow> bool" where
  "emitted H A r soc \<longleftrightarrow> sd_cursor_header r \<le> length H \<and> accepted soc = A @ take (sd_cursor_header r) H"

lemma send_write_loop_spec:
  assumes "emitted H A r soc" and "sd_cursor_header r < length H" and "send_write_loop H r soc = ((q, r'), soc')"
  shows "emitted H A r' soc' \<and> sd_header r' = sd_header r \<and>
    (q = SUpgrade \<and> sd_cursor_header r' = length H \<or> q \<noteq> SUpgrade \<and> sd_cursor_header r' < length H)"
  using assms
proof (induction H r soc rule: send_write_loop.induct)
  case (1 H r soc)
  let ?c = "sd_cursor_header r"
  obtain a soc1 where os: "os_write (drop ?c H) soc = (a, soc1)" by (rule prod.exhaust)
  note loop = send_write_loop.simps [of H r soc, unfolded os prod.case]
  show ?case
  proof (cases a)
    case (Inl e)
    then have "accepted soc1 = accepted soc" using os by (auto simp: os_write_def split: list.splits kernel_write.splits)
    then show ?thesis using 1(2-4) unfolding loop Inl by (cases e) (auto simp: emitted_def)
  next
    case (Inr n)
    then have n: "accepted soc1 = accepted soc @ take n (drop ?c H)" "n \<le> length H - ?c"
      using os by (auto simp: os_write_def min_def split: list.splits kernel_write.splits)
    then have e: "emitted H A (r\<lparr>sd_cursor_header := ?c + n\<rparr>) soc1" using 1(2) by (auto simp: emitted_def take_add)
    show ?thesis
    proof (cases "?c + n = length H")
      case True
      then show ?thesis using 1(4) e unfolding loop Inr by auto
    next
      case False
      then have "?c + n < length H" using n(2) 1(3) by simp
      then show ?thesis using 1(1) [OF os [symmetric] Inr False e] 1(4) False unfolding loop Inr by simp
    qed
  qed
qed

text \<open>A kernel that accepts nothing keeps the loop busy: each such answer is asked for within one call.\<close>

lemma send_spins_on_zero_writes:
  assumes "sd_cursor_header r < length H"
  shows "send_write_loop H r (soc\<lparr>answers := replicate n (Room 0) @ k\<rparr>) = send_write_loop H r (soc\<lparr>answers := k\<rparr>)"
proof (induction n)
  case (Suc n)
  let ?soc = "soc\<lparr>answers := replicate (Suc n) (Room 0) @ k\<rparr>"
  have os: "os_write (drop (sd_cursor_header r) H) ?soc = (Inr 0, soc\<lparr>answers := replicate n (Room 0) @ k\<rparr>)"
    by (cases soc) (simp add: os_write_def)
  show ?case unfolding send_write_loop.simps [of H r ?soc] os using assms Suc.IH by simp
qed simp

text \<open>The header a session sends, once it has one: the first that the front socket gave addresses for.\<close>

definition sends :: "(SocketAddr option \<times> SocketAddr option) list \<Rightarrow> bytes \<Rightarrow> bool" where
  "sends calls H \<longleftrightarrow> (\<exists>l p. (Some l, Some p) \<in> set calls \<and> H = header_v2_into_bytes (header_v2_new Proxy p l))"

lemma sendsI: "(Some l, Some p) \<in> set calls \<Longrightarrow> sends calls (header_v2_into_bytes (header_v2_new Proxy p l))"
  by (auto simp: sends_def)

lemma header_nonempty: "header_v2_into_bytes (header_v2_new c s d) \<noteq> []"
  by (simp add: into_bytes_wire wire_v2_def)

definition send_inv :: "(SocketAddr option \<times> SocketAddr option) list \<Rightarrow> bytes \<Rightarrow> SendProxyProtocol \<Rightarrow> bool" where
  "send_inv calls A r \<longleftrightarrow> (\<exists>soc. sd_backend r = Some soc \<and>
     (case sd_header r of
        None \<Rightarrow> accepted soc = A \<and> sd_cursor_header r = 0
      | Some H \<Rightarrow> sends calls H \<and> emitted H A r soc))"

lemma send_back_writable_spec:
  assumes "send_inv calls A r" and "\<forall>H. sd_header r = Some H \<longrightarrow> sd_cursor_header r < length H"
    and "send_back_writable l p r = (q, r')" and "(l, p) \<in> set calls"
  shows "send_inv calls A r' \<and>
    (q = SUpgrade \<longrightarrow> sd_header r' \<noteq> None) \<and>
    (\<forall>H. sd_header r' = Some H \<longrightarrow> (if q = SUpgrade then sd_cursor_header r' = length H else sd_cursor_header r' < length H))"
proof (cases "send_header l p r")
  case None
  then have "r' = r" "q = SClose" using assms(3) by (simp_all add: send_back_writable_def)
  then show ?thesis using assms(1,2) by auto
next
  case (Some r1)
  obtain soc where soc: "sd_backend r = Some soc" using assms(1) by (auto simp: send_inv_def)
  have r1: "sd_backend r1 = Some soc" "sd_cursor_header r1 = sd_cursor_header r" "send_inv calls A r1"
    "sd_header r1 = Some H \<Longrightarrow> sd_cursor_header r1 < length H" for H
    using Some soc assms(1,2,4)
    by (auto simp: send_header_def send_inv_def emitted_def header_nonempty intro: sendsI split: option.splits)
  show ?thesis
  proof (cases "sd_header r1")
    case None
    then have "r' = r1" "q = SClose" using assms(3) Some r1(1) by (simp_all add: send_back_writable_def)
    then show ?thesis using r1 None by simp
  next
    case H: (Some H)
    obtain q1 r2 soc1 where w: "send_write_loop H r1 soc = ((q1, r2), soc1)" by (metis prod.exhaust)
    have e: "emitted H A r1 soc" "sends calls H" using r1(1,3) H by (auto simp: send_inv_def)
    have "q = q1" "r' = r2\<lparr>sd_backend := Some soc1\<rparr>" using assms(3) Some r1(1) H w by (simp_all add: send_back_writable_def)
    with send_write_loop_spec [OF e(1) r1(4) [OF H] w] e(2) H show ?thesis
      by (auto simp: send_inv_def emitted_def)
  qed
qed

lemma send_run_spec:
  assumes "send_inv calls A r" and "\<forall>H. sd_header r = Some H \<longrightarrow> sd_cursor_header r < length H"
    and "send_run cs r = (q, r')" and "set cs \<subseteq> set calls"
  shows "send_inv calls A r' \<and> (q = SUpgrade \<longrightarrow> sd_header r' \<noteq> None) \<and>
    (\<forall>H. sd_header r' = Some H \<longrightarrow> (if q = SUpgrade then sd_cursor_header r' = length H else sd_cursor_header r' < length H))"
  using assms
proof (induction cs arbitrary: r)
  case (Cons c cs)
  obtain l p where c: "c = (l, p)" by (rule prod.exhaust)
  obtain q1 r1 where q1: "send_back_writable l p r = (q1, r1)" by (rule prod.exhaust)
  note step = send_back_writable_spec [OF Cons.prems(1,2) q1]
  show ?case
  proof (cases "q1 = SContinue")
    case True
    then show ?thesis using Cons.IH [of r1] Cons.prems(3,4) step c q1 by auto
  next
    case False
    then show ?thesis using Cons.prems(3,4) step c q1 by auto
  qed
qed auto

lemma sends_parses:
  assumes "nom_streaming_documented N" and "sends calls H"
  shows "\<exists>l p fam. (Some l, Some p) \<in> set calls \<and> H = header_v2_into_bytes (header_v2_new Proxy p l) \<and>
    parse_v2_header N H = Inr ([], \<lparr>h_command = Proxy, h_family = fam, h_addr = wire_addr (proxy_addr_from p l)\<rparr>)"
proof -
  obtain l p where lp: "(Some l, Some p) \<in> set calls" "H = header_v2_into_bytes (header_v2_new Proxy p l)"
    using assms(2) by (auto simp: sends_def)
  let ?a = "proxy_addr_from p l"
  have nu: "\<forall>x y. ?a \<noteq> UnixAddr x y" using proxy_addr_not_unix [of p l] by blast
  note w = block_addr_written [OF refl nu]
  have "parse_v2_header N H = Inr ([], \<lparr>h_command = Proxy, h_family = get_family ?a, h_addr = wire_addr ?a\<rparr>)"
    using parse_wire [OF assms(1) w(3), of "0x21" "get_family ?a" "wire_addr ?a" "[]"] w(1) by (simp add: lp(2) into_bytes_wire)
  with lp show ?thesis by blast
qed

lemma send_run_outcome:
  assumes "send_run calls (send_new (Some w0)) = (q, r)"
  shows "\<exists>soc sent. sd_backend r = Some soc \<and> accepted soc = accepted w0 @ sent \<and> (q = SUpgrade \<longrightarrow> sends calls sent) \<and>
    (q \<noteq> SUpgrade \<longrightarrow> sent = [] \<or> (\<exists>rest. rest \<noteq> [] \<and> sends calls (sent @ rest)))"
proof -
  have "send_inv calls (accepted w0) (send_new (Some w0))"
    "\<forall>H. sd_header (send_new (Some w0)) = Some H \<longrightarrow> sd_cursor_header (send_new (Some w0)) < length H"
    by (simp_all add: send_inv_def send_new_def)
  note sp = send_run_spec [OF this assms(1) subset_refl]
  then obtain soc where soc: "sd_backend r = Some soc" by (auto simp: send_inv_def)
  show ?thesis
  proof (cases "sd_header r")
    case None
    then show ?thesis using sp soc by (auto simp: send_inv_def)
  next
    case (Some H)
    let ?c = "sd_cursor_header r"
    have H: "sends calls H" "accepted soc = accepted w0 @ take ?c H"
      using sp soc Some by (auto simp: send_inv_def emitted_def)
    have "take ?c H = H" if "q = SUpgrade" using sp Some that by simp
    moreover have "take ?c H @ drop ?c H = H \<and> drop ?c H \<noteq> []" if "q \<noteq> SUpgrade" using sp Some that by auto
    ultimately show ?thesis using soc H by (metis (no_types, lifting))
  qed
qed

lemma send_run_upgrades:
  assumes "send_run calls (send_new (Some w0)) = (SUpgrade, r)" and "sd_backend r = Some soc" and "nom_streaming_documented N"
  shows "\<exists>l p sent h. (Some l, Some p) \<in> set calls \<and> accepted soc = accepted w0 @ sent \<and>
    parse_v2_header N sent = Inr ([], h) \<and> h_addr h = wire_addr (proxy_addr_from p l)"
  using send_run_outcome [OF assms(1)] assms(2) sends_parses [OF assms(3)] by fastforce

text \<open>
  C28: the emitter sends the backend one header and nothing else. However the writes are cut and however
  often the handler runs, what the backend has received is a proper prefix of the header built
  from addresses the front socket reported, and when the session upgrades it is the whole header,
  which a PROXY parser reads back as these addresses.
\<close>

theorem send_emits_header:
  assumes "send_run calls (send_new (Some w0)) = (q, r)" and "nom_streaming_documented N"
  shows "\<exists>soc sent. sd_backend r = Some soc \<and> accepted soc = accepted w0 @ sent \<and>
    (q = SUpgrade \<longrightarrow> (\<exists>l p fam. (Some l, Some p) \<in> set calls \<and> sent = header_v2_into_bytes (header_v2_new Proxy p l) \<and>
      parse_v2_header N sent = Inr ([], \<lparr>h_command = Proxy, h_family = fam, h_addr = wire_addr (proxy_addr_from p l)\<rparr>))) \<and>
    (q \<noteq> SUpgrade \<longrightarrow> sent = [] \<or> (\<exists>l p rest. (Some l, Some p) \<in> set calls \<and> rest \<noteq> [] \<and>
      sent @ rest = header_v2_into_bytes (header_v2_new Proxy p l)))"
  using send_run_outcome [OF assms(1)] sends_parses [OF assms(2)] unfolding sends_def by (metis (no_types, lifting))

theorem send_emits_header_witness:
  "\<exists>r soc. send_run [(Some (V4 \<lparr>v4_ip = 0x0A040508, v4_port = 4200\<rparr>), Some (V4 \<lparr>v4_ip = 0x7D190A01, v4_port = 8080\<rparr>))]
      (send_new (Some \<lparr>accepted = [9], answers = [Room 10, Room 0, Room 100]\<rparr>)) = (SUpgrade, r) \<and> sd_backend r = Some soc \<and>
    accepted soc = [9] @ header_v2_into_bytes (header_v2_new Proxy (V4 \<lparr>v4_ip = 0x7D190A01, v4_port = 8080\<rparr>) (V4 \<lparr>v4_ip = 0x0A040508, v4_port = 4200\<rparr>))"
proof -
  let ?l = "V4 \<lparr>v4_ip = 0x0A040508, v4_port = 4200\<rparr>" and ?p = "V4 \<lparr>v4_ip = 0x7D190A01, v4_port = 8080\<rparr>"
  let ?w = "\<lparr>accepted = [9], answers = [Room 10, Room 0, Room 100]\<rparr>"
  have "length (header_v2_into_bytes (header_v2_new Proxy ?p ?l)) = 28"
    by (simp add: into_bytes_wire wire_v2_def u16_to_array_of_u8_def PROTOCOL_SIGNATURE_V2_def)
  then have "fst (send_run [(Some ?l, Some ?p)] (send_new (Some ?w))) = SUpgrade"
    by (simp add: send_back_writable_def send_header_def send_new_def send_write_loop.simps os_write_def)
  then obtain r where run: "send_run [(Some ?l, Some ?p)] (send_new (Some ?w)) = (SUpgrade, r)" by (metis prod.collapse)
  show ?thesis using send_emits_header [OF run nom_streaming_ok] run by auto
qed

end
