(* ===== verification/H2_Scheduler_Order.thy ===== *)
theory H2_Scheduler_Order
  imports H2_Scheduler "HOL-Library.Multiset"
begin

text \<open>
  The order of a write pass as RFC 9218 describes it, that the scheduler produces it, and that its
  round robin is fair.
\<close>

subsection \<open>The order\<close>

definition prioriser_ok :: "Prioriser \<Rightarrow> bool" where
  "prioriser_ok P \<longleftrightarrow> (\<forall>i. fst (prioriser_get P i) \<le> MAX_URGENCY) \<and> length (incremental_cursor P) = URGENCY_LEVELS"

text \<open>The streams of one urgency and kind by identifier, and a list started behind a cursor.\<close>

definition ranked :: "Prioriser \<Rightarrow> u32 list \<Rightarrow> octet \<Rightarrow> bool \<Rightarrow> u32 list" where
  "ranked P ids u incremental = sort (filter (\<lambda>i. prioriser_get P i = (u, incremental)) ids)"

definition behind :: "u32 \<Rightarrow> u32 list \<Rightarrow> u32 list" where
  "behind cursor xs = filter (\<lambda>i. cursor < i) xs @ filter (\<lambda>i. i \<le> cursor) xs"

definition scheduled_bucket :: "Prioriser \<Rightarrow> u32 list \<Rightarrow> octet \<Rightarrow> u32 list" where
  "scheduled_bucket P ids u = ranked P ids u False @ behind (incremental_cursor P ! bucket u) (ranked P ids u True)"

definition scheduled :: "Prioriser \<Rightarrow> u32 list \<Rightarrow> u32 list" where
  "scheduled P ids = concat (map (\<lambda>u. scheduled_bucket P ids (of_nat u)) [0..<URGENCY_LEVELS])"

lemma levels: "URGENCY_LEVELS = 8" by (simp add: URGENCY_LEVELS_def MAX_URGENCY_def)

lemma sorted_map_append:
  "sorted (map f xs) \<Longrightarrow> sorted (map f ys) \<Longrightarrow> (\<And>x y. x \<in> set xs \<Longrightarrow> y \<in> set ys \<Longrightarrow> f x \<le> f y) \<Longrightarrow> sorted (map f (xs @ ys))"
  by (auto simp: sorted_append)

lemma sorted_map_const_key: "sorted xs \<Longrightarrow> \<forall>x \<in> set xs. f x = u \<Longrightarrow> sorted (map (\<lambda>i. (f i, i)) xs)"
  by (induction xs) auto

lemma takeWhile_split:
  assumes "\<forall>x \<in> set xs. Q x" and "\<forall>y \<in> set ys. \<not> Q y"
  shows "takeWhile Q (xs @ ys) = xs" "dropWhile Q (xs @ ys) = ys"
  using assms by (cases ys; simp)+

lemma sort_key_flag: "sort_key g xs = filter (\<lambda>x. \<not> g x) xs @ filter g xs"
proof (rule properties_for_sort_key)
  show "mset (filter (\<lambda>x. \<not> g x) xs @ filter g xs) = mset xs"
    by (metis mset_append mset_filter multiset_partition union_commute)
  show "filter (\<lambda>x. g k = g x) (filter (\<lambda>x. \<not> g x) xs @ filter g xs) = filter (\<lambda>x. g k = g x) xs" for k
    by (cases "g k") (simp_all add: filter_empty_conv conj_commute cong: filter_cong)
  have "sorted (map g (filter (\<lambda>x. \<not> g x) xs))" "sorted (map g (filter g xs))"
    by (induction xs) auto
  then show "sorted (map g (filter (\<lambda>x. \<not> g x) xs @ filter g xs))" by (auto simp: sorted_append)
qed

lemma sorted_parts:
  fixes xs :: "u32 list"
  assumes "sorted xs"
  shows "takeWhile (\<lambda>i. i \<le> cursor) xs = filter (\<lambda>i. i \<le> cursor) xs" "dropWhile (\<lambda>i. i \<le> cursor) xs = filter (\<lambda>i. cursor < i) xs"
    "xs = filter (\<lambda>i. i \<le> cursor) xs @ filter (\<lambda>i. cursor < i) xs"
proof -
  have *: "takeWhile (\<lambda>i. i \<le> cursor) xs = filter (\<lambda>i. i \<le> cursor) xs \<and> dropWhile (\<lambda>i. i \<le> cursor) xs = filter (\<lambda>i. cursor < i) xs"
    using assms
  proof (induction xs)
    case (Cons x xs)
    have "filter (\<lambda>i. i \<le> cursor) xs = [] \<and> filter (\<lambda>i. cursor < i) xs = xs" if "cursor < x"
      using Cons.prems that by (auto simp: filter_empty_conv filter_id_conv not_le dest: less_le_trans)
    with Cons show ?case by (auto simp: not_le)
  qed simp
  then show "takeWhile (\<lambda>i. i \<le> cursor) xs = filter (\<lambda>i. i \<le> cursor) xs" "dropWhile (\<lambda>i. i \<le> cursor) xs = filter (\<lambda>i. cursor < i) xs"
    by simp_all
  with takeWhile_dropWhile_id [of "\<lambda>i. i \<le> cursor" xs] show "xs = filter (\<lambda>i. i \<le> cursor) xs @ filter (\<lambda>i. cursor < i) xs" by simp
qed

lemma rotate_behind: "sorted xs \<Longrightarrow> rotate (partition_point (\<lambda>i. i \<le> cursor) xs) xs = behind cursor xs"
  using sorted_parts [of xs cursor] unfolding behind_def partition_point_def by (metis rotate_append)

lemma ranked_run:
  assumes "run = sort (filter (\<lambda>i. fst (prioriser_get P i) = u) ids)"
  shows "filter (\<lambda>i. \<not> snd (prioriser_get P i)) run = ranked P ids u False" "filter (\<lambda>i. snd (prioriser_get P i)) run = ranked P ids u True"
proof -
  have "prioriser_get P i = (u, b) \<longleftrightarrow> snd (prioriser_get P i) = b \<and> fst (prioriser_get P i) = u" for i b
    by (cases "prioriser_get P i") auto
  then show "filter (\<lambda>i. \<not> snd (prioriser_get P i)) run = ranked P ids u False" "filter (\<lambda>i. snd (prioriser_get P i)) run = ranked P ids u True"
    unfolding assms ranked_def by (simp_all add: filter_sort conj_commute)
qed

lemma behind_short: "length xs \<le> 1 \<Longrightarrow> behind c xs = xs"
  by (cases xs) (auto simp: behind_def)

lemma length_behind [simp]: "length (behind c xs) = length xs"
  by (induction xs) (auto simp: behind_def not_le)

lemma set_behind: "set (behind c xs) = set xs"
  by (auto simp: behind_def)

lemma rotate_run_scheduled:
  assumes "run = sort (filter (\<lambda>i. fst (prioriser_get P i) = u) ids)"
  shows "rotate_run P u run = (scheduled_bucket P ids u, length (ranked P ids u True))"
proof -
  note parts = ranked_run [OF assms]
  let ?c = "incremental_cursor P ! bucket u" and ?inc = "\<lambda>i. snd (prioriser_get P i)"
  have "sorted (ranked P ids u True)" by (simp add: ranked_def)
  then have rot: "(if 1 < length (ranked P ids u True) then rotate (partition_point (\<lambda>i. i \<le> ?c) (ranked P ids u True)) (ranked P ids u True)
      else ranked P ids u True) = behind ?c (ranked P ids u True)"
    using behind_short [of "ranked P ids u True" ?c] by (simp add: rotate_behind)
  show ?thesis
  proof (cases "1 < length run")
    case True
    have tw: "takeWhile (\<lambda>i. \<not> ?inc i) (filter (\<lambda>i. \<not> ?inc i) run @ filter ?inc run) = filter (\<lambda>i. \<not> ?inc i) run"
      by (rule takeWhile_split(1)) simp_all
    show ?thesis using True rot unfolding rotate_run_def Let_def sort_key_flag partition_point_def tw
      by (auto simp: parts scheduled_bucket_def split: if_splits)
  next
    case False
    then consider "run = []" | i where "run = [i]" by (cases run) auto
    then show ?thesis
      by cases (auto simp: rotate_run_def scheduled_bucket_def behind_short parts [symmetric])
  qed
qed

text \<open>The sorted buffer is a sequence of runs, and the rotation treats each by itself.\<close>

lemma rotation_runs:
  assumes "distinct us" and "\<And>u. u \<in> set us \<Longrightarrow> B u = sort (filter (\<lambda>i. fst (prioriser_get P i) = u) ids)"
  shows "apply_incremental_rotation P (concat (map B us)) =
    (concat (map (scheduled_bucket P ids) us), sum_list (map (\<lambda>u. length (ranked P ids u True)) us))"
  using assms
proof (induction us)
  case (Cons u us)
  let ?same = "\<lambda>j. fst (prioriser_get P j) = u" and ?rest = "concat (map B us)"
  have IH: "apply_incremental_rotation P ?rest =
      (concat (map (scheduled_bucket P ids) us), sum_list (map (\<lambda>u. length (ranked P ids u True)) us))"
    using Cons by simp
  have B: "B u = sort (filter ?same ids)" using Cons.prems(2) by simp
  have other: "\<forall>j \<in> set ?rest. \<not> ?same j" using Cons.prems by auto
  note run = rotate_run_scheduled [OF B]
  show ?case
  proof (cases "B u")
    case Nil
    then have "scheduled_bucket P ids u = [] \<and> ranked P ids u True = []"
      using run by (auto simp: rotate_run_def)
    then show ?thesis using IH Nil by simp
  next
    case (Cons i tail)
    then have in_run: "\<forall>j \<in> set (i # tail). ?same j" using B by (metis (mono_tags, lifting) filter_set mem_Collect_eq set_filter set_sort)
    then have "takeWhile ?same (tail @ ?rest) = tail" "dropWhile ?same (tail @ ?rest) = ?rest"
      using takeWhile_split [of tail ?same ?rest] other by auto
    then show ?thesis using IH run Cons in_run by simp
  qed
qed simp

lemma urgency_of: "prioriser_ok P \<Longrightarrow> unat (fst (prioriser_get P i)) < URGENCY_LEVELS"
  by (simp add: prioriser_ok_def URGENCY_LEVELS_def word_le_nat_alt less_Suc_eq_le)

lemma urgency_levels:
  assumes "u < URGENCY_LEVELS"
  shows "unat (of_nat u :: octet) = u" "bucket (of_nat u) = u"
  using assms by (simp_all add: levels bucket_def MAX_URGENCY_def unat_of_nat min_def word_le_nat_alt)

lemma sorted_runs:
  assumes "prioriser_ok P"
  shows "sort_key (\<lambda>i. (fst (prioriser_get P i), i)) ids =
    concat (map (\<lambda>u. sort (filter (\<lambda>i. fst (prioriser_get P i) = of_nat u) ids)) [0..<URGENCY_LEVELS])"
    (is "_ = concat (map ?B _)")
proof (rule sort_key_inj_key_eq)
  have eq: "fst (prioriser_get P i) = of_nat u \<longleftrightarrow> unat (fst (prioriser_get P i)) = u" if "u < URGENCY_LEVELS" for i u
    using urgency_levels(1) [OF that] by (metis word_unat_eq_iff)
  have "mset (concat (map ?B [0..<n])) = filter_mset (\<lambda>i. unat (fst (prioriser_get P i)) < n) (mset ids)" if "n \<le> URGENCY_LEVELS" for n
    using that
  proof (induction n)
    case (Suc n)
    have "filter_mset (\<lambda>i. unat (fst (prioriser_get P i)) < Suc n) (mset ids) =
        filter_mset (\<lambda>i. unat (fst (prioriser_get P i)) < n) (mset ids) + filter_mset (\<lambda>i. unat (fst (prioriser_get P i)) = n) (mset ids)"
      by (induction ids) auto
    with Suc show ?case by (simp add: eq)
  qed simp
  from this [OF order_refl] urgency_of [OF assms] show "mset ids = mset (concat (map ?B [0..<URGENCY_LEVELS]))" by simp
  show "inj_on (\<lambda>i. (fst (prioriser_get P i), i)) (set ids)" by (rule inj_onI) simp
  have "sorted (map (\<lambda>i. (fst (prioriser_get P i), i)) (concat (map ?B [0..<n]))) \<and>
      (\<forall>i \<in> set (concat (map ?B [0..<n])). unat (fst (prioriser_get P i)) < n)" if "n \<le> URGENCY_LEVELS" for n
    using that
  proof (induction n)
    case (Suc n)
    let ?f = "\<lambda>i. (fst (prioriser_get P i), i)" and ?pre = "concat (map ?B [0..<n])"
    have IH: "sorted (map ?f ?pre)" "\<And>i. i \<in> set ?pre \<Longrightarrow> unat (fst (prioriser_get P i)) < n" using Suc by (blast dest: Suc_leD)+
    have n: "unat (fst (prioriser_get P j)) = n" if "j \<in> set (?B n)" for j using that eq [of n j] Suc.prems by simp
    have "sorted (map ?f (?pre @ ?B n))"
    proof (rule sorted_map_append [OF IH(1)])
      show "sorted (map ?f (?B n))" by (rule sorted_map_const_key [where u = "of_nat n"]) simp_all
      fix i j assume "i \<in> set ?pre" "j \<in> set (?B n)"
      then have "unat (fst (prioriser_get P i)) < unat (fst (prioriser_get P j))" using IH(2) n by metis
      then show "?f i \<le> ?f j" by (simp add: less_eq_prod_def word_less_nat_alt)
    qed
    moreover have "\<forall>i \<in> set (?pre @ ?B n). unat (fst (prioriser_get P i)) < Suc n"
      unfolding set_append ball_Un using IH(2) n less_SucI lessI by metis
    moreover have "concat (map ?B [0..<Suc n]) = ?pre @ ?B n" by simp
    ultimately show ?case by (simp only: simp_thms)
  qed simp
  from this [OF order_refl] show "sorted (map (\<lambda>i. (fst (prioriser_get P i), i)) (concat (map ?B [0..<URGENCY_LEVELS])))" by blast
qed

lemma count_ready_fired: "first_incremental_fired (fst (count_ready P is_ready xs cq)) = first_incremental_fired (fst cq)"
proof (induction xs arbitrary: cq)
  case (Cons i xs)
  obtain c q where "cq = (c, q)" by (rule prod.exhaust)
  moreover obtain u inc where "prioriser_get P i = (u, inc)" by (rule prod.exhaust)
  moreover obtain r q' where "is_ready i q = (r, q')" by (rule prod.exhaust)
  ultimately show ?case using Cons.IH by simp
qed (metis count_ready.simps(1) prod.collapse)

lemma rotation_scheduled:
  assumes "prioriser_ok P"
  shows "fst (apply_incremental_rotation P (sort_key (\<lambda>i. (fst (prioriser_get P i), i)) ids)) = scheduled P ids"
    and "snd (apply_incremental_rotation P (sort_key (\<lambda>i. (fst (prioriser_get P i), i)) ids)) =
      (\<Sum>u\<leftarrow>[0..<URGENCY_LEVELS]. length (ranked P ids (of_nat u) True))"
proof -
  let ?us = "map of_nat [0..<URGENCY_LEVELS] :: octet list"
  have "inj_on (of_nat :: nat \<Rightarrow> octet) (set [0..<URGENCY_LEVELS])"
    using urgency_levels(1) by (intro inj_onI) (metis atLeastLessThan_iff atLeastLessThan_upt)
  then have "distinct ?us" by (simp add: distinct_map)
  from rotation_runs [OF this refl, where P = P and ids = ids]
  show "fst (apply_incremental_rotation P (sort_key (\<lambda>i. (fst (prioriser_get P i), i)) ids)) = scheduled P ids"
    and "snd (apply_incremental_rotation P (sort_key (\<lambda>i. (fst (prioriser_get P i), i)) ids)) =
      (\<Sum>u\<leftarrow>[0..<URGENCY_LEVELS]. length (ranked P ids (of_nat u) True))"
    unfolding sorted_runs [OF assms] scheduled_def by (simp_all only: map_map comp_def fst_conv snd_conv)
qed

lemma begin_pass_order:
  assumes "prioriser_ok (prioriser s)" and "begin_pass ids is_ready q s = ((out, census), q', s')"
  shows "out = scheduled (prioriser s) ids" "s' = s\<lparr>order := []\<rparr>" "first_incremental_fired census = replicate URGENCY_LEVELS None"
proof -
  let ?P = "prioriser s"
  obtain o1 n where o1: "apply_incremental_rotation ?P (sort_key (\<lambda>i. (fst (prioriser_get ?P i), i)) ids) = (o1, n)" by (rule prod.exhaust)
  let ?c = "\<lparr>ready = replicate URGENCY_LEVELS 0, incremental_count = n, first_incremental_fired = replicate URGENCY_LEVELS None\<rparr>"
  obtain c1 q1 where c1: "count_ready ?P is_ready o1 (?c, q) = (c1, q1)" by (rule prod.exhaust)
  have "out = o1" "census = c1" "s' = s\<lparr>order := []\<rparr>" using assms(2) by (simp_all add: begin_pass_def o1 c1)
  then show "out = scheduled (prioriser s) ids" "s' = s\<lparr>order := []\<rparr>" "first_incremental_fired census = replicate URGENCY_LEVELS None"
    using rotation_scheduled(1) [OF assms(1), of ids] count_ready_fired [of ?P is_ready o1 "(?c, q)", unfolded c1] by (simp_all add: o1)
qed

subsection \<open>Leaders\<close>

text \<open>What a pass over the streams records: \<open>consumed\<close> is the window each one used.\<close>

definition fire :: "Prioriser \<Rightarrow> (u32 \<Rightarrow> int) \<Rightarrow> u32 \<Rightarrow> ReadyIncrementalCensus \<Rightarrow> ReadyIncrementalCensus" where
  "fire P consumed i = note_fired (fst (prioriser_get P i)) i (snd (prioriser_get P i)) (consumed i)"

definition write_pass ::
  "u32 list \<Rightarrow> (u32 \<Rightarrow> 'c \<Rightarrow> bool \<times> 'c) \<Rightarrow> (u32 \<Rightarrow> int) \<Rightarrow> 'c \<Rightarrow> H2Scheduler \<Rightarrow> u32 option list \<times> 'c \<times> H2Scheduler" where
  "write_pass ids is_ready consumed q s =
     (let ((out, census), q, s) = begin_pass ids is_ready q s;
          census = fold (fire (prioriser s) consumed) out census
      in (first_incremental_fired census, q, end_pass out census s))"

lemma fire_leader:
  assumes "prioriser_ok P" and "u < URGENCY_LEVELS" and "length (first_incremental_fired c) = URGENCY_LEVELS"
  shows "first_incremental_fired (fold (fire P consumed) xs c) ! u =
    (case first_incremental_fired c ! u of
       Some i \<Rightarrow> Some i
     | None \<Rightarrow> find (\<lambda>i. prioriser_get P i = (of_nat u, True) \<and> 0 < consumed i) xs)"
  using assms(3)
proof (induction xs arbitrary: c)
  case (Cons i xs)
  have "fst (prioriser_get P i) \<le> MAX_URGENCY" using assms(1) by (simp add: prioriser_ok_def)
  then have b: "bucket (fst (prioriser_get P i)) = u \<longleftrightarrow> fst (prioriser_get P i) = of_nat u"
    using urgency_levels [OF assms(2)] by (auto simp: bucket_def min_def word_unat_eq_iff)
  have "length (first_incremental_fired (fire P consumed i c)) = URGENCY_LEVELS"
    using Cons.prems by (simp add: fire_def note_fired_def)
  from Cons.IH [OF this] show ?case
    using Cons.prems assms(2) b
    by (cases "prioriser_get P i") (auto simp: fire_def note_fired_def nth_list_update split: option.splits)
qed (simp split: option.split)

lemma end_pass_cursor:
  assumes "length cs = length ls" and "u < length ls"
  shows "advance_cursors cs ls ! u = (case ls ! u of Some i \<Rightarrow> i | None \<Rightarrow> cs ! u)"
  using assms
proof (induction cs ls arbitrary: u rule: advance_cursors.induct)
  case (1 c cs l ls)
  then show ?case by (cases u) (auto split: option.splits)
qed auto

lemma length_advance_cursors [simp]: "length (advance_cursors cs ls) = length cs"
  by (induction cs ls rule: advance_cursors.induct) auto

lemma find_filter: "find Q (filter R xs) = find (\<lambda>i. R i \<and> Q i) xs"
  by (induction xs) auto

text \<open>The leader of an urgency is its first incremental stream, behind the cursor, that used window.\<close>

lemma scheduled_incremental:
  assumes "prioriser_ok P" and "u < URGENCY_LEVELS"
  shows "filter (\<lambda>i. prioriser_get P i = (of_nat u, True)) (scheduled P ids) =
    behind (incremental_cursor P ! u) (ranked P ids (of_nat u) True)"
proof -
  let ?R = "\<lambda>i. prioriser_get P i = (of_nat u, True)"
  have none: "filter ?R (scheduled_bucket P ids (of_nat v)) = []" if "v < URGENCY_LEVELS" "v \<noteq> u" for v
    using urgency_levels(1) [OF that(1)] urgency_levels(1) [OF assms(2)] that(2)
    by (auto simp: filter_empty_conv scheduled_bucket_def behind_def ranked_def)
  have some: "filter ?R (scheduled_bucket P ids (of_nat u)) = behind (incremental_cursor P ! u) (ranked P ids (of_nat u) True)"
    using urgency_levels(2) [OF assms(2)]
    by (auto simp: scheduled_bucket_def set_behind ranked_def filter_empty_conv intro!: filter_True)
  have "filter ?R (concat (map (\<lambda>v. scheduled_bucket P ids (of_nat v)) [0..<n])) =
      (if u < n then behind (incremental_cursor P ! u) (ranked P ids (of_nat u) True) else [])" if "n \<le> URGENCY_LEVELS" for n
    using that
  proof (induction n)
    case (Suc n)
    then show ?case using none [of n] some by (cases "n = u") auto
  qed simp
  from this [OF order_refl] assms(2) show ?thesis by (simp add: scheduled_def)
qed

lemma write_pass_spec:
  assumes "prioriser_ok (prioriser s)" and "write_pass ids is_ready consumed q s = (fired, q', s')" and "u < URGENCY_LEVELS"
  shows "fired ! u = find (\<lambda>i. 0 < consumed i) (behind (incremental_cursor (prioriser s) ! u) (ranked (prioriser s) ids (of_nat u) True))"
    and "priorities (prioriser s') = priorities (prioriser s)" and "prioriser_ok (prioriser s')"
    and "incremental_cursor (prioriser s') ! u = (case fired ! u of Some i \<Rightarrow> i | None \<Rightarrow> incremental_cursor (prioriser s) ! u)"
proof -
  let ?P = "prioriser s"
  obtain out c q1 s1 where b: "begin_pass ids is_ready q s = ((out, c), q1, s1)" by (metis prod.exhaust)
  note o = begin_pass_order [OF assms(1) b]
  let ?c = "fold (fire ?P consumed) out c"
  have P1: "prioriser s1 = ?P" using o(2) by simp
  have f: "fired = first_incremental_fired ?c" and s': "s' = end_pass out ?c s1" using assms(2) b P1 by (auto simp: write_pass_def Let_def)
  have lc: "length (first_incremental_fired c) = URGENCY_LEVELS" "first_incremental_fired c ! v = None" if "v < URGENCY_LEVELS" for v
    using o(3) that by simp_all
  have "first_incremental_fired ?c ! u = find (\<lambda>i. prioriser_get ?P i = (of_nat u, True) \<and> 0 < consumed i) out"
    using fire_leader [OF assms(1,3) lc(1) [OF assms(3)]] lc(2) [OF assms(3)] by simp
  then show "fired ! u = find (\<lambda>i. 0 < consumed i) (behind (incremental_cursor ?P ! u) (ranked ?P ids (of_nat u) True))"
    using scheduled_incremental [OF assms(1,3), of ids] by (simp add: f o(1) find_filter [symmetric])
  show "priorities (prioriser s') = priorities ?P" by (simp add: s' end_pass_def advance_incremental_cursor_def P1)
  then have "prioriser_get (prioriser s') = prioriser_get ?P" by (simp add: prioriser_get_def fun_eq_iff)
  then show "prioriser_ok (prioriser s')"
    using assms(1) by (simp add: prioriser_ok_def s' end_pass_def advance_incremental_cursor_def P1)
  have "length (first_incremental_fired ?c) = URGENCY_LEVELS"
    using o(3) by (induction out arbitrary: c rule: rev_induct) (simp_all add: fire_def note_fired_def)
  moreover have "length (incremental_cursor ?P) = URGENCY_LEVELS" using assms(1) by (simp add: prioriser_ok_def)
  ultimately show "incremental_cursor (prioriser s') ! u = (case fired ! u of Some i \<Rightarrow> i | None \<Rightarrow> incremental_cursor ?P ! u)"
    using end_pass_cursor [of "incremental_cursor ?P" fired u] assms(3)
    by (simp add: f s' end_pass_def advance_incremental_cursor_def P1)
qed

subsection \<open>Fairness\<close>

text \<open>A sequence of passes over the same streams; each has its own account of the window used.\<close>

fun passes ::
  "u32 list \<Rightarrow> (u32 \<Rightarrow> 'c \<Rightarrow> bool \<times> 'c) \<Rightarrow> (u32 \<Rightarrow> int) list \<Rightarrow> 'c \<Rightarrow> H2Scheduler \<Rightarrow> u32 option list list \<times> H2Scheduler" where
  "passes ids is_ready [] q s = ([], s)"
| "passes ids is_ready (consumed # rest) q s =
     (let (fired, q, s) = write_pass ids is_ready consumed q s;
          (all_fired, s) = passes ids is_ready rest q s
      in (fired # all_fired, s))"

lemma split_at:
  assumes "sorted (l @ y # r)" and "distinct (l @ y # r)"
  shows "filter (\<lambda>i. y < i) (l @ y # r) = r" "filter (\<lambda>i. i \<le> y) (l @ y # r) = l @ [y]"
proof -
  have "\<forall>i \<in> set l. i < y" "\<forall>i \<in> set r. y < i"
    using assms by (auto simp: sorted_append order.strict_iff_order)
  then show "filter (\<lambda>i. y < i) (l @ y # r) = r" "filter (\<lambda>i. i \<le> y) (l @ y # r) = l @ [y]"
    by (auto simp: filter_empty_conv filter_id_conv not_less not_le order.strict_implies_order)
qed

lemma behind_next:
  assumes "sorted xs" and "distinct xs" and "behind c xs = pre @ y # post"
  shows "behind y xs = post @ pre @ [y]"
proof -
  let ?A = "filter (\<lambda>i. i \<le> c) xs" and ?B = "filter (\<lambda>i. c < i) xs"
  have xs: "xs = ?A @ ?B" by (rule sorted_parts(3) [OF assms(1)])
  from assms(3) have "?B @ ?A = pre @ y # post" by (simp add: behind_def)
  then consider (low) us where "?B = pre @ us" "us @ ?A = y # post" | (high) us where "?B @ us = pre" "?A = us @ y # post"
    by (auto simp: append_eq_append_conv2)
  then show ?thesis
  proof cases
    case low
    show ?thesis
    proof (cases us)
      case Nil
      then have A: "?A = y # post" and B: "?B = pre" using low by auto
      have e: "xs = y # post @ pre" using xs A B by simp
      show ?thesis using split_at [of "[]" y "post @ pre"] assms(1,2) unfolding e by (simp add: behind_def)
    next
      case (Cons z zs)
      then have B: "?B = pre @ y # zs" and post: "post = zs @ ?A" using low by auto
      have e: "xs = (?A @ pre) @ y # zs" using xs B by simp
      have "filter (\<lambda>i. y < i) xs = zs" "filter (\<lambda>i. i \<le> y) xs = (?A @ pre) @ [y]"
        using split_at [of "?A @ pre" y zs] assms(1,2) e by metis+
      then show ?thesis by (simp add: behind_def post)
    qed
  next
    case high
    then have e: "xs = us @ y # (post @ ?B)" using xs by simp
    have "filter (\<lambda>i. y < i) xs = post @ ?B" "filter (\<lambda>i. i \<le> y) xs = us @ [y]"
      using split_at [of us y "post @ ?B"] assms(1,2) e by metis+
    then show ?thesis using high(1) by (simp add: behind_def)
  qed
qed

definition turns :: "u32 \<Rightarrow> u32 \<Rightarrow> u32 list \<Rightarrow> nat" where
  "turns x c xs = length (takeWhile (\<lambda>i. i \<noteq> x) (behind c xs))"

lemma turns_less: "x \<in> set xs \<Longrightarrow> turns x c xs < length xs"
proof -
  have "x \<in> set ys \<Longrightarrow> length (takeWhile (\<lambda>i. i \<noteq> x) ys) < length ys" for ys by (induction ys) auto
  then show "x \<in> set xs \<Longrightarrow> turns x c xs < length xs" by (metis length_behind set_behind turns_def)
qed

lemma leader_turn:
  assumes "sorted xs" and "distinct xs" and "x \<in> set xs" and "0 < (consumed :: u32 \<Rightarrow> int) x"
  obtains y where "find (\<lambda>i. 0 < consumed i) (behind c xs) = Some y" "y = x \<or> turns x y xs < turns x c xs"
proof -
  have "x \<in> set (behind c xs)" using assms(3) by (simp add: set_behind)
  then obtain y where y: "find (\<lambda>i. 0 < consumed i) (behind c xs) = Some y"
    using assms(4) by (metis find_None_iff option.exhaust)
  then obtain n where n: "n < length (behind c xs)" "y = behind c xs ! n" "0 < consumed y" "\<forall>j < n. \<not> 0 < consumed (behind c xs ! j)"
    by (auto simp: find_Some_iff)
  define pre where "pre = take n (behind c xs)"
  define post where "post = drop (Suc n) (behind c xs)"
  have d: "behind c xs = pre @ y # post" using n(1,2) by (simp add: pre_def post_def id_take_nth_drop)
  have "x \<notin> set pre" using n(1,4) assms(4) by (auto simp: pre_def in_set_conv_nth)
  have "turns x y xs < turns x c xs" if "y \<noteq> x"
  proof -
    have "x \<in> set post" using \<open>x \<in> set (behind c xs)\<close> \<open>x \<notin> set pre\<close> that by (simp add: d)
    then have "turns x y xs = length (takeWhile (\<lambda>i. i \<noteq> x) post)"
      using behind_next [OF assms(1,2) d] by (simp add: turns_def takeWhile_append1)
    moreover have "takeWhile (\<lambda>i. i \<noteq> x) (pre @ y # post) = pre @ takeWhile (\<lambda>i. i \<noteq> x) (y # post)"
      by (rule takeWhile_append2) (use \<open>x \<notin> set pre\<close> in blast)
    then have "turns x c xs = Suc (length pre + length (takeWhile (\<lambda>i. i \<noteq> x) post))"
      using that by (simp add: turns_def d)
    ultimately show ?thesis by simp
  qed
  with y that show thesis by blast
qed

lemma passes_fair:
  assumes "prioriser_ok (prioriser s)" and "distinct ids" and "x \<in> set ids"
    and "prioriser_get (prioriser s) x = (u, True)" and "\<forall>consumed \<in> set cs. 0 < consumed x"
    and "turns x (incremental_cursor (prioriser s) ! bucket u) (ranked (prioriser s) ids u True) < length cs"
    and "passes ids is_ready cs q s = (fs, s')"
  shows "\<exists>fired \<in> set fs. fired ! bucket u = Some x"
  using assms
proof (induction cs arbitrary: q s fs)
  case (Cons consumed cs)
  let ?P = "prioriser s" and ?xs = "ranked (prioriser s) ids u True" and ?c = "incremental_cursor (prioriser s) ! bucket u"
  obtain fired q1 s1 where w: "write_pass ids is_ready consumed q s = (fired, q1, s1)" by (metis prod.exhaust)
  obtain fs1 where fs: "passes ids is_ready cs q1 s1 = (fs1, s')" "fs = fired # fs1"
    using Cons.prems(7) w by (auto split: prod.splits)
  have "u \<le> MAX_URGENCY" using Cons.prems(1,4) by (metis fst_conv prioriser_ok_def)
  then have b: "bucket u < URGENCY_LEVELS" "of_nat (bucket u) = u"
    by (simp_all add: bucket_def min_def URGENCY_LEVELS_def word_le_nat_alt less_Suc_eq_le)
  note ws = write_pass_spec [OF Cons.prems(1) w b(1), unfolded b(2)]
  have xs: "sorted ?xs" "distinct ?xs" "x \<in> set ?xs" using Cons.prems(2-4) by (auto simp: ranked_def)
  obtain y where y: "find (\<lambda>i. 0 < consumed i) (behind ?c ?xs) = Some y" "y = x \<or> turns x y ?xs < turns x ?c ?xs"
    using leader_turn [OF xs, of consumed ?c] Cons.prems(5) by auto
  show ?case
  proof (cases "y = x")
    case True
    then show ?thesis using y(1) ws(1) fs(2) by simp
  next
    case False
    have get: "prioriser_get (prioriser s1) = prioriser_get ?P" using ws(2) by (simp add: prioriser_get_def fun_eq_iff)
    then have "ranked (prioriser s1) ids u True = ?xs" by (simp add: ranked_def)
    moreover have "incremental_cursor (prioriser s1) ! bucket u = y" using ws(1,4) y(1) by simp
    ultimately have "turns x (incremental_cursor (prioriser s1) ! bucket u) (ranked (prioriser s1) ids u True) < length cs"
      using y(2) False Cons.prems(6) by simp
    then show ?thesis using Cons.IH [OF ws(3) Cons.prems(2,3) _ _ _ fs(1)] Cons.prems(4,5) get fs(2) by auto
  qed
qed simp

subsection \<open>Properties\<close>

lemma mset_scheduled: "prioriser_ok P \<Longrightarrow> mset (scheduled P ids) = mset ids"
proof -
  assume ok: "prioriser_ok P"
  have b: "mset (behind c xs) = mset xs" for c xs by (induction xs) (auto simp: behind_def not_le)
  have r: "mset (ranked P ids u False) + mset (ranked P ids u True) = mset (filter (\<lambda>i. fst (prioriser_get P i) = u) ids)" for u
  proof -
    have "mset (ranked P ids u False @ ranked P ids u True) =
        mset (sort_key (\<lambda>i. snd (prioriser_get P i)) (sort (filter (\<lambda>i. fst (prioriser_get P i) = u) ids)))"
      unfolding sort_key_flag ranked_run [OF refl] ..
    then show ?thesis by simp
  qed
  have "mset (concat (map (\<lambda>u. scheduled_bucket P ids (of_nat u)) us)) =
      mset (concat (map (\<lambda>u. sort (filter (\<lambda>i. fst (prioriser_get P i) = of_nat u) ids)) us))" for us
  proof (induction us)
    case (Cons u us)
    then show ?case using r [of "of_nat u"] by (simp add: scheduled_bucket_def b)
  qed simp
  from this [of "[0..<URGENCY_LEVELS]"] show ?thesis unfolding scheduled_def sorted_runs [OF ok, symmetric] by simp
qed

lemma count_ready_counts:
  assumes "u < URGENCY_LEVELS" and "prioriser_ok P" and "length (ready c) = URGENCY_LEVELS"
  shows "ready (fst (count_ready P (\<lambda>i q. (p i, q)) xs (c, q))) ! u =
    ready c ! u + length (filter (\<lambda>i. prioriser_get P i = (of_nat u, True) \<and> p i) xs)"
    and "incremental_count (fst (count_ready P (\<lambda>i q. (p i, q)) xs (c, q))) = incremental_count c"
proof -
  have "ready (fst (count_ready P (\<lambda>i q. (p i, q)) xs (c, q))) ! u =
      ready c ! u + length (filter (\<lambda>i. prioriser_get P i = (of_nat u, True) \<and> p i) xs) \<and>
      incremental_count (fst (count_ready P (\<lambda>i q. (p i, q)) xs (c, q))) = incremental_count c"
    using assms(3)
  proof (induction xs arbitrary: c)
    case (Cons i xs)
    obtain v inc where v: "prioriser_get P i = (v, inc)" by (rule prod.exhaust)
    then have "v \<le> MAX_URGENCY" using assms(2) by (metis fst_conv prioriser_ok_def)
    then have "bucket v = u \<longleftrightarrow> v = of_nat u"
      using urgency_levels [OF assms(1)] by (auto simp: bucket_def min_def word_unat_eq_iff)
    with Cons v assms(1) show ?case by (auto simp: nth_list_update)
  qed simp
  then show "ready (fst (count_ready P (\<lambda>i q. (p i, q)) xs (c, q))) ! u =
    ready c ! u + length (filter (\<lambda>i. prioriser_get P i = (of_nat u, True) \<and> p i) xs)"
    and "incremental_count (fst (count_ready P (\<lambda>i q. (p i, q)) xs (c, q))) = incremental_count c" by blast+
qed

text \<open>
  C12: a write pass visits the streams in the order RFC 9218 asks for: by ascending urgency, in each
  urgency the non-incremental streams by identifier and then the incremental ones, started behind
  the cursor of that urgency. No stream is left out or visited twice, and the census counts exactly
  the ready incremental streams of each urgency.
\<close>

theorem write_order_exact:
  assumes "prioriser_ok (prioriser s)" and "begin_pass ids (\<lambda>i q. (p i, q)) q s = ((out, census), q', s')"
  shows "out = scheduled (prioriser s) ids \<and> mset out = mset ids \<and>
    (u < URGENCY_LEVELS \<longrightarrow> ready census ! u = length (filter (\<lambda>i. prioriser_get (prioriser s) i = (of_nat u, True) \<and> p i) ids)) \<and>
    incremental_count census = (\<Sum>u\<leftarrow>[0..<URGENCY_LEVELS]. length (ranked (prioriser s) ids (of_nat u) True))"
proof -
  let ?P = "prioriser s"
  note o = begin_pass_order [OF assms]
  obtain o1 n where o1: "apply_incremental_rotation ?P (sort_key (\<lambda>i. (fst (prioriser_get ?P i), i)) ids) = (o1, n)" by (rule prod.exhaust)
  let ?c = "\<lparr>ready = replicate URGENCY_LEVELS 0, incremental_count = n, first_incremental_fired = replicate URGENCY_LEVELS None\<rparr>"
  obtain c1 q1 where c1: "count_ready ?P (\<lambda>i q. (p i, q)) o1 (?c, q) = (c1, q1)" by (rule prod.exhaust)
  have "census = c1" and out: "out = o1" using assms(2) by (simp_all add: begin_pass_def o1 c1)
  then have census: "census = fst (count_ready ?P (\<lambda>i q. (p i, q)) o1 (?c, q))" unfolding c1 by simp
  have m: "mset out = mset ids" unfolding o(1) by (rule mset_scheduled [OF assms(1)])
  have "length (filter Q out) = length (filter Q ids)" for Q using m by (metis mset_filter size_mset)
  then have "ready census ! u = length (filter (\<lambda>i. prioriser_get ?P i = (of_nat u, True) \<and> p i) ids)" if "u < URGENCY_LEVELS"
    using count_ready_counts(1) [OF that assms(1), of ?c p o1 q] census out that by simp
  moreover have "incremental_count census = n" using count_ready_counts(2) [OF _ assms(1), of 0 ?c p o1 q] census levels by simp
  ultimately show ?thesis using o(1) m rotation_scheduled(2) [OF assms(1), of ids] o1 by simp
qed


subsection \<open>Bounds\<close>

text \<open>Every scheduler a connection can have, and the events that lead to it.\<close>

inductive scheduler_reachable :: "H2Scheduler \<Rightarrow> bool" where
  reach_default: "scheduler_reachable scheduler_default"
| reach_push: "scheduler_reachable s \<Longrightarrow> scheduler_reachable (snd (scheduler_push_priority i p s))"
| reach_guarded: "scheduler_reachable s \<Longrightarrow> scheduler_reachable (snd (scheduler_push_priority_guarded i p latest streams s))"
| reach_remove: "scheduler_reachable s \<Longrightarrow> scheduler_reachable (remove_stream i s)"
| reach_pass: "scheduler_reachable s \<Longrightarrow> begin_pass ids (\<lambda>i q. (answers i, q)) () s = ((out, census), q', s') \<Longrightarrow>
    length (first_incremental_fired census') = URGENCY_LEVELS \<Longrightarrow> scheduler_reachable (end_pass out census' s')"

definition priorities_ok :: "(u32 \<times> octet \<times> bool) list \<Rightarrow> bool" where
  "priorities_ok m \<longleftrightarrow> length m \<le> MAX_PRIORITIES \<and> (\<forall>(_, u, _) \<in> set m. u \<le> MAX_URGENCY)"

lemma update_length: "map_of m k \<noteq> None \<Longrightarrow> length (AList.update k v m) = length m" "length (AList.update k v m) \<le> Suc (length m)"
  by (induction m) auto

lemma push_priority_ok:
  assumes "priorities_ok (priorities P)"
  shows "priorities_ok (priorities (snd (push_priority i p P)))" "incremental_cursor (snd (push_priority i p P)) = incremental_cursor P"
proof -
  have "set (AList.update i v m) \<subseteq> insert (i, v) (set m)" for v and m :: "(u32 \<times> octet \<times> bool) list"
    by (induction m) auto
  then have "\<forall>(_, u, _) \<in> set (AList.update i (min u' 7, b) (priorities P)). u \<le> MAX_URGENCY" for u' b
    using assms by (fastforce simp: priorities_ok_def MAX_URGENCY_def)
  moreover have "length (AList.update i v (priorities P)) \<le> MAX_PRIORITIES"
    if "map_of (priorities P) i \<noteq> None \<or> length (priorities P) < MAX_PRIORITIES" for v
    using that update_length [where m = "priorities P" and k = i and v = v] assms by (auto simp: priorities_ok_def)
  ultimately show "priorities_ok (priorities (snd (push_priority i p P)))" "incremental_cursor (snd (push_priority i p P)) = incremental_cursor P"
    using assms by (auto simp: push_priority_def priorities_ok_def split: PriorityPart.splits)
qed

lemma priorities_ok_get:
  assumes "priorities_ok (priorities P)"
  shows "fst (prioriser_get P i) \<le> MAX_URGENCY"
proof (cases "map_of (priorities P) i")
  case (Some p)
  from map_of_SomeD [OF this] assms show ?thesis by (auto simp: prioriser_get_def Some priorities_ok_def)
qed (simp add: prioriser_get_def DEFAULT_URGENCY_def MAX_URGENCY_def)

lemma scheduler_reachable_ok:
  assumes "scheduler_reachable s"
  shows "priorities_ok (priorities (prioriser s)) \<and> prioriser_ok (prioriser s)"
  using assms
proof induction
  case reach_default
  then show ?case
    using priorities_ok_get [of prioriser_default]
    by (simp add: scheduler_default_def prioriser_ok_def prioriser_default_def priorities_ok_def)
next
  case (reach_push s i p)
  have s: "prioriser (snd (scheduler_push_priority i p s)) = snd (push_priority i p (prioriser s))"
    by (simp add: scheduler_push_priority_def split_beta)
  from reach_push.IH push_priority_ok [of "prioriser s" i p] priorities_ok_get show ?case unfolding s prioriser_ok_def by auto
next
  case (reach_guarded s i p latest streams)
  have s: "prioriser (snd (scheduler_push_priority_guarded i p latest streams s)) =
      (if is_acceptable i latest streams then snd (push_priority i p (prioriser s)) else prioriser s)"
    by (simp add: scheduler_push_priority_guarded_def push_priority_guarded_def split_beta)
  from reach_guarded.IH push_priority_ok [of "prioriser s" i p] priorities_ok_get show ?case unfolding s prioriser_ok_def by auto
next
  case (reach_remove s i)
  have "length (filter Q m) \<le> MAX_PRIORITIES" if "length m \<le> MAX_PRIORITIES" for Q and m :: "(u32 \<times> octet \<times> bool) list"
    using that length_filter_le [of Q m] by linarith
  then have "priorities_ok (priorities (prioriser (remove_stream i s)))"
    using reach_remove.IH by (auto simp: priorities_ok_def remove_stream_def prioriser_remove_def AList.delete_eq)
  then show ?case using reach_remove.IH priorities_ok_get by (simp add: prioriser_ok_def remove_stream_def prioriser_remove_def)
next
  case (reach_pass s ids answers out census q' s' census')
  have s': "s' = s\<lparr>order := []\<rparr>" by (rule begin_pass_order(2) [OF _ reach_pass.hyps(2)]) (use reach_pass.IH in blast)
  then have "priorities (prioriser (end_pass out census' s')) = priorities (prioriser s)"
    by (simp add: end_pass_def advance_incremental_cursor_def)
  then show ?case using reach_pass.IH priorities_ok_get [of "prioriser (end_pass out census' s')"] s'
    by (simp add: prioriser_ok_def end_pass_def advance_incremental_cursor_def)
qed

text \<open>
  a peer cannot flood the priority map. In every state a connection can reach the map has at most
  4096 entries, each urgency lies in its eight levels, and a PRIORITY frame on a stream that
  is neither open nor within 64 identifiers ahead changes nothing.
\<close>

theorem priorities_bounded:
  assumes "scheduler_reachable s"
  shows "length (priorities (prioriser s)) \<le> 4096 \<and> fst (scheduler_priority s i) \<le> 7 \<and>
    (i \<in> set streams \<or> latest < i \<and> unat i \<le> unat latest + 64 \<or> scheduler_push_priority_guarded i p latest streams s = (False, s)) \<and>
    length (incremental_cursor (prioriser s)) = 8"
proof -
  note ok = scheduler_reachable_ok [OF assms]
  have "unat i \<le> unat latest + 64" if "i \<le> u32_saturating_add latest PRIORITY_IDLE_LOOKAHEAD"
    using that unat_u32_saturating_add [of latest PRIORITY_IDLE_LOOKAHEAD] by (simp add: word_le_nat_alt PRIORITY_IDLE_LOOKAHEAD_def)
  then show ?thesis
    using ok priorities_ok_get [of "prioriser s" i]
    by (auto simp: priorities_ok_def MAX_PRIORITIES_def scheduler_priority_def MAX_URGENCY_def prioriser_ok_def levels
        scheduler_push_priority_guarded_def push_priority_guarded_def is_acceptable_def)
qed

text \<open>At the cap the self-dependency of an unknown stream is not reported.\<close>

lemma self_dependency_unreported_at_cap:
  assumes "length (priorities P) = MAX_PRIORITIES" and "map_of (priorities P) i = None"
  shows "push_priority i (Rfc7540 \<lparr>dep_exclusive = False, dep_stream_id = i\<rparr> w) P = (False, P)"
  using assms by (simp add: push_priority_def)

theorem write_order_exact_witness:
  "\<exists>out census s'. begin_pass [7, 5, 3] (\<lambda>i q. (True, q)) () scheduler_default = ((out, census), (), s') \<and> out = [3, 5, 7]"
proof -
  obtain out census q' s' where b: "begin_pass [7, 5, 3] (\<lambda>i q. (True, q)) () scheduler_default = ((out, census), q', s')"
    by (metis prod.exhaust)
  have ok: "prioriser_ok (prioriser scheduler_default)" using scheduler_reachable_ok [OF reach_default] by blast
  have g: "prioriser_get (prioriser scheduler_default) i = (3, False)" for i
    by (simp add: prioriser_get_def scheduler_default_def prioriser_default_def DEFAULT_URGENCY_def)
  have us: "[0..<8] = [0, 1, 2, 3, 4, 5, 6, 7 :: nat]" by (simp add: upt_rec)
  have "scheduled (prioriser scheduler_default) [7, 5, 3] = [3, 5, 7]"
    unfolding scheduled_def levels us by (simp add: scheduled_bucket_def ranked_def g behind_def)
  then show ?thesis using write_order_exact [OF ok b, of 0] b by auto
qed


theorem priorities_bounded_witness:
  "length (priorities (prioriser (snd (scheduler_push_priority 1 (Rfc9218 9 True) scheduler_default)))) \<le> 4096 \<and>
   fst (scheduler_priority (snd (scheduler_push_priority 1 (Rfc9218 9 True) scheduler_default)) 1) \<le> 7"
  using priorities_bounded [OF reach_push [OF reach_default], of 1 "Rfc9218 9 True" 1 "[]" 0 "Rfc9218 0 False"] by blast

end
