(* ===== verification/H2_Transmit.thy ===== *)
theory H2_Transmit
  imports H2_Output Sozu_Socket
begin

text \<open>
  The vectored transmit of one stream, from \<^verbatim>\<open>src/lib/src/protocol/mux/h2_transmit.rs\<close>: the gathering
  of the blocks a stream has to send, the rest of a frame a partial write cut, and the walk over the
  queued frames. The stream buffer is a third-party type and enters as in \<open>adopt_tail\<close>: its blocks,
  \<open>None\<close> for a delimiter and \<open>Some\<close> the data of a store otherwise. A descriptor is the octets it
  points to; that none dangles is outside the model.
\<close>

fun push_out_blocks :: "bytes option list \<Rightarrow> bytes list \<Rightarrow> nat \<times> bytes list" where
  "push_out_blocks [] io_slices = (0, io_slices)"
| "push_out_blocks (None # blocks) io_slices = (0, io_slices)"
| "push_out_blocks (Some data # blocks) io_slices =
     (case push_out_blocks blocks (io_slices @ [data]) of (offered, io_slices) \<Rightarrow> (length data + offered, io_slices))"

definition gather :: "bytes option list \<Rightarrow> nat \<times> bytes list" where
  "gather blocks = push_out_blocks blocks []"

definition gather_after :: "bytes \<Rightarrow> bytes option list \<Rightarrow> (nat \<times> nat) \<times> bytes list" where
  "gather_after prefix blocks =
     (case push_out_blocks blocks (if prefix = [] then [] else [prefix]) of
        (stream, io_slices) \<Rightarrow> ((length prefix, length prefix + stream), io_slices))"

definition confirm :: "(nat \<Rightarrow> 'k \<Rightarrow> 'k) \<Rightarrow> nat \<Rightarrow> 'k \<Rightarrow> 'k \<times> bytes list" where
  "confirm consume_kawa n kawa = (consume_kawa n kawa, [])"

subsection \<open>The rest of a cut frame\<close>

record SliceCursor =
  sc_slices :: "bytes list"
  sc_index :: nat
  sc_offset :: nat
  sc_steps :: nat

definition cursor_advance :: "SliceCursor \<Rightarrow> SliceCursor" where
  "cursor_advance c = c\<lparr>sc_index := sc_index c + 1, sc_offset := 0, sc_steps := sc_steps c + 1\<rparr>"

function cursor_skip :: "nat \<Rightarrow> SliceCursor \<Rightarrow> bool \<times> SliceCursor" where
  "cursor_skip count c =
     (if count = 0 then (True, c)
      else if sc_index c < length (sc_slices c) then
        let left = length (sc_slices c ! sc_index c) - sc_offset c in
        if count < left then (True, c\<lparr>sc_offset := sc_offset c + count\<rparr>)
        else cursor_skip (count - left) (cursor_advance c)
      else (False, c))"
  by pat_completeness auto
termination
  by (relation "measure (\<lambda>(_, c). length (sc_slices c) - sc_index c)") (auto simp: cursor_advance_def)

function next_byte :: "SliceCursor \<Rightarrow> octet option \<times> SliceCursor" where
  "next_byte c =
     (if sc_index c < length (sc_slices c) then
        if sc_offset c < length (sc_slices c ! sc_index c)
        then (Some (sc_slices c ! sc_index c ! sc_offset c), snd (cursor_skip 1 c))
        else next_byte (cursor_advance c)
      else (None, c))"
  by pat_completeness auto
termination
  by (relation "measure (\<lambda>c. length (sc_slices c) - sc_index c)") (auto simp: cursor_advance_def)

declare cursor_skip.simps [simp del] next_byte.simps [simp del]

text \<open>The first \<open>n\<close> octets at the cursor, zero where the slices end.\<close>

fun read_head :: "nat \<Rightarrow> SliceCursor \<Rightarrow> bytes \<times> SliceCursor" where
  "read_head 0 c = ([], c)"
| "read_head (Suc n) c =
     (case next_byte c of (b, c) \<Rightarrow> case read_head n c of (bs, c) \<Rightarrow> ((case b of Some b \<Rightarrow> b | None \<Rightarrow> 0) # bs, c))"

definition header_frame :: "octet \<Rightarrow> bool" where
  "header_frame ty \<longleftrightarrow> ty = 0x1 \<or> ty = 0x5 \<or> ty = 0x9"

definition frame_payload_len :: "bytes \<Rightarrow> nat" where
  "frame_payload_len head = unat (head ! 0) * 2 ^ 16 + unat (head ! 1) * 2 ^ 8 + unat (head ! 2)"

text \<open>
  The loop of \<open>frame_tail_walk\<close>; the disjunction of the shifted octets is their sum. \<open>gathered\<close> is the
  number of octets in the slices.
\<close>

function frame_tail_loop :: "nat \<Rightarrow> nat \<Rightarrow> nat \<Rightarrow> bool \<Rightarrow> SliceCursor \<Rightarrow> nat \<times> nat" where
  "frame_tail_loop gathered written boundary in_block c =
     (if written \<le> boundary \<and> \<not> in_block then (boundary - written, sc_steps c)
      else if gathered < boundary + 9 then (gathered - written, sc_steps c)
      else case read_head 5 c of (head, c) \<Rightarrow>
        let payload_len = frame_payload_len head;
            in_block = (header_frame (head ! 3) \<and> head ! 4 AND 0x4 = 0);
            boundary = boundary + 9 + payload_len
        in if gathered < boundary then (gathered - written, sc_steps c)
           else case cursor_skip (9 - 5 + payload_len) c of (skipped, c) \<Rightarrow>
             if \<not> skipped then (gathered - written, sc_steps c)
             else frame_tail_loop gathered written boundary in_block c)"
  by pat_completeness auto
termination
  by (relation "measure (\<lambda>(gathered, _, boundary, _). gathered - boundary)") auto

declare frame_tail_loop.simps [simp del]

definition frame_tail_walk :: "bytes list \<Rightarrow> nat \<Rightarrow> nat \<times> nat" where
  "frame_tail_walk slices written =
     frame_tail_loop (sum_list (map length slices)) written 0 False
       \<lparr>sc_slices = slices, sc_index = 0, sc_offset = 0, sc_steps = 0\<rparr>"

definition frame_tail :: "bytes list \<Rightarrow> nat \<Rightarrow> nat" where
  "frame_tail slices written = fst (frame_tail_walk slices written)"

subsection \<open>The frames a stream still holds\<close>

text \<open>
  The walk over the blocks: the header being read, how much of it is filled, the payload still to
  skip, and the state of the visitor; a visitor that answers false stops the walk.
\<close>

record 's FrameWalk =
  fw_head :: bytes
  fw_filled :: nat
  fw_payload_left :: nat
  fw_state :: 's

datatype 's walk_end = Stopped 's | Walking "'s FrameWalk"

definition visit_frame :: "(octet \<Rightarrow> nat \<Rightarrow> 's \<Rightarrow> bool \<times> 's) \<Rightarrow> nat \<Rightarrow> 's FrameWalk \<Rightarrow> 's walk_end" where
  "visit_frame visit len f =
     (case visit (fw_head f ! 3) len (fw_state f) of
        (True, s) \<Rightarrow> Walking (f\<lparr>fw_state := s\<rparr>) | (False, s) \<Rightarrow> Stopped s)"

text \<open>
  The loop over the data of one block. A filled header is consumed at once, so the subtraction in
  \<open>copied\<close> never underflows; the walk of a state where it would is over.
\<close>

function walk_block :: "(octet \<Rightarrow> nat \<Rightarrow> 's \<Rightarrow> bool \<times> 's) \<Rightarrow> bytes \<Rightarrow> 's FrameWalk \<Rightarrow> 's walk_end" where
  "walk_block visit data f =
     (if data = [] then Walking f
      else if 0 < fw_payload_left f then
        let skipped = min (fw_payload_left f) (length data);
            f = f\<lparr>fw_payload_left := fw_payload_left f - skipped\<rparr>
        in case (if fw_payload_left f = 0 then visit_frame visit (frame_payload_len (fw_head f)) f else Walking f) of
             Stopped s \<Rightarrow> Stopped s | Walking f \<Rightarrow> walk_block visit (drop skipped data) f
      else if 9 \<le> fw_filled f then Walking f
      else
        let copied = min (9 - fw_filled f) (length data);
            f = f\<lparr>fw_head := overwrite (fw_filled f) (take copied data) (fw_head f), fw_filled := fw_filled f + copied\<rparr>
        in case (if fw_filled f = 9 then
                   let f = f\<lparr>fw_filled := 0, fw_payload_left := frame_payload_len (fw_head f)\<rparr>
                   in if fw_payload_left f = 0 then visit_frame visit 0 f else Walking f
                 else Walking f) of
             Stopped s \<Rightarrow> Stopped s | Walking f \<Rightarrow> walk_block visit (drop copied data) f)"
  by pat_completeness auto
termination
  by (relation "measure (\<lambda>(visit, data, f). length data)") auto

declare walk_block.simps [simp del]

fun walk_blocks :: "(octet \<Rightarrow> nat \<Rightarrow> 's \<Rightarrow> bool \<times> 's) \<Rightarrow> bytes option list \<Rightarrow> 's FrameWalk \<Rightarrow> 's walk_end" where
  "walk_blocks visit (Some data # blocks) f =
     (case walk_block visit data f of Stopped s \<Rightarrow> Stopped s | Walking f \<Rightarrow> walk_blocks visit blocks f)"
| "walk_blocks visit blocks f = Walking f"

definition walk_whole_frames :: "bytes option list \<Rightarrow> (octet \<Rightarrow> nat \<Rightarrow> 's \<Rightarrow> bool \<times> 's) \<Rightarrow> 's \<Rightarrow> bool \<times> 's" where
  "walk_whole_frames blocks visit s =
     (case walk_blocks visit blocks \<lparr>fw_head = replicate 9 0, fw_filled = 0, fw_payload_left = 0, fw_state = s\<rparr> of
        Stopped s \<Rightarrow> (True, s)
      | Walking f \<Rightarrow> (fw_filled f = 0 \<and> fw_payload_left f = 0, fw_state f))"

definition holds_header_frame :: "bytes option list \<Rightarrow> bool" where
  "holds_header_frame blocks =
     (case walk_whole_frames blocks (\<lambda>ty _ _. let found = header_frame ty in (\<not> found, found)) False of
        (tiled, found) \<Rightarrow> found \<or> \<not> tiled)"

definition queued_data_payload :: "bytes option list \<Rightarrow> nat" where
  "queued_data_payload blocks =
     snd (walk_whole_frames blocks (\<lambda>ty len payload. (True, if ty = 0x0 then payload + len else payload)) 0)"

subsection \<open>The cursor reads the concatenation of the slices\<close>

definition cursor_at :: "bytes list \<Rightarrow> SliceCursor \<Rightarrow> nat \<Rightarrow> bool" where
  "cursor_at slices c pos \<longleftrightarrow> sc_slices c = slices \<and> sc_steps c = sc_index c \<and> sc_index c \<le> length slices \<and>
     (if sc_index c < length slices then sc_offset c \<le> length (slices ! sc_index c) else sc_offset c = 0) \<and>
     pos = length (concat (take (sc_index c) slices)) + sc_offset c"

lemma concat_split:
  "i < length slices \<Longrightarrow> concat slices = concat (take i slices) @ slices ! i @ concat (drop (Suc i) slices)"
  by (metis append_take_drop_id Cons_nth_drop_Suc concat.simps(2) concat_append)

lemma concat_take_Suc: "i < length slices \<Longrightarrow> concat (take (Suc i) slices) = concat (take i slices) @ slices ! i"
  by (simp add: take_Suc_conv_app_nth)

lemma cursor_advance_at:
  assumes "cursor_at slices c pos" and "sc_index c < length slices"
  shows "cursor_at slices (cursor_advance c) (pos + (length (slices ! sc_index c) - sc_offset c))"
  using assms by (auto simp: cursor_at_def cursor_advance_def concat_take_Suc)

lemma cursor_at_end: "cursor_at slices c pos \<Longrightarrow> \<not> sc_index c < length slices \<Longrightarrow> pos = length (concat slices)"
  by (auto simp: cursor_at_def)

lemma cursor_skip_at:
  assumes "cursor_at slices c pos" and "pos + count \<le> length (concat slices)"
  shows "\<exists>c'. cursor_skip count c = (True, c') \<and> cursor_at slices c' (pos + count)"
  using assms
proof (induction count c arbitrary: pos rule: cursor_skip.induct)
  case (1 count c)
  have s [simp]: "sc_slices c = slices" using 1(2) by (simp add: cursor_at_def)
  let ?left = "length (slices ! sc_index c) - sc_offset c"
  show ?case
  proof (cases "count = 0")
    case True
    then show ?thesis using 1(2) by (simp add: cursor_skip.simps [of 0 c])
  next
    case False
    then have i: "sc_index c < length slices" using 1(2,3) cursor_at_end by fastforce
    show ?thesis
    proof (cases "count < ?left")
      case True
      then have "cursor_at slices (c\<lparr>sc_offset := sc_offset c + count\<rparr>) (pos + count)"
        using 1(2) i by (auto simp: cursor_at_def)
      then show ?thesis using True False i by (simp add: cursor_skip.simps [of count c])
    next
      case past: False
      have "\<exists>c'. cursor_skip (count - ?left) (cursor_advance c) = (True, c') \<and> cursor_at slices c' (pos + ?left + (count - ?left))"
        using 1(1) [OF False _ refl _ cursor_advance_at [OF 1(2) i]] 1(3) past i by simp
      then show ?thesis using past False i by (simp add: cursor_skip.simps [of count c])
    qed
  qed
qed

lemma next_byte_at:
  assumes "cursor_at slices c pos" and "pos < length (concat slices)"
  shows "\<exists>c'. next_byte c = (Some (concat slices ! pos), c') \<and> cursor_at slices c' (pos + 1)"
  using assms
proof (induction c arbitrary: pos rule: next_byte.induct)
  case (1 c)
  have s [simp]: "sc_slices c = slices" using 1(2) by (simp add: cursor_at_def)
  have i: "sc_index c < length slices" using 1(2,3) cursor_at_end by fastforce
  show ?case
  proof (cases "sc_offset c < length (slices ! sc_index c)")
    case True
    have "concat slices ! pos = slices ! sc_index c ! sc_offset c"
      using 1(2) i True by (simp add: concat_split [OF i] cursor_at_def nth_append)
    moreover obtain c' where "cursor_skip 1 c = (True, c')" "cursor_at slices c' (pos + 1)"
      using cursor_skip_at [OF 1(2), of 1] 1(3) by auto
    ultimately show ?thesis using True i by (simp add: next_byte.simps [of c])
  next
    case False
    then have "cursor_at slices (cursor_advance c) pos" using cursor_advance_at [OF 1(2) i] by simp
    then show ?thesis using 1(1) [OF _ _ _ 1(3)] False i by (simp add: next_byte.simps [of c])
  qed
qed

lemma read_head_at:
  assumes "cursor_at slices c pos" and "pos + n \<le> length (concat slices)"
  shows "\<exists>c'. read_head n c = (take n (drop pos (concat slices)), c') \<and> cursor_at slices c' (pos + n)"
  using assms
proof (induction n arbitrary: c pos)
  case (Suc n)
  obtain c1 where c1: "next_byte c = (Some (concat slices ! pos), c1)" "cursor_at slices c1 (pos + 1)"
    using next_byte_at [OF Suc.prems(1)] Suc.prems(2) by auto
  obtain c2 where "read_head n c1 = (take n (drop (pos + 1) (concat slices)), c2)" "cursor_at slices c2 (pos + 1 + n)"
    using Suc.IH [OF c1(2)] Suc.prems(2) by auto
  then show ?case
    using c1(1) Cons_nth_drop_Suc [of pos "concat slices"] Suc.prems(2)
    by (simp flip: Cons_nth_drop_Suc [of pos "concat slices"])
qed auto

subsection \<open>Whole frames\<close>

definition whole_frame :: "bytes \<Rightarrow> bool" where
  "whole_frame f \<longleftrightarrow> 9 \<le> length f \<and> length f = 9 + frame_payload_len f"

definition opens_block :: "bytes \<Rightarrow> bool" where
  "opens_block f \<longleftrightarrow> header_frame (f ! 3) \<and> f ! 4 AND 0x4 = 0"

text \<open>Whether a header block is unfinished behind a sequence of frames.\<close>

definition unfinished :: "bytes list \<Rightarrow> bool" where
  "unfinished fs \<longleftrightarrow> fs \<noteq> [] \<and> opens_block (last fs)"

lemma unfinished_snoc [simp]: "unfinished (fs @ [f]) = opens_block f"
  by (simp add: unfinished_def)

text \<open>The first place at or behind \<open>written\<close> where a frame ends outside a header block.\<close>

fun cut_point :: "bytes list \<Rightarrow> bytes list \<Rightarrow> nat \<Rightarrow> bytes list" where
  "cut_point as [] written = as"
| "cut_point as (f # bs) written =
     (if written \<le> length (concat as) \<and> \<not> unfinished as then as else cut_point (as @ [f]) bs written)"

lemma cut_point_prefix: "\<exists>ds. cut_point as bs written = as @ ds \<and> (\<exists>es. bs = ds @ es)"
proof (induction as bs written rule: cut_point.induct)
  case (2 as f bs written)
  then show ?case by (cases "written \<le> length (concat as) \<and> \<not> unfinished as") auto
qed auto

lemma cut_point_ends:
  assumes "\<not> unfinished (as @ bs)" and "written \<le> length (concat (as @ bs))"
  shows "\<not> unfinished (cut_point as bs written) \<and> written \<le> length (concat (cut_point as bs written))"
  using assms by (induction as bs written rule: cut_point.induct) auto

lemma frame_head:
  assumes "whole_frame f"
  shows "frame_payload_len (take 5 (f @ bs)) = length f - 9"
    and "header_frame (take 5 (f @ bs) ! 3) \<and> take 5 (f @ bs) ! 4 AND 0x4 = 0 \<longleftrightarrow> opens_block f"
  using assms by (auto simp: whole_frame_def frame_payload_len_def opens_block_def nth_append)

lemma frame_tail_loop_step:
  assumes "\<not> (written \<le> n \<and> \<not> in_block)" and "n + 9 + p \<le> gathered" and "read_head 5 c = (head, c1)"
    and "frame_payload_len head = p" and "header_frame (head ! 3) \<and> head ! 4 AND 0x4 = 0 \<longleftrightarrow> opens"
    and "cursor_skip (4 + p) c1 = (True, c2)"
  shows "frame_tail_loop gathered written n in_block c = frame_tail_loop gathered written (n + 9 + p) opens c2"
  by (subst frame_tail_loop.simps) (use assms in \<open>auto simp: Let_def\<close>)

lemma frame_tail_loop_cut:
  assumes "concat slices = concat (as @ bs)" and "list_all whole_frame bs" and "\<not> unfinished (as @ bs)"
    and "written \<le> length (concat (as @ bs))" and "cursor_at slices c (length (concat as))"
  shows "case frame_tail_loop (length (concat slices)) written (length (concat as)) (unfinished as) c of (tail, steps) \<Rightarrow>
      written + tail = length (concat (cut_point as bs written)) \<and> steps \<le> length slices"
  using assms
proof (induction bs arbitrary: as c)
  case Nil
  then show ?case by (simp add: frame_tail_loop.simps cursor_at_def)
next
  case (Cons f bs)
  let ?n = "length (concat as)" and ?N = "length (concat slices)"
  have whole: "whole_frame f" and N: "?N = ?n + length f + length (concat bs)" and len: "9 \<le> length f"
    using Cons.prems(1,2) by (auto simp: whole_frame_def)
  show ?case
  proof (cases "written \<le> ?n \<and> \<not> unfinished as")
    case True
    then show ?thesis using Cons.prems(5) by (simp add: frame_tail_loop.simps [of ?N] cursor_at_def)
  next
    case False
    have "drop ?n (concat slices) = f @ concat bs" using Cons.prems(1) by simp
    then obtain c1 where c1: "read_head 5 c = (take 5 (f @ concat bs), c1)" "cursor_at slices c1 (?n + 5)"
      using read_head_at [OF Cons.prems(5), of 5] N len by auto
    obtain c2 where c2: "cursor_skip (4 + (length f - 9)) c1 = (True, c2)" "cursor_at slices c2 (?n + 5 + (4 + (length f - 9)))"
      using cursor_skip_at [OF c1(2), of "4 + (length f - 9)"] N len by auto
    have at: "cursor_at slices c2 (length (concat (as @ [f])))" using c2(2) len by simp
    have b: "?n + 9 + (length f - 9) = length (concat (as @ [f]))" using len by simp
    have "frame_tail_loop ?N written ?n (unfinished as) c =
        frame_tail_loop ?N written (length (concat (as @ [f]))) (unfinished (as @ [f])) c2"
      using frame_tail_loop_step [OF False _ c1(1) frame_head [OF whole] c2(1), of ?N] N len b by simp
    moreover have "case frame_tail_loop ?N written (length (concat (as @ [f]))) (unfinished (as @ [f])) c2 of (tail, steps) \<Rightarrow>
        written + tail = length (concat (cut_point (as @ [f]) bs written)) \<and> steps \<le> length slices"
      using Cons.prems(1-4) by (intro Cons.IH [OF _ _ _ _ at]) auto
    ultimately show ?thesis using False by auto
  qed
qed

lemma frame_tail_cut:
  assumes "concat slices = concat fs" and "list_all whole_frame fs" and "\<not> unfinished fs" and "written \<le> length (concat fs)"
  shows "written + frame_tail slices written = length (concat (cut_point [] fs written))"
    and "snd (frame_tail_walk slices written) \<le> length slices"
proof -
  have "cursor_at slices \<lparr>sc_slices = slices, sc_index = 0, sc_offset = 0, sc_steps = 0\<rparr> (length (concat []))"
    by (simp add: cursor_at_def)
  then have "case frame_tail_walk slices written of (tail, steps) \<Rightarrow>
      written + tail = length (concat (cut_point [] fs written)) \<and> steps \<le> length slices"
    using frame_tail_loop_cut [of slices "[]" fs written "\<lparr>sc_slices = slices, sc_index = 0, sc_offset = 0, sc_steps = 0\<rparr>"] assms
    unfolding frame_tail_walk_def length_concat [symmetric] by (simp add: unfinished_def)
  then show "written + frame_tail slices written = length (concat (cut_point [] fs written))"
    "snd (frame_tail_walk slices written) \<le> length slices"
    by (auto simp: frame_tail_def split: prod.splits)
qed

subsection \<open>One round of the write pass\<close>

text \<open>
  The transmit step of \<open>H2Shell::write_streams\<close> with what \<open>handle_write\<close> does to the queue and the
  stream: gather behind the queue, write, measure, confirm, account. Counters, metrics and timers
  are left out.
\<close>

definition transmit :: "(bytes list \<Rightarrow> 'w \<Rightarrow> (nat \<times> SocketResult) \<times> 'w) \<Rightarrow> ('k \<Rightarrow> bytes option list) \<Rightarrow> (nat \<Rightarrow> 'k \<Rightarrow> 'k) \<Rightarrow>
    H2Output \<Rightarrow> 'k \<Rightarrow> 'w \<Rightarrow> SocketResult \<times> H2Output \<times> 'k \<times> 'w" where
  "transmit write_vectored out_blocks consume_kawa q kawa w =
     (case gather_after (output_pending q) (out_blocks kawa) of ((prefix, offered), io_slices) \<Rightarrow>
      case write_vectored io_slices w of ((written, status), w) \<Rightarrow>
      let stream_size = written - prefix;
          tail = (if written < offered then frame_tail (drop (if 0 < prefix then 1 else 0) io_slices) stream_size else 0);
          kawa = fst (confirm consume_kawa stream_size kawa);
          from_output = written - stream_size;
          q = (if 0 < from_output then snd (output_consume from_output q) else q);
          (kawa, q) = (if 0 < tail then adopt_tail out_blocks consume_kawa tail kawa q else (kawa, q))
      in (status, q, kawa, w))"

text \<open>What the stream buffer is relied on for: consuming drops what it has to send from the front.\<close>

definition stream_data :: "bytes option list \<Rightarrow> bytes" where
  "stream_data blocks = concat (map (case_option [] (\<lambda>data. data)) blocks)"

definition kawa_documented :: "('k \<Rightarrow> bytes option list) \<Rightarrow> (nat \<Rightarrow> 'k \<Rightarrow> 'k) \<Rightarrow> bool" where
  "kawa_documented out_blocks consume_kawa \<longleftrightarrow>
     (\<forall>n k. n \<le> length (leading_data (out_blocks k)) \<longrightarrow>
        stream_data (out_blocks (consume_kawa n k)) = drop n (stream_data (out_blocks k)) \<and>
        (n < length (leading_data (out_blocks k)) \<longrightarrow>
           leading_data (out_blocks (consume_kawa n k)) = drop n (leading_data (out_blocks k))))"

lemma push_out_blocks_leading:
  "push_out_blocks blocks io = (n, io') \<Longrightarrow> n = length (leading_data blocks) \<and> (\<exists>new. io' = io @ new \<and> concat new = leading_data blocks)"
  by (induction blocks io arbitrary: n io' rule: push_out_blocks.induct) (fastforce split: prod.splits)+

lemma gather_after_leading:
  assumes "gather_after prefix blocks = ((p, offered), io)"
  shows "p = length prefix" and "offered = length prefix + length (leading_data blocks)"
    and "concat io = prefix @ leading_data blocks" and "concat (drop (if 0 < p then 1 else 0) io) = leading_data blocks"
  using assms push_out_blocks_leading [of blocks "if prefix = [] then [] else [prefix]"]
  by (fastforce simp: gather_after_def split: prod.splits if_splits)+

lemma cut_point_0 [simp]: "cut_point [] fs 0 = []"
  by (cases fs) (simp_all add: unfinished_def)

text \<open>How far a round that took \<open>sz\<close> octets of the stream commits it: the frames up to the cut point.\<close>

lemma transmit_tail:
  assumes "concat slices = concat fs" and "list_all whole_frame fs" and "\<not> unfinished fs" and "sz \<le> length (concat fs)"
    and "tail = (if partial then frame_tail slices sz else 0)" and "\<not> partial \<Longrightarrow> sz = length (concat fs)"
  obtains as bs where "fs = as @ bs" and "\<not> unfinished as" and "sz + tail = length (concat as)" and "sz = 0 \<longrightarrow> tail = 0"
proof (cases partial)
  case True
  let ?as = "cut_point [] fs sz"
  obtain bs where "fs = ?as @ bs" using cut_point_prefix [of "[]" fs sz] by auto
  moreover have cut: "\<not> unfinished ?as" "sz + tail = length (concat ?as)"
    using cut_point_ends [of "[]" fs sz] frame_tail_cut(1) [OF assms(1-4)] assms(3,4,5) True by auto
  moreover have "sz = 0 \<longrightarrow> tail = 0" using cut(2) by auto
  ultimately show ?thesis using that [of ?as bs] by simp
next
  case False
  then show ?thesis using that [of fs "[]"] assms(3,5,6) by simp
qed

context byte_sink
begin

lemma transmit_commits_whole_frames:
  assumes kawa: "kawa_documented out_blocks consume_kawa" and q: "output_ok q"
    and frames: "leading_data (out_blocks k) = concat fs" "list_all whole_frame fs" "\<not> unfinished fs"
    and step: "transmit wr out_blocks consume_kawa q k w = (status, q', k', w')"
  shows "\<exists>as bs. fs = as @ bs \<and> \<not> unfinished as \<and> output_ok q' \<and>
    taken w' @ output_pending q' = taken w @ output_pending q @ concat as \<and>
    stream_data (out_blocks k') = drop (length (concat as)) (stream_data (out_blocks k))"
proof -
  let ?P = "output_pending q" and ?L = "concat fs"
  obtain p offered io where g: "gather_after ?P (out_blocks k) = ((p, offered), io)" by (metis prod.exhaust)
  note gathered = gather_after_leading [OF g, unfolded frames(1)]
  obtain n res w1 where w: "wr io w = ((n, res), w1)" by (metis prod.exhaust)
  have n: "n \<le> length ?P + length ?L" and taken: "taken w1 = taken w @ take n (?P @ ?L)"
    using takes [OF w] gathered(3) by auto
  define sz where "sz = n - p"
  define tail where "tail = (if n < offered then frame_tail (drop (if 0 < p then 1 else 0) io) sz else 0)"
  define q1 where "q1 = (if 0 < n - sz then snd (output_consume (n - sz) q) else q)"
  define k1 where "k1 = consume_kawa sz k"
  have sz: "sz \<le> length ?L" using n gathered(1) by (simp add: sz_def)
  have res: "(k', q') = (if 0 < tail then adopt_tail out_blocks consume_kawa tail k1 q1 else (k1, q1))" "w' = w1"
    using step g w unfolding transmit_def
    by (auto simp: Let_def confirm_def sz_def tail_def q1_def k1_def split: prod.splits if_splits)
  have all: "sz = length ?L" if "\<not> n < offered" using that n gathered(1,2) by (simp add: sz_def)
  obtain as bs where as: "fs = as @ bs" "\<not> unfinished as" "sz + tail = length (concat as)" "sz = 0 \<longrightarrow> tail = 0"
    by (rule transmit_tail [OF gathered(4) frames(2,3) sz tail_def all])
  have from_output: "drop (n - sz) ?P = drop n ?P" using gathered(1) by (cases "n \<le> length ?P") (simp_all add: sz_def)
  have q1: "output_ok q1" "output_pending q1 = drop n ?P"
  proof -
    obtain over qc where c: "output_consume (n - sz) q = (over, qc)" by fastforce
    show "output_ok q1" "output_pending q1 = drop n ?P"
      using output_consume_ok(1,2) [OF q c] q from_output by (cases "n \<le> sz"; simp add: q1_def c)+
  qed
  have split: "taken w1 @ drop n ?P = taken w @ ?P @ take sz ?L"
    using taken gathered(1) by (cases "n \<le> length ?P") (simp_all add: sz_def)
  note consumed = kawa [unfolded kawa_documented_def, rule_format]
  have k1: "stream_data (out_blocks k1) = drop sz (stream_data (out_blocks k))"
    using consumed [of sz k] sz frames(1) by (simp add: k1_def)
  show ?thesis
  proof (cases "tail = 0")
    case True
    then have sz': "sz = length (concat as)" and same: "k' = k1" "q' = q1" using as(3) res(1) by auto
    have "take sz ?L = concat as" unfolding sz' by (simp add: as(1))
    then have "taken w' @ output_pending q' = taken w @ ?P @ concat as"
      using split unfolding same res(2) q1(2) by simp
    then show ?thesis using as(1,2) q1(1) k1 unfolding same sz' by blast
  next
    case False
    have n': "n < offered" using False by (auto simp: tail_def split: if_splits)
    have "0 < sz" using False as(4) by auto
    then have before: "sz < length ?L" using n' gathered(1,2) by (simp add: sz_def)
    have past: "drop n ?P = []" using \<open>0 < sz\<close> gathered(1) by (simp add: sz_def)
    have lead: "leading_data (out_blocks k1) = drop sz ?L"
      using consumed [of sz k] before frames(1) by (simp add: k1_def)
    have room: "sz + tail \<le> length ?L" using as(1,3) by simp
    have empty: "output_is_empty q1" using q1 past length_output_pending [OF q1(1)] by (simp add: output_is_empty_def)
    have "adopt_tail out_blocks consume_kawa tail k1 q1 = (k', q')" using res(1) False by simp
    from adopt_tail_ok [OF q1(1) empty this]
    have adopted: "output_ok q'" "output_pending q' = take tail (drop sz ?L)" "k' = consume_kawa tail k1"
      using lead room by auto
    have left: "stream_data (out_blocks k') = drop (length (concat as)) (stream_data (out_blocks k))"
      using consumed [of tail k1] lead room k1 adopted(3) by (simp add: add.commute flip: as(3))
    have rest: "take sz ?L @ take tail (drop sz ?L) = concat as"
      unfolding take_add [symmetric] as(3) by (simp add: as(1))
    have "taken w1 = taken w @ ?P @ take sz ?L" using split past by simp
    then have "taken w' @ output_pending q' = taken w @ ?P @ concat as"
      unfolding res(2) adopted(2) rest [symmetric] by simp
    then show ?thesis using as(1,2) adopted(1) left by blast
  qed
qed

end

text \<open>A stream buffer that is just its blocks.\<close>

fun consume_blocks :: "nat \<Rightarrow> bytes option list \<Rightarrow> bytes option list" where
  "consume_blocks n (Some data # blocks) =
     (if n < length data then Some (drop n data) # blocks else consume_blocks (n - length data) blocks)"
| "consume_blocks n blocks = blocks"

lemma consume_blocks_documented: "kawa_documented (\<lambda>blocks. blocks) consume_blocks"
proof -
  have "n \<le> length (leading_data blocks) \<Longrightarrow> stream_data (consume_blocks n blocks) = drop n (stream_data blocks) \<and>
      (n < length (leading_data blocks) \<longrightarrow> leading_data (consume_blocks n blocks) = drop n (leading_data blocks))" for n blocks
    by (induction n blocks rule: consume_blocks.induct) (auto simp: stream_data_def)
  then show ?thesis by (simp add: kawa_documented_def)
qed

text \<open>
  C3: a write of a stream over TCP, however little of it the kernel takes and wherever it cuts,
  commits whole frames and finished header blocks. What reached the socket followed by the output
  queue is what they were before plus a prefix of the stream's frames that does not end inside a
  header block, and the stream keeps exactly the frames behind it: dropping the stream afterwards
  never truncates a frame on the wire.
\<close>

theorem partial_write_keeps_frames_whole:
  assumes "kawa_documented out_blocks consume_kawa" and "output_ok q"
    and "leading_data (out_blocks k) = concat fs" and "list_all whole_frame fs" and "\<not> unfinished fs"
    and "transmit tcp_socket_write_vectored out_blocks consume_kawa q k w = (status, q', k', w')"
  shows "\<exists>as bs. fs = as @ bs \<and> \<not> unfinished as \<and> output_ok q' \<and>
    accepted w' @ output_pending q' = accepted w @ output_pending q @ concat as \<and>
    stream_data (out_blocks k') = drop (length (concat as)) (stream_data (out_blocks k))"
  by (rule tcp_sink.transmit_commits_whole_frames [OF assms])

text \<open>The example cuts a DATA frame of three octets behind a queued octet: its rest moves to the queue.\<close>

definition cut_example :: bytes where
  "cut_example = [0, 0, 3, 0, 0, 0, 0, 0, 1, 7, 8, 9]"

lemma cut_example_whole: "list_all whole_frame [cut_example]" "\<not> unfinished [cut_example]"
  "leading_data [Some cut_example] = concat [cut_example]"
  by (simp_all add: cut_example_def whole_frame_def frame_payload_len_def unfinished_def opens_block_def header_frame_def)

theorem partial_write_keeps_frames_whole_witness:
  "\<exists>status q' k' w'. transmit tcp_socket_write_vectored (\<lambda>k. k) consume_blocks (push [5] output_default) [Some cut_example]
     \<lparr>accepted = [], answers = [Room 4]\<rparr> = (status, q', k', w') \<and>
   (\<exists>as bs. [cut_example] = as @ bs \<and> accepted w' @ output_pending q' = [5] @ concat as)"
proof -
  let ?q = "push [5] output_default"
  obtain status q' k' w' where t: "transmit tcp_socket_write_vectored (\<lambda>k. k) consume_blocks ?q [Some cut_example]
      \<lparr>accepted = [], answers = [Room 4]\<rparr> = (status, q', k', w')"
    by (metis prod.exhaust)
  have q: "output_ok ?q" "output_pending ?q = [5]" using push_ok [OF output_default_ok(1)] output_default_ok by auto
  obtain as bs where "[cut_example] = as @ bs" "accepted w' @ output_pending q' = [] @ [5] @ concat as"
    using partial_write_keeps_frames_whole [OF consume_blocks_documented q(1) cut_example_whole(3,1,2) t] q(2) by auto
  then show ?thesis using t by auto
qed

subsection \<open>The walk visits the whole frames in order\<close>

function whole_frames_of :: "bytes \<Rightarrow> bytes list \<times> bytes" where
  "whole_frames_of bs =
     (if length bs < 9 \<or> length bs < 9 + frame_payload_len bs then ([], bs)
      else case whole_frames_of (drop (9 + frame_payload_len bs) bs) of (fs, rest) \<Rightarrow> (take (9 + frame_payload_len bs) bs # fs, rest))"
  by pat_completeness auto
termination
  by (relation "measure length") auto

declare whole_frames_of.simps [simp del]

lemma frame_payload_len_cong: "take 3 xs = take 3 ys \<Longrightarrow> 3 \<le> length xs \<Longrightarrow> frame_payload_len xs = frame_payload_len ys"
proof -
  assume "take 3 xs = take 3 ys" "3 \<le> length xs"
  then have "xs ! i = ys ! i" if "i < 3" for i using that by (metis nth_take)
  then show ?thesis by (simp add: frame_payload_len_def)
qed

definition partial_frame :: "bytes \<Rightarrow> bool" where
  "partial_frame bs \<longleftrightarrow> length bs < 9 \<or> length bs < 9 + frame_payload_len bs"

lemma whole_frames_of_partial: "partial_frame bs \<Longrightarrow> whole_frames_of bs = ([], bs)"
  by (simp add: partial_frame_def whole_frames_of.simps [of bs])

lemma whole_frames_of_whole:
  assumes "whole_frame f"
  shows "whole_frames_of (f @ bs) = (case whole_frames_of bs of (fs, rest) \<Rightarrow> (f # fs, rest))"
proof -
  have "frame_payload_len (f @ bs) = frame_payload_len f" "9 \<le> length f" "length f = 9 + frame_payload_len f"
    using assms by (auto simp: whole_frame_def intro!: frame_payload_len_cong)
  then show ?thesis by (simp add: whole_frames_of.simps [of "f @ bs"])
qed

fun visit_all :: "(octet \<Rightarrow> nat \<Rightarrow> 's \<Rightarrow> bool \<times> 's) \<Rightarrow> bytes list \<Rightarrow> 's \<Rightarrow> bool \<times> 's" where
  "visit_all visit [] s = (True, s)"
| "visit_all visit (f # fs) s =
     (case visit (f ! 3) (length f - 9) s of (True, s) \<Rightarrow> visit_all visit fs s | (False, s) \<Rightarrow> (False, s))"

text \<open>The walk stands behind \<open>pre\<close>, the part of a frame it has read.\<close>

definition walk_at :: "bytes \<Rightarrow> 's FrameWalk \<Rightarrow> bool" where
  "walk_at pre f \<longleftrightarrow> length (fw_head f) = 9 \<and> partial_frame pre \<and>
     (if length pre < 9 then fw_payload_left f = 0 \<and> fw_filled f = length pre \<and> take (length pre) (fw_head f) = pre
      else fw_filled f = 0 \<and> fw_head f = take 9 pre \<and> length pre + fw_payload_left f = 9 + frame_payload_len pre)"

definition walk_result :: "(octet \<Rightarrow> nat \<Rightarrow> 's \<Rightarrow> bool \<times> 's) \<Rightarrow> bytes \<Rightarrow> 's \<Rightarrow> 's walk_end \<Rightarrow> bool" where
  "walk_result visit bs s r =
     (case whole_frames_of bs of (fs, rest) \<Rightarrow>
      case visit_all visit fs s of
        (False, s') \<Rightarrow> r = Stopped s'
      | (True, s') \<Rightarrow> (\<exists>f. r = Walking f \<and> walk_at rest f \<and> fw_state f = s'))"

lemma walk_result_frame:
  assumes "whole_frame f" and "visit (f ! 3) (length f - 9) s = (True, s')"
  shows "walk_result visit (f @ bs) s r \<longleftrightarrow> walk_result visit bs s' r"
  using assms by (simp add: walk_result_def whole_frames_of_whole split: prod.split)

lemma walk_result_stop:
  assumes "whole_frame f" and "visit (f ! 3) (length f - 9) s = (False, s')"
  shows "walk_result visit (f @ bs) s (Stopped s')"
  using assms by (simp add: walk_result_def whole_frames_of_whole split: prod.split)

lemma visit_frame_result:
  assumes "whole_frame g" and "fw_head f ! 3 = g ! 3" and "len = length g - 9"
    and "\<And>s'. walk_result visit bs s' (continue (f\<lparr>fw_state := s'\<rparr>))"
  shows "walk_result visit (g @ bs) (fw_state f) (case visit_frame visit len f of Stopped s \<Rightarrow> Stopped s | Walking f \<Rightarrow> continue f)"
proof (cases "visit (g ! 3) len (fw_state f)")
  case (Pair go s')
  then show ?thesis
    using assms walk_result_frame [OF assms(1), of visit "fw_state f" s' bs]
      walk_result_stop [OF assms(1), of visit "fw_state f" s' bs]
    by (cases go) (simp_all add: visit_frame_def)
qed

lemma walk_at_payload:
  assumes "walk_at pre f" and "9 \<le> length pre" and "length xs \<le> fw_payload_left f"
  defines "f1 \<equiv> f\<lparr>fw_payload_left := fw_payload_left f - length xs\<rparr>"
  shows "fw_payload_left f1 \<noteq> 0 \<Longrightarrow> walk_at (pre @ xs) f1"
    and "fw_payload_left f1 = 0 \<Longrightarrow> whole_frame (pre @ xs) \<and> fw_head f1 ! 3 = (pre @ xs) ! 3 \<and>
      frame_payload_len (fw_head f1) = length (pre @ xs) - 9 \<and> walk_at [] (f1\<lparr>fw_state := s\<rparr>)"
proof -
  have len: "frame_payload_len (pre @ xs) = frame_payload_len pre" "frame_payload_len (take 9 pre) = frame_payload_len pre"
    using assms(2) by (auto intro!: frame_payload_len_cong)
  show "fw_payload_left f1 \<noteq> 0 \<Longrightarrow> walk_at (pre @ xs) f1"
    using assms(1-3) len by (auto simp: walk_at_def partial_frame_def f1_def)
  show "fw_payload_left f1 = 0 \<Longrightarrow> whole_frame (pre @ xs) \<and> fw_head f1 ! 3 = (pre @ xs) ! 3 \<and>
      frame_payload_len (fw_head f1) = length (pre @ xs) - 9 \<and> walk_at [] (f1\<lparr>fw_state := s\<rparr>)"
    using assms(1-3) len by (auto simp: walk_at_def partial_frame_def f1_def whole_frame_def nth_append)
qed

lemma walk_at_header:
  assumes "walk_at pre f" and "length pre + length xs \<le> 9" and "length pre < 9"
  defines "f1 \<equiv> f\<lparr>fw_head := overwrite (fw_filled f) xs (fw_head f), fw_filled := fw_filled f + length xs\<rparr>"
  defines "f2 \<equiv> f1\<lparr>fw_filled := 0, fw_payload_left := frame_payload_len (fw_head f1)\<rparr>"
  shows "fw_filled f1 = length pre + length xs" and "length pre + length xs \<noteq> 9 \<Longrightarrow> walk_at (pre @ xs) f1"
    and "length pre + length xs = 9 \<Longrightarrow> fw_head f1 = pre @ xs"
    and "length pre + length xs = 9 \<Longrightarrow> fw_payload_left f2 \<noteq> 0 \<Longrightarrow> walk_at (pre @ xs) f2"
    and "length pre + length xs = 9 \<Longrightarrow> fw_payload_left f2 = 0 \<Longrightarrow> whole_frame (pre @ xs) \<and> walk_at [] (f2\<lparr>fw_state := s\<rparr>)"
  using assms(1-3)
  by (auto simp: walk_at_def f1_def f2_def overwrite_def partial_frame_def whole_frame_def)

text \<open>One turn of the loop, in a payload and in a header, given that the rest of the block is walked right.\<close>

lemma walk_block_payload:
  assumes at: "walk_at pre f" and long: "9 \<le> length pre" and "data \<noteq> []"
    and rest: "\<And>pre' f'. walk_at pre' f' \<Longrightarrow> walk_result visit (pre' @ ys) (fw_state f') (walk_block visit ys f')"
    and ys: "ys = drop (fw_payload_left f) data"
  shows "walk_result visit (pre @ data) (fw_state f) (walk_block visit data f)"
proof -
  define xs where "xs = take (fw_payload_left f) data"
  define f1 where "f1 = f\<lparr>fw_payload_left := fw_payload_left f - length xs\<rparr>"
  have left: "0 < fw_payload_left f" using at long by (auto simp: walk_at_def partial_frame_def)
  have xs: "min (fw_payload_left f) (length data) = length xs" "data = xs @ ys" "drop (length xs) data = ys"
    by (auto simp: xs_def ys min_def)
  have "length xs \<le> fw_payload_left f" by (simp add: xs_def)
  note payload = walk_at_payload [OF at long this, folded f1_def]
  have step: "walk_block visit data f =
      (case (if fw_payload_left f1 = 0 then visit_frame visit (frame_payload_len (fw_head f1)) f1 else Walking f1) of
         Stopped s \<Rightarrow> Stopped s | Walking f \<Rightarrow> walk_block visit ys f)"
    using assms(3) left unfolding walk_block.simps [of visit data f] Let_def xs(1,3) f1_def by simp
  have state: "fw_state f1 = fw_state f" by (simp add: f1_def)
  show ?thesis
  proof (cases "fw_payload_left f1 = 0")
    case True
    note whole = payload(2) [OF True]
    have "walk_result visit ys s (walk_block visit ys (f1\<lparr>fw_state := s\<rparr>))" for s
      using rest [of "[]" "f1\<lparr>fw_state := s\<rparr>"] whole by simp
    then show ?thesis
      unfolding step using visit_frame_result [of "pre @ xs" f1 "frame_payload_len (fw_head f1)" visit ys "walk_block visit ys"] whole True state
      by (simp add: xs(2))
  next
    case False
    then show ?thesis unfolding step using rest [OF payload(1) [OF False]] state by (simp add: xs(2))
  qed
qed

lemma walk_block_header:
  assumes at: "walk_at pre f" and short: "length pre < 9" and "data \<noteq> []"
    and rest: "\<And>pre' f'. walk_at pre' f' \<Longrightarrow> walk_result visit (pre' @ ys) (fw_state f') (walk_block visit ys f')"
    and ys: "ys = drop (9 - fw_filled f) data"
  shows "walk_result visit (pre @ data) (fw_state f) (walk_block visit data f)"
proof -
  define xs where "xs = take (9 - fw_filled f) data"
  define f1 where "f1 = f\<lparr>fw_head := overwrite (fw_filled f) xs (fw_head f), fw_filled := fw_filled f + length xs\<rparr>"
  define f2 where "f2 = f1\<lparr>fw_filled := 0, fw_payload_left := frame_payload_len (fw_head f1)\<rparr>"
  have f: "fw_payload_left f = 0" "fw_filled f = length pre" using at short by (auto simp: walk_at_def)
  have xs: "min (9 - fw_filled f) (length data) = length xs" "data = xs @ ys" "drop (length xs) data = ys"
      "length pre + length xs \<le> 9" "take (length xs) data = xs"
    using f short by (auto simp: xs_def ys min_def)
  note header = walk_at_header [OF at xs(4) short, folded f1_def, folded f2_def]
  have step: "walk_block visit data f =
      (case (if fw_filled f1 = 9 then if fw_payload_left f2 = 0 then visit_frame visit 0 f2 else Walking f2 else Walking f1) of
         Stopped s \<Rightarrow> Stopped s | Walking f \<Rightarrow> walk_block visit ys f)"
    using assms(3) f short unfolding walk_block.simps [of visit data f] Let_def xs(1,3,5) f1_def f2_def by simp
  have state: "fw_state f1 = fw_state f" "fw_state f2 = fw_state f" by (simp_all add: f1_def f2_def)
  consider "fw_filled f1 \<noteq> 9" | "fw_filled f1 = 9" "fw_payload_left f2 \<noteq> 0" | "fw_filled f1 = 9" "fw_payload_left f2 = 0"
    by blast
  then show ?thesis
  proof cases
    case 3
    have len: "length pre + length xs = 9" using 3(1) header(1) by simp
    note whole = header(5) [OF len 3(2)]
    have "walk_result visit ys s (walk_block visit ys (f2\<lparr>fw_state := s\<rparr>))" for s
      using rest [of "[]" "f2\<lparr>fw_state := s\<rparr>"] whole by simp
    moreover have "fw_head f2 = pre @ xs" using header(3) [OF len] by (simp add: f2_def)
    ultimately show ?thesis
      unfolding step using visit_frame_result [of "pre @ xs" f2 0 visit ys "walk_block visit ys"] whole 3 state len
      by (simp add: xs(2))
  qed (unfold step, use rest [OF header(2)] rest [OF header(4)] header(1) state in \<open>simp_all add: xs(2)\<close>)
qed

lemma walk_block_result:
  "walk_at pre f \<Longrightarrow> walk_result visit (pre @ data) (fw_state f) (walk_block visit data f)"
proof (induction data arbitrary: pre f rule: measure_induct_rule [where f = length])
  case (less data)
  note at = less.prems
  consider "data = []" | "data \<noteq> []" "9 \<le> length pre" | "data \<noteq> []" "length pre < 9" by linarith
  then show ?case
  proof cases
    case 1
    have "partial_frame pre" using at by (simp add: walk_at_def)
    then show ?thesis using at 1
      by (auto simp: walk_block.simps [of visit "[]"] walk_result_def whole_frames_of_partial)
  next
    case 2
    then have "length (drop (fw_payload_left f) data) < length data"
      using at by (auto simp: walk_at_def partial_frame_def)
    then show ?thesis by (rule walk_block_payload [OF at 2(2,1) less.IH refl])
  next
    case 3
    then have "length (drop (9 - fw_filled f) data) < length data"
      using at by (cases data) (auto simp: walk_at_def)
    then show ?thesis by (rule walk_block_header [OF at 3(2,1) less.IH refl])
  qed
qed

lemma whole_frames_of_append: "whole_frames_of (bs @ cs) =
    (case whole_frames_of bs of (fs, rest) \<Rightarrow> case whole_frames_of (rest @ cs) of (gs, rest') \<Rightarrow> (fs @ gs, rest'))"
proof (induction bs rule: whole_frames_of.induct)
  case (1 bs)
  show ?case
  proof (cases "partial_frame bs")
    case True
    then show ?thesis by (simp add: whole_frames_of_partial)
  next
    case False
    let ?n = "9 + frame_payload_len bs"
    have "frame_payload_len (take ?n bs) = frame_payload_len bs"
      using False by (intro frame_payload_len_cong) (auto simp: partial_frame_def)
    then have whole: "whole_frame (take ?n bs)" using False by (simp add: whole_frame_def partial_frame_def)
    have "whole_frames_of (bs @ cs) = (case whole_frames_of (drop ?n bs @ cs) of (fs, rest) \<Rightarrow> (take ?n bs # fs, rest))"
      using whole_frames_of_whole [OF whole, of "drop ?n bs @ cs"] by (simp flip: append.assoc)
    moreover have "whole_frames_of bs = (case whole_frames_of (drop ?n bs) of (fs, rest) \<Rightarrow> (take ?n bs # fs, rest))"
      using whole_frames_of_whole [OF whole, of "drop ?n bs"] by simp
    ultimately show ?thesis using 1 False by (simp add: partial_frame_def split: prod.split)
  qed
qed

lemma visit_all_append: "visit_all visit (fs @ gs) s =
    (case visit_all visit fs s of (True, s) \<Rightarrow> visit_all visit gs s | (False, s) \<Rightarrow> (False, s))"
  by (induction fs arbitrary: s) (auto split: prod.split bool.split)

lemma walk_blocks_result:
  "walk_at pre f \<Longrightarrow> walk_result visit (pre @ leading_data blocks) (fw_state f) (walk_blocks visit blocks f)"
proof (induction visit blocks f arbitrary: pre rule: walk_blocks.induct)
  case (1 visit data blocks f)
  have block: "walk_result visit (pre @ data) (fw_state f) (walk_block visit data f)"
    using 1(2) by (rule walk_block_result)
  obtain fs rest where fs: "whole_frames_of (pre @ data) = (fs, rest)" by fastforce
  obtain go s where s: "visit_all visit fs (fw_state f) = (go, s)" by fastforce
  have all: "whole_frames_of (pre @ data @ leading_data blocks) =
      (case whole_frames_of (rest @ leading_data blocks) of (gs, rest') \<Rightarrow> (fs @ gs, rest'))"
    using whole_frames_of_append [of "pre @ data" "leading_data blocks"] fs by simp
  show ?case
  proof (cases go)
    case True
    then obtain f' where f': "walk_block visit data f = Walking f'" "walk_at rest f'" "fw_state f' = s"
      using block fs s by (auto simp: walk_result_def)
    show ?thesis
      using 1(1) [OF f'(1,2)] f' s True
      by (auto simp: walk_result_def all visit_all_append split: prod.splits)
  next
    case False
    then have "walk_block visit data f = Stopped s" using block fs s by (simp add: walk_result_def)
    then show ?thesis using s False by (simp add: walk_result_def all visit_all_append split: prod.split)
  qed
qed (auto simp: walk_result_def walk_at_def whole_frames_of_partial)

lemma walk_whole_frames_eq:
  "walk_whole_frames blocks visit s = (case whole_frames_of (leading_data blocks) of (fs, rest) \<Rightarrow>
     case visit_all visit fs s of (go, s') \<Rightarrow> (\<not> go \<or> rest = [], s'))"
proof -
  let ?f = "\<lparr>fw_head = replicate 9 0, fw_filled = 0, fw_payload_left = 0, fw_state = s\<rparr>"
  have at: "walk_at [] ?f" by (simp add: walk_at_def partial_frame_def)
  have rest: "walk_at rest f \<Longrightarrow> fw_filled f = 0 \<and> fw_payload_left f = 0 \<longleftrightarrow> rest = []" for rest and f :: "'a FrameWalk"
    by (auto simp: walk_at_def partial_frame_def split: if_splits)
  show ?thesis
    using walk_blocks_result [OF at, of visit blocks]
    by (auto simp: walk_whole_frames_def walk_result_def rest split: prod.splits bool.splits)
qed

lemma visit_header_frames:
  "visit_all (\<lambda>ty _ _. let found = header_frame ty in (\<not> found, found)) fs found =
     (\<not> (\<exists>f \<in> set fs. header_frame (f ! 3)), if fs = [] then found else \<exists>f \<in> set fs. header_frame (f ! 3))"
  by (induction fs arbitrary: found) (auto simp: Let_def split: bool.split)

lemma visit_data_frames:
  "visit_all (\<lambda>ty len payload. (True, if ty = 0x0 then payload + len else payload)) fs n =
     (True, n + sum_list (map (\<lambda>f. length f - 9) (filter (\<lambda>f. f ! 3 = 0) fs)))"
  by (induction fs arbitrary: n) auto

text \<open>
  what the connection asks of a stream's queue is answered exactly, however its octets are cut into
  blocks: the payload counted for the send windows is that of the whole DATA frames in front of the
  first delimiter, and a queue is said to hold a header frame when one of its whole frames is a
  HEADERS, PUSH_PROMISE or CONTINUATION frame or when its last frame is cut short.
\<close>

theorem queued_frames_counted:
  "case whole_frames_of (leading_data blocks) of (fs, rest) \<Rightarrow>
     queued_data_payload blocks = sum_list (map (\<lambda>f. length f - 9) (filter (\<lambda>f. f ! 3 = 0) fs)) \<and>
     (holds_header_frame blocks \<longleftrightarrow> (\<exists>f. f \<in> set fs \<and> header_frame (f ! 3)) \<or> rest \<noteq> [])"
  by (auto simp: queued_data_payload_def holds_header_frame_def walk_whole_frames_eq visit_header_frames visit_data_frames
      split: prod.split)

end
